(* ===== verification/Elm_Prelude.thy ===== *)
theory Elm_Prelude
  imports Main "HOL-Library.Word" "HOL-Library.Multiset"
begin

text \<open>
  Shared vocabulary of the development.

  \<^item> The result type of fallible code. A C++ operation that runs into a failing
    \<^verbatim>\<open>ASSERT\<close>, dereferences a null pointer, indexes outside an array or throws
    is a value \<open>Inl\<close> of \<open>error\<close>; a normal return is \<open>Inr\<close>. The assertions of
    \<^verbatim>\<open>elm/assert.h\<close> are modelled as in the debug build (without
    \<^verbatim>\<open>NDEBUG\<close>), where a failing assertion crashes the program.
  \<^item> The comparator contract of \<^verbatim>\<open>elm/compare.h\<close>, a locale that every ordered
    container relies on, and the comparators the library itself provides.
  \<^item> Generic lemmas on lists, words and results that the components share.
\<close>

unbundle bit_operations_syntax

section \<open>Results\<close>

datatype error =
    Assertion_failed      \<comment> \<open>a failing \<open>ASSERT\<close> or \<open>ASSERTP\<close>\<close>
  | Null_dereference      \<comment> \<open>a member access through a null pointer\<close>
  | Out_of_bounds         \<comment> \<open>a raw array access outside the allocated block\<close>
  | Exception string      \<comment> \<open>a C++ \<open>throw\<close>\<close>
  | Out_of_fuel           \<comment> \<open>no C++ outcome: the step bound of the model was too small\<close>

type_synonym 'a res = "error + 'a"

definition bind_res :: "'a res \<Rightarrow> ('a \<Rightarrow> 'b res) \<Rightarrow> 'b res" where
  "bind_res r f = (case r of Inl e \<Rightarrow> Inl e | Inr x \<Rightarrow> f x)"

definition assert_res :: "bool \<Rightarrow> unit res" where
  "assert_res b = (if b then Inr () else Inl Assertion_failed)"

definition is_ok :: "'a res \<Rightarrow> bool" where
  "is_ok r = (case r of Inl _ \<Rightarrow> False | Inr _ \<Rightarrow> True)"

named_theorems res_simps "rewriting of results"

lemma bind_res_simps [simp, res_simps]:
  "bind_res (Inl e) f = Inl e"
  "bind_res (Inr x) f = f x"
  by (simp_all add: bind_res_def)

lemma bind_res_eq_Inr:
  "bind_res r f = Inr y \<longleftrightarrow> (\<exists>x. r = Inr x \<and> f x = Inr y)"
  by (cases r) simp_all

lemma bind_res_eq_Inl:
  "bind_res r f = Inl e \<longleftrightarrow> r = Inl e \<or> (\<exists>x. r = Inr x \<and> f x = Inl e)"
  by (cases r) simp_all

lemma bind_res_cong [fundef_cong]:
  "r = r' \<Longrightarrow> (\<And>x. r' = Inr x \<Longrightarrow> f x = f' x) \<Longrightarrow> bind_res r f = bind_res r' f'"
  by (cases r') simp_all

lemma assert_res_simps [simp, res_simps]:
  "assert_res True = Inr ()"
  "assert_res False = Inl Assertion_failed"
  by (simp_all add: assert_res_def)

lemma assert_res_eq_Inr [simp]: "assert_res b = Inr u \<longleftrightarrow> b"
  by (simp add: assert_res_def)

lemma is_ok_simps [simp]: "is_ok (Inr x)" "\<not> is_ok (Inl e)"
  by (simp_all add: is_ok_def)

lemma is_ok_iff: "is_ok r \<longleftrightarrow> (\<exists>x. r = Inr x)"
  by (cases r) simp_all


section \<open>Comparators\<close>

text \<open>
  \<^verbatim>\<open>Comparator<T>::compare\<close> returns 0 on equal values, 1 when the first is the greater
  and -1 otherwise; \<^verbatim>\<open>ReverseComparator\<close> negates the result of another comparator and
  \<^verbatim>\<open>AssocComparator\<close> compares pairs by their first component.
\<close>

definition Comparator_compare :: "'a::linorder \<Rightarrow> 'a \<Rightarrow> int" where
  "Comparator_compare v1 v2 = (if v1 = v2 then 0 else if v1 > v2 then 1 else -1)"

definition ReverseComparator_compare :: "('a \<Rightarrow> 'a \<Rightarrow> int) \<Rightarrow> 'a \<Rightarrow> 'a \<Rightarrow> int" where
  "ReverseComparator_compare c v1 v2 = - c v1 v2"

definition AssocComparator_compare :: "('k \<Rightarrow> 'k \<Rightarrow> int) \<Rightarrow> 'k \<times> 'v \<Rightarrow> 'k \<times> 'v \<Rightarrow> int" where
  "AssocComparator_compare c v1 v2 = c (fst v1) (fst v2)"

text \<open>
  What the ordered containers rely on: swapping the arguments flips the sign, and
  \<open>cmp x y \<le> 0\<close> is transitive. Only the sign of the result is ever looked at.
\<close>

locale comparator =
  fixes cmp :: "'k \<Rightarrow> 'k \<Rightarrow> int"
  assumes cmp_swap: "sgn (cmp y x) = - sgn (cmp x y)"
    and cmp_trans: "cmp x y \<le> 0 \<Longrightarrow> cmp y z \<le> 0 \<Longrightarrow> cmp x z \<le> 0"
begin

lemma cmp_refl [simp]: "cmp x x = 0"
proof -
  have "sgn (cmp x x) = - sgn (cmp x x)" by (rule cmp_swap)
  then show ?thesis by (simp add: sgn_if split: if_splits)
qed

lemma cmp_gt_iff: "0 < cmp x y \<longleftrightarrow> cmp y x < 0"
  using cmp_swap [of x y] by (auto simp: sgn_if split: if_splits)

lemma cmp_eq_sym: "cmp x y = 0 \<longleftrightarrow> cmp y x = 0"
  using cmp_swap [of x y] by (auto simp: sgn_if split: if_splits)

lemma cmp_le_iff: "cmp x y \<le> 0 \<longleftrightarrow> 0 \<le> cmp y x"
  using cmp_gt_iff [of x y] by linarith

lemma cmp_eq_trans: "cmp x y = 0 \<Longrightarrow> cmp y z = 0 \<Longrightarrow> cmp x z = 0"
proof -
  assume xy: "cmp x y = 0" and yz: "cmp y z = 0"
  then have "cmp x z \<le> 0" using cmp_trans [of x y z] by simp
  moreover have "cmp z x \<le> 0"
    using xy yz cmp_trans [of z y x] cmp_eq_sym [of x y] cmp_eq_sym [of y z] by simp
  ultimately show "cmp x z = 0" using cmp_gt_iff [of z x] by linarith
qed

lemma cmp_less_le_trans: "cmp x y < 0 \<Longrightarrow> cmp y z \<le> 0 \<Longrightarrow> cmp x z < 0"
  using cmp_trans [of y z x] cmp_gt_iff [of y x] cmp_gt_iff [of z x] by linarith

lemma cmp_le_less_trans: "cmp x y \<le> 0 \<Longrightarrow> cmp y z < 0 \<Longrightarrow> cmp x z < 0"
  using cmp_trans [of z x y] cmp_gt_iff [of z y] cmp_gt_iff [of z x] by linarith

lemma cmp_less_trans: "cmp x y < 0 \<Longrightarrow> cmp y z < 0 \<Longrightarrow> cmp x z < 0"
  using cmp_less_le_trans [of x y z] by simp

lemma cmp_less_not_eq: "cmp x y < 0 \<Longrightarrow> cmp y x \<noteq> 0"
  using cmp_eq_sym [of x y] by linarith

lemma reverse_comparator: "comparator (ReverseComparator_compare cmp)"
proof
  fix x y z
  show "sgn (ReverseComparator_compare cmp y x) = - sgn (ReverseComparator_compare cmp x y)"
    using cmp_swap [of y x] by (simp add: ReverseComparator_compare_def)
  assume "ReverseComparator_compare cmp x y \<le> 0" "ReverseComparator_compare cmp y z \<le> 0"
  then show "ReverseComparator_compare cmp x z \<le> 0"
    using cmp_trans [of z y x] by (simp add: ReverseComparator_compare_def cmp_le_iff)
qed

lemma assoc_comparator: "comparator (AssocComparator_compare cmp)"
  by unfold_locales (auto simp: AssocComparator_compare_def intro: cmp_swap cmp_trans)

end

interpretation std_cmp: comparator "Comparator_compare :: 'a::linorder \<Rightarrow> 'a \<Rightarrow> int"
  by unfold_locales (auto simp: Comparator_compare_def split: if_splits)

lemma Comparator_compare_simps [simp]:
  "Comparator_compare x y = 0 \<longleftrightarrow> x = y"
  "Comparator_compare x y < 0 \<longleftrightarrow> x < y"
  "0 < Comparator_compare x y \<longleftrightarrow> y < x"
  "Comparator_compare x y \<le> 0 \<longleftrightarrow> x \<le> y"
  by (auto simp: Comparator_compare_def)

lemma comparator_Comparator_compare: "comparator (Comparator_compare :: 'a::linorder \<Rightarrow> 'a \<Rightarrow> int)"
  by unfold_locales


section \<open>Options and lists\<close>

lemma option_eqI: "(\<And>y. a = Some y \<longleftrightarrow> b = Some y) \<Longrightarrow> a = b"
  by (cases a; cases b) auto

lemma list_all_nth_iff: "list_all P xs \<longleftrightarrow> (\<forall>i < length xs. P (xs ! i))"
  by (simp add: list_all_length)

end
