(* ===== verification/Ordered_Store.thy ===== *)
theory Ordered_Store
  imports Elm_Prelude
begin

text \<open>
  Sorted lists of items with keys, the specification shared by the ordered containers (AVL
  trees, sorted lists and the sets and maps over them), and the contract \<open>ordered_store\<close>
  that a container gives to its clients.
\<close>

section \<open>Sorted item lists, the abstract specification\<close>

text \<open>
  What the ordered containers promise to their clients: they hold a list of items with strictly increasing keys;
  \<^verbatim>\<open>add\<close> inserts an item unless an item with an equivalent key is there already,
  \<^verbatim>\<open>removeByKey\<close> deletes the item with an equivalent key, \<^verbatim>\<open>find\<close> returns it.
\<close>

fun ins_item :: "('k \<Rightarrow> 'k \<Rightarrow> int) \<Rightarrow> ('a \<Rightarrow> 'k) \<Rightarrow> 'a \<Rightarrow> 'a list \<Rightarrow> 'a list" where
  "ins_item cmp key x [] = [x]"
| "ins_item cmp key x (y # ys) =
     (if cmp (key x) (key y) < 0 then x # y # ys
      else if cmp (key x) (key y) = 0 then y # ys
      else y # ins_item cmp key x ys)"

fun del_item :: "('k \<Rightarrow> 'k \<Rightarrow> int) \<Rightarrow> ('a \<Rightarrow> 'k) \<Rightarrow> 'k \<Rightarrow> 'a list \<Rightarrow> 'a list" where
  "del_item cmp key k [] = []"
| "del_item cmp key k (y # ys) = (if cmp k (key y) = 0 then ys else y # del_item cmp key k ys)"

definition find_item :: "('k \<Rightarrow> 'k \<Rightarrow> int) \<Rightarrow> ('a \<Rightarrow> 'k) \<Rightarrow> 'k \<Rightarrow> 'a list \<Rightarrow> 'a option" where
  "find_item cmp key k xs = List.find (\<lambda>y. cmp k (key y) = 0) xs"

abbreviation sorted_items :: "('k \<Rightarrow> 'k \<Rightarrow> int) \<Rightarrow> ('a \<Rightarrow> 'k) \<Rightarrow> 'a list \<Rightarrow> bool" where
  "sorted_items cmp key \<equiv> sorted_wrt (\<lambda>x y. cmp (key x) (key y) < 0)"

lemma find_item_append:
  "find_item cmp key k (xs @ ys) =
     (case find_item cmp key k xs of None \<Rightarrow> find_item cmp key k ys | Some x \<Rightarrow> Some x)"
  by (induction xs) (auto simp: find_item_def)

lemma find_item_simps [simp]:
  "find_item cmp key k [] = None"
  "find_item cmp key k (y # ys) = (if cmp k (key y) = 0 then Some y else find_item cmp key k ys)"
  by (simp_all add: find_item_def)

lemma find_item_None: "find_item cmp key k xs = None \<longleftrightarrow> (\<forall>y \<in> set xs. cmp k (key y) \<noteq> 0)"
  by (auto simp: find_item_def find_None_iff)

context comparator
begin

lemma ins_item_split:
  assumes "\<forall>y \<in> set xs. cmp (key y) (key x) < 0" "\<forall>y \<in> set ys. cmp (key x) (key y) < 0"
  shows "ins_item cmp key x (xs @ ys) = xs @ x # ys"
  using assms(1)
proof (induction xs)
  case Nil
  then show ?case using assms(2) by (cases ys) auto
next
  case (Cons a xs)
  then have "0 < cmp (key x) (key a)" by (simp add: cmp_gt_iff)
  with Cons show ?case by auto
qed

lemma ins_item_present:
  assumes "\<forall>y \<in> set xs. cmp (key y) (key x) < 0" "cmp (key x) (key z) = 0"
  shows "ins_item cmp key x (xs @ z # ys) = xs @ z # ys"
  using assms
proof (induction xs)
  case (Cons a xs)
  then have "0 < cmp (key x) (key a)" by (simp add: cmp_gt_iff)
  with Cons show ?case by auto
qed simp

lemma del_item_split:
  assumes "\<forall>y \<in> set xs. cmp (key y) k < 0" "cmp k (key z) = 0"
  shows "del_item cmp key k (xs @ z # ys) = xs @ ys"
  using assms
proof (induction xs)
  case (Cons a xs)
  then have "cmp k (key a) \<noteq> 0" using cmp_less_not_eq by simp
  with Cons show ?case by simp
qed simp

lemma del_item_absent: "\<forall>y \<in> set xs. cmp k (key y) \<noteq> 0 \<Longrightarrow> del_item cmp key k xs = xs"
  by (induction xs) auto

lemma set_del_item_subset: "set (del_item cmp key k xs) \<subseteq> set xs"
  by (induction xs) auto

lemma sorted_del_item: "sorted_items cmp key xs \<Longrightarrow> sorted_items cmp key (del_item cmp key k xs)"
  using set_del_item_subset by (induction xs) fastforce+

lemma set_ins_item_subset: "set (ins_item cmp key x xs) \<subseteq> insert x (set xs)"
  by (induction xs) auto

lemma sorted_ins_item: "sorted_items cmp key xs \<Longrightarrow> sorted_items cmp key (ins_item cmp key x xs)"
proof (induction xs)
  case (Cons y ys)
  show ?case
  proof (cases "cmp (key x) (key y) < 0")
    case True
    with Cons.prems show ?thesis using cmp_less_trans by auto
  next
    case False
    have "cmp (key y) (key x) < 0" if "cmp (key x) (key y) \<noteq> 0"
      using that False cmp_gt_iff [of "key x" "key y"] by simp
    with Cons False show ?thesis using set_ins_item_subset [of key x ys] by auto
  qed
qed simp

lemma set_ins_item:
  "sorted_items cmp key xs \<Longrightarrow>
   set (ins_item cmp key x xs) = (if \<exists>y \<in> set xs. cmp (key x) (key y) = 0 then set xs else insert x (set xs))"
proof (induction xs)
  case (Cons y ys)
  show ?case
  proof (cases "cmp (key x) (key y) < 0")
    case True
    with Cons.prems have "\<forall>z \<in> set (y # ys). cmp (key x) (key z) < 0"
      using cmp_less_trans by auto
    with True show ?thesis by force
  next
    case False
    with Cons show ?thesis by auto
  qed
qed simp

lemma set_del_item:
  "sorted_items cmp key xs \<Longrightarrow> set (del_item cmp key k xs) = {y \<in> set xs. cmp k (key y) \<noteq> 0}"
proof (induction xs)
  case (Cons y ys)
  show ?case
  proof (cases "cmp k (key y) = 0")
    case True
    have "cmp k (key z) \<noteq> 0" if "z \<in> set ys" for z
    proof -
      from that Cons.prems have "cmp (key y) (key z) < 0" by simp
      with True show ?thesis using cmp_le_less_trans [of k "key y" "key z"] by simp
    qed
    with True show ?thesis by auto
  next
    case False
    with Cons show ?thesis by auto
  qed
qed simp

end

lemma length_ins_item: "length (ins_item cmp key x xs) \<le> Suc (length xs)"
  by (induction xs) auto

lemma length_del_item: "length (del_item cmp key k xs) \<le> length xs"
  by (induction xs) auto

definition has :: "('k \<Rightarrow> 'k \<Rightarrow> int) \<Rightarrow> ('a \<Rightarrow> 'k) \<Rightarrow> 'k \<Rightarrow> 'a list \<Rightarrow> bool" where
  "has cmp key k xs \<longleftrightarrow> (\<exists>y \<in> set xs. cmp k (key y) = 0)"

lemma has_simps [simp]:
  "has cmp key k [] = False"
  "has cmp key k (x # xs) = (cmp k (key x) = 0 \<or> has cmp key k xs)"
  by (auto simp: has_def)

context comparator
begin

lemma find_item_Some_iff:
  "sorted_items cmp key xs \<Longrightarrow> find_item cmp key k xs = Some y \<longleftrightarrow> y \<in> set xs \<and> cmp k (key y) = 0"
proof (induction xs)
  case (Cons a xs)
  have False if "cmp k (key a) = 0" "y \<in> set xs" "cmp k (key y) = 0"
  proof -
    have "cmp (key a) (key y) < 0" using Cons.prems that by simp
    with that show False using cmp_le_less_trans [of k "key a" "key y"] by simp
  qed
  with Cons show ?case by auto
qed simp

lemma find_item_del:
  assumes "sorted_items cmp key xs"
  shows "find_item cmp key j (del_item cmp key k xs) = (if cmp j k = 0 then None else find_item cmp key j xs)"
proof (rule option_eqI)
  fix y
  show "find_item cmp key j (del_item cmp key k xs) = Some y \<longleftrightarrow>
      (if cmp j k = 0 then None else find_item cmp key j xs) = Some y"
    using find_item_Some_iff [OF sorted_del_item [OF assms], of j k y] find_item_Some_iff [OF assms, of j y]
      set_del_item [OF assms, of k] cmp_eq_trans [of j k "key y"] cmp_eq_trans [of k j "key y"] cmp_eq_sym [of j k]
      cmp_eq_trans [of j "key y" k] cmp_eq_sym [of k "key y"]
    by auto
qed

lemma has_cong: "cmp j k = 0 \<Longrightarrow> has cmp key j xs = has cmp key k xs"
  unfolding has_def using cmp_eq_trans cmp_eq_sym by meson

end

text \<open>Inclusion of sorted lists, running over both in parallel.\<close>

fun sub_items :: "('k \<Rightarrow> 'k \<Rightarrow> int) \<Rightarrow> 'k list \<Rightarrow> 'k list \<Rightarrow> bool" where
  "sub_items cmp (a # as) (b # bs) =
     (if cmp a b = 0 then sub_items cmp as bs
      else if cmp a b < 0 then False
      else sub_items cmp (a # as) bs)"
| "sub_items cmp as bs = (as = [])"

context comparator
begin

lemma has_above: "\<forall>y \<in> set xs. cmp a (key y) < 0 \<Longrightarrow> has cmp key k xs \<Longrightarrow> cmp a k < 0"
  unfolding has_def using cmp_less_le_trans [of a _ k] cmp_eq_sym by fastforce

lemma sub_items_ok:
  "sorted_items cmp id as \<Longrightarrow> sorted_items cmp id bs \<Longrightarrow>
   sub_items cmp as bs \<longleftrightarrow> (\<forall>k. has cmp id k as \<longrightarrow> has cmp id k bs)"
proof (induction as arbitrary: bs)
  case (Cons a as)
  have above: "cmp a k < 0" if "has cmp id k as" for k
    using has_above [of as a id k] Cons.prems(1) that by simp
  note outer = Cons.IH and as = Cons.prems(1)
  from Cons.prems(2) show ?case
  proof (induction bs)
    case Nil
    have "has cmp id a (a # as)" by simp
    then show ?case by (metis has_simps(1) list.discI sub_items.simps(3))
  next
    case (Cons b bs)
    have above_b: "cmp b k < 0" if "has cmp id k bs" for k
      using has_above [of bs b id k] Cons.prems that by simp
    consider "cmp a b = 0" | "cmp a b < 0" | "0 < cmp a b" by linarith
    then show ?case
    proof cases
      case 1
      then have eq: "cmp k a = 0 \<longleftrightarrow> cmp k b = 0" for k
        using cmp_eq_trans [of k a b] cmp_eq_trans [of k b a] cmp_eq_sym [of a b] by blast
      have nb: "has cmp id k as \<Longrightarrow> cmp k b \<noteq> 0" for k
        using above [of k] eq [of k] cmp_less_not_eq by blast
      have "sub_items cmp (a # as) (b # bs) = sub_items cmp as bs" using 1 by simp
      also have "\<dots> \<longleftrightarrow> (\<forall>k. has cmp id k as \<longrightarrow> has cmp id k bs)"
        using outer [of bs] as Cons.prems by (simp add: id_def)
      also have "\<dots> \<longleftrightarrow> (\<forall>k. has cmp id k (a # as) \<longrightarrow> has cmp id k (b # bs))"
        using nb unfolding has_simps id_apply eq by (intro iff_allI) blast
      finally show ?thesis .
    next
      case 2
      then have "\<not> has cmp id a (b # bs)" using above_b [of a] cmp_gt_iff [of a b] cmp_gt_iff [of b a] by auto
      moreover have "has cmp id a (a # as)" by simp
      moreover have "\<not> sub_items cmp (a # as) (b # bs)" using 2 by simp
      ultimately show ?thesis by blast
    next
      case 3
      then have nb: "has cmp id k (a # as) \<Longrightarrow> cmp k b \<noteq> 0" for k
        using above [of k] cmp_le_less_trans [of k b a] cmp_gt_iff [of a b] cmp_less_not_eq [of a k]
          cmp_less_not_eq [of k a] cmp_eq_sym [of k a] cmp_gt_iff [of a k] by auto
      have hb: "has cmp id k (b # bs) \<longleftrightarrow> cmp k b = 0 \<or> has cmp id k bs" for k
        by (simp add: has_def)
      have "sub_items cmp (a # as) (b # bs) = sub_items cmp (a # as) bs" using 3 by simp
      also have "\<dots> \<longleftrightarrow> (\<forall>k. has cmp id k (a # as) \<longrightarrow> has cmp id k bs)"
        using Cons.IH Cons.prems by (simp add: id_def)
      also have "\<dots> \<longleftrightarrow> (\<forall>k. has cmp id k (a # as) \<longrightarrow> has cmp id k (b # bs))"
        using nb hb by blast
      finally show ?thesis .
    qed
  qed
qed simp

end

lemma sorted_wrt_less_distinct:
  "comparator cmp \<Longrightarrow> sorted_items cmp key xs \<Longrightarrow> distinct xs"
  by (induction xs) (auto, metis comparator.cmp_refl less_irrefl)


section \<open>The contract of an ordered store\<close>

text \<open>
  What the clients of an ordered container (sets, maps, queues) rely on. \<open>fits\<close> says with how
  many items the container can still be updated: a tree of too many items overflows its
  traversal stack, a list has no limit.
\<close>

locale ordered_store = comparator cmp for cmp :: "'k \<Rightarrow> 'k \<Rightarrow> int" +
  fixes key :: "'a \<Rightarrow> 'k"
    and inv :: "'t \<Rightarrow> bool"
    and contents :: "'t \<Rightarrow> 'a list"
    and fits :: "nat \<Rightarrow> bool"
    and add :: "'a \<Rightarrow> 't \<Rightarrow> 't res"
    and del :: "'k \<Rightarrow> 't \<Rightarrow> 't res"
    and get :: "'k \<Rightarrow> 't \<Rightarrow> 'a option"
  assumes sorted_contents: "inv t \<Longrightarrow> sorted_items cmp key (contents t)"
    and add_law: "inv t \<Longrightarrow> fits (length (contents t)) \<Longrightarrow>
      \<exists>t'. add x t = Inr t' \<and> inv t' \<and> contents t' = ins_item cmp key x (contents t)"
    and del_law: "inv t \<Longrightarrow> fits (length (contents t)) \<Longrightarrow>
      \<exists>t'. del k t = Inr t' \<and> inv t' \<and> contents t' = del_item cmp key k (contents t)"
    and get_law: "inv t \<Longrightarrow> get k t = find_item cmp key k (contents t)"
begin

lemma get_member: "inv t \<Longrightarrow> get k t = Some y \<longleftrightarrow> y \<in> set (contents t) \<and> cmp k (key y) = 0"
proof -
  assume t: "inv t"
  with find_item_Some_iff [OF sorted_contents, of t k y] show ?thesis by (simp add: get_law)
qed

lemma get_None: "inv t \<Longrightarrow> get k t = None \<longleftrightarrow> (\<forall>y \<in> set (contents t). cmp k (key y) \<noteq> 0)"
  by (simp add: get_law find_item_None)

text \<open>Lookup after insertion: an item already there under an equivalent key wins.\<close>

lemma get_add:
  assumes t: "inv t" "fits (length (contents t))"
  shows "\<exists>t'. add x t = Inr t' \<and> inv t' \<and>
    get k t' = (if cmp k (key x) = 0 \<and> get (key x) t = None then Some x else get k t)"
proof -
  obtain t' where t': "add x t = Inr t'" "inv t'" "contents t' = ins_item cmp key x (contents t)"
    using add_law [OF t] by blast
  have set: "set (contents t') = (if get (key x) t = None then insert x (set (contents t)) else set (contents t))"
    using set_ins_item [OF sorted_contents [OF t(1)], of x] get_None [OF t(1), of "key x"] t'(3) by auto
  have "get k t' = (if cmp k (key x) = 0 \<and> get (key x) t = None then Some x else get k t)"
  proof (cases "cmp k (key x) = 0 \<and> get (key x) t = None")
    case True
    then show ?thesis using get_member [OF t'(2), of k x] set by simp
  next
    case False
    have "get k t' = get k t"
    proof (rule option_eqI)
      fix y
      show "get k t' = Some y \<longleftrightarrow> get k t = Some y"
        using False set get_member [OF t'(2), of k y] get_member [OF t(1), of k y] by auto
    qed
    then show ?thesis by (simp only: if_not_P [OF False])
  qed
  with t' show ?thesis by blast
qed

lemma get_del:
  assumes t: "inv t" "fits (length (contents t))"
  shows "\<exists>t'. del k t = Inr t' \<and> inv t' \<and> get j t' = (if cmp j k = 0 then None else get j t)"
proof -
  obtain t' where t': "del k t = Inr t'" "inv t'" "contents t' = del_item cmp key k (contents t)"
    using del_law [OF t] by blast
  have set: "set (contents t') = {y \<in> set (contents t). cmp k (key y) \<noteq> 0}"
    using set_del_item [OF sorted_contents [OF t(1)]] t'(3) by simp
  have "get j t' = Some y \<longleftrightarrow> cmp j k \<noteq> 0 \<and> get j t = Some y" for y
    using get_member [OF t'(2), of j y] get_member [OF t(1), of j y] set
      cmp_eq_trans [of j k "key y"] cmp_eq_trans [of j "key y" k] cmp_eq_trans [of k j "key y"]
      cmp_eq_sym [of k "key y"] cmp_eq_sym [of j k] by auto
  then have "get j t' = (if cmp j k = 0 then None else get j t)"
    by (intro option_eqI) auto
  with t' show ?thesis by blast
qed

end


section \<open>The contract of a map\<close>

text \<open>
  Maps with keys compared by an equivalence. Two maps of the library give this contract, the
  sorted list map and the hash map; \<^verbatim>\<open>avl::Map\<close> does not, since it keeps the old
  value of a key that is put again.
\<close>

datatype ('k, 'v) map_op = Put_key 'k 'v | Remove_key 'k

fun map_run ::
    "('k \<Rightarrow> 'v \<Rightarrow> 'm \<Rightarrow> 'm res) \<Rightarrow> ('k \<Rightarrow> 'm \<Rightarrow> 'm res) \<Rightarrow> ('k, 'v) map_op list \<Rightarrow> 'm \<Rightarrow> 'm res" where
  "map_run put remove [] m = Inr m"
| "map_run put remove (Put_key k v # ops) m = bind_res (put k v m) (map_run put remove ops)"
| "map_run put remove (Remove_key k # ops) m = bind_res (remove k m) (map_run put remove ops)"

fun map_spec :: "('k \<Rightarrow> 'k \<Rightarrow> bool) \<Rightarrow> ('k, 'v) map_op list \<Rightarrow> ('k \<Rightarrow> 'v option) \<Rightarrow> 'k \<Rightarrow> 'v option" where
  "map_spec eqk [] f = f"
| "map_spec eqk (Put_key k v # ops) f = map_spec eqk ops (\<lambda>j. if eqk j k then Some v else f j)"
| "map_spec eqk (Remove_key k # ops) f = map_spec eqk ops (\<lambda>j. if eqk j k then None else f j)"

locale key_map =
  fixes eqk :: "'k \<Rightarrow> 'k \<Rightarrow> bool"
    and inv :: "'m \<Rightarrow> bool"
    and get :: "'k \<Rightarrow> 'm \<Rightarrow> 'v option"
    and put :: "'k \<Rightarrow> 'v \<Rightarrow> 'm \<Rightarrow> 'm res"
    and remove :: "'k \<Rightarrow> 'm \<Rightarrow> 'm res"
  assumes put_law: "inv m \<Longrightarrow>
      \<exists>m'. put k v m = Inr m' \<and> inv m' \<and> (\<forall>j. get j m' = (if eqk j k then Some v else get j m))"
    and remove_law: "inv m \<Longrightarrow>
      \<exists>m'. remove k m = Inr m' \<and> inv m' \<and> (\<forall>j. get j m' = (if eqk j k then None else get j m))"
begin

lemma run_refines:
  "inv m \<Longrightarrow>
   \<exists>m'. map_run put remove ops m = Inr m' \<and> inv m' \<and> (\<forall>j. get j m' = map_spec eqk ops (\<lambda>j. get j m) j)"
proof (induction ops arbitrary: m)
  case (Cons p ops)
  show ?case
  proof (cases p)
    case (Put_key k v)
    obtain m1 where m1: "put k v m = Inr m1" "inv m1" "\<forall>j. get j m1 = (if eqk j k then Some v else get j m)"
      using put_law [OF Cons.prems] by blast
    then have "(\<lambda>j. get j m1) = (\<lambda>j. if eqk j k then Some v else get j m)" by auto
    with Cons.IH [OF m1(2)] m1(1) Put_key show ?thesis by simp
  next
    case (Remove_key k)
    obtain m1 where m1: "remove k m = Inr m1" "inv m1" "\<forall>j. get j m1 = (if eqk j k then None else get j m)"
      using remove_law [OF Cons.prems] by blast
    then have "(\<lambda>j. get j m1) = (\<lambda>j. if eqk j k then None else get j m)" by auto
    with Cons.IH [OF m1(2)] m1(1) Remove_key show ?thesis by simp
  qed
qed simp

end

end
