(* ===== verification/Avl_Tree.thy ===== *)
theory Avl_Tree
  imports Ordered_Store
begin

text \<open>
  The AVL trees of \<^verbatim>\<open>include/elm/avl/GenTree.h\<close> and \<^verbatim>\<open>src/avl_GenTree.cpp\<close>:
  the untyped \<^verbatim>\<open>AbstractTree\<close> (rotations, insertion and removal driven by an explicit
  stack of at most \<^verbatim>\<open>MAX_HEIGHT\<close> entries) and the typed \<^verbatim>\<open>GenTree\<close> (lookup,
  add, remove, iteration).

  Every node of a tree has one parent link, so a \<^verbatim>\<open>Node *\<close> that is only reached
  through the tree is the value of the subtree below it. The traversal stack of the code
  holds pairs of a node and the direction taken below it; the child in that direction is the
  one the code reaches through \<^verbatim>\<open>link(s)\<close>. A traversal state is therefore a pair
  \<open>(s, c)\<close>: the stack, top first, and the value \<open>c\<close> stored in \<open>*link(s)\<close>. The child of a stacked
  node in its direction is stale in the stack and always replaced by \<open>plug\<close> before the node
  is looked at.
\<close>

section \<open>Nodes, directions, stacks\<close>

datatype 'a node = Null | Node (n_left: "'a node") (n_data: 'a) (n_bal: int) (n_right: "'a node")

datatype dir_t = LEFT | NONE | RIGHT

type_synonym 'a stack = "('a node \<times> dir_t) list"

record 'a tree =
  root :: "'a node"
  cnt :: int

definition MAX_HEIGHT :: nat where
  "MAX_HEIGHT = 32"

definition new_Node :: "'a \<Rightarrow> 'a node" where
  "new_Node item = Node Null item 0 Null"

definition GenTree_new :: "'a tree" where
  "GenTree_new = \<lparr>root = Null, cnt = 0\<rparr>"

definition Stack_push :: "'a node \<Rightarrow> dir_t \<Rightarrow> 'a stack \<Rightarrow> 'a stack res" where
  "Stack_push n d s = (if length s \<noteq> MAX_HEIGHT then Inr ((n, d) # s) else Inl Assertion_failed)"

text \<open>Writing \<open>c\<close> through the link that a stack entry designates.\<close>

fun plug :: "'a node \<times> dir_t \<Rightarrow> 'a node \<Rightarrow> 'a node" where
  "plug (Null, d) c = Null"
| "plug (Node l x b r, LEFT) c = Node c x b r"
| "plug (Node l x b r, NONE) c = Node l x b r"
| "plug (Node l x b r, RIGHT) c = Node l x b c"

text \<open>The tree seen from \<^verbatim>\<open>_root\<close> when \<open>c\<close> is stored at \<open>*link(s)\<close>.\<close>

fun root_of :: "'a stack \<Rightarrow> 'a node \<Rightarrow> 'a node" where
  "root_of [] c = c"
| "root_of (e # s) c = root_of s (plug e c)"

fun add_bal :: "int \<Rightarrow> 'a node \<Rightarrow> 'a node" where
  "add_bal i Null = Null"
| "add_bal i (Node l x b r) = Node l x (b + i) r"

fun set_data :: "'a \<Rightarrow> 'a node \<Rightarrow> 'a node" where
  "set_data y Null = Null"
| "set_data y (Node l x b r) = Node l y b r"


section \<open>AbstractTree: rotations\<close>

text \<open>
  \<^verbatim>\<open>rotateRight\<close> and \<^verbatim>\<open>rotateLeft\<close> pop the top node \<open>r\<close>, take its left
  (right) child \<open>nr\<close>, relink, and recompute the two balance factors.
\<close>

fun rot_right :: "'a node \<Rightarrow> 'a node res" where
  "rot_right (Node (Node a y nb b) x rb d) =
     (let rb' = rb + 1 - min nb 0;
          nb' = nb + 1 + max rb' 0
      in Inr (Node a y nb' (Node b x rb' d)))"
| "rot_right _ = Inl Null_dereference"

fun rot_left :: "'a node \<Rightarrow> 'a node res" where
  "rot_left (Node a x rb (Node b y nb d)) =
     (let rb' = rb - 1 - max nb 0;
          nb' = nb - 1 + min rb' 0
      in Inr (Node (Node a x rb' b) y nb' d))"
| "rot_left _ = Inl Null_dereference"

fun rotateRight :: "'a stack \<Rightarrow> 'a node \<Rightarrow> ('a stack \<times> 'a node) res" where
  "rotateRight [] c = Inl Out_of_bounds"
| "rotateRight (e # s) c = bind_res (rot_right (plug e c)) (\<lambda>nr. Inr (s, nr))"

fun rotateLeft :: "'a stack \<Rightarrow> 'a node \<Rightarrow> ('a stack \<times> 'a node) res" where
  "rotateLeft [] c = Inl Out_of_bounds"
| "rotateLeft (e # s) c = bind_res (rot_left (plug e c)) (\<lambda>nr. Inr (s, nr))"


section \<open>AbstractTree: insertion\<close>

text \<open>
  The rebalancing loop of \<^verbatim>\<open>AbstractTree::insert\<close>; it returns the new value of
  \<^verbatim>\<open>_root\<close>. The two rotation branches are entered with the direction of the higher
  side on top of the stack, so the stack is \<open>(n, LEFT) # s\<close> (\<open>(n, RIGHT) # s\<close>) there.
\<close>

definition fix_left_high :: "'a node \<Rightarrow> 'a stack \<Rightarrow> ('a stack \<times> 'a node) res" where
  "fix_left_high n s =
     (case n_left n of
        Null \<Rightarrow> Inl Null_dereference
      | Node l x b r \<Rightarrow>
          bind_res
            (if b > 0
             then bind_res (Stack_push (n_left n) LEFT ((n, LEFT) # s)) (\<lambda>s1. rotateLeft s1 l)
             else Inr ((n, LEFT) # s, n_left n))
            (\<lambda>(s2, c2). rotateRight s2 c2))"

definition fix_right_high :: "'a node \<Rightarrow> 'a stack \<Rightarrow> ('a stack \<times> 'a node) res" where
  "fix_right_high n s =
     (case n_right n of
        Null \<Rightarrow> Inl Null_dereference
      | Node l x b r \<Rightarrow>
          bind_res
            (if b < 0
             then bind_res (Stack_push (n_right n) RIGHT ((n, RIGHT) # s)) (\<lambda>s1. rotateRight s1 r)
             else Inr ((n, RIGHT) # s, n_right n))
            (\<lambda>(s2, c2). rotateLeft s2 c2))"

fun insert_loop :: "'a stack \<Rightarrow> 'a node \<Rightarrow> 'a node res" where
  "insert_loop [] c = Inr c"
| "insert_loop ((n, d) # s) c =
     (let n' = add_bal (if d = LEFT then -1 else 1) (plug (n, d) c)
      in if n_bal n' = 0 then Inr (root_of s n')
         else if n_bal n' < -1
           then bind_res (fix_left_high n' s) (\<lambda>(s', c'). Inr (root_of s' c'))
         else if 1 < n_bal n'
           then bind_res (fix_right_high n' s) (\<lambda>(s', c'). Inr (root_of s' c'))
         else insert_loop s n')"

definition AbstractTree_insert :: "'a stack \<Rightarrow> 'a node \<Rightarrow> 'a tree \<Rightarrow> 'a tree res" where
  "AbstractTree_insert s n t =
     (let t1 = t\<lparr>cnt := cnt t + 1\<rparr>
      in if root t1 = Null then Inr (t1\<lparr>root := n\<rparr>)
         else bind_res (insert_loop s n) (\<lambda>r. Inr (t1\<lparr>root := r\<rparr>)))"


section \<open>AbstractTree: removal\<close>

lemma rotateRight_stack: "rotateRight (e # s) c = Inr (s', c') \<Longrightarrow> s' = s"
  by (auto simp: bind_res_eq_Inr)

lemma rotateLeft_stack: "rotateLeft (e # s) c = Inr (s', c') \<Longrightarrow> s' = s"
  by (auto simp: bind_res_eq_Inr)

lemma Stack_push_Inr: "Stack_push n d s = Inr s' \<Longrightarrow> s' = (n, d) # s"
  by (simp add: Stack_push_def split: if_splits)

text \<open>
  The propagation loop of \<^verbatim>\<open>AbstractTree::remove\<close>: the side given by the direction on
  top of the stack got lower by one. The double rotations push the node again with the other
  direction, then its child with direction \<^verbatim>\<open>NONE\<close>.
\<close>

function remove_loop :: "'a stack \<Rightarrow> 'a node \<Rightarrow> 'a node res" where
  "remove_loop [] c = Inr c"
| "remove_loop ((n, d) # s) c =
     (if d = NONE then Inl Assertion_failed
      else if d = LEFT then
        (let p = add_bal 1 (plug (n, d) c)
         in if n_bal p = 0 then remove_loop s p
            else if n_bal p = 1 then Inr (root_of s p)
            else case n_right p of
                Null \<Rightarrow> Inl Null_dereference
              | Node rl rx rb rr \<Rightarrow>
                  if rb = 0 then
                    bind_res (rotateLeft ((p, LEFT) # s) c) (\<lambda>(s', c'). Inr (root_of s' c'))
                  else if rb = 1 then
                    bind_res (rotateLeft ((p, LEFT) # s) c) (\<lambda>(s', c'). remove_loop s' c')
                  else
                    bind_res (Stack_push p RIGHT s) (\<lambda>s1.
                    bind_res (Stack_push (n_right p) NONE s1) (\<lambda>s2.
                    bind_res (rotateRight s2 Null) (\<lambda>(s3, c3).
                    bind_res (rotateLeft s3 c3) (\<lambda>(s4, c4). remove_loop s4 c4)))))
      else
        (let p = add_bal (-1) (plug (n, d) c)
         in if n_bal p = 0 then remove_loop s p
            else if n_bal p = -1 then Inr (root_of s p)
            else case n_left p of
                Null \<Rightarrow> Inl Null_dereference
              | Node ll lx lb lr \<Rightarrow>
                  if lb = 0 then
                    bind_res (rotateRight ((p, RIGHT) # s) c) (\<lambda>(s', c'). Inr (root_of s' c'))
                  else if lb = -1 then
                    bind_res (rotateRight ((p, RIGHT) # s) c) (\<lambda>(s', c'). remove_loop s' c')
                  else
                    bind_res (Stack_push p LEFT s) (\<lambda>s1.
                    bind_res (Stack_push (n_left p) NONE s1) (\<lambda>s2.
                    bind_res (rotateLeft s2 Null) (\<lambda>(s3, c3).
                    bind_res (rotateRight s3 c3) (\<lambda>(s4, c4). remove_loop s4 c4))))))"
  by pat_completeness auto
termination
  by (relation "measure (\<lambda>(s, c). length s)")
    (auto dest!: Stack_push_Inr rotateLeft_stack rotateRight_stack
       simp del: rotateLeft.simps rotateRight.simps)

declare remove_loop.simps(2) [simp del]

definition AbstractTree_remove :: "'a stack \<Rightarrow> 'a node \<Rightarrow> 'a tree \<Rightarrow> 'a tree res" where
  "AbstractTree_remove s n t =
     bind_res (remove_loop s n) (\<lambda>r. Inr (t\<lparr>cnt := cnt t - 1, root := r\<rparr>))"

fun leftMost :: "'a stack \<Rightarrow> 'a node \<Rightarrow> ('a stack \<times> 'a node) res" where
  "leftMost s Null = Inl Null_dereference"
| "leftMost s (Node l x b r) =
     (if l = Null then Inr (s, Node l x b r)
      else bind_res (Stack_push (Node l x b r) LEFT s) (\<lambda>s'. leftMost s' l))"


section \<open>GenTree: lookup, add, remove\<close>

text \<open>
  The comparator \<open>cmp\<close> and the key function \<open>key\<close> are the template parameters
  \<^verbatim>\<open>C\<close> and \<^verbatim>\<open>K\<close> of \<^verbatim>\<open>GenTree\<close>.
\<close>

fun lookup :: "('k \<Rightarrow> 'k \<Rightarrow> int) \<Rightarrow> ('a \<Rightarrow> 'k) \<Rightarrow> 'k \<Rightarrow> 'a stack \<Rightarrow> 'a node \<Rightarrow> ('a stack \<times> 'a node) res" where
  "lookup cmp key k s Null = Inr (s, Null)"
| "lookup cmp key k s (Node l x b r) =
     (if cmp k (key x) = 0 then Inr (s, Node l x b r)
      else if cmp k (key x) < 0
        then bind_res (Stack_push (Node l x b r) LEFT s) (\<lambda>s'. lookup cmp key k s' l)
      else bind_res (Stack_push (Node l x b r) RIGHT s) (\<lambda>s'. lookup cmp key k s' r))"

fun find_node :: "('k \<Rightarrow> 'k \<Rightarrow> int) \<Rightarrow> ('a \<Rightarrow> 'k) \<Rightarrow> 'k \<Rightarrow> 'a node \<Rightarrow> 'a option" where
  "find_node cmp key k Null = None"
| "find_node cmp key k (Node l x b r) =
     (if cmp k (key x) < 0 then find_node cmp key k l
      else if cmp k (key x) > 0 then find_node cmp key k r
      else Some x)"

definition GenTree_get :: "('k \<Rightarrow> 'k \<Rightarrow> int) \<Rightarrow> ('a \<Rightarrow> 'k) \<Rightarrow> 'k \<Rightarrow> 'a tree \<Rightarrow> 'a option" where
  "GenTree_get cmp key k t = find_node cmp key k (root t)"

definition GenTree_contains :: "('k \<Rightarrow> 'k \<Rightarrow> int) \<Rightarrow> ('a \<Rightarrow> 'k) \<Rightarrow> 'k \<Rightarrow> 'a tree \<Rightarrow> bool" where
  "GenTree_contains cmp key k t = (find_node cmp key k (root t) \<noteq> None)"

definition GenTree_isEmpty :: "'a tree \<Rightarrow> bool" where
  "GenTree_isEmpty t = (cnt t = 0)"

definition GenTree_add :: "('k \<Rightarrow> 'k \<Rightarrow> int) \<Rightarrow> ('a \<Rightarrow> 'k) \<Rightarrow> 'a \<Rightarrow> 'a tree \<Rightarrow> 'a tree res" where
  "GenTree_add cmp key item t =
     bind_res (lookup cmp key (key item) [] (root t)) (\<lambda>(s, n).
       if n = Null then AbstractTree_insert s (new_Node item) t else Inr t)"

text \<open>
  In the middle case of \<^verbatim>\<open>GenTree::remove\<close> the node \<open>n\<close> is pushed, the leftmost node
  \<open>p\<close> of its right subtree is found, \<^verbatim>\<open>GenTree::exchange\<close> swaps the data of the
  two nodes, and \<open>p\<close> is unlinked. The entry of \<open>n\<close> is at index
  \<open>length s2 - length s1\<close> of the stack then.
\<close>

definition GenTree_remove_node :: "'a stack \<Rightarrow> 'a node \<Rightarrow> 'a tree \<Rightarrow> 'a tree res" where
  "GenTree_remove_node s n t =
     (if n = Null then Inl Null_dereference
      else if n_left n = Null then AbstractTree_remove s (n_right n) t
      else if n_right n = Null then AbstractTree_remove s (n_left n) t
      else
        bind_res (Stack_push n RIGHT s) (\<lambda>s1.
        bind_res (leftMost s1 (n_right n)) (\<lambda>(s2, p).
          let i = length s2 - length s1;
              (m, d) = s2 ! i
          in AbstractTree_remove (s2[i := (set_data (n_data p) m, d)]) (n_right p) t)))"

definition GenTree_removeByKey :: "('k \<Rightarrow> 'k \<Rightarrow> int) \<Rightarrow> ('a \<Rightarrow> 'k) \<Rightarrow> 'k \<Rightarrow> 'a tree \<Rightarrow> 'a tree res" where
  "GenTree_removeByKey cmp key k t =
     bind_res (lookup cmp key k [] (root t)) (\<lambda>(s, n).
       if n = Null then Inr t else GenTree_remove_node s n t)"

definition GenTree_remove :: "('k \<Rightarrow> 'k \<Rightarrow> int) \<Rightarrow> ('a \<Rightarrow> 'k) \<Rightarrow> 'a \<Rightarrow> 'a tree \<Rightarrow> 'a tree res" where
  "GenTree_remove cmp key x t = GenTree_removeByKey cmp key (key x) t"

fun GenTree_addAll :: "('k \<Rightarrow> 'k \<Rightarrow> int) \<Rightarrow> ('a \<Rightarrow> 'k) \<Rightarrow> 'a list \<Rightarrow> 'a tree \<Rightarrow> 'a tree res" where
  "GenTree_addAll cmp key [] t = Inr t"
| "GenTree_addAll cmp key (x # xs) t =
     bind_res (GenTree_add cmp key x t) (GenTree_addAll cmp key xs)"

fun GenTree_removeAll :: "('k \<Rightarrow> 'k \<Rightarrow> int) \<Rightarrow> ('a \<Rightarrow> 'k) \<Rightarrow> 'a list \<Rightarrow> 'a tree \<Rightarrow> 'a tree res" where
  "GenTree_removeAll cmp key [] t = Inr t"
| "GenTree_removeAll cmp key (x # xs) t =
     bind_res (GenTree_remove cmp key x t) (GenTree_removeAll cmp key xs)"


section \<open>GenTree: iteration, clear, equals\<close>

text \<open>
  The iterator holds a \<^verbatim>\<open>VisitStack\<close> of nodes. It compares node pointers; in a tree
  whose items have pairwise inequivalent keys two node values are equal exactly if the nodes
  are, so the model compares values. A loop over the iterator is \<open>Iter_collect\<close>, with a bound
  on the number of steps.
\<close>

definition VisitStack_push :: "'a node \<Rightarrow> 'a node list \<Rightarrow> 'a node list res" where
  "VisitStack_push n s = (if length s \<noteq> MAX_HEIGHT then Inr (n # s) else Inl Assertion_failed)"

fun Iter_spine :: "'a node \<Rightarrow> 'a node list \<Rightarrow> 'a node list res" where
  "Iter_spine Null s = (case s of [] \<Rightarrow> Inl Out_of_bounds | n # _ \<Rightarrow> VisitStack_push n s)"
| "Iter_spine (Node l x b r) s = bind_res (VisitStack_push (Node l x b r) s) (Iter_spine l)"

definition Iter_visit :: "'a node \<Rightarrow> 'a node list \<Rightarrow> 'a node list res" where
  "Iter_visit n s =
     (if n = Null then Inr s
      else bind_res (VisitStack_push n s) (Iter_spine (n_left n)))"

definition Iter_begin :: "'a tree \<Rightarrow> 'a node list res" where
  "Iter_begin t = (if root t \<noteq> Null then Iter_visit (root t) [] else Inr [])"

definition Iter_ended :: "'a node list \<Rightarrow> bool" where
  "Iter_ended s = (s = [])"

fun Iter_item :: "'a node list \<Rightarrow> 'a res" where
  "Iter_item (Node l x b r # s) = Inr x"
| "Iter_item (Null # s) = Inl Null_dereference"
| "Iter_item [] = Inl Out_of_bounds"

fun Iter_next :: "'a node list \<Rightarrow> 'a node list res" where
  "Iter_next [] = Inl Assertion_failed"
| "Iter_next [lst] = Inr []"
| "Iter_next (lst # tp # s) =
     (if tp = Null then Inl Null_dereference
      else if lst = n_left tp then VisitStack_push tp (tp # s)
      else if lst = tp \<and> n_right tp \<noteq> Null then Iter_visit (n_right tp) (tp # s)
      else Iter_next (tp # s))"

fun Iter_collect :: "nat \<Rightarrow> 'a node list \<Rightarrow> 'a list res" where
  "Iter_collect 0 s = (if Iter_ended s then Inr [] else Inl Out_of_fuel)"
| "Iter_collect (Suc m) s =
     (if Iter_ended s then Inr []
      else bind_res (Iter_item s) (\<lambda>x.
           bind_res (Iter_next s) (\<lambda>s'.
           bind_res (Iter_collect m s') (\<lambda>xs. Inr (x # xs)))))"

definition GenTree_iterate :: "'a tree \<Rightarrow> 'a list res" where
  "GenTree_iterate t = bind_res (Iter_begin t) (Iter_collect (nat (cnt t)))"

text \<open>\<^verbatim>\<open>GenTree::equals\<close> compares the keys of two iterations pairwise.\<close>

fun equals_loop :: "('k \<Rightarrow> 'k \<Rightarrow> int) \<Rightarrow> ('a \<Rightarrow> 'k) \<Rightarrow> 'a list \<Rightarrow> 'a list \<Rightarrow> bool" where
  "equals_loop cmp key (a # as) (b # bs) =
     (if \<not> (cmp (key a) (key b) = 0) then False else equals_loop cmp key as bs)"
| "equals_loop cmp key as bs = (as = [] \<and> bs = [])"

definition GenTree_equals :: "('k \<Rightarrow> 'k \<Rightarrow> int) \<Rightarrow> ('a \<Rightarrow> 'k) \<Rightarrow> 'a tree \<Rightarrow> 'a tree \<Rightarrow> bool res" where
  "GenTree_equals cmp key t u =
     bind_res (GenTree_iterate t) (\<lambda>as.
     bind_res (GenTree_iterate u) (\<lambda>bs. Inr (equals_loop cmp key as bs)))"

text \<open>
  \<^verbatim>\<open>GenTree::clear\<close> frees the nodes with an explicit stack; the model returns the items of
  the freed nodes in order, and the emptied tree. The number of nodes still to free decreases.
\<close>

function clear_loop :: "'a node list \<Rightarrow> 'a list res" where
  "clear_loop [] = Inr []"
| "clear_loop (n # s) =
     (case n of
        Null \<Rightarrow> Inl Null_dereference
      | Node l x b r \<Rightarrow>
          bind_res (if l \<noteq> Null then VisitStack_push l s else Inr s) (\<lambda>s1.
          bind_res (if r \<noteq> Null then VisitStack_push r s1 else Inr s1) (\<lambda>s2.
          bind_res (clear_loop s2) (\<lambda>xs. Inr (x # xs)))))"
  by pat_completeness auto
termination
proof (relation "measure (\<lambda>s. sum_list (map (\<lambda>n. 2 * size n) s) + length s)", goal_cases)
  case (2 n s l x b r s1 s2)
  then show ?case
    by (auto simp: VisitStack_push_def split: if_splits)
qed simp

definition GenTree_clear :: "'a tree \<Rightarrow> ('a list \<times> 'a tree) res" where
  "GenTree_clear t =
     bind_res (clear_loop (if root t \<noteq> Null then [root t] else [])) (\<lambda>freed.
       Inr (freed, t\<lparr>root := Null, cnt := 0\<rparr>))"


section \<open>Invariant\<close>

text \<open>
  The invariant stated in the comment of \<^verbatim>\<open>avl_GenTree.cpp\<close>: the balance factor of a
  node is the height of its right subtree less that of its left one and is in \<open>{-1, 0, 1}\<close>;
  the items are strictly increasing from left to right; and \<^verbatim>\<open>_cnt\<close> is their number.
\<close>

fun height :: "'a node \<Rightarrow> nat" where
  "height Null = 0"
| "height (Node l x b r) = Suc (max (height l) (height r))"

fun inorder :: "'a node \<Rightarrow> 'a list" where
  "inorder Null = []"
| "inorder (Node l x b r) = inorder l @ x # inorder r"

fun avl :: "'a node \<Rightarrow> bool" where
  "avl Null = True"
| "avl (Node l x b r) =
     (b = int (height r) - int (height l) \<and> -1 \<le> b \<and> b \<le> 1 \<and> avl l \<and> avl r)"

definition items :: "'a tree \<Rightarrow> 'a list" where
  "items t = inorder (root t)"

definition GenTree_inv :: "('k \<Rightarrow> 'k \<Rightarrow> int) \<Rightarrow> ('a \<Rightarrow> 'k) \<Rightarrow> 'a tree \<Rightarrow> bool" where
  "GenTree_inv cmp key t \<longleftrightarrow>
     avl (root t) \<and> sorted_wrt (\<lambda>x y. cmp (key x) (key y) < 0) (items t) \<and>
     cnt t = int (length (items t))"

text \<open>
  The same for a tree with a hole: \<open>ctx_ok s h\<close> holds if plugging a balanced tree of height
  \<open>h\<close> gives a balanced tree, whose height is then \<open>ctx_height s h\<close>; \<open>pre s\<close> and \<open>post s\<close>
  are the items left and right of the hole.
\<close>

fun ctx_ok :: "'a stack \<Rightarrow> nat \<Rightarrow> bool" where
  "ctx_ok [] h = True"
| "ctx_ok ((Node l x b r, LEFT) # s) h =
     (avl r \<and> b = int (height r) - int h \<and> -1 \<le> b \<and> b \<le> 1 \<and>
      ctx_ok s (Suc (max h (height r))))"
| "ctx_ok ((Node l x b r, RIGHT) # s) h =
     (avl l \<and> b = int h - int (height l) \<and> -1 \<le> b \<and> b \<le> 1 \<and>
      ctx_ok s (Suc (max (height l) h)))"
| "ctx_ok (_ # s) h = False"

fun ctx_height :: "'a stack \<Rightarrow> nat \<Rightarrow> nat" where
  "ctx_height [] h = h"
| "ctx_height ((Node l x b r, LEFT) # s) h = ctx_height s (Suc (max h (height r)))"
| "ctx_height ((Node l x b r, RIGHT) # s) h = ctx_height s (Suc (max (height l) h))"
| "ctx_height (_ # s) h = ctx_height s (Suc h)"

fun pre :: "'a stack \<Rightarrow> 'a list" where
  "pre ((Node l x b r, RIGHT) # s) = pre s @ inorder l @ [x]"
| "pre (_ # s) = pre s"
| "pre [] = []"

fun post :: "'a stack \<Rightarrow> 'a list" where
  "post ((Node l x b r, LEFT) # s) = x # inorder r @ post s"
| "post (_ # s) = post s"
| "post [] = []"

lemma height_0_iff [simp]: "height t = 0 \<longleftrightarrow> t = Null" "0 = height t \<longleftrightarrow> t = Null"
  by (cases t; simp)+

lemma length_le_ctx_height: "length s + h \<le> ctx_height s h"
  by (induction s h rule: ctx_height.induct) simp_all

lemma root_of_ok:
  "ctx_ok s (height c) \<Longrightarrow> avl c \<Longrightarrow>
     avl (root_of s c) \<and> inorder (root_of s c) = pre s @ inorder c @ post s \<and>
     height (root_of s c) = ctx_height s (height c)"
proof (induction s arbitrary: c)
  case Nil
  then show ?case by simp
next
  case (Cons e s)
  then obtain l x b r d where e: "e = (Node l x b r, d)"
    by (cases e; cases "fst e") auto
  with Cons show ?case by (cases d) auto
qed

lemma inorder_root_of: "ctx_ok s h \<Longrightarrow> inorder (root_of s c) = pre s @ inorder c @ post s"
proof (induction s arbitrary: c h)
  case Nil
  then show ?case by simp
next
  case (Cons e s)
  then obtain l x b r d where e: "e = (Node l x b r, d)"
    by (cases e; cases "fst e") auto
  with Cons show ?case by (cases d) auto
qed


section \<open>Insertion keeps the invariant\<close>

text \<open>
  Where the left subtree of \<open>n\<close> got one too high, the rotation restores a balanced tree of
  the height \<open>n\<close> had before, with the same items; symmetrically on the right.
\<close>

lemma fix_left_high_ok:
  assumes n: "n = Node l x (-2) r" and "avl l" "avl r" "height l = height r + 2" "n_bal l \<noteq> 0"
    and room: "length s + 1 < MAX_HEIGHT"
  shows "\<exists>c. fix_left_high n s = Inr (s, c) \<and> avl c \<and> height c = height l \<and>
    inorder c = inorder n"
proof -
  obtain a y b c where l: "l = Node a y b c" using assms(4) by (cases l) auto
  show ?thesis
  proof (cases "b > 0")
    case True
    then obtain d z e f where "c = Node d z e f" using assms l by (cases c) auto
    with True assms l show ?thesis
      by (auto simp: fix_left_high_def Stack_push_def Let_def max_def min_def split: if_splits)
  next
    case False
    with assms l show ?thesis
      by (auto simp: fix_left_high_def Let_def max_def min_def split: if_splits)
  qed
qed

lemma fix_right_high_ok:
  assumes n: "n = Node l x 2 r" and "avl l" "avl r" "height r = height l + 2" "n_bal r \<noteq> 0"
    and room: "length s + 1 < MAX_HEIGHT"
  shows "\<exists>c. fix_right_high n s = Inr (s, c) \<and> avl c \<and> height c = height r \<and>
    inorder c = inorder n"
proof -
  obtain a y b c where r: "r = Node a y b c" using assms(4) by (cases r) auto
  show ?thesis
  proof (cases "b < 0")
    case True
    then obtain d z e f where "a = Node d z e f" using assms r by (cases a) auto
    with True assms r show ?thesis
      by (auto simp: fix_right_high_def Stack_push_def Let_def max_def min_def split: if_splits)
  next
    case False
    with assms r show ?thesis
      by (auto simp: fix_right_high_def Let_def max_def min_def split: if_splits)
  qed
qed

definition insert_spec :: "'a stack \<Rightarrow> bool" where
  "insert_spec s \<longleftrightarrow> (\<forall>h c. ctx_ok s h \<longrightarrow> avl c \<longrightarrow> height c = Suc h \<longrightarrow>
     (h = 0 \<or> n_bal c \<noteq> 0) \<longrightarrow> ctx_height s h \<le> MAX_HEIGHT \<longrightarrow>
     (\<exists>t. insert_loop s c = Inr t \<and> avl t \<and> inorder t = pre s @ inorder c @ post s))"

lemma insert_specD:
  "insert_spec s \<Longrightarrow> ctx_ok s h \<Longrightarrow> avl c \<Longrightarrow> height c = Suc h \<Longrightarrow> h = 0 \<or> n_bal c \<noteq> 0 \<Longrightarrow>
   ctx_height s h \<le> MAX_HEIGHT \<Longrightarrow>
   \<exists>t. insert_loop s c = Inr t \<and> avl t \<and> inorder t = pre s @ inorder c @ post s"
  unfolding insert_spec_def by blast

lemma ctx_room: "ctx_height (e # s) h \<le> m \<Longrightarrow> h \<noteq> 0 \<Longrightarrow> length s + 1 < m"
  using length_le_ctx_height [of "e # s" h] by simp

lemma insert_spec_left:
  assumes "insert_spec (s :: 'a stack)"
  shows "insert_spec ((Node l x b r, LEFT) # s)"
  unfolding insert_spec_def
proof (intro allI impI)
  fix h and c :: "'a node"
  assume ctx: "ctx_ok ((Node l x b r, LEFT) # s) h" and c: "avl c" "height c = Suc h"
    and nb: "h = 0 \<or> n_bal c \<noteq> 0" and m: "ctx_height ((Node l x b r, LEFT) # s) h \<le> MAX_HEIGHT"
  let ?n = "Node c x (b - 1) r"
  from ctx have b: "b = int (height r) - int h" "-1 \<le> b" "b \<le> 1"
    and r: "avl r" and s: "ctx_ok s (Suc (max h (height r)))" by auto
  consider "b = 1" "Suc h = height r" | "b = 0" "h = height r" | "b = -1" "h = Suc (height r)"
    using b by linarith
  then show "\<exists>t. insert_loop ((Node l x b r, LEFT) # s) c = Inr t \<and> avl t \<and>
    inorder t = pre ((Node l x b r, LEFT) # s) @ inorder c @ post ((Node l x b r, LEFT) # s)"
  proof cases
    case 1
    with c m r s root_of_ok [of s ?n] show ?thesis by simp
  next
    case 2
    with c m r s insert_specD [OF assms, of "Suc h" ?n] show ?thesis by simp
  next
    case 3
    then obtain c' where "fix_left_high ?n s = Inr (s, c')" "avl c'" "height c' = Suc h"
      "inorder c' = inorder c @ x # inorder r"
      using fix_left_high_ok [of ?n c x r s] c nb r ctx_room [OF m] by auto
    with 3 s root_of_ok [of s c'] show ?thesis by simp
  qed
qed

lemma insert_spec_right:
  assumes "insert_spec (s :: 'a stack)"
  shows "insert_spec ((Node l x b r, RIGHT) # s)"
  unfolding insert_spec_def
proof (intro allI impI)
  fix h and c :: "'a node"
  assume ctx: "ctx_ok ((Node l x b r, RIGHT) # s) h" and c: "avl c" "height c = Suc h"
    and nb: "h = 0 \<or> n_bal c \<noteq> 0" and m: "ctx_height ((Node l x b r, RIGHT) # s) h \<le> MAX_HEIGHT"
  let ?n = "Node l x (b + 1) c"
  from ctx have b: "b = int h - int (height l)" "-1 \<le> b" "b \<le> 1"
    and l: "avl l" and s: "ctx_ok s (Suc (max (height l) h))" by auto
  consider "b = -1" "Suc h = height l" | "b = 0" "h = height l" | "b = 1" "h = Suc (height l)"
    using b by linarith
  then show "\<exists>t. insert_loop ((Node l x b r, RIGHT) # s) c = Inr t \<and> avl t \<and>
    inorder t = pre ((Node l x b r, RIGHT) # s) @ inorder c @ post ((Node l x b r, RIGHT) # s)"
  proof cases
    case 1
    with c m l s root_of_ok [of s ?n] show ?thesis by simp
  next
    case 2
    with c m l s insert_specD [OF assms, of "Suc h" ?n] show ?thesis by simp
  next
    case 3
    then obtain c' where "fix_right_high ?n s = Inr (s, c')" "avl c'" "height c' = Suc h"
      "inorder c' = inorder l @ x # inorder c"
      using fix_right_high_ok [of ?n l x c s] c nb l ctx_room [OF m] by auto
    with 3 s root_of_ok [of s c'] show ?thesis by simp
  qed
qed

lemma insert_spec_None: "insert_spec ((Null, d) # s)" "insert_spec ((n, NONE) # s)"
  by (cases d; cases n; simp add: insert_spec_def)+

lemma stack_induct [case_names Nil left right Null NONE]:
  assumes "P []" "\<And>l x b r s. P s \<Longrightarrow> P ((Node l x b r, LEFT) # s)"
    "\<And>l x b r s. P s \<Longrightarrow> P ((Node l x b r, RIGHT) # s)"
    "\<And>d s. P ((Null, d) # s)" "\<And>n s. P ((n, NONE) # s)"
  shows "P (s :: 'a stack)"
proof (induction s)
  case (Cons e s)
  with assms(2-5) show ?case by (cases e; cases "fst e"; cases "snd e") auto
qed (rule assms(1))

lemma insert_loop_ok: "insert_spec s"
  by (induction s rule: stack_induct)
    (simp_all add: insert_spec_left insert_spec_right insert_spec_None, simp add: insert_spec_def)


section \<open>Removal keeps the invariant\<close>

definition remove_spec :: "'a stack \<Rightarrow> bool" where
  "remove_spec s \<longleftrightarrow> (\<forall>h c. ctx_ok s (Suc h) \<longrightarrow> avl c \<longrightarrow> height c = h \<longrightarrow>
     ctx_height s (Suc h) \<le> MAX_HEIGHT \<longrightarrow>
     (\<exists>t. remove_loop s c = Inr t \<and> avl t \<and> inorder t = pre s @ inorder c @ post s))"

lemma remove_specD:
  "remove_spec s \<Longrightarrow> ctx_ok s (Suc h) \<Longrightarrow> avl c \<Longrightarrow> height c = h \<Longrightarrow> ctx_height s (Suc h) \<le> MAX_HEIGHT \<Longrightarrow>
   \<exists>t. remove_loop s c = Inr t \<and> avl t \<and> inorder t = pre s @ inorder c @ post s"
  by (simp add: remove_spec_def)

text \<open>One rotation on the side that is two levels too high.\<close>

lemma rot_left_ok:
  assumes "avl c" "avl r" "height r = height c + 2" "n_bal r \<noteq> -1"
  shows "\<exists>c'. rot_left (Node c x 2 r) = Inr c' \<and> avl c' \<and> inorder c' = inorder c @ x # inorder r \<and>
    height c' = height c + (if n_bal r = 0 then 3 else 2)"
  using assms by (cases r) (auto simp: Let_def max_def min_def split: if_splits)

lemma rot_right_ok:
  assumes "avl c" "avl l" "height l = height c + 2" "n_bal l \<noteq> 1"
  shows "\<exists>c'. rot_right (Node l x (-2) c) = Inr c' \<and> avl c' \<and> inorder c' = inorder l @ x # inorder c \<and>
    height c' = height c + (if n_bal l = 0 then 3 else 2)"
  using assms by (cases l) (auto simp: Let_def max_def min_def split: if_splits)

lemma rot_double_left_ok:
  assumes "avl c" "avl r" "height r = height c + 2" "n_bal r = -1"
  shows "\<exists>r' c'. rot_right r = Inr r' \<and> rot_left (Node c x 2 r') = Inr c' \<and> avl c' \<and>
    inorder c' = inorder c @ x # inorder r \<and> height c' = height c + 2"
proof -
  obtain a y b d where r: "r = Node a y b d" using assms(3) by (cases r) auto
  then obtain e z f g where "a = Node e z f g" using assms by (cases a) auto
  with r assms show ?thesis by (auto simp: Let_def max_def min_def split: if_splits)
qed

lemma rot_double_right_ok:
  assumes "avl c" "avl l" "height l = height c + 2" "n_bal l = 1"
  shows "\<exists>l' c'. rot_left l = Inr l' \<and> rot_right (Node l' x (-2) c) = Inr c' \<and> avl c' \<and>
    inorder c' = inorder l @ x # inorder c \<and> height c' = height c + 2"
proof -
  obtain a y b d where l: "l = Node a y b d" using assms(3) by (cases l) auto
  then obtain e z f g where "d = Node e z f g" using assms by (cases d) auto
  with l assms show ?thesis by (auto simp: Let_def max_def min_def split: if_splits)
qed

lemma remove_spec_left:
  assumes "remove_spec (s :: 'a stack)"
  shows "remove_spec ((Node l x b r, LEFT) # s)"
  unfolding remove_spec_def
proof (intro allI impI)
  fix h and c :: "'a node"
  let ?s = "(Node l x b r, LEFT) # s"
  assume ctx: "ctx_ok ?s (Suc h)" and c: "avl c" "height c = h" and m: "ctx_height ?s (Suc h) \<le> MAX_HEIGHT"
  from ctx have b: "b = int (height r) - int (Suc h)" "-1 \<le> b" "b \<le> 1"
    and r: "avl r" and s: "ctx_ok s (Suc (max (Suc h) (height r)))" by auto
  consider "b = -1" "height r = h" | "b = 0" "height r = Suc h"
    | "b = 1" "height r = h + 2" "n_bal r = 0 \<or> n_bal r = 1" | "b = 1" "height r = h + 2" "n_bal r = -1"
    using b r by (cases r) (auto, linarith?)
  then show "\<exists>t. remove_loop ?s c = Inr t \<and> avl t \<and> inorder t = pre ?s @ inorder c @ post ?s"
  proof cases
    case 1
    with c m r s remove_specD [OF assms, of "Suc h" "Node c x 0 r"] show ?thesis
      by (simp add: remove_loop.simps(2))
  next
    case 2
    with c m r s root_of_ok [of s "Node c x 1 r"] show ?thesis
      by (simp add: remove_loop.simps(2))
  next
    case 3
    then obtain c' where c': "rot_left (Node c x 2 r) = Inr c'" "avl c'"
      "inorder c' = inorder c @ x # inorder r" "height c' = h + (if n_bal r = 0 then 3 else 2)"
      using rot_left_ok [of c r x] c r by auto
    with 3 c m s root_of_ok [of s c'] remove_specD [OF assms, of "h + 2" c'] show ?thesis
      by (cases r) (auto simp: remove_loop.simps(2) numeral_eq_Suc)
  next
    case 4
    then obtain r' c' where c': "rot_right r = Inr r'" "rot_left (Node c x 2 r') = Inr c'" "avl c'"
      "inorder c' = inorder c @ x # inorder r" "height c' = h + 2"
      using rot_double_left_ok [of c r x] c r by auto
    with 4 c m s ctx_room [OF m] remove_specD [OF assms, of "h + 2" c'] show ?thesis
      by (cases r) (auto simp: remove_loop.simps(2) numeral_eq_Suc Stack_push_def)
  qed
qed

lemma remove_spec_right:
  assumes "remove_spec (s :: 'a stack)"
  shows "remove_spec ((Node l x b r, RIGHT) # s)"
  unfolding remove_spec_def
proof (intro allI impI)
  fix h and c :: "'a node"
  let ?s = "(Node l x b r, RIGHT) # s"
  assume ctx: "ctx_ok ?s (Suc h)" and c: "avl c" "height c = h" and m: "ctx_height ?s (Suc h) \<le> MAX_HEIGHT"
  from ctx have b: "b = int (Suc h) - int (height l)" "-1 \<le> b" "b \<le> 1"
    and l: "avl l" and s: "ctx_ok s (Suc (max (height l) (Suc h)))" by auto
  consider "b = 1" "height l = h" | "b = 0" "height l = Suc h"
    | "b = -1" "height l = h + 2" "n_bal l = 0 \<or> n_bal l = -1" | "b = -1" "height l = h + 2" "n_bal l = 1"
    using b l by (cases l) (auto, linarith?)
  then show "\<exists>t. remove_loop ?s c = Inr t \<and> avl t \<and> inorder t = pre ?s @ inorder c @ post ?s"
  proof cases
    case 1
    with c m l s remove_specD [OF assms, of "Suc h" "Node l x 0 c"] show ?thesis
      by (simp add: remove_loop.simps(2))
  next
    case 2
    with c m l s root_of_ok [of s "Node l x (-1) c"] show ?thesis
      by (simp add: remove_loop.simps(2))
  next
    case 3
    then obtain c' where c': "rot_right (Node l x (-2) c) = Inr c'" "avl c'"
      "inorder c' = inorder l @ x # inorder c" "height c' = h + (if n_bal l = 0 then 3 else 2)"
      using rot_right_ok [of c l x] c l by auto
    with 3 c m s root_of_ok [of s c'] remove_specD [OF assms, of "h + 2" c'] show ?thesis
      by (cases l) (auto simp: remove_loop.simps(2) numeral_eq_Suc)
  next
    case 4
    then obtain l' c' where c': "rot_left l = Inr l'" "rot_right (Node l' x (-2) c) = Inr c'" "avl c'"
      "inorder c' = inorder l @ x # inorder c" "height c' = h + 2"
      using rot_double_right_ok [of c l x] c l by auto
    with 4 c m s ctx_room [OF m] remove_specD [OF assms, of "h + 2" c'] show ?thesis
      by (cases l) (auto simp: remove_loop.simps(2) numeral_eq_Suc Stack_push_def)
  qed
qed

lemma remove_spec_None: "remove_spec ((Null, d) # s)" "remove_spec ((n, NONE) # s)"
  by (cases d; cases n; simp add: remove_spec_def)+

lemma remove_loop_ok: "remove_spec s"
  by (induction s rule: stack_induct)
    (simp_all add: remove_spec_left remove_spec_right remove_spec_None, simp add: remove_spec_def)


section \<open>Lookup, add and remove implement the specification\<close>

definition lookup_post :: "('k \<Rightarrow> 'k \<Rightarrow> int) \<Rightarrow> ('a \<Rightarrow> 'k) \<Rightarrow> 'k \<Rightarrow> 'a node \<Rightarrow> 'a stack \<Rightarrow> 'a node \<Rightarrow> bool" where
  "lookup_post cmp key k r s n \<longleftrightarrow>
     ctx_ok s (height n) \<and> avl n \<and> ctx_height s (height n) = height r \<and>
     inorder r = pre s @ inorder n @ post s \<and>
     (\<forall>y \<in> set (pre s). cmp (key y) k < 0) \<and> (\<forall>y \<in> set (post s). cmp k (key y) < 0) \<and>
     (n \<noteq> Null \<longrightarrow> cmp k (key (n_data n)) = 0)"

context comparator
begin

lemma find_node_eq:
  "sorted_items cmp key (inorder n) \<Longrightarrow> find_node cmp key k n = find_item cmp key k (inorder n)"
proof (induction n)
  case (Node l x b r)
  then have l: "\<forall>y \<in> set (inorder l). cmp (key y) (key x) < 0"
    and r: "\<forall>y \<in> set (inorder r). cmp (key x) (key y) < 0"
    and IH: "find_node cmp key k l = find_item cmp key k (inorder l)"
      "find_node cmp key k r = find_item cmp key k (inorder r)"
    by (auto simp: sorted_wrt_append)
  show ?case
  proof (cases "cmp k (key x) < 0")
    case True
    with r have "find_item cmp key k (inorder r) = None"
      by (auto simp: find_item_None dest: cmp_less_trans)
    with True IH show ?thesis by (simp add: find_item_append split: option.split)
  next
    case False
    then have "cmp (key x) k \<le> 0" by (simp add: cmp_le_iff)
    with l have "\<forall>y \<in> set (inorder l). cmp (key y) k < 0" using cmp_less_le_trans by blast
    then have "find_item cmp key k (inorder l) = None"
      using cmp_less_not_eq by (auto simp: find_item_None)
    with False IH show ?thesis by (simp add: find_item_append)
  qed
qed simp

lemma lookup_ok:
  assumes "ctx_ok s (height n)" "avl n" "ctx_height s (height n) = height r" "height r \<le> MAX_HEIGHT"
    "inorder r = pre s @ inorder n @ post s" "sorted_items cmp key (inorder n)"
    "\<forall>y \<in> set (pre s). cmp (key y) k < 0" "\<forall>y \<in> set (post s). cmp k (key y) < 0"
  shows "\<exists>s' n'. lookup cmp key k s n = Inr (s', n') \<and> lookup_post cmp key k r s' n'"
  using assms
proof (induction n arbitrary: s)
  case Null
  then show ?case by (simp add: lookup_post_def)
next
  case (Node l x b r')
  have room: "length s \<noteq> MAX_HEIGHT"
    using length_le_ctx_height [of s "height (Node l x b r')"] Node.prems(3,4) by simp
  from Node.prems have l: "\<forall>y \<in> set (inorder l). cmp (key y) (key x) < 0"
    and r: "\<forall>y \<in> set (inorder r'). cmp (key x) (key y) < 0"
    by (auto simp: sorted_wrt_append)
  consider "cmp k (key x) = 0" | "cmp k (key x) < 0" | "0 < cmp k (key x)" by linarith
  then show ?case
  proof cases
    case 1
    with Node.prems show ?thesis by (simp add: lookup_post_def)
  next
    case 2
    with r have "\<forall>y \<in> set (inorder r'). cmp k (key y) < 0" using cmp_less_trans by blast
    with 2 Node.prems room Node.IH(1) [of "(Node l x b r', LEFT) # s"] show ?thesis
      by (auto simp: Stack_push_def sorted_wrt_append ball_Un max.commute)
  next
    case 3
    then have "cmp (key x) k < 0" by (simp add: cmp_gt_iff)
    with l have "\<forall>y \<in> set (inorder l). cmp (key y) k < 0" using cmp_less_trans by blast
    with 3 \<open>cmp (key x) k < 0\<close> Node.prems room Node.IH(2) [of "(Node l x b r', RIGHT) # s"] show ?thesis
      by (auto simp: Stack_push_def sorted_wrt_append ball_Un max.commute)
  qed
qed

lemma lookup_root:
  assumes "GenTree_inv cmp key t" "height (root t) \<le> MAX_HEIGHT"
  shows "\<exists>s n. lookup cmp key k [] (root t) = Inr (s, n) \<and> lookup_post cmp key k (root t) s n"
  using assms by (intro lookup_ok) (auto simp: GenTree_inv_def items_def)

lemma lookup_found:
  assumes "sorted_items cmp key (inorder r)" "lookup_post cmp key k r s n" "n = Node l y b u"
  shows "\<forall>z \<in> set (pre s @ inorder l). cmp (key z) k < 0" "cmp k (key y) = 0"
    "inorder r = (pre s @ inorder l) @ y # (inorder u @ post s)"
proof -
  have y: "cmp k (key y) = 0" "cmp (key y) k \<le> 0"
    using assms cmp_eq_sym [of k "key y"] by (simp_all add: lookup_post_def)
  have "\<forall>z \<in> set (inorder l). cmp (key z) (key y) < 0"
    using assms by (auto simp: lookup_post_def sorted_wrt_append)
  with y show "\<forall>z \<in> set (pre s @ inorder l). cmp (key z) k < 0" "cmp k (key y) = 0"
    "inorder r = (pre s @ inorder l) @ y # (inorder u @ post s)"
    using assms cmp_less_le_trans by (auto simp: lookup_post_def)
qed

lemma add_ok:
  assumes inv: "GenTree_inv cmp key t" and h: "height (root t) \<le> MAX_HEIGHT"
  shows "\<exists>t'. GenTree_add cmp key x t = Inr t' \<and> GenTree_inv cmp key t' \<and>
    items t' = ins_item cmp key x (items t)"
proof -
  obtain s n where lk: "lookup cmp key (key x) [] (root t) = Inr (s, n)"
    and post: "lookup_post cmp key (key x) (root t) s n"
    using lookup_root [OF assms] by blast
  show ?thesis
  proof (cases n)
    case (Node l y b r)
    have "ins_item cmp key x (items t) = items t"
      using lookup_found [OF _ post Node] inv
        ins_item_present [of "pre s @ inorder l" key x y "inorder r @ post s"]
      by (simp add: GenTree_inv_def items_def)
    with lk Node inv show ?thesis by (simp add: GenTree_add_def)
  next
    case Null
    have *: "items t = pre s @ post s" "ins_item cmp key x (items t) = pre s @ x # post s"
      using post Null by (simp_all add: items_def lookup_post_def ins_item_split)
    have sorted: "sorted_items cmp key (pre s @ x # post s)"
      using inv sorted_ins_item [of key "items t" x] * by (simp add: GenTree_inv_def)
    obtain r where r: "insert_loop s (new_Node x) = Inr r" "avl r" "inorder r = pre s @ x # post s"
      using insert_specD [OF insert_loop_ok, of s 0 "new_Node x"] post Null h
      by (auto simp: lookup_post_def new_Node_def)
    have "root t = Null \<Longrightarrow> pre s @ post s = []" using * by (simp add: items_def)
    with lk Null r sorted inv * show ?thesis
      by (auto simp: GenTree_add_def AbstractTree_insert_def GenTree_inv_def items_def Let_def
            new_Node_def)
  qed
qed

end

text \<open>
  Removal in the middle: the stack between the removed node and the leftmost node of its right
  subtree only has left directions, so exchanging the data of the two nodes replaces the
  removed item by its successor.
\<close>

lemma ctx_replace:
  "ctx_ok (ls @ (Node l x b r, d) # s) h = ctx_ok (ls @ (Node l y b r, d) # s) h \<and>
   ctx_height (ls @ (Node l x b r, d) # s) h = ctx_height (ls @ (Node l y b r, d) # s) h \<and>
   (d = RIGHT \<longrightarrow> post (ls @ (Node l x b r, d) # s) = post (ls @ (Node l y b r, d) # s))"
proof (induction ls arbitrary: h)
  case Nil
  then show ?case by (cases d) auto
next
  case (Cons e ls)
  then show ?case by (cases e; cases "fst e"; cases "snd e") auto
qed

lemma pre_all_left: "\<forall>e \<in> set ls. snd e = LEFT \<Longrightarrow> pre (ls @ s) = pre s"
proof (induction ls)
  case (Cons e ls)
  then show ?case by (cases e; cases "fst e") auto
qed simp

lemma leftMost_ok:
  assumes "ctx_ok s (height n)" "avl n" "n \<noteq> Null" "ctx_height s (height n) \<le> MAX_HEIGHT"
  shows "\<exists>ls z b r. leftMost s n = Inr (ls @ s, Node Null z b r) \<and> (\<forall>e \<in> set ls. snd e = LEFT) \<and>
    avl r \<and> ctx_ok (ls @ s) (Suc (height r)) \<and> ctx_height (ls @ s) (Suc (height r)) = ctx_height s (height n) \<and>
    inorder n @ post s = z # inorder r @ post (ls @ s)"
  using assms
proof (induction n arbitrary: s)
  case (Node l x b r)
  show ?case
  proof (cases "l = Null")
    case True
    with Node.prems show ?thesis by (intro exI [of _ "[]"]) auto
  next
    case False
    let ?e = "(Node l x b r, LEFT)"
    have room: "length s \<noteq> MAX_HEIGHT"
      using length_le_ctx_height [of s "height (Node l x b r)"] Node.prems(4) by simp
    from Node.prems False obtain ls z b' r' where
      "leftMost (?e # s) l = Inr (ls @ ?e # s, Node Null z b' r')" "\<forall>e \<in> set ls. snd e = LEFT"
      "avl r'" "ctx_ok (ls @ ?e # s) (Suc (height r'))"
      "ctx_height (ls @ ?e # s) (Suc (height r')) = ctx_height (?e # s) (height l)"
      "inorder l @ post (?e # s) = z # inorder r' @ post (ls @ ?e # s)"
      using Node.IH(1) [of "?e # s"] by (auto simp: max.commute)
    with False room show ?thesis
      by (intro exI [of _ "ls @ [?e]"] exI) (auto simp: Stack_push_def)
  qed
qed simp

lemma remove_node_ok:
  assumes s: "ctx_ok s (height n)" "avl n" "ctx_height s (height n) \<le> MAX_HEIGHT" and n: "n = Node l y b r"
  shows "\<exists>q. GenTree_remove_node s n t = Inr (t\<lparr>cnt := cnt t - 1, root := q\<rparr>) \<and> avl q \<and>
    inorder q = pre s @ inorder l @ inorder r @ post s"
proof -
  consider "l = Null" | "l \<noteq> Null" "r = Null" | "l \<noteq> Null" "r \<noteq> Null" by blast
  then show ?thesis
  proof cases
    case 1
    with s n remove_specD [OF remove_loop_ok, of s "height r" r] show ?thesis
      by (auto simp: GenTree_remove_node_def AbstractTree_remove_def)
  next
    case 2
    with s n remove_specD [OF remove_loop_ok, of s "height l" l] show ?thesis
      by (auto simp: GenTree_remove_node_def AbstractTree_remove_def)
  next
    case 3
    let ?s1 = "(n, RIGHT) # s"
    have room: "length s \<noteq> MAX_HEIGHT"
      using length_le_ctx_height [of s "height n"] s(3) n by simp
    obtain ls z b' r' where lm: "leftMost ?s1 r = Inr (ls @ ?s1, Node Null z b' r')"
      and ls: "\<forall>e \<in> set ls. snd e = LEFT" and r': "avl r'" "ctx_ok (ls @ ?s1) (Suc (height r'))"
      "ctx_height (ls @ ?s1) (Suc (height r')) = ctx_height ?s1 (height r)"
      "inorder r @ post ?s1 = z # inorder r' @ post (ls @ ?s1)"
      using leftMost_ok [of ?s1 r] s n 3 by auto
    let ?s2 = "ls @ (Node l z b r, RIGHT) # s"
    have s2: "ctx_ok ?s2 (Suc (height r'))" "ctx_height ?s2 (Suc (height r')) \<le> MAX_HEIGHT"
      "pre ?s2 = pre s @ inorder l @ [z]" "z # inorder r' @ post ?s2 = inorder r @ post s"
      using r' s(3) n ls ctx_replace [of ls l y b r RIGHT s "Suc (height r')" z]
        pre_all_left [of ls "(Node l z b r, RIGHT) # s"] by auto
    then obtain q where "remove_loop ?s2 r' = Inr q" "avl q" "inorder q = pre ?s2 @ inorder r' @ post ?s2"
      using remove_specD [OF remove_loop_ok, of ?s2 "height r'" r'] r' by auto
    with 3 n room lm s2 show ?thesis
      by (auto simp: GenTree_remove_node_def AbstractTree_remove_def Stack_push_def Let_def)
  qed
qed

context comparator
begin

lemma removeByKey_ok:
  assumes inv: "GenTree_inv cmp key t" and h: "height (root t) \<le> MAX_HEIGHT"
  shows "\<exists>t'. GenTree_removeByKey cmp key k t = Inr t' \<and> GenTree_inv cmp key t' \<and>
    items t' = del_item cmp key k (items t)"
proof -
  obtain s n where lk: "lookup cmp key k [] (root t) = Inr (s, n)"
    and post: "lookup_post cmp key k (root t) s n"
    using lookup_root [OF assms] by blast
  show ?thesis
  proof (cases n)
    case Null
    then have "\<forall>y \<in> set (items t). cmp k (key y) \<noteq> 0"
      using post cmp_less_not_eq by (fastforce simp: lookup_post_def items_def)
    with lk Null inv show ?thesis by (simp add: GenTree_removeByKey_def del_item_absent)
  next
    case (Node l y b r)
    note found = lookup_found [OF _ post Node]
    obtain q where q: "GenTree_remove_node s n t = Inr (t\<lparr>cnt := cnt t - 1, root := q\<rparr>)" "avl q"
      "inorder q = pre s @ inorder l @ inorder r @ post s"
      using remove_node_ok [of s n l y b r t] post Node h by (auto simp: lookup_post_def)
    have del: "del_item cmp key k (items t) = inorder q"
      using found inv q(3) del_item_split [of "pre s @ inorder l" key k y "inorder r @ post s"]
      by (simp add: GenTree_inv_def items_def)
    have "sorted_items cmp key (inorder q)"
      using inv del sorted_del_item [of key "items t" k] by (simp add: GenTree_inv_def)
    with lk Node q inv found(3) del show ?thesis
      by (auto simp: GenTree_removeByKey_def GenTree_inv_def items_def)
  qed
qed

end


section \<open>Iteration visits the items in order\<close>

text \<open>
  A state of the iterator is \<open>n # n # s\<close>, where the top node occurs twice and \<open>s\<close> is the
  path from its parent up to the root. \<open>after n s\<close> are the items still to come once
  the subtree of \<open>n\<close> is done.
\<close>

fun path_ok :: "'a node \<Rightarrow> 'a node \<Rightarrow> 'a node list \<Rightarrow> bool" where
  "path_ok r n [] = (n = r)"
| "path_ok r n (p # s) = (p \<noteq> Null \<and> (n = n_left p \<or> n = n_right p) \<and> path_ok r p s)"

fun after :: "'a node \<Rightarrow> 'a node list \<Rightarrow> 'a list" where
  "after n [] = []"
| "after n (p # s) =
     (if n = n_left p then n_data p # inorder (n_right p) @ after p s else after p s)"

lemma path_ok_height: "path_ok r n s \<Longrightarrow> height n + length s \<le> height r"
proof (induction s arbitrary: n)
  case (Cons p s)
  then have "height p + length s \<le> height r" by simp
  with Cons.prems show ?case by (cases p) auto
qed simp

lemma path_ok_distinct: "path_ok r n s \<Longrightarrow> distinct (inorder r) \<Longrightarrow> distinct (inorder n)"
proof (induction s arbitrary: n)
  case (Cons p s)
  then have "distinct (inorder p)" by simp
  with Cons.prems show ?case by (cases p) auto
qed simp

lemma left_neq_right:
  "distinct (inorder n) \<Longrightarrow> n_right n \<noteq> Null \<Longrightarrow> n \<noteq> Null \<Longrightarrow> n_right n \<noteq> n_left n"
proof (cases n)
  case (Node l x b r)
  assume "distinct (inorder n)" "n_right n \<noteq> Null"
  with Node show ?thesis by (cases r) auto
qed simp

lemma inorder_not_self: "n \<noteq> Null \<Longrightarrow> n_left n \<noteq> n" "n \<noteq> Null \<Longrightarrow> n_right n \<noteq> n"
  using arg_cong [of "n_left n" n height] arg_cong [of "n_right n" n height] by (cases n; auto)+

lemma Iter_spine_ok:
  assumes "path_ok r p s" "p \<noteq> Null" "n = n_left p" "height r < MAX_HEIGHT"
  shows "\<exists>m s'. Iter_spine n (p # s) = Inr (m # m # s') \<and> m \<noteq> Null \<and> path_ok r m s' \<and>
    n_data m # inorder (n_right m) @ after m s' = inorder n @ n_data p # inorder (n_right p) @ after p s"
  using assms
proof (induction n arbitrary: p s)
  case Null
  have "length (p # s) \<noteq> MAX_HEIGHT"
    using path_ok_height [OF Null.prems(1)] Null.prems(2,4) by (cases p) auto
  with Null show ?case by (auto simp: VisitStack_push_def)
next
  case (Node l x b u)
  let ?n = "Node l x b u"
  have path: "path_ok r ?n (p # s)" using Node.prems by simp
  then have "length (p # s) \<noteq> MAX_HEIGHT"
    using path_ok_height [OF path] Node.prems(4) by auto
  moreover obtain m s' where "Iter_spine l (?n # p # s) = Inr (m # m # s')" "m \<noteq> Null" "path_ok r m s'"
    "n_data m # inorder (n_right m) @ after m s' = inorder l @ x # inorder u @ after ?n (p # s)"
    using Node.IH(1) [OF path _ _ Node.prems(4)] by fastforce
  ultimately show ?case using Node.prems(3) [symmetric] by (auto simp: VisitStack_push_def)
qed

lemma Iter_visit_ok:
  assumes "path_ok r n s" "n \<noteq> Null" "height r < MAX_HEIGHT"
  shows "\<exists>m s'. Iter_visit n s = Inr (m # m # s') \<and> m \<noteq> Null \<and> path_ok r m s' \<and>
    n_data m # inorder (n_right m) @ after m s' = inorder n @ after n s"
proof -
  have "length s \<noteq> MAX_HEIGHT" using path_ok_height [OF assms(1)] assms(3) by auto
  with assms Iter_spine_ok [of r n s "n_left n"] show ?thesis
    by (cases n) (auto simp: Iter_visit_def VisitStack_push_def)
qed

lemma Iter_next_up:
  assumes "path_ok r n s" "n \<noteq> Null" "height r < MAX_HEIGHT"
  shows "(after n s = [] \<and> Iter_next (n # s) = Inr []) \<or>
    (\<exists>m s'. Iter_next (n # s) = Inr (m # m # s') \<and> m \<noteq> Null \<and> path_ok r m s' \<and>
       n_data m # inorder (n_right m) @ after m s' = after n s)"
  using assms
proof (induction s arbitrary: n)
  case (Cons p s)
  have room: "length (p # s) \<noteq> MAX_HEIGHT"
    using path_ok_height [OF Cons.prems(1)] Cons.prems(3) by auto
  have "n \<noteq> p" using Cons.prems(1) inorder_not_self [of p] by auto
  with Cons room show ?case by (auto simp: VisitStack_push_def)
qed simp

lemma Iter_next_ok:
  assumes "path_ok r n s" "n \<noteq> Null" "height r < MAX_HEIGHT" "distinct (inorder r)"
  shows "(inorder (n_right n) @ after n s = [] \<and> Iter_next (n # n # s) = Inr []) \<or>
    (\<exists>m s'. Iter_next (n # n # s) = Inr (m # m # s') \<and> m \<noteq> Null \<and> path_ok r m s' \<and>
       n_data m # inorder (n_right m) @ after m s' = inorder (n_right n) @ after n s)"
proof (cases "n_right n = Null")
  case True
  with assms Iter_next_up [OF assms(1-3)] inorder_not_self [of n] show ?thesis by auto
next
  case False
  have "path_ok r (n_right n) (n # s)" using assms by simp
  then obtain m s' where "Iter_visit (n_right n) (n # s) = Inr (m # m # s')" "m \<noteq> Null" "path_ok r m s'"
    "n_data m # inorder (n_right m) @ after m s' = inorder (n_right n) @ after (n_right n) (n # s)"
    using Iter_visit_ok [of r "n_right n" "n # s"] False assms by blast
  moreover have "n_right n \<noteq> n_left n"
    using left_neq_right path_ok_distinct [OF assms(1,4)] False assms(2) by blast
  ultimately show ?thesis using False assms inorder_not_self [of n] by auto
qed

lemma Iter_collect_ok:
  assumes "path_ok r n s" "n \<noteq> Null" "height r < MAX_HEIGHT" "distinct (inorder r)"
    "m = Suc (length (inorder (n_right n) @ after n s))"
  shows "Iter_collect m (n # n # s) = Inr (n_data n # inorder (n_right n) @ after n s)"
  using assms
proof (induction m arbitrary: n s)
  case (Suc m)
  have item: "Iter_item (n # n # s) = Inr (n_data n)" using Suc.prems(2) by (cases n) auto
  from Iter_next_ok [OF Suc.prems(1-4)] show ?case
  proof (elim disjE exE conjE)
    assume *: "inorder (n_right n) @ after n s = []" "Iter_next (n # n # s) = Inr []"
    then have "m = 0" using Suc.prems(5) by simp
    with * item show ?thesis by (simp add: Iter_ended_def)
  next
    fix k s' assume k: "Iter_next (n # n # s) = Inr (k # k # s')" "k \<noteq> Null" "path_ok r k s'"
      "n_data k # inorder (n_right k) @ after k s' = inorder (n_right n) @ after n s"
    then have "m = Suc (length (inorder (n_right k) @ after k s'))"
      using Suc.prems(5) by (metis Suc_inject length_Cons)
    with Suc.IH [OF k(3,2) Suc.prems(3,4)] k item show ?thesis
      by (simp add: Iter_ended_def)
  qed
qed simp

lemma GenTree_iterate_ok:
  assumes "distinct (items t)" "height (root t) < MAX_HEIGHT" "cnt t = int (length (items t))"
  shows "GenTree_iterate t = Inr (items t)"
proof (cases "root t = Null")
  case True
  with assms show ?thesis by (simp add: GenTree_iterate_def Iter_begin_def items_def Iter_ended_def)
next
  case False
  then obtain m s' where m: "Iter_visit (root t) [] = Inr (m # m # s')" "m \<noteq> Null" "path_ok (root t) m s'"
    "n_data m # inorder (n_right m) @ after m s' = items t"
    using Iter_visit_ok [of "root t" "root t" "[]"] assms by (auto simp: items_def)
  then have "nat (cnt t) = Suc (length (inorder (n_right m) @ after m s'))"
    using assms(3) by (metis length_Cons nat_int)
  from Iter_collect_ok [OF m(3,2) assms(2) assms(1) [unfolded items_def] this] m(4)
  have "Iter_collect (nat (cnt t)) (m # m # s') = Inr (items t)" by (simp only:)
  with m False show ?thesis by (simp add: GenTree_iterate_def Iter_begin_def)
qed


section \<open>How many items fit: the height bound\<close>

text \<open>
  The stacks of the code hold \<^verbatim>\<open>MAX_HEIGHT\<close> = 32 entries and assert on overflow. A
  balanced tree of height \<open>h\<close> has at least \<open>min_nodes h\<close> items, so trees of less than
  9227464 items have at most height 32 (5702886 for height 31, which iteration needs, since it
  stacks the current node twice).
\<close>

fun min_nodes :: "nat \<Rightarrow> nat" where
  "min_nodes 0 = 0"
| "min_nodes (Suc 0) = 1"
| "min_nodes (Suc (Suc n)) = 1 + min_nodes n + min_nodes (Suc n)"

lemma min_nodes_Suc: "min_nodes n \<le> min_nodes (Suc n)"
  by (induction n rule: induct_nat_012) auto

lemma min_nodes_mono: "m \<le> n \<Longrightarrow> min_nodes m \<le> min_nodes n"
  using min_nodes_Suc by (rule lift_Suc_mono_le)

lemma avl_min_nodes: "avl t \<Longrightarrow> min_nodes (height t) \<le> length (inorder t)"
proof (induction t)
  case (Node l x b r)
  consider "height r = height l" | "height r = Suc (height l)" | "height l = Suc (height r)"
    using Node.prems by fastforce
  then show ?case
  proof cases
    case 1
    have "min_nodes (Suc (height l)) \<le> 1 + min_nodes (height l) + min_nodes (height l)"
      using min_nodes_Suc by (cases "height l") (simp_all add: add_mono)
    with 1 Node show ?thesis by auto
  qed (use Node in auto)
qed simp

lemma height_bound: "avl t \<Longrightarrow> length (inorder t) < min_nodes (Suc h) \<Longrightarrow> height t \<le> h"
  using avl_min_nodes [of t] min_nodes_mono [of "Suc h" "height t"] by linarith

text \<open>An iteration that computes \<^const>\<open>min_nodes\<close> in linearly many steps.\<close>

fun min_nodes_it :: "nat \<Rightarrow> nat \<Rightarrow> nat \<Rightarrow> nat" where
  "min_nodes_it 0 a b = a"
| "min_nodes_it (Suc n) a b = min_nodes_it n b (1 + a + b)"

lemma min_nodes_it: "min_nodes_it n (min_nodes m) (min_nodes (Suc m)) = min_nodes (m + n)"
proof (induction n arbitrary: m)
  case (Suc n)
  from Suc.IH [of "Suc m"] show ?case by simp
qed simp

lemma min_nodes_it_numeral:
  "min_nodes_it (numeral k) a b = min_nodes_it (pred_numeral k) b (1 + a + b)"
  "min_nodes_it 1 a b = b"
  by (simp_all add: numeral_eq_Suc)

lemmas min_nodes_it_eval = min_nodes_it_numeral pred_numeral_simps arith_simps BitM.simps
  numeral_plus_one one_plus_numeral add_num_simps add_0_right numeral_One one_add_one

lemma min_nodes_33: "min_nodes 33 = 9227464"
proof -
  have "min_nodes_it 33 0 1 = 9227464" by (simp only: min_nodes_it_eval)
  then show ?thesis using min_nodes_it [of 33 0] by (simp only: min_nodes.simps add_0_left)
qed

lemma min_nodes_32: "min_nodes 32 = 5702886"
proof -
  have "min_nodes_it 32 0 1 = 5702886" by (simp only: min_nodes_it_eval)
  then show ?thesis using min_nodes_it [of 32 0] by (simp only: min_nodes.simps add_0_left)
qed

lemma GenTree_height_32: "GenTree_inv cmp key t \<Longrightarrow> cnt t < 9227464 \<Longrightarrow> height (root t) \<le> MAX_HEIGHT"
  using height_bound [of "root t" 32] min_nodes_33
  by (simp add: GenTree_inv_def items_def MAX_HEIGHT_def)

lemma GenTree_height_31: "GenTree_inv cmp key t \<Longrightarrow> cnt t < 5702886 \<Longrightarrow> height (root t) < MAX_HEIGHT"
  using height_bound [of "root t" 31] min_nodes_32
  by (simp add: GenTree_inv_def items_def MAX_HEIGHT_def)


section \<open>GenTree is an ordered store\<close>

text \<open>\<^verbatim>\<open>GenTree\<close> with a comparator and a key function is such a store.\<close>

locale gen_tree = comparator cmp for cmp :: "'k \<Rightarrow> 'k \<Rightarrow> int" +
  fixes key :: "'a \<Rightarrow> 'k"
begin

lemma gen_add: "GenTree_inv cmp key t \<Longrightarrow> length (items t) < 9227464 \<Longrightarrow>
    \<exists>t'. GenTree_add cmp key x t = Inr t' \<and> GenTree_inv cmp key t' \<and>
      items t' = ins_item cmp key x (items t)"
  using add_ok GenTree_height_32 [of cmp key t] by (simp add: GenTree_inv_def)

lemma gen_del: "GenTree_inv cmp key t \<Longrightarrow> length (items t) < 9227464 \<Longrightarrow>
    \<exists>t'. GenTree_removeByKey cmp key k t = Inr t' \<and> GenTree_inv cmp key t' \<and>
      items t' = del_item cmp key k (items t)"
  using removeByKey_ok GenTree_height_32 [of cmp key t] by (simp add: GenTree_inv_def)

end

sublocale gen_tree \<subseteq> store: ordered_store cmp key "GenTree_inv cmp key" items "\<lambda>n. n < 9227464"
  "GenTree_add cmp key" "GenTree_removeByKey cmp key" "GenTree_get cmp key"
proof unfold_locales
  fix t :: "'a tree"
  assume inv: "GenTree_inv cmp key t"
  then show "sorted_items cmp key (items t)" by (simp add: GenTree_inv_def)
  show "GenTree_get cmp key k t = find_item cmp key k (items t)" for k
    using inv find_node_eq [of key "root t" k] by (simp add: GenTree_inv_def GenTree_get_def items_def)
  show "\<exists>t'. GenTree_add cmp key x t = Inr t' \<and> GenTree_inv cmp key t' \<and>
      items t' = ins_item cmp key x (items t)" if "length (items t) < 9227464" for x
    using inv that by (rule gen_add)
  show "\<exists>t'. GenTree_removeByKey cmp key k t = Inr t' \<and> GenTree_inv cmp key t' \<and>
      items t' = del_item cmp key k (items t)" if "length (items t) < 9227464" for k
    using inv that by (rule gen_del)
qed

context gen_tree
begin

lemmas gen_get_add = store.get_add
lemmas gen_get_del = store.get_del

end

interpretation id_tree: gen_tree "Comparator_compare :: 'a::linorder \<Rightarrow> 'a \<Rightarrow> int" "id :: 'a \<Rightarrow> 'a"
  by unfold_locales

interpretation pair_tree: gen_tree "Comparator_compare :: 'k::linorder \<Rightarrow> 'k \<Rightarrow> int" "fst :: 'k \<times> 'v \<Rightarrow> 'k"
  by unfold_locales

lemma gen_treeI: "comparator cmp \<Longrightarrow> gen_tree cmp"
  by (simp add: gen_tree_def)


section \<open>Properties\<close>

text \<open>
  C1. Adding an item to a well-formed tree of less than 9227464 items never fails: no traversal
  stack overflows and no null pointer is followed in a rotation. The result is well-formed
  again (balanced with correct balance factors, strictly sorted, correct item count) and its
  items are those of the sorted insertion, which leaves the tree as it is when an item with
  an equivalent key is present: the comment of \<^verbatim>\<open>GenTree::add\<close> in \<^verbatim>\<open>avl_GenTree.cpp\<close>, that
  announces duplicates, does not describe the code.
\<close>

theorem avl_add_correct:
  assumes "comparator cmp" "GenTree_inv cmp key t" "cnt t < 9227464"
  shows "\<exists>t'. GenTree_add cmp key x t = Inr t' \<and> GenTree_inv cmp key t' \<and>
    items t' = ins_item cmp key x (items t) \<and>
    set (items t') = (if \<exists>y \<in> set (items t). cmp (key x) (key y) = 0 then set (items t)
                      else insert x (set (items t)))"
proof -
  from assms(2,3) have "length (items t) < 9227464" by (simp add: GenTree_inv_def)
  from gen_tree.gen_add [OF gen_treeI [OF assms(1)] assms(2) this]
  obtain t' where "GenTree_add cmp key x t = Inr t'" "GenTree_inv cmp key t'"
    "items t' = ins_item cmp key x (items t)" by blast
  with comparator.set_ins_item [OF assms(1), of key "items t" x] assms(2) show ?thesis
    by (simp add: GenTree_inv_def)
qed

definition tree_1_2 :: "int tree" where
  "tree_1_2 = \<lparr>root = Node Null 1 1 (Node Null 2 0 Null), cnt = 2\<rparr>"

lemma tree_1_2_inv: "GenTree_inv Comparator_compare id tree_1_2"
  by (simp add: GenTree_inv_def tree_1_2_def items_def)

lemma tree_1_2_cnt: "cnt tree_1_2 = 2" "items tree_1_2 = [1, 2]"
  by (simp_all add: tree_1_2_def items_def)

theorem avl_add_correct_witness:
  "\<exists>t'. GenTree_add Comparator_compare id 3 tree_1_2 = Inr t' \<and>
    GenTree_inv Comparator_compare id t' \<and> items t' = [1, 2, 3]"
  using avl_add_correct [OF comparator_Comparator_compare tree_1_2_inv, of 3]
  by (auto simp: tree_1_2_cnt Comparator_compare_def)

text \<open>
  C2. Removing by key from a well-formed tree of less than 9227464 items never fails, gives a
  well-formed tree, and the items left are exactly those whose key is not equivalent to the
  given one.
\<close>

theorem avl_removeByKey_correct:
  assumes "comparator cmp" "GenTree_inv cmp key t" "cnt t < 9227464"
  shows "\<exists>t'. GenTree_removeByKey cmp key k t = Inr t' \<and> GenTree_inv cmp key t' \<and>
    items t' = del_item cmp key k (items t) \<and>
    set (items t') = {y \<in> set (items t). cmp k (key y) \<noteq> 0}"
proof -
  from assms(2,3) have "length (items t) < 9227464" by (simp add: GenTree_inv_def)
  from gen_tree.gen_del [OF gen_treeI [OF assms(1)] assms(2) this]
  obtain t' where "GenTree_removeByKey cmp key k t = Inr t'" "GenTree_inv cmp key t'"
    "items t' = del_item cmp key k (items t)" by blast
  with comparator.set_del_item [OF assms(1), of key "items t" k] assms(2) show ?thesis
    by (simp add: GenTree_inv_def)
qed

theorem avl_removeByKey_correct_witness:
  "\<exists>t'. GenTree_removeByKey Comparator_compare id 1 tree_1_2 = Inr t' \<and>
    GenTree_inv Comparator_compare id t' \<and> items t' = [2]"
  using avl_removeByKey_correct [OF comparator_Comparator_compare tree_1_2_inv, of 1]
  by (auto simp: tree_1_2_cnt Comparator_compare_def)

text \<open>
  Lookup sees what insertion and removal did: after adding \<open>x\<close>, the key of \<open>x\<close> maps to \<open>x\<close>
  unless it mapped to an item before, and all inequivalent keys are unaffected; after
  removing \<open>k\<close>, equivalent keys map to nothing and the others are unaffected.
\<close>

lemma avl_get_after_update:
  assumes "comparator cmp" "GenTree_inv cmp key t" "cnt t < 9227464"
  shows "\<exists>t1 t2. GenTree_add cmp key x t = Inr t1 \<and> GenTree_removeByKey cmp key k t = Inr t2 \<and>
    GenTree_get cmp key j t1 =
      (if cmp j (key x) = 0 \<and> GenTree_get cmp key (key x) t = None then Some x else GenTree_get cmp key j t) \<and>
    GenTree_get cmp key j t2 = (if cmp j k = 0 then None else GenTree_get cmp key j t)"
proof -
  from assms(2,3) have n: "length (items t) < 9227464" by (simp add: GenTree_inv_def)
  note gt = gen_treeI [OF assms(1)]
  show ?thesis
    using gen_tree.gen_get_add [OF gt assms(2) n, of x j] gen_tree.gen_get_del [OF gt assms(2) n, of k j]
    by blast
qed

lemma avl_get_after_update_witness:
  "\<exists>t1 t2. GenTree_add Comparator_compare id 3 tree_1_2 = Inr t1 \<and>
    GenTree_removeByKey Comparator_compare id 1 tree_1_2 = Inr t2 \<and>
    GenTree_get Comparator_compare id 3 t1 = Some 3 \<and> GenTree_get Comparator_compare id 3 t2 = None"
  using avl_get_after_update [OF comparator_Comparator_compare tree_1_2_inv, of 3 1 3]
  by (auto simp: tree_1_2_def GenTree_get_def)

text \<open>
  C3. Iterating over a well-formed tree of less than 5702886 items visits every item exactly
  once, in increasing key order, within as many steps as there are items and without
  overflowing the visit stack.
\<close>

theorem avl_iterate_in_order:
  assumes "comparator cmp" "GenTree_inv cmp key t" "cnt t < 5702886"
  shows "GenTree_iterate t = Inr (items t) \<and> sorted_items cmp key (items t) \<and> distinct (items t)"
proof -
  have sorted: "sorted_items cmp key (items t)" using assms(2) by (simp add: GenTree_inv_def)
  then have "distinct (items t)"
    using sorted_wrt_less_distinct [OF assms(1)] by blast
  with GenTree_iterate_ok [of t] GenTree_height_31 [OF assms(2,3)] assms(2) sorted show ?thesis
    by (simp add: GenTree_inv_def)
qed

theorem avl_iterate_in_order_witness: "GenTree_iterate tree_1_2 = Inr [1, 2]"
  using avl_iterate_in_order [OF comparator_Comparator_compare tree_1_2_inv]
  by (simp add: tree_1_2_cnt)

text \<open>
  Sequences of operations, and the sequence of abstract operations they refine.
\<close>

datatype 'a tree_op = Add 'a | Remove 'a

fun run_op :: "('k \<Rightarrow> 'k \<Rightarrow> int) \<Rightarrow> ('a \<Rightarrow> 'k) \<Rightarrow> 'a tree_op \<Rightarrow> 'a tree \<Rightarrow> 'a tree res" where
  "run_op cmp key (Add x) t = GenTree_add cmp key x t"
| "run_op cmp key (Remove x) t = GenTree_remove cmp key x t"

fun run_ops :: "('k \<Rightarrow> 'k \<Rightarrow> int) \<Rightarrow> ('a \<Rightarrow> 'k) \<Rightarrow> 'a tree_op list \<Rightarrow> 'a tree \<Rightarrow> 'a tree res" where
  "run_ops cmp key [] t = Inr t"
| "run_ops cmp key (p # ps) t = bind_res (run_op cmp key p t) (run_ops cmp key ps)"

fun abs_op :: "('k \<Rightarrow> 'k \<Rightarrow> int) \<Rightarrow> ('a \<Rightarrow> 'k) \<Rightarrow> 'a tree_op \<Rightarrow> 'a list \<Rightarrow> 'a list" where
  "abs_op cmp key (Add x) xs = ins_item cmp key x xs"
| "abs_op cmp key (Remove x) xs = del_item cmp key (key x) xs"

lemma length_abs_op: "length (abs_op cmp key p xs) \<le> Suc (length xs)"
proof (cases p)
  case (Add x)
  have "length (ins_item cmp key x xs) \<le> Suc (length xs)" by (induction xs) auto
  with Add show ?thesis by simp
next
  case (Remove x)
  have "length (del_item cmp key (key x) xs) \<le> length xs" by (induction xs) auto
  with Remove show ?thesis by simp
qed

context gen_tree
begin

lemma run_ops_ok:
  "GenTree_inv cmp key t \<Longrightarrow> length (items t) + length ps < 9227464 \<Longrightarrow>
   \<exists>t'. run_ops cmp key ps t = Inr t' \<and> GenTree_inv cmp key t' \<and>
     items t' = fold (abs_op cmp key) ps (items t)"
proof (induction ps arbitrary: t)
  case (Cons p ps)
  have "\<exists>t1. run_op cmp key p t = Inr t1 \<and> GenTree_inv cmp key t1 \<and> items t1 = abs_op cmp key p (items t)"
    using Cons.prems gen_add [of t] gen_del [of t] by (cases p) (auto simp: GenTree_remove_def)
  then obtain t1 where t1: "run_op cmp key p t = Inr t1" "GenTree_inv cmp key t1"
    "items t1 = abs_op cmp key p (items t)" by blast
  have "length (items t1) + length ps < 9227464"
    using length_abs_op [of cmp key p "items t"] Cons.prems(2) t1(3) by simp
  with Cons.IH [OF t1(2)] t1 show ?case by simp
qed simp

end

text \<open>
  C4. Any sequence of less than 9227464 additions and removals, started on an empty tree, runs
  without failure; the resulting tree is well-formed and holds the items that the same
  sequence of sorted-list insertions and deletions gives. The addition of an item already there and the removal of an
  item that is not there leave the tree as it is, whereas the comments of \<^verbatim>\<open>avl_GenTree.cpp\<close> announce a
  duplicate for the first and an error for the second.
\<close>

theorem avl_run_ops_refines:
  assumes "comparator cmp" "length ps < 9227464"
  shows "\<exists>t. run_ops cmp key ps GenTree_new = Inr t \<and> GenTree_inv cmp key t \<and>
    items t = fold (abs_op cmp key) ps []"
  using gen_tree.run_ops_ok [OF gen_treeI [OF assms(1)], of key GenTree_new ps] assms(2)
  by (simp add: GenTree_new_def GenTree_inv_def items_def)

theorem avl_run_ops_refines_witness:
  "\<exists>t. run_ops Comparator_compare id [Add 3, Add 1, Add (2::int), Remove 3] GenTree_new = Inr t \<and>
    items t = [1, 2]"
  using avl_run_ops_refines [OF comparator_Comparator_compare,
      of "[Add 3, Add 1, Add (2::int), Remove 3]" id]
  by (auto simp: Comparator_compare_def)

end
