(* ===== verification/Avl_Clients.thy ===== *)
theory Avl_Clients
  imports Avl_Tree
begin

text \<open>
  Clearing and copying of AVL trees, and the containers built on \<^verbatim>\<open>GenTree\<close>:
  \<^verbatim>\<open>avl::Set\<close>, \<^verbatim>\<open>avl::Map\<close> and \<^verbatim>\<open>avl::Queue\<close>
  (\<^verbatim>\<open>include/elm/avl/Set.h\<close>, \<^verbatim>\<open>Map.h\<close>, \<^verbatim>\<open>Queue.h\<close>). The
  adapters \<^verbatim>\<open>IdAdapter\<close> and \<^verbatim>\<open>PairAdapter\<close> are the key functions
  \<open>id\<close> and \<open>fst\<close>.
\<close>

section \<open>GenTree::copy\<close>

text \<open>
  \<^verbatim>\<open>GenTree::copy\<close> walks the source with the stack \<open>ss\<close> and builds the target along
  the stack \<open>st\<close>; the top of \<open>st\<close> is the node \<open>c\<close> under construction, and the entries
  below it are kept with the direction in which they were left. The three modes are the heads
  of the three nested loops of the code.
\<close>

datatype copy_mode = Descend | Right_test | Pop

definition copy_Node :: "'a node \<Rightarrow> 'a node" where
  "copy_Node n = Node Null (n_data n) (n_bal n) Null"

fun copy_loop :: "nat \<Rightarrow> copy_mode \<Rightarrow> 'a node list \<Rightarrow> 'a stack \<Rightarrow> 'a node \<Rightarrow> 'a node res" where
  "copy_loop 0 m ss st c = Inl Out_of_fuel"
| "copy_loop (Suc f) m [] st c = Inl Out_of_bounds"
| "copy_loop (Suc f) Descend (n # ss) st c =
     (if n_left n \<noteq> Null then
        bind_res (VisitStack_push (n_left n) (n # ss)) (\<lambda>ss'.
          copy_loop f Descend ss' ((c, LEFT) # st) (copy_Node (n_left n)))
      else copy_loop f Right_test (n # ss) st c)"
| "copy_loop (Suc f) Right_test (n # ss) st c =
     (if n_right n = Null then copy_loop f Pop (n # ss) st c
      else
        bind_res (VisitStack_push (n_right n) (n # ss)) (\<lambda>ss'.
          copy_loop f Descend ss' ((c, RIGHT) # st) (copy_Node (n_right n))))"
| "copy_loop (Suc f) Pop (prv # ss) st c =
     (case ss of
        [] \<Rightarrow> Inr (root_of st c)
      | n # ss' \<Rightarrow>
          (case st of
             [] \<Rightarrow> Inl Out_of_bounds
           | e # st' \<Rightarrow>
               if n_right n = prv then copy_loop f Pop ss st' (plug e c)
               else copy_loop f Right_test ss st' (plug e c)))"

definition GenTree_copy :: "'a tree \<Rightarrow> 'a tree \<Rightarrow> 'a tree res" where
  "GenTree_copy t src =
     bind_res (GenTree_clear t) (\<lambda>(freed, t0).
       if root src = Null then Inr t0
       else bind_res (copy_loop (Suc (3 * nat (cnt src))) Descend [root src] [] (copy_Node (root src)))
              (\<lambda>r. Inr (t0\<lparr>root := r, cnt := cnt src\<rparr>)))"


section \<open>avl::Set\<close>

definition Set_insert :: "('a \<Rightarrow> 'a \<Rightarrow> int) \<Rightarrow> 'a \<Rightarrow> 'a tree \<Rightarrow> 'a tree res" where
  "Set_insert cmp x t = GenTree_add cmp id x t"

fun subset_loop :: "('a \<Rightarrow> 'a \<Rightarrow> int) \<Rightarrow> 'a list \<Rightarrow> 'a list \<Rightarrow> bool" where
  "subset_loop cmp (a # as) (b # bs) =
     (if cmp a b = 0 then subset_loop cmp as bs
      else if cmp a b < 0 then False
      else subset_loop cmp (a # as) bs)"
| "subset_loop cmp as bs = (as = [])"

definition Set_subsetOf :: "('a \<Rightarrow> 'a \<Rightarrow> int) \<Rightarrow> 'a tree \<Rightarrow> 'a tree \<Rightarrow> bool res" where
  "Set_subsetOf cmp t s =
     bind_res (GenTree_iterate t) (\<lambda>as.
     bind_res (GenTree_iterate s) (\<lambda>bs. Inr (subset_loop cmp as bs)))"

definition Set_join :: "('a \<Rightarrow> 'a \<Rightarrow> int) \<Rightarrow> 'a tree \<Rightarrow> 'a tree \<Rightarrow> 'a tree res" where
  "Set_join cmp t s = bind_res (GenTree_iterate s) (\<lambda>xs. GenTree_addAll cmp id xs t)"

definition Set_diff :: "('a \<Rightarrow> 'a \<Rightarrow> int) \<Rightarrow> 'a tree \<Rightarrow> 'a tree \<Rightarrow> 'a tree res" where
  "Set_diff cmp t s = bind_res (GenTree_iterate s) (\<lambda>xs. GenTree_removeAll cmp id xs t)"

definition Set_meet :: "('a \<Rightarrow> 'a \<Rightarrow> int) \<Rightarrow> 'a tree \<Rightarrow> 'a tree \<Rightarrow> 'a tree res" where
  "Set_meet cmp t s =
     bind_res (GenTree_iterate t) (\<lambda>xs.
     bind_res (GenTree_addAll cmp id (filter (\<lambda>x. GenTree_contains cmp id x s) xs) GenTree_new) (\<lambda>is.
       GenTree_copy t is))"


section \<open>avl::Map\<close>

type_synonym ('k, 'v) map_tree = "('k \<times> 'v) tree"

definition Map_put :: "('k \<Rightarrow> 'k \<Rightarrow> int) \<Rightarrow> 'k \<Rightarrow> 'v \<Rightarrow> ('k, 'v) map_tree \<Rightarrow> ('k, 'v) map_tree res" where
  "Map_put cmp k v t = GenTree_add cmp fst (k, v) t"

definition Map_remove :: "('k \<Rightarrow> 'k \<Rightarrow> int) \<Rightarrow> 'k \<Rightarrow> ('k, 'v) map_tree \<Rightarrow> ('k, 'v) map_tree res" where
  "Map_remove cmp k t = GenTree_removeByKey cmp fst k t"

definition Map_get :: "('k \<Rightarrow> 'k \<Rightarrow> int) \<Rightarrow> 'k \<Rightarrow> ('k, 'v) map_tree \<Rightarrow> 'v option" where
  "Map_get cmp k t = (case GenTree_get cmp fst k t of None \<Rightarrow> None | Some p \<Rightarrow> Some (snd p))"

definition Map_get_default :: "('k \<Rightarrow> 'k \<Rightarrow> int) \<Rightarrow> 'k \<Rightarrow> 'v \<Rightarrow> ('k, 'v) map_tree \<Rightarrow> 'v" where
  "Map_get_default cmp k def t = (case GenTree_get cmp fst k t of None \<Rightarrow> def | Some p \<Rightarrow> snd p)"

definition Map_hasKey :: "('k \<Rightarrow> 'k \<Rightarrow> int) \<Rightarrow> 'k \<Rightarrow> ('k, 'v) map_tree \<Rightarrow> bool" where
  "Map_hasKey cmp k t = (GenTree_get cmp fst k t \<noteq> None)"

definition Map_index :: "('k \<Rightarrow> 'k \<Rightarrow> int) \<Rightarrow> 'k \<Rightarrow> ('k, 'v) map_tree \<Rightarrow> 'v res" where
  "Map_index cmp k t =
     (case GenTree_get cmp fst k t of None \<Rightarrow> Inl (Exception ''KeyException'') | Some p \<Rightarrow> Inr (snd p))"

text \<open>\<^verbatim>\<open>Map::contains\<close> returns false at the first value that differs.\<close>

definition Map_contains :: "('v \<Rightarrow> 'v \<Rightarrow> bool) \<Rightarrow> 'v \<Rightarrow> ('k, 'v) map_tree \<Rightarrow> bool res" where
  "Map_contains eq x t =
     bind_res (GenTree_iterate t) (\<lambda>ps. Inr (list_all (\<lambda>p. eq x (snd p)) ps))"


section \<open>avl::Queue\<close>

fun Queue_head_loop :: "'a node \<Rightarrow> 'a res" where
  "Queue_head_loop Null = Inl Null_dereference"
| "Queue_head_loop (Node l x b r) = (if l \<noteq> Null then Queue_head_loop l else Inr x)"

definition Queue_head :: "'a tree \<Rightarrow> 'a res" where
  "Queue_head t = (if root t = Null then Inl Assertion_failed else Queue_head_loop (root t))"

definition Queue_get :: "'a tree \<Rightarrow> ('a \<times> 'a tree) res" where
  "Queue_get t =
     (if root t = Null then Inl Assertion_failed
      else bind_res (leftMost [] (root t)) (\<lambda>(s, n).
           bind_res (GenTree_remove_node s n t) (\<lambda>t'. Inr (n_data n, t'))))"

definition Queue_put :: "('a \<Rightarrow> 'a \<Rightarrow> int) \<Rightarrow> 'a \<Rightarrow> 'a tree \<Rightarrow> 'a tree res" where
  "Queue_put cmp x t = GenTree_add cmp id x t"

definition Queue_reset :: "'a tree \<Rightarrow> ('a list \<times> 'a tree) res" where
  "Queue_reset t = GenTree_clear t"


section \<open>Clearing frees every node once\<close>

fun clear_room :: "'a node list \<Rightarrow> bool" where
  "clear_room [] = True"
| "clear_room (n # s) = (n \<noteq> Null \<and> height n + length s \<le> MAX_HEIGHT \<and> clear_room s)"

lemma clear_loop_ok:
  "clear_room s \<Longrightarrow> \<exists>xs. clear_loop s = Inr xs \<and> mset xs = (\<Sum>n\<leftarrow>s. mset (inorder n))"
proof (induction s rule: clear_loop.induct)
  case (2 n s)
  then obtain l x b r where n: "n = Node l x b r" by (cases n) auto
  let ?s1 = "if l \<noteq> Null then l # s else s"
  let ?s2 = "if r \<noteq> Null then r # ?s1 else ?s1"
  have hl: "l \<noteq> Null \<Longrightarrow> 0 < height l" and hr: "r \<noteq> Null \<Longrightarrow> 0 < height r"
    using height_0_iff by blast+
  have push: "(if l \<noteq> Null then VisitStack_push l s else Inr s) = Inr ?s1"
    "(if r \<noteq> Null then VisitStack_push r ?s1 else Inr ?s1) = Inr ?s2"
    using "2.prems" n hl hr by (auto simp: VisitStack_push_def)
  have "clear_room ?s2" using "2.prems" n hl hr by auto
  then obtain xs where "clear_loop ?s2 = Inr xs" "mset xs = (\<Sum>n\<leftarrow>?s2. mset (inorder n))"
    using "2.IH" [OF n push] by blast
  moreover have "clear_loop (n # s) = bind_res (clear_loop ?s2) (\<lambda>xs. Inr (x # xs))"
    using n push by simp
  ultimately show ?case using n by auto
qed simp

declare clear_loop.simps(2) [simp del]

lemma GenTree_clear_ok:
  assumes "height (root t) \<le> MAX_HEIGHT"
  shows "\<exists>xs. GenTree_clear t = Inr (xs, t\<lparr>root := Null, cnt := 0\<rparr>) \<and> mset xs = mset (items t)"
  using clear_loop_ok [of "[root t]"] assms by (auto simp: GenTree_clear_def items_def)


section \<open>Copying duplicates the tree\<close>

lemma copy_loop_subtree:
  assumes "n \<noteq> Null" "distinct (inorder n)" "length ss + height n \<le> MAX_HEIGHT"
  shows "copy_loop (f + 3 * length (inorder n) - 1) Descend (n # ss) st (copy_Node n) =
    copy_loop f Pop (n # ss) st n"
  using assms
proof (induction n arbitrary: ss st f)
  case (Node l x b r)
  let ?n = "Node l x b r" and ?c = "Node Null x b Null"
  have size: "l \<noteq> Null \<Longrightarrow> 0 < length (inorder l)" "r \<noteq> Null \<Longrightarrow> 0 < length (inorder r)"
    by (cases l; cases r; simp)+
  have h: "l \<noteq> Null \<Longrightarrow> 0 < height l" "r \<noteq> Null \<Longrightarrow> 0 < height r"
    using height_0_iff by blast+
  have room: "Suc (length ss) \<noteq> MAX_HEIGHT" if "l \<noteq> Null \<or> r \<noteq> Null"
    using Node.prems(3) h that by auto
  have right: "copy_loop (f + 3 * length (inorder r) + 1) Right_test (?n # ss) st (Node l x b Null) =
      copy_loop f Pop (?n # ss) st ?n"
  proof (cases "r = Null")
    case False
    then have "copy_loop (f + 3 * length (inorder r)) Descend (r # ?n # ss) ((Node l x b Null, RIGHT) # st) (copy_Node r) =
        copy_loop (Suc f) Pop (r # ?n # ss) ((Node l x b Null, RIGHT) # st) r"
      using Node.IH(2) [of "?n # ss" "Suc f"] Node.prems by simp
    with False room show ?thesis by (simp add: VisitStack_push_def)
  qed simp
  show ?case
  proof (cases "l = Null")
    case True
    have "f + 3 * length (inorder ?n) - 1 = Suc (f + 3 * length (inorder r) + 1)" using True by simp
    with True right show ?thesis by (simp add: copy_Node_def)
  next
    case False
    let ?g = "f + 3 * length (inorder r) + 1"
    have "copy_loop (?g + 3 * length (inorder l)) Descend (l # ?n # ss) ((?c, LEFT) # st) (copy_Node l) =
        copy_loop (Suc ?g) Pop (l # ?n # ss) ((?c, LEFT) # st) l"
      using Node.IH(1) [of "?n # ss" "Suc ?g"] Node.prems False by simp
    moreover have "r \<noteq> l" using left_neq_right [of ?n] Node.prems False by (cases "r = Null") auto
    moreover have "f + 3 * length (inorder ?n) - 1 = Suc (?g + 3 * length (inorder l))" by simp
    moreover have "copy_loop (Suc ?g) Pop (l # ?n # ss) ((?c, LEFT) # st) l =
        copy_loop ?g Right_test (?n # ss) st (Node l x b Null)"
      using \<open>r \<noteq> l\<close> by (simp del: copy_loop.simps(4))
    moreover have "copy_loop (Suc (?g + 3 * length (inorder l))) Descend (?n # ss) st (copy_Node ?n) =
        copy_loop (?g + 3 * length (inorder l)) Descend (l # ?n # ss) ((?c, LEFT) # st) (copy_Node l)"
      using False room by (simp add: VisitStack_push_def copy_Node_def [of ?n] del: copy_loop.simps(4))
    ultimately show ?thesis using right by (simp only:)
  qed
qed simp

lemma GenTree_copy_ok:
  assumes "height (root t) \<le> MAX_HEIGHT" "height (root src) \<le> MAX_HEIGHT" "distinct (items src)"
    "cnt src = int (length (items src))"
  shows "GenTree_copy t src = Inr (t\<lparr>root := root src, cnt := cnt src\<rparr>)"
proof -
  obtain xs where cl: "GenTree_clear t = Inr (xs, t\<lparr>root := Null, cnt := 0\<rparr>)"
    using GenTree_clear_ok [OF assms(1)] by blast
  show ?thesis
  proof (cases "root src = Null")
    case True
    with cl assms(4) show ?thesis by (simp add: GenTree_copy_def items_def)
  next
    case False
    then have "copy_loop (Suc (3 * nat (cnt src))) Descend [root src] [] (copy_Node (root src)) = Inr (root src)"
      using copy_loop_subtree [of "root src" "[]" 2 "[]"] assms by (simp add: items_def numeral_2_eq_2)
    with cl False show ?thesis by (simp add: GenTree_copy_def)
  qed
qed

section \<open>Set algebra\<close>

context gen_tree
begin

lemma contains_iff: "GenTree_inv cmp key t \<Longrightarrow> GenTree_contains cmp key k t = has cmp key k (items t)"
  using find_node_eq [of key "root t" k]
  by (auto simp: GenTree_contains_def GenTree_inv_def items_def has_def find_item_None)

lemma addAll_ok:
  "GenTree_inv cmp key t \<Longrightarrow> length (items t) + length xs < 9227464 \<Longrightarrow>
   \<exists>t'. GenTree_addAll cmp key xs t = Inr t' \<and> GenTree_inv cmp key t' \<and>
     length (items t') \<le> length (items t) + length xs \<and>
     (\<forall>k. has cmp key k (items t') \<longleftrightarrow> has cmp key k (items t) \<or> has cmp key k xs)"
proof (induction xs arbitrary: t)
  case (Cons x xs)
  then obtain t1 where t1: "GenTree_add cmp key x t = Inr t1" "GenTree_inv cmp key t1"
    "items t1 = ins_item cmp key x (items t)"
    using gen_add [of t x] by auto
  have len: "length (items t1) \<le> Suc (length (items t))"
    using t1(3) length_ins_item by simp
  have "has cmp key k (items t1) \<longleftrightarrow> has cmp key k (items t) \<or> cmp k (key x) = 0" for k
  proof (cases "has cmp key (key x) (items t)")
    case True
    then have "set (items t1) = set (items t)"
      using set_ins_item [of key "items t" x] Cons.prems(1) t1(3) by (auto simp: GenTree_inv_def has_def)
    then show ?thesis using True has_cong [of k "key x" key "items t"] by (auto simp: has_def)
  next
    case False
    then have "set (items t1) = insert x (set (items t))"
      using set_ins_item [of key "items t" x] Cons.prems(1) t1(3) by (auto simp: GenTree_inv_def has_def)
    then show ?thesis by (auto simp: has_def)
  qed
  with Cons.IH [OF t1(2)] Cons.prems(2) len t1(1) show ?case by fastforce
qed simp

lemma removeAll_ok:
  "GenTree_inv cmp key t \<Longrightarrow> length (items t) < 9227464 \<Longrightarrow>
   \<exists>t'. GenTree_removeAll cmp key xs t = Inr t' \<and> GenTree_inv cmp key t' \<and>
     (\<forall>k. has cmp key k (items t') \<longleftrightarrow> has cmp key k (items t) \<and> \<not> has cmp key k xs)"
proof (induction xs arbitrary: t)
  case (Cons x xs)
  then obtain t1 where t1: "GenTree_remove cmp key x t = Inr t1" "GenTree_inv cmp key t1"
    "items t1 = del_item cmp key (key x) (items t)"
    using gen_del [of t "key x"] by (auto simp: GenTree_remove_def)
  have len: "length (items t1) \<le> length (items t)"
    using t1(3) length_del_item by simp
  have "set (items t1) = {y \<in> set (items t). cmp (key x) (key y) \<noteq> 0}"
    using set_del_item [of key "items t"] Cons.prems(1) t1(3) by (simp add: GenTree_inv_def)
  moreover have "cmp (key x) (key y) = 0 \<longleftrightarrow> cmp k (key x) = 0" if "cmp k (key y) = 0" for k y
    using that cmp_eq_trans [of k "key y" "key x"] cmp_eq_trans [of "key x" k "key y"]
      cmp_eq_sym [of k "key x"] cmp_eq_sym [of "key x" "key y"] by blast
  ultimately have "has cmp key k (items t1) \<longleftrightarrow> has cmp key k (items t) \<and> cmp k (key x) \<noteq> 0" for k
    by (auto simp: has_def)
  with Cons.IH [OF t1(2)] Cons.prems(2) len t1(1) show ?case by fastforce
qed simp

lemma iterate_ok: "GenTree_inv cmp key t \<Longrightarrow> length (items t) < 5702886 \<Longrightarrow> GenTree_iterate t = Inr (items t)"
  using GenTree_iterate_ok [of t] GenTree_height_31 [of cmp key t]
    sorted_wrt_less_distinct [OF comparator_axioms, of key "items t"]
  by (simp add: GenTree_inv_def)

lemma copy_ok: "GenTree_inv cmp key t \<Longrightarrow> length (items t) < 9227464 \<Longrightarrow>
    GenTree_inv cmp key s \<Longrightarrow> length (items s) < 9227464 \<Longrightarrow>
    GenTree_copy t s = Inr s"
  using GenTree_copy_ok [of t s] GenTree_height_32 [of cmp key t] GenTree_height_32 [of cmp key s]
    sorted_wrt_less_distinct [OF comparator_axioms, of key "items s"]
  by (simp add: GenTree_inv_def)

end

context comparator
begin

lemma subset_loop_ok:
  "sorted_items cmp id as \<Longrightarrow> sorted_items cmp id bs \<Longrightarrow>
   subset_loop cmp as bs \<longleftrightarrow> (\<forall>k. has cmp id k as \<longrightarrow> has cmp id k bs)"
proof -
  have "subset_loop cmp as bs = sub_items cmp as bs"
    by (induction cmp as bs rule: subset_loop.induct) auto
  then show "sorted_items cmp id as \<Longrightarrow> sorted_items cmp id bs \<Longrightarrow> ?thesis" by (simp only: sub_items_ok)
qed

end

section \<open>The queue\<close>

lemma Queue_head_loop_ok: "n \<noteq> Null \<Longrightarrow> Queue_head_loop n = Inr (hd (inorder n))"
proof (induction n)
  case (Node l x b r)
  then show ?case by (cases l) (auto simp: hd_append)
qed simp

lemma Queue_get_ok:
  assumes "GenTree_inv cmp key t" "cnt t < 9227464" "items t = x # xs"
  shows "\<exists>t'. Queue_get t = Inr (x, t') \<and> GenTree_inv cmp key t' \<and> items t' = xs"
proof -
  have t: "root t \<noteq> Null" "avl (root t)" "height (root t) \<le> MAX_HEIGHT"
    using assms GenTree_height_32 [OF assms(1,2)] by (auto simp: items_def GenTree_inv_def)
  then obtain ls z b r where lm: "leftMost [] (root t) = Inr (ls, Node Null z b r)"
    "\<forall>e \<in> set ls. snd e = LEFT" "avl r" "ctx_ok ls (Suc (height r))"
    "ctx_height ls (Suc (height r)) = height (root t)" "inorder (root t) = z # inorder r @ post ls"
    using leftMost_ok [of "[]" "root t"] by auto
  obtain q where q: "GenTree_remove_node ls (Node Null z b r) t = Inr (t\<lparr>cnt := cnt t - 1, root := q\<rparr>)"
    "avl q" "inorder q = pre ls @ inorder r @ post ls"
    using remove_specD [OF remove_loop_ok, of ls "height r" r] lm t
    by (auto simp: GenTree_remove_node_def AbstractTree_remove_def)
  have "pre ls = []" using pre_all_left [of ls "[]"] lm(2) by simp
  then have "inorder q = xs" using q(3) lm(6) assms(3) by (simp add: items_def)
  moreover have "z = x" using lm(6) assms(3) by (simp add: items_def)
  moreover have "sorted_items cmp key xs" "cnt t - 1 = int (length xs)"
    using assms(1,3) by (simp_all add: GenTree_inv_def)
  ultimately show ?thesis using q(1,2) lm(1) t(1) by (auto simp: Queue_get_def GenTree_inv_def items_def)
qed


lemma items_GenTree_new [simp]: "items GenTree_new = []" "avl (root GenTree_new)"
  by (simp_all add: GenTree_new_def items_def)

lemma cnt_GenTree_new [simp]: "cnt GenTree_new = 0"
  by (simp add: GenTree_new_def)


section \<open>Properties\<close>

text \<open>
  C5. The set operations compute the set algebra, modulo the equivalence of the comparator:
  on well-formed sets with less than 5702886 items together, \<^verbatim>\<open>join\<close>, \<^verbatim>\<open>diff\<close> and
  \<^verbatim>\<open>meet\<close> never fail, keep the sets well-formed and give union, difference and
  intersection of the members, and \<^verbatim>\<open>subsetOf\<close>, which runs over the two trees in
  parallel, decides inclusion.
\<close>

theorem avl_set_algebra:
  assumes "comparator cmp" "GenTree_inv cmp id t" "GenTree_inv cmp id s" "cnt t + cnt s < 5702886"
  shows "\<exists>j d m. Set_join cmp t s = Inr j \<and> Set_diff cmp t s = Inr d \<and> Set_meet cmp t s = Inr m \<and>
    GenTree_inv cmp id j \<and> GenTree_inv cmp id d \<and> GenTree_inv cmp id m \<and>
    (\<forall>x. GenTree_contains cmp id x j = (GenTree_contains cmp id x t \<or> GenTree_contains cmp id x s)) \<and>
    (\<forall>x. GenTree_contains cmp id x d = (GenTree_contains cmp id x t \<and> \<not> GenTree_contains cmp id x s)) \<and>
    (\<forall>x. GenTree_contains cmp id x m = (GenTree_contains cmp id x t \<and> GenTree_contains cmp id x s)) \<and>
    Set_subsetOf cmp t s = Inr (\<forall>x. GenTree_contains cmp id x t \<longrightarrow> GenTree_contains cmp id x s)"
proof -
  note gt = gen_treeI [OF assms(1)]
  have len: "length (items t) + length (items s) < 5702886"
    using assms(2-4) by (simp add: GenTree_inv_def)
  have it: "GenTree_iterate t = Inr (items t)" "GenTree_iterate s = Inr (items s)"
    using gen_tree.iterate_ok [OF gt assms(2)] gen_tree.iterate_ok [OF gt assms(3)] len by auto
  have new: "GenTree_inv cmp id GenTree_new" by (simp add: GenTree_inv_def cnt_GenTree_new)
  let ?xs = "filter (\<lambda>x. GenTree_contains cmp id x s) (items t)"
  have xs: "has cmp id k ?xs \<longleftrightarrow> has cmp id k (items t) \<and> has cmp id k (items s)" for k
  proof -
    have "has cmp id k (items s) \<longleftrightarrow> GenTree_contains cmp id y s" if "cmp k y = 0" for y
      using comparator.has_cong [OF assms(1) that] gen_tree.contains_iff [OF gt assms(3)] by blast
    then show ?thesis unfolding has_def [of cmp id k ?xs] has_def [of cmp id k "items t"] by auto
  qed
  have lxs: "length ?xs \<le> length (items t)" by simp
  obtain j where j: "Set_join cmp t s = Inr j" "GenTree_inv cmp id j"
    "\<forall>k. has cmp id k (items j) \<longleftrightarrow> has cmp id k (items t) \<or> has cmp id k (items s)"
    using gen_tree.addAll_ok [OF gt assms(2), of "items s"] len it by (auto simp: Set_join_def)
  obtain d where d: "Set_diff cmp t s = Inr d" "GenTree_inv cmp id d"
    "\<forall>k. has cmp id k (items d) \<longleftrightarrow> has cmp id k (items t) \<and> \<not> has cmp id k (items s)"
    using gen_tree.removeAll_ok [OF gt assms(2), of "items s"] len it by (auto simp: Set_diff_def)
  obtain m where m: "GenTree_addAll cmp id ?xs GenTree_new = Inr m" "GenTree_inv cmp id m"
    "length (items m) \<le> length ?xs" "\<forall>k. has cmp id k (items m) \<longleftrightarrow> has cmp id k ?xs"
    using gen_tree.addAll_ok [OF gt new, of ?xs] len lxs by auto
  have "GenTree_copy t m = Inr m"
    using gen_tree.copy_ok [OF gt assms(2) _ m(2)] m(3) lxs len by linarith
  then have sm: "Set_meet cmp t s = Inr m" using m(1) it by (simp add: Set_meet_def)
  have ss: "Set_subsetOf cmp t s = Inr (\<forall>k. has cmp id k (items t) \<longrightarrow> has cmp id k (items s))"
    using comparator.subset_loop_ok [OF assms(1), of "items t" "items s"] it assms(2,3)
    by (simp add: Set_subsetOf_def GenTree_inv_def id_def)
  show ?thesis
    using j d m(2,4) sm ss xs by (simp add: gen_tree.contains_iff [OF gt] assms(2,3))
qed

theorem avl_set_algebra_witness:
  "\<exists>j m. Set_join Comparator_compare tree_1_2 GenTree_new = Inr j \<and> GenTree_contains Comparator_compare id 2 j \<and>
     Set_meet Comparator_compare tree_1_2 GenTree_new = Inr m \<and> \<not> GenTree_contains Comparator_compare id 2 m \<and>
     Set_subsetOf Comparator_compare tree_1_2 GenTree_new = Inr False"
proof -
  have new: "GenTree_inv Comparator_compare id (GenTree_new :: int tree)"
    by (simp add: GenTree_inv_def)
  have c: "GenTree_contains Comparator_compare id 2 tree_1_2"
    "\<not> GenTree_contains Comparator_compare id (2::int) GenTree_new"
    by (simp_all add: GenTree_contains_def tree_1_2_def GenTree_new_def)
  show ?thesis
    using avl_set_algebra [OF comparator_Comparator_compare tree_1_2_inv new] c
    by (fastforce simp: tree_1_2_cnt)
qed

text \<open>
  C6. The laws of \<^verbatim>\<open>avl::Map\<close>: a value put under a fresh key is found again and no other
  binding changes; \<^verbatim>\<open>put\<close> on a bound key keeps the old value; a removed key is unbound and
  no other binding changes; the four ways of reading a key agree.
\<close>

theorem avl_map_laws:
  assumes "comparator cmp" "GenTree_inv cmp fst m" "cnt m < 9227464"
  shows "\<exists>m1 m2. Map_put cmp k v m = Inr m1 \<and> Map_remove cmp k m = Inr m2 \<and>
    GenTree_inv cmp fst m1 \<and> GenTree_inv cmp fst m2 \<and>
    (\<forall>j. Map_get cmp j m1 =
      (if cmp j k = 0 \<and> Map_get cmp k m = None then Some v else Map_get cmp j m)) \<and>
    (\<forall>j. Map_get cmp j m2 = (if cmp j k = 0 then None else Map_get cmp j m)) \<and>
    Map_hasKey cmp k m = (Map_get cmp k m \<noteq> None) \<and>
    Map_get_default cmp k d m = (case Map_get cmp k m of None \<Rightarrow> d | Some x \<Rightarrow> x) \<and>
    Map_index cmp k m =
      (case Map_get cmp k m of None \<Rightarrow> Inl (Exception ''KeyException'') | Some x \<Rightarrow> Inr x)"
proof -
  note gt = gen_treeI [OF assms(1)]
  have len: "length (items m) < 9227464" using assms(2,3) by (simp add: GenTree_inv_def)
  obtain m1 where m1: "Map_put cmp k v m = Inr m1" "GenTree_inv cmp fst m1"
    using gen_tree.gen_add [OF gt assms(2) len] by (auto simp: Map_put_def)
  obtain m2 where m2: "Map_remove cmp k m = Inr m2" "GenTree_inv cmp fst m2"
    using gen_tree.gen_del [OF gt assms(2) len] by (auto simp: Map_remove_def)
  have "Map_get cmp j m1 = (if cmp j k = 0 \<and> Map_get cmp k m = None then Some v else Map_get cmp j m)" for j
    using gen_tree.gen_get_add [OF gt assms(2) len, of "(k, v)" j] m1
    by (auto simp: Map_put_def Map_get_def split: option.splits)
  moreover have "Map_get cmp j m2 = (if cmp j k = 0 then None else Map_get cmp j m)" for j
    using gen_tree.gen_get_del [OF gt assms(2) len, of k j] m2
    by (auto simp: Map_remove_def Map_get_def)
  moreover have "Map_hasKey cmp k m = (Map_get cmp k m \<noteq> None)"
    "Map_get_default cmp k d m = (case Map_get cmp k m of None \<Rightarrow> d | Some x \<Rightarrow> x)"
    "Map_index cmp k m =
      (case Map_get cmp k m of None \<Rightarrow> Inl (Exception ''KeyException'') | Some x \<Rightarrow> Inr x)"
    by (auto simp: Map_hasKey_def Map_get_def Map_get_default_def Map_index_def split: option.splits)
  ultimately show ?thesis using m1 m2 by blast
qed

definition map_5 :: "(int \<times> string) tree" where
  "map_5 = \<lparr>root = Node Null (5, ''five'') 0 Null, cnt = 1\<rparr>"

theorem avl_map_laws_witness:
  "\<exists>m1. Map_put Comparator_compare 5 ''cinq'' map_5 = Inr m1 \<and>
     Map_get Comparator_compare 5 m1 = Some ''five''"
proof -
  have "GenTree_inv Comparator_compare fst map_5" "cnt map_5 < 9227464"
    by (simp_all add: GenTree_inv_def map_5_def items_def)
  moreover have "Map_get Comparator_compare 5 map_5 = Some ''five''"
    by (simp add: Map_get_def GenTree_get_def map_5_def)
  ultimately show ?thesis
    using avl_map_laws [OF comparator_Comparator_compare, of map_5 5 "''cinq''"] by fastforce
qed

text \<open>
  \<^verbatim>\<open>avl::Queue\<close> is a priority queue: on an empty queue \<^verbatim>\<open>head\<close> and \<^verbatim>\<open>get\<close> fail
  their assertion; on a non-empty one \<^verbatim>\<open>head\<close> reads a smallest item, \<^verbatim>\<open>get\<close> returns the
  same one and removes exactly it, keeping the tree well-formed and the order of the rest.
\<close>

lemma avl_queue_get_minimum:
  assumes "comparator cmp" "GenTree_inv cmp id q" "cnt q < 9227464"
  shows "(items q = [] \<longrightarrow> Queue_head q = Inl Assertion_failed \<and> Queue_get q = Inl Assertion_failed) \<and>
    (items q \<noteq> [] \<longrightarrow> (\<exists>x q'. Queue_head q = Inr x \<and> Queue_get q = Inr (x, q') \<and>
       GenTree_inv cmp id q' \<and> items q = x # items q' \<and> (\<forall>y \<in> set (items q'). cmp x y < 0)))"
proof (cases "items q")
  case Nil
  then have "root q = Null" by (cases "root q") (auto simp: items_def)
  with Nil show ?thesis by (simp add: Queue_head_def Queue_get_def)
next
  case (Cons x xs)
  then have "root q \<noteq> Null" by (auto simp: items_def)
  then have "Queue_head q = Inr x"
    using Queue_head_loop_ok [of "root q"] Cons by (simp add: Queue_head_def items_def)
  moreover have "\<forall>y \<in> set xs. cmp x y < 0"
    using assms(2) Cons by (simp add: GenTree_inv_def)
  ultimately show ?thesis using Queue_get_ok [OF assms(2,3) Cons] Cons by auto
qed

lemma avl_queue_get_minimum_witness:
  "\<exists>q'. Queue_get tree_1_2 = Inr (1, q') \<and> items q' = [2]"
  using avl_queue_get_minimum [OF comparator_Comparator_compare tree_1_2_inv]
  by (auto simp: tree_1_2_cnt)

text \<open>
  Clearing a tree of height at most 32 frees each of its nodes exactly once and leaves an
  empty tree; copying a well-formed tree over another one rebuilds exactly the same nodes with
  the same balance factors and the same count, whatever the target held.
\<close>

lemma avl_clear_copy:
  assumes "comparator cmp" "GenTree_inv cmp key t" "GenTree_inv cmp key s"
    "cnt t < 9227464" "cnt s < 9227464"
  shows "(\<exists>freed. GenTree_clear t = Inr (freed, GenTree_new) \<and> mset freed = mset (items t)) \<and>
    GenTree_copy t s = Inr s"
proof -
  have "t\<lparr>root := Null, cnt := 0\<rparr> = GenTree_new" by (simp add: GenTree_new_def)
  with GenTree_clear_ok [OF GenTree_height_32 [OF assms(2,4)]]
  have "\<exists>freed. GenTree_clear t = Inr (freed, GenTree_new) \<and> mset freed = mset (items t)" by simp
  moreover have "GenTree_copy t s = Inr s"
    using gen_tree.copy_ok [OF gen_treeI [OF assms(1)] assms(2) _ assms(3)] assms(2-5)
    by (simp add: GenTree_inv_def)
  ultimately show ?thesis by blast
qed

lemma avl_clear_copy_witness: "GenTree_copy tree_1_2 tree_1_2 = Inr tree_1_2"
  using avl_clear_copy [OF comparator_Comparator_compare tree_1_2_inv tree_1_2_inv]
  by (simp add: tree_1_2_cnt)

end
