(* ===== verification/Quick_Sort.thy ===== *)
theory Quick_Sort
  imports Elm_Prelude
begin

text \<open>
  The in-place quicksort of \<^verbatim>\<open>include/elm/data/quicksort.h\<close>: a non-recursive version with
  an explicit stack of 300 segments that handles the smaller part first. Array accesses and
  stack writes out of their bounds are errors of the model.
\<close>

section \<open>Model\<close>

definition max_stack :: nat where
  "max_stack = 300"

text \<open>
  The two inner scans; \<^verbatim>\<open>array[R]\<close> is read before \<^verbatim>\<open>L < R\<close> is tested, so the bound is
  checked first.
\<close>

function scan_down :: "('a \<Rightarrow> 'a \<Rightarrow> int) \<Rightarrow> 'a list \<Rightarrow> 'a \<Rightarrow> nat \<Rightarrow> nat \<Rightarrow> nat res" where
  "scan_down cmp xs piv L R =
     (if \<not> R < length xs then Inl Out_of_bounds
      else if 0 \<le> cmp (xs ! R) piv \<and> L < R then scan_down cmp xs piv L (R - 1)
      else Inr R)"
  by pat_completeness auto
termination by (relation "measure (\<lambda>(cmp, xs, piv, L, R). R)") auto

function scan_up :: "('a \<Rightarrow> 'a \<Rightarrow> int) \<Rightarrow> 'a list \<Rightarrow> 'a \<Rightarrow> nat \<Rightarrow> nat \<Rightarrow> nat res" where
  "scan_up cmp xs piv L R =
     (if \<not> L < length xs then Inl Out_of_bounds
      else if cmp (xs ! L) piv \<le> 0 \<and> L < R then scan_up cmp xs piv (L + 1) R
      else Inr L)"
  by pat_completeness auto
termination by (relation "measure (\<lambda>(cmp, xs, piv, L, R). R - L)") auto

declare scan_down.simps [simp del] scan_up.simps [simp del]

text \<open>One turn of the partition loop: the hole is at \<open>L\<close>, moves to \<open>R\<close> and back.\<close>

definition part_step ::
    "('a \<Rightarrow> 'a \<Rightarrow> int) \<Rightarrow> 'a \<Rightarrow> 'a list \<Rightarrow> nat \<Rightarrow> nat \<Rightarrow> ('a list \<times> nat \<times> nat) res" where
  "part_step cmp piv xs L R =
     bind_res (scan_down cmp xs piv L R) (\<lambda>R1.
       let (xs1, L1) = (if L < R1 then (xs[L := xs ! R1], L + 1) else (xs, L))
       in bind_res (scan_up cmp xs1 piv L1 R1) (\<lambda>L2.
            Inr (if L2 < R1 then (xs1[R1 := xs1 ! L2], L2, R1 - 1) else (xs1, L2, R1))))"

lemma scan_down_range: "scan_down cmp xs piv L R = Inr R' \<Longrightarrow> L \<le> R \<Longrightarrow> L \<le> R' \<and> R' \<le> R"
proof (induction cmp xs piv L R rule: scan_down.induct)
  case (1 cmp xs piv L R)
  show ?case
  proof (cases "R < length xs \<and> 0 \<le> cmp (xs ! R) piv \<and> L < R")
    case True
    then have "scan_down cmp xs piv L (R - 1) = Inr R'" "L \<le> R - 1"
      using "1.prems"(1) by (auto simp: scan_down.simps [of _ _ _ _ R])
    with "1.IH" True show ?thesis by auto
  next
    case False
    with 1 show ?thesis by (auto simp: scan_down.simps [of _ _ _ _ R] split: if_splits)
  qed
qed

lemma scan_up_range: "scan_up cmp xs piv L R = Inr L' \<Longrightarrow> L \<le> R \<Longrightarrow> L \<le> L' \<and> L' \<le> R"
proof (induction cmp xs piv L R rule: scan_up.induct)
  case (1 cmp xs piv L R)
  show ?case
  proof (cases "L < length xs \<and> cmp (xs ! L) piv \<le> 0 \<and> L < R")
    case True
    then have "scan_up cmp xs piv (L + 1) R = Inr L'" "L + 1 \<le> R"
      using "1.prems"(1) by (auto simp: scan_up.simps [of _ _ _ L])
    with "1.IH" True show ?thesis by auto
  next
    case False
    with 1 show ?thesis by (auto simp: scan_up.simps [of _ _ _ L] split: if_splits)
  qed
qed

lemma part_step_range:
  assumes "part_step cmp piv xs L R = Inr (xs', L', R')" "L < R"
  shows "L \<le> L' \<and> L' \<le> R' \<and> R' \<le> R \<and> R' - L' < R - L"
proof -
  obtain R1 where R1: "scan_down cmp xs piv L R = Inr R1"
    using assms(1) by (auto simp: part_step_def bind_res_eq_Inr)
  have r: "L \<le> R1" "R1 \<le> R" using scan_down_range [OF R1] assms(2) by auto
  let ?xs1 = "if L < R1 then xs[L := xs ! R1] else xs" and ?L1 = "if L < R1 then L + 1 else L"
  obtain L2 where L2: "scan_up cmp ?xs1 piv ?L1 R1 = Inr L2"
    "(xs', L', R') = (if L2 < R1 then (?xs1[R1 := ?xs1 ! L2], L2, R1 - 1) else (?xs1, L2, R1))"
    using assms(1) R1 by (auto simp: part_step_def bind_res_eq_Inr Let_def split: if_splits)
  have "?L1 \<le> L2" "L2 \<le> R1" using scan_up_range [OF L2(1)] r by auto
  with L2(2) r assms(2) show ?thesis by (auto split: if_splits)
qed

function part_loop :: "('a \<Rightarrow> 'a \<Rightarrow> int) \<Rightarrow> 'a \<Rightarrow> 'a list \<Rightarrow> nat \<Rightarrow> nat \<Rightarrow> ('a list \<times> nat) res" where
  "part_loop cmp piv xs L R =
     (if L < R then bind_res (part_step cmp piv xs L R) (\<lambda>(xs', L', R'). part_loop cmp piv xs' L' R')
      else Inr (xs, L))"
  by pat_completeness auto
termination
  by (relation "measure (\<lambda>(cmp, piv, xs, L, R). R - L)") (auto dest: part_step_range)

declare part_loop.simps [simp del]

lemma part_loop_range: "part_loop cmp piv xs L R = Inr (xs', L') \<Longrightarrow> L \<le> R \<Longrightarrow> L \<le> L' \<and> L' \<le> R"
proof (induction cmp piv xs L R rule: part_loop.induct)
  case (1 cmp piv xs L R)
  show ?case
  proof (cases "L < R")
    case True
    then obtain xs1 L1 R1 where "part_step cmp piv xs L R = Inr (xs1, L1, R1)"
      "part_loop cmp piv xs1 L1 R1 = Inr (xs', L')"
      using "1.prems"(1) by (auto simp: part_loop.simps [of _ _ _ L] bind_res_eq_Inr)
    with "1.IH" [OF True, of "(xs1, L1, R1)"] part_step_range [of cmp piv xs L R] True
    show ?thesis by fastforce
  next
    case False
    with 1 show ?thesis by (auto simp: part_loop.simps [of _ _ _ L])
  qed
qed

text \<open>
  The main loop on the stack of segments \<open>(beg[i], end[i])\<close>, its top first. A segment of at
  least two items is partitioned; the larger part stays and the smaller one goes on top.
\<close>

function qs_loop :: "('a \<Rightarrow> 'a \<Rightarrow> int) \<Rightarrow> (nat \<times> nat) list \<Rightarrow> 'a list \<Rightarrow> 'a list res" where
  "qs_loop cmp [] xs = Inr xs"
| "qs_loop cmp ((b, e) # S) xs =
     (if b < e - 1 then
        if \<not> b < length xs then Inl Out_of_bounds
        else bind_res (part_loop cmp (xs ! b) xs b (e - 1)) (\<lambda>(ys, L).
          if \<not> (L < length ys \<and> Suc (length S) < max_stack) then Inl Out_of_bounds
          else let ys' = ys[L := xs ! b]
               in if L - b < e - (L + 1) then qs_loop cmp ((b, L) # (L + 1, e) # S) ys'
                  else qs_loop cmp ((L + 1, e) # (b, L) # S) ys')
      else qs_loop cmp S xs)"
  by pat_completeness auto
termination
proof (relation "measure (\<lambda>(cmp, S, xs). \<Sum>(b, e)\<leftarrow>S. 2 * (e - b) + 1)", goal_cases)
  case (2 cmp b e S xs z ys L ys')
  then show ?case using part_loop_range [of cmp "xs ! b" xs b "e - 1" ys L] by (auto simp: bind_res_eq_Inr)
next
  case (3 cmp b e S xs z ys L ys')
  then show ?case using part_loop_range [of cmp "xs ! b" xs b "e - 1" ys L] by (auto simp: bind_res_eq_Inr)
qed auto

declare qs_loop.simps(2) [simp del]

definition quicksort :: "('a \<Rightarrow> 'a \<Rightarrow> int) \<Rightarrow> 'a list \<Rightarrow> 'a list res" where
  "quicksort cmp xs = qs_loop cmp [(0, length xs)] xs"

section \<open>Partitioning\<close>

lemma mset_move_hole:
  assumes "i < length xs" "j < length xs" "i \<noteq> j"
  shows "mset (xs[i := xs ! j, j := v]) = mset (xs[i := v])"
proof -
  let ?ys = "xs[i := v]"
  have "xs[i := xs ! j, j := v] = ?ys[i := ?ys ! j, j := ?ys ! i]"
    using assms by simp
  then show ?thesis using mset_swap [of j ?ys i] assms by simp
qed

lemma scan_down_ok:
  "L \<le> R \<Longrightarrow> R < length xs \<Longrightarrow>
   \<exists>R'. scan_down cmp xs piv L R = Inr R' \<and> L \<le> R' \<and> R' \<le> R \<and>
     (\<forall>k. R' < k \<and> k \<le> R \<longrightarrow> 0 \<le> cmp (xs ! k) piv) \<and> (L < R' \<longrightarrow> cmp (xs ! R') piv < 0)"
proof (induction cmp xs piv L R rule: scan_down.induct)
  case (1 cmp xs piv L R)
  show ?case
  proof (cases "0 \<le> cmp (xs ! R) piv \<and> L < R")
    case True
    then have p: "L \<le> R - 1" "R - 1 < length xs" using "1.prems" by auto
    obtain R' where R': "scan_down cmp xs piv L (R - 1) = Inr R'" "L \<le> R'" "R' \<le> R - 1"
      "\<forall>k. R' < k \<and> k \<le> R - 1 \<longrightarrow> 0 \<le> cmp (xs ! k) piv" "L < R' \<longrightarrow> cmp (xs ! R') piv < 0"
      using "1.IH" [OF _ True p] "1.prems"(2) by blast
    have "0 \<le> cmp (xs ! k) piv" if "R' < k" "k \<le> R" for k
      using that True R'(4) by (cases "k = R") auto
    with R' True "1.prems" show ?thesis by (auto simp: scan_down.simps [of _ _ _ _ R])
  next
    case False
    with "1.prems" show ?thesis by (auto simp: scan_down.simps [of _ _ _ _ R])
  qed
qed

lemma scan_up_ok:
  "L \<le> R \<Longrightarrow> R < length xs \<Longrightarrow>
   \<exists>L'. scan_up cmp xs piv L R = Inr L' \<and> L \<le> L' \<and> L' \<le> R \<and>
     (\<forall>k. L \<le> k \<and> k < L' \<longrightarrow> cmp (xs ! k) piv \<le> 0) \<and> (L' < R \<longrightarrow> 0 < cmp (xs ! L') piv)"
proof (induction cmp xs piv L R rule: scan_up.induct)
  case (1 cmp xs piv L R)
  show ?case
  proof (cases "cmp (xs ! L) piv \<le> 0 \<and> L < R")
    case True
    then obtain L' where L': "scan_up cmp xs piv (L + 1) R = Inr L'" "L + 1 \<le> L'" "L' \<le> R"
      "\<forall>k. L + 1 \<le> k \<and> k < L' \<longrightarrow> cmp (xs ! k) piv \<le> 0" "L' < R \<longrightarrow> 0 < cmp (xs ! L') piv"
      using "1.IH" "1.prems" by auto
    have "cmp (xs ! k) piv \<le> 0" if "L \<le> k" "k < L'" for k
      using that True L'(4) by (cases "k = L") auto
    with L' True "1.prems" show ?thesis by (auto simp: scan_up.simps [of _ _ _ L])
  next
    case False
    with "1.prems" show ?thesis by (auto simp: scan_up.simps [of _ _ _ L])
  qed
qed

text \<open>
  What one turn and the whole partition loop ensure on the positions \<open>L .. R\<close>: with the pivot
  written in the hole the items are permuted, the rest of the array is unchanged, and the
  items on both sides of the final hole are on the right side of the pivot.
\<close>

definition part_post ::
    "('a \<Rightarrow> 'a \<Rightarrow> int) \<Rightarrow> 'a \<Rightarrow> nat \<Rightarrow> nat \<Rightarrow> 'a list \<Rightarrow> 'a list \<Rightarrow> nat \<Rightarrow> nat \<Rightarrow> bool" where
  "part_post cmp piv L R xs xs' L' R' \<longleftrightarrow>
     L \<le> L' \<and> L' \<le> R' \<and> R' \<le> R \<and> length xs' = length xs \<and>
     mset (xs'[L' := piv]) = mset (xs[L := piv]) \<and>
     (\<forall>k. k < L \<or> R < k \<longrightarrow> xs' ! k = xs ! k) \<and>
     (\<forall>k. L \<le> k \<and> k < L' \<longrightarrow> cmp (xs' ! k) piv \<le> 0) \<and>
     (\<forall>k. R' < k \<and> k \<le> R \<longrightarrow> 0 \<le> cmp (xs' ! k) piv)"

lemma part_postI:
  assumes "L \<le> L'" "L' \<le> R'" "R' \<le> R" "length xs' = length xs"
    "mset (xs'[L' := piv]) = mset (xs[L := piv])"
    "\<And>k. k < L \<or> R < k \<Longrightarrow> xs' ! k = xs ! k"
    "\<And>k. L \<le> k \<Longrightarrow> k < L' \<Longrightarrow> cmp (xs' ! k) piv \<le> 0"
    "\<And>k. R' < k \<Longrightarrow> k \<le> R \<Longrightarrow> 0 \<le> cmp (xs' ! k) piv"
  shows "part_post cmp piv L R xs xs' L' R'"
  using assms by (auto simp: part_post_def)

lemma part_post_refl: "L \<le> R \<Longrightarrow> part_post cmp piv L R xs xs L R"
  by (auto simp: part_post_def)

lemma part_post_trans:
  assumes "part_post cmp piv L R xs xs1 L1 R1" "part_post cmp piv L1 R1 xs1 xs2 L2 R2"
  shows "part_post cmp piv L R xs xs2 L2 R2"
proof (rule part_postI)
  note a = assms [unfolded part_post_def]
  show "L \<le> L2" "L2 \<le> R2" "R2 \<le> R" "length xs2 = length xs" "mset (xs2[L2 := piv]) = mset (xs[L := piv])"
    using a by auto
  show "xs2 ! k = xs ! k" if "k < L \<or> R < k" for k
    using a that by (metis le_less_trans less_le_trans)
  show "cmp (xs2 ! k) piv \<le> 0" if "L \<le> k" "k < L2" for k
    using a that by (cases "k < L1") auto
  show "0 \<le> cmp (xs2 ! k) piv" if "R2 < k" "k \<le> R" for k
    using a that by (cases "R1 < k") auto
qed

lemma part_step_ok:
  assumes "L < R" "R < length xs"
  shows "\<exists>xs' L' R'. part_step cmp piv xs L R = Inr (xs', L', R') \<and> part_post cmp piv L R xs xs' L' R'"
proof -
  obtain R1 where R1: "scan_down cmp xs piv L R = Inr R1" "L \<le> R1" "R1 \<le> R"
    "\<forall>k. R1 < k \<and> k \<le> R \<longrightarrow> 0 \<le> cmp (xs ! k) piv" "L < R1 \<longrightarrow> cmp (xs ! R1) piv < 0"
    using scan_down_ok [of L R xs cmp piv] assms by auto
  show ?thesis
  proof (cases "L < R1")
    case False
    then have "R1 = L" using R1(2) by simp
    moreover have "scan_up cmp xs piv L L = Inr L" using assms by (simp add: scan_up.simps)
    ultimately have "part_step cmp piv xs L R = Inr (xs, L, L)" using R1(1) by (simp add: part_step_def)
    moreover have "part_post cmp piv L R xs xs L L"
      using R1(4) \<open>R1 = L\<close> assms by (intro part_postI) auto
    ultimately show ?thesis by blast
  next
    case True
    let ?xs1 = "xs[L := xs ! R1]"
    obtain L2 where L2: "scan_up cmp ?xs1 piv (L + 1) R1 = Inr L2" "L + 1 \<le> L2" "L2 \<le> R1"
      "\<forall>k. L + 1 \<le> k \<and> k < L2 \<longrightarrow> cmp (?xs1 ! k) piv \<le> 0" "L2 < R1 \<longrightarrow> 0 < cmp (?xs1 ! L2) piv"
      using scan_up_ok [of "L + 1" R1 ?xs1 cmp piv] True R1(3) assms by auto
    have lo: "cmp (?xs1 ! k) piv \<le> 0" if "L \<le> k" "k < L2" for k
      using that L2(4) R1(5) True assms by (cases "k = L") auto
    have hi: "0 \<le> cmp (?xs1 ! k) piv" if "R1 < k" "k \<le> R" for k
      using that R1(4) True by simp
    have m1: "mset (?xs1[R1 := piv]) = mset (xs[L := piv])"
      using mset_move_hole [of L xs R1 piv] True R1(3) assms by simp
    show ?thesis
    proof (cases "L2 < R1")
      case False
      with L2 have "L2 = R1" by simp
      moreover have "part_post cmp piv L R xs ?xs1 R1 R1"
        using lo hi m1 R1 True \<open>L2 = R1\<close> by (intro part_postI) auto
      ultimately show ?thesis using R1(1) L2(1) True by (simp add: part_step_def)
    next
      case less: True
      let ?xs2 = "?xs1[R1 := ?xs1 ! L2]"
      have "part_post cmp piv L R xs ?xs2 L2 (R1 - 1)"
      proof (rule part_postI)
        have "mset (?xs1[R1 := ?xs1 ! L2, L2 := piv]) = mset (?xs1[R1 := piv])"
          using less R1(3) assms L2(3) by (intro mset_move_hole) auto
        then show "mset (?xs2[L2 := piv]) = mset (xs[L := piv])" using m1 by simp
        show "cmp (?xs2 ! k) piv \<le> 0" if "L \<le> k" "k < L2" for k
          using lo [OF that] that less by simp
        show "0 \<le> cmp (?xs2 ! k) piv" if "R1 - 1 < k" "k \<le> R" for k
          using hi [of k] that less L2(5) R1(3) assms by (cases "k = R1") auto
      qed (use less True R1 L2 in auto)
      then show ?thesis using R1(1) L2(1) True less by (simp add: part_step_def)
    qed
  qed
qed

lemma part_loop_ok:
  "L \<le> R \<Longrightarrow> R < length xs \<Longrightarrow>
   \<exists>xs' L'. part_loop cmp piv xs L R = Inr (xs', L') \<and> part_post cmp piv L R xs xs' L' L'"
proof (induction cmp piv xs L R rule: part_loop.induct)
  case (1 cmp piv xs L R)
  show ?case
  proof (cases "L < R")
    case True
    obtain xs1 L1 R1 where s: "part_step cmp piv xs L R = Inr (xs1, L1, R1)"
      "part_post cmp piv L R xs xs1 L1 R1"
      using part_step_ok [OF True "1.prems"(2)] by blast
    then have "L1 \<le> R1" "R1 < length xs1" using "1.prems" by (auto simp: part_post_def)
    from "1.IH" [OF True s(1) refl refl this] obtain xs2 L2 where
      "part_loop cmp piv xs1 L1 R1 = Inr (xs2, L2)" "part_post cmp piv L1 R1 xs1 xs2 L2 L2" by blast
    with True s part_post_trans [OF s(2)] show ?thesis by (auto simp: part_loop.simps [of _ _ _ L])
  next
    case False
    then have "part_loop cmp piv xs L R = Inr (xs, L)" "R = L"
      using "1.prems" by (auto simp: part_loop.simps)
    with part_post_refl [of L R cmp piv xs] show ?thesis by simp
  qed
qed

section \<open>The main loop\<close>

definition disj :: "nat \<times> nat \<Rightarrow> nat \<times> nat \<Rightarrow> bool" where
  "disj s t \<longleftrightarrow> snd s \<le> fst t \<or> snd t \<le> fst s"

definition segs_ok :: "nat \<Rightarrow> (nat \<times> nat) list \<Rightarrow> bool" where
  "segs_ok n S \<longleftrightarrow> sorted_wrt disj S \<and> (\<forall>s \<in> set S. fst s \<le> snd s \<and> snd s \<le> n)"

text \<open>Two items are in order unless one pending segment holds both.\<close>

definition ordered_outside :: "('a \<Rightarrow> 'a \<Rightarrow> int) \<Rightarrow> (nat \<times> nat) set \<Rightarrow> 'a list \<Rightarrow> bool" where
  "ordered_outside cmp S xs \<longleftrightarrow>
     (\<forall>i j. i < j \<longrightarrow> j < length xs \<longrightarrow> cmp (xs ! i) (xs ! j) \<le> 0 \<or> (\<exists>s \<in> S. fst s \<le> i \<and> j < snd s))"

text \<open>The segment at depth \<open>d\<close> of the stack holds at most \<open>n / 2 ^ d\<close> items.\<close>

fun depth_ok :: "nat \<Rightarrow> (nat \<times> nat) list \<Rightarrow> bool" where
  "depth_ok n [] = True"
| "depth_ok n ((b, e) # S) = ((e - b) * 2 ^ length S \<le> n \<and> depth_ok n S)"

lemma segment_permuted:
  assumes "length ys = length xs" "mset ys = mset xs" "\<And>k. k < b \<or> e \<le> k \<Longrightarrow> ys ! k = xs ! k"
    "b \<le> e" "e \<le> length xs" "b \<le> j" "j < e"
  shows "\<exists>j'. b \<le> j' \<and> j' < e \<and> ys ! j = xs ! j'"
proof -
  let ?seg = "\<lambda>zs. take (e - b) (drop b zs)"
  have split: "zs = take b zs @ ?seg zs @ drop e zs" for zs :: "'a list"
    using assms(4) by (metis append_take_drop_id drop_drop le_add_diff_inverse2)
  have "take b ys = take b xs" "drop e ys = drop e xs"
    using assms by (auto intro!: nth_equalityI)
  then have "mset (?seg ys) = mset (?seg xs)"
    using assms(2) split [of xs] split [of ys] by (metis add_left_cancel add_right_cancel mset_append)
  moreover have "?seg ys ! (j - b) = ys ! j" "j - b < length (?seg ys)"
    using assms by auto
  ultimately have "ys ! j \<in> set (?seg xs)" by (metis mset_eq_setD nth_mem)
  then obtain k where "k < length (?seg xs)" "?seg xs ! k = ys ! j" by (auto simp: in_set_conv_nth)
  then show ?thesis using assms(4,5) by (intro exI [of _ "b + k"]) auto
qed

context comparator
begin

lemma part_segment:
  assumes p: "part_post cmp piv b (e - 1) xs ys L L" and piv: "piv = xs ! b"
    and be: "Suc b < e" "e \<le> length xs"
  defines "ys' \<equiv> ys[L := piv]"
  shows "length ys' = length xs" "mset ys' = mset xs" "b \<le> L" "L < e"
    "\<And>k. k < b \<or> e \<le> k \<Longrightarrow> ys' ! k = xs ! k"
    "\<And>i j. b \<le> i \<Longrightarrow> i \<le> L \<Longrightarrow> L \<le> j \<Longrightarrow> j < e \<Longrightarrow> cmp (ys' ! i) (ys' ! j) \<le> 0"
proof -
  note p = p [unfolded part_post_def]
  show len: "length ys' = length xs" "b \<le> L" "L < e"
    using p be by (auto simp: ys'_def)
  have "xs[b := piv] = xs" using piv be by simp
  with p show "mset ys' = mset xs" by (simp add: ys'_def)
  show "ys' ! k = xs ! k" if "k < b \<or> e \<le> k" for k
    using p that be by (auto simp: ys'_def)
  show "cmp (ys' ! i) (ys' ! j) \<le> 0" if ij: "b \<le> i" "i \<le> L" "L \<le> j" "j < e" for i j
  proof -
    have "cmp (ys' ! i) piv \<le> 0" using p ij be len by (cases "i = L") (auto simp: ys'_def cmp_refl)
    moreover have "0 \<le> cmp (ys' ! j) piv" using p ij be len by (cases "j = L") (auto simp: ys'_def cmp_refl)
    ultimately show ?thesis using cmp_trans [of "ys' ! i" piv "ys' ! j"] cmp_le_iff by simp
  qed
qed

lemma ordered_split:
  assumes ok: "segs_ok (length xs) ((b, e) # S)" and ord: "ordered_outside cmp (set ((b, e) # S)) xs"
    and p: "part_post cmp (xs ! b) b (e - 1) xs ys L L" and be: "Suc b < e"
  shows "ordered_outside cmp ({(b, L), (L + 1, e)} \<union> set S) (ys[L := xs ! b])"
proof -
  let ?ys = "ys[L := xs ! b]"
  have e: "e \<le> length xs" using ok by (simp add: segs_ok_def)
  note seg = part_segment [OF p refl be e]
  have perm: "\<exists>j'. b \<le> j' \<and> j' < e \<and> ?ys ! j = xs ! j'" if "b \<le> j" "j < e" for j
    using segment_permuted [OF seg(1,2), of b e j] seg(5) that be e by auto
  have disj: "e \<le> b' \<or> e' \<le> b" if "(b', e') \<in> set S" for b' e'
    using ok that by (auto simp: segs_ok_def disj_def)
  have old: "cmp (xs ! i) (xs ! j) \<le> 0 \<or> b \<le> i \<and> j < e \<or> (\<exists>s \<in> set S. fst s \<le> i \<and> j < snd s)"
    if "i < j" "j < length xs" for i j
    using ord that unfolding ordered_outside_def by auto
  show ?thesis
    unfolding ordered_outside_def
  proof (intro allI impI)
    fix i j
    assume ij: "i < j" "j < length ?ys"
    let ?goal = "cmp (?ys ! i) (?ys ! j) \<le> 0 \<or> (\<exists>s \<in> {(b, L), (L + 1, e)} \<union> set S. fst s \<le> i \<and> j < snd s)"
    consider "b \<le> i" "j < e" | "i < b" "b \<le> j" "j < e" | "b \<le> i" "i < e" "e \<le> j" |
      "i < b" "j < b \<or> e \<le> j" | "e \<le> i" by linarith
    then show ?goal
    proof cases
      case 1
      then consider "j < L" | "L < i" | "i \<le> L" "L \<le> j" by linarith
      then show ?thesis using 1 seg(6) [of i j] by cases auto
    next
      case 2
      then obtain j' where "b \<le> j'" "j' < e" "?ys ! j = xs ! j'" using perm [of j] be by auto
      with old [of i j'] 2 e seg(5) [of i] disj show ?thesis by fastforce
    next
      case 3
      then obtain i' where "b \<le> i'" "i' < e" "?ys ! i = xs ! i'" using perm [of i] be by auto
      with old [of i' j] 3 ij seg(1) seg(5) [of j] disj show ?thesis by fastforce
    next
      case 4
      with old [of i j] ij seg(1) seg(5) [of i] seg(5) [of j] show ?thesis by auto
    next
      case 5
      with old [of i j] ij seg(1) seg(5) [of i] seg(5) [of j] show ?thesis by auto
    qed
  qed
qed

end

lemma depth_split:
  assumes "depth_ok n ((b, e) # S)" "n < 2 ^ 31" "Suc b < e" "b \<le> L" "L < e"
  shows "Suc (length S) < max_stack"
    "L - b < e - (L + 1) \<Longrightarrow> depth_ok n ((b, L) # (L + 1, e) # S)"
    "\<not> L - b < e - (L + 1) \<Longrightarrow> depth_ok n ((L + 1, e) # (b, L) # S)"
proof -
  have n: "(e - b) * 2 ^ length S \<le> n" "depth_ok n S" using assms(1) by simp_all
  have "2 * 2 ^ length S \<le> (e - b) * 2 ^ length S" using assms(3) by (intro mult_le_mono1) simp
  then have "2 ^ Suc (length S) \<le> n" unfolding power_Suc using n(1) by (rule le_trans)
  then have "2 ^ Suc (length S) < (2 :: nat) ^ 31" using assms(2) by (rule le_less_trans)
  then have "Suc (length S) < 31" by (rule power_less_imp_less_exp [rotated]) simp
  then show "Suc (length S) < max_stack" by (simp add: max_stack_def)
  have le: "k * 2 ^ length S \<le> n" if "k \<le> e - b" for k
    using n(1) that by (meson le_trans mult_le_mono1)
  have half: "k * 2 ^ Suc (length S) \<le> n" if "2 * k \<le> e - b" for k
    using le [OF that] by (simp add: mult.assoc mult.left_commute)
  show "depth_ok n ((b, L) # (L + 1, e) # S)" if "L - b < e - (L + 1)"
    using n(2) le [of "e - (L + 1)"] half [of "L - b"] that assms by simp
  show "depth_ok n ((L + 1, e) # (b, L) # S)" if "\<not> L - b < e - (L + 1)"
    using n(2) le [of "L - b"] half [of "e - (L + 1)"] that assms by simp
qed

lemma segs_split:
  assumes "segs_ok n ((b, e) # S)" "b \<le> L" "L < e"
  shows "segs_ok n ((b, L) # (L + 1, e) # S)" "segs_ok n ((L + 1, e) # (b, L) # S)"
  using assms by (auto simp: segs_ok_def disj_def)

lemma qs_loop_ok:
  "comparator cmp \<Longrightarrow> segs_ok (length xs) S \<Longrightarrow> ordered_outside cmp (set S) xs \<Longrightarrow> depth_ok n S \<Longrightarrow> n < 2 ^ 31 \<Longrightarrow>
   \<exists>ys. qs_loop cmp S xs = Inr ys \<and> mset ys = mset xs \<and> sorted_wrt (\<lambda>x y. cmp x y \<le> 0) ys"
proof (induction cmp S xs rule: qs_loop.induct)
  case (1 cmp xs)
  then show ?case by (auto simp: ordered_outside_def sorted_wrt_iff_nth_less)
next
  case (2 cmp b e S xs)
  have e: "b \<le> e" "e \<le> length xs" using "2.prems"(2) by (simp_all add: segs_ok_def)
  show ?case
  proof (cases "b < e - 1")
    case True
    then have be: "Suc b < e" "b < length xs" "e - 1 < length xs" "b \<le> e - 1" using e by auto
    obtain ys L where pl: "part_loop cmp (xs ! b) xs b (e - 1) = Inr (ys, L)"
      and p: "part_post cmp (xs ! b) b (e - 1) xs ys L L"
      using part_loop_ok [OF be(4,3)] by blast
    let ?ys = "ys[L := xs ! b]"
    note seg = comparator.part_segment [OF "2.prems"(1) p refl be(1) e(2)]
    note ord = comparator.ordered_split [OF "2.prems"(1,2,3) p be(1)]
    note depth = depth_split [OF "2.prems"(4,5) be(1) seg(3,4)]
    note segs = segs_split [OF "2.prems"(2) seg(3,4)]
    have L: "L < length ys" using seg e by simp
    have step: "qs_loop cmp ((b, e) # S) xs =
        (if L - b < e - (L + 1) then qs_loop cmp ((b, L) # (L + 1, e) # S) ?ys
         else qs_loop cmp ((L + 1, e) # (b, L) # S) ?ys)"
      using True be pl depth(1) L by (simp add: qs_loop.simps(2) Let_def)
    have bnd: "\<not> \<not> b < length xs" "\<not> \<not> (L < length ys \<and> Suc (length S) < max_stack)"
      using be L depth(1) by simp_all
    show ?thesis
    proof (cases "L - b < e - (L + 1)")
      case less: True
      have "ordered_outside cmp (set ((b, L) # (L + 1, e) # S)) ?ys" using ord by simp
      from "2.IH"(1) [OF True bnd(1) pl refl bnd(2) refl less "2.prems"(1) _ this depth(2) [OF less] "2.prems"(5)]
      show ?thesis using segs(1) seg(1,2) step less by simp
    next
      case ge: False
      have "ordered_outside cmp (set ((L + 1, e) # (b, L) # S)) ?ys" using ord by (simp add: insert_commute)
      from "2.IH"(2) [OF True bnd(1) pl refl bnd(2) refl ge "2.prems"(1) _ this depth(3) [OF ge] "2.prems"(5)]
      show ?thesis using segs(2) seg(1,2) step ge by simp
    qed
  next
    case False
    have "ordered_outside cmp (set S) xs"
      unfolding ordered_outside_def
    proof (intro allI impI)
      fix i j assume ij: "i < j" "j < length xs"
      then consider "cmp (xs ! i) (xs ! j) \<le> 0" | "b \<le> i" "j < e" | "\<exists>s \<in> set S. fst s \<le> i \<and> j < snd s"
        using "2.prems"(3) unfolding ordered_outside_def by fastforce
      then show "cmp (xs ! i) (xs ! j) \<le> 0 \<or> (\<exists>s \<in> set S. fst s \<le> i \<and> j < snd s)"
        using False ij by cases auto
    qed
    with "2.IH"(3) [OF False "2.prems"(1)] "2.prems" False show ?thesis
      by (simp add: qs_loop.simps(2) segs_ok_def)
  qed
qed


section \<open>Properties\<close>

text \<open>
  C7. Quicksort of an array whose length fits a C++ \<^verbatim>\<open>int\<close>, with any comparator that is a
  total preorder: it ends, no array access and no write of the 300-entry segment stack is out
  of bounds, and the result is a sorted permutation of the input.
\<close>

theorem quicksort_correct:
  assumes "comparator cmp" "length xs < 2 ^ 31"
  shows "\<exists>ys. quicksort cmp xs = Inr ys \<and> mset ys = mset xs \<and> sorted_wrt (\<lambda>x y. cmp x y \<le> 0) ys"
  unfolding quicksort_def
  by (rule qs_loop_ok [OF assms(1) _ _ _ assms(2)]) (auto simp: segs_ok_def ordered_outside_def)

theorem quicksort_correct_witness:
  "\<exists>ys. quicksort Comparator_compare [3, 1, 2 :: int] = Inr ys \<and> mset ys = {#1, 2, 3#}"
  using quicksort_correct [OF comparator_Comparator_compare, of "[3, 1, 2 :: int]"] by auto

end
