(* ===== verification/Elm_Queues.thy ===== *)
theory Elm_Queues
  imports Elm_Prelude
begin

text \<open>
  First-in first-out queues: the contract \<open>fifo_queue\<close>, the growing ring buffer
  \<^verbatim>\<open>VectorQueue\<close> (\<^verbatim>\<open>include/elm/data/VectorQueue.h\<close>), the linked
  \<^verbatim>\<open>ListQueue\<close> (\<^verbatim>\<open>include/elm/data/ListQueue.h\<close>) and the bounded stack
  \<^verbatim>\<open>StaticStack\<close> (\<^verbatim>\<open>include/elm/data/StaticStack.h\<close>).
\<close>

section \<open>The contract of a queue\<close>

datatype 'a qop = Put 'a | Get

fun fifo_run :: "('a \<Rightarrow> 'q \<Rightarrow> 'q res) \<Rightarrow> ('q \<Rightarrow> ('a \<times> 'q) res) \<Rightarrow> 'a qop list \<Rightarrow> 'q \<Rightarrow> ('a list \<times> 'q) res" where
  "fifo_run put get [] q = Inr ([], q)"
| "fifo_run put get (Put x # ops) q = bind_res (put x q) (fifo_run put get ops)"
| "fifo_run put get (Get # ops) q =
     bind_res (get q) (\<lambda>(x, q'). bind_res (fifo_run put get ops q') (\<lambda>(ys, q''). Inr (x # ys, q'')))"

text \<open>What the same operations do on a list whose head is the front of the queue.\<close>

fun fifo_spec :: "'a qop list \<Rightarrow> 'a list \<Rightarrow> ('a list \<times> 'a list) res" where
  "fifo_spec [] xs = Inr ([], xs)"
| "fifo_spec (Put x # ops) xs = fifo_spec ops (xs @ [x])"
| "fifo_spec (Get # ops) [] = Inl Assertion_failed"
| "fifo_spec (Get # ops) (x # xs) = bind_res (fifo_spec ops xs) (\<lambda>(ys, zs). Inr (x # ys, zs))"

locale fifo_queue =
  fixes inv :: "'q \<Rightarrow> bool"
    and contents :: "'q \<Rightarrow> 'a list"
    and fits :: "nat \<Rightarrow> bool"
    and put :: "'a \<Rightarrow> 'q \<Rightarrow> 'q res"
    and get :: "'q \<Rightarrow> ('a \<times> 'q) res"
    and head :: "'q \<Rightarrow> 'a res"
    and isEmpty :: "'q \<Rightarrow> bool"
  assumes fits_mono: "fits n \<Longrightarrow> m \<le> n \<Longrightarrow> fits m"
    and put_law: "inv q \<Longrightarrow> fits (Suc (length (contents q))) \<Longrightarrow>
      \<exists>q'. put x q = Inr q' \<and> inv q' \<and> contents q' = contents q @ [x]"
    and get_nil: "inv q \<Longrightarrow> contents q = [] \<Longrightarrow> get q = Inl Assertion_failed"
    and get_cons: "inv q \<Longrightarrow> contents q = x # xs \<Longrightarrow>
      \<exists>q'. get q = Inr (x, q') \<and> inv q' \<and> contents q' = xs"
    and head_law: "inv q \<Longrightarrow>
      head q = (case contents q of [] \<Rightarrow> Inl Assertion_failed | x # xs \<Rightarrow> Inr x)"
    and isEmpty_law: "inv q \<Longrightarrow> isEmpty q = (contents q = [])"
begin

lemma run_refines:
  "inv q \<Longrightarrow> fits (length (contents q) + length ops) \<Longrightarrow>
   (case fifo_spec ops (contents q) of
      Inl e \<Rightarrow> fifo_run put get ops q = Inl e
    | Inr (ys, zs) \<Rightarrow> \<exists>q'. fifo_run put get ops q = Inr (ys, q') \<and> inv q' \<and> contents q' = zs)"
proof (induction ops arbitrary: q)
  case (Cons p ops)
  show ?case
  proof (cases p)
    case (Put x)
    obtain q' where "put x q = Inr q'" "inv q'" "contents q' = contents q @ [x]"
      using put_law [OF Cons.prems(1)] fits_mono [OF Cons.prems(2)] by auto
    with Cons.IH [of q'] Cons.prems(2) Put show ?thesis by (auto split: sum.splits)
  next
    case Get
    show ?thesis
    proof (cases "contents q")
      case Nil
      with get_nil [OF Cons.prems(1)] Get show ?thesis by simp
    next
      case (Cons x xs)
      then obtain q' where q': "get q = Inr (x, q')" "inv q'" "contents q' = xs"
        using get_cons [OF Cons.prems(1)] by blast
      have "fits (length (contents q') + length ops)"
        using fits_mono [OF Cons.prems(2)] q'(3) Cons by simp
      from Cons.IH [OF q'(2) this] Cons q' Get show ?thesis
        by (auto simp: bind_res_def split: sum.splits)
    qed
  qed
qed simp

text \<open>Items leave the queue in the order in which they entered it.\<close>

lemma put_all_get_all:
  "inv q \<Longrightarrow> contents q = [] \<Longrightarrow> fits (2 * length xs) \<Longrightarrow>
   \<exists>q'. fifo_run put get (map Put xs @ map (\<lambda>_. Get) xs) q = Inr (xs, q') \<and> inv q' \<and> contents q' = []"
proof -
  assume q: "inv q" "contents q = []" "fits (2 * length xs)"
  have "fifo_spec (map (\<lambda>_. Get) xs) xs = Inr (xs, [])" for xs :: "'a list"
    by (induction xs) auto
  moreover have "fifo_spec (map Put ys @ ops) zs = fifo_spec ops (zs @ ys)" for ys zs :: "'a list" and ops
    by (induction ys arbitrary: zs) auto
  ultimately show ?thesis
    using run_refines [OF q(1), of "map Put xs @ map (\<lambda>_. Get) xs"] q by (simp add: mult_2)
qed

end


section \<open>VectorQueue\<close>

text \<open>
  \<open>dflt\<close> is the default-constructed item that \<^verbatim>\<open>new T[n]\<close> puts in each cell. Doubling a
  capacity of \<open>2 ^ 30\<close> overflows the \<^verbatim>\<open>int\<close> that holds it, and the allocation throws.
\<close>

record 'a vqueue =
  q_hd :: nat
  q_tl :: nat
  cap :: nat
  buffer :: "'a list"

definition VectorQueue_new :: "'a \<Rightarrow> nat \<Rightarrow> 'a vqueue" where
  "VectorQueue_new dflt capacity =
     \<lparr>q_hd = 0, q_tl = 0, cap = push_bit capacity 1, buffer = replicate (push_bit capacity 1) dflt\<rparr>"

definition VectorQueue_enlarge :: "'a \<Rightarrow> 'a vqueue \<Rightarrow> 'a vqueue res" where
  "VectorQueue_enlarge dflt q =
     (let new_cap = cap q * 2;
          off = (if q_tl q < q_hd q then cap q - q_hd q else 0);
          hd' = (if q_tl q < q_hd q then 0 else q_hd q);
          moved = map (\<lambda>i. buffer q ! (q_hd q + i)) [0..<off] @ map (\<lambda>i. buffer q ! i) [hd'..<q_tl q]
      in if 2 ^ 31 \<le> new_cap then Inl (Exception ''bad_array_new_length'')
         else Inr \<lparr>q_hd = hd', q_tl = off + q_tl q - hd', cap = new_cap,
                   buffer = moved @ replicate (new_cap - length moved) dflt\<rparr>)"

definition VectorQueue_put :: "'a \<Rightarrow> 'a \<Rightarrow> 'a vqueue \<Rightarrow> 'a vqueue res" where
  "VectorQueue_put dflt x q =
     (let new_tl = (q_tl q + 1) AND (cap q - 1)
      in bind_res
           (if new_tl = q_hd q then bind_res (VectorQueue_enlarge dflt q) (\<lambda>q'. Inr (q', q_tl q' + 1))
            else Inr (q, new_tl))
           (\<lambda>(q', new_tl').
              if q_tl q' < length (buffer q')
              then Inr (q'\<lparr>buffer := (buffer q')[q_tl q' := x], q_tl := new_tl'\<rparr>)
              else Inl Out_of_bounds))"

definition VectorQueue_head :: "'a vqueue \<Rightarrow> 'a res" where
  "VectorQueue_head q =
     (if q_hd q = q_tl q then Inl Assertion_failed
      else if q_hd q < length (buffer q) then Inr (buffer q ! q_hd q) else Inl Out_of_bounds)"

definition VectorQueue_get :: "'a vqueue \<Rightarrow> ('a \<times> 'a vqueue) res" where
  "VectorQueue_get q =
     (if q_hd q = q_tl q then Inl Assertion_failed
      else if q_hd q < length (buffer q)
        then Inr (buffer q ! q_hd q, q\<lparr>q_hd := (q_hd q + 1) AND (cap q - 1)\<rparr>)
      else Inl Out_of_bounds)"

definition VectorQueue_isEmpty :: "'a vqueue \<Rightarrow> bool" where
  "VectorQueue_isEmpty q = (q_hd q = q_tl q)"

definition VectorQueue_size :: "'a vqueue \<Rightarrow> nat" where
  "VectorQueue_size q = (if q_hd q < q_tl q then q_tl q - q_hd q else (cap q - q_hd q) + q_tl q)"

definition VectorQueue_reset :: "'a vqueue \<Rightarrow> 'a vqueue" where
  "VectorQueue_reset q = q\<lparr>q_hd := 0, q_tl := 0\<rparr>"

text \<open>The scan of \<^verbatim>\<open>contains\<close>; a ring has at most \<open>cap\<close> cells, which is its fuel.\<close>

fun vq_scan :: "('a \<Rightarrow> 'a \<Rightarrow> bool) \<Rightarrow> 'a \<Rightarrow> 'a vqueue \<Rightarrow> nat \<Rightarrow> nat \<Rightarrow> bool res" where
  "vq_scan eq x q 0 i = (if i = q_tl q then Inr False else Inl Out_of_fuel)"
| "vq_scan eq x q (Suc f) i =
     (if i = q_tl q then Inr False
      else if eq (buffer q ! i) x then Inr True
      else vq_scan eq x q f ((i + 1) AND (cap q - 1)))"

definition VectorQueue_contains :: "('a \<Rightarrow> 'a \<Rightarrow> bool) \<Rightarrow> 'a \<Rightarrow> 'a vqueue \<Rightarrow> bool res" where
  "VectorQueue_contains eq x q = vq_scan eq x q (cap q) (q_hd q)"


subsection \<open>Invariant and contents\<close>

definition vq_len :: "'a vqueue \<Rightarrow> nat" where
  "vq_len q = (q_tl q + cap q - q_hd q) mod cap q"

definition vq_contents :: "'a vqueue \<Rightarrow> 'a list" where
  "vq_contents q = map (\<lambda>i. buffer q ! ((q_hd q + i) mod cap q)) [0..<vq_len q]"

definition vq_inv :: "'a vqueue \<Rightarrow> bool" where
  "vq_inv q \<longleftrightarrow> (\<exists>k \<le> 30. cap q = 2 ^ k) \<and> length (buffer q) = cap q \<and> q_hd q < cap q \<and> q_tl q < cap q"

lemma mask_mod: "(x :: nat) AND (2 ^ k - 1) = x mod 2 ^ k"
  by (simp only: mask_eq_exp_minus_1 [symmetric] take_bit_eq_mask [symmetric] take_bit_eq_mod)

lemma vq_mask: "vq_inv q \<Longrightarrow> x AND (cap q - 1) = x mod cap q"
  unfolding vq_inv_def by (elim exE conjE) (simp only: mask_mod)

lemma mod_wrap: "(i :: nat) < 2 * n \<Longrightarrow> i mod n = (if i < n then i else i - n)"
  by (simp add: le_mod_geq)

lemma vq_len_cases: "vq_inv q \<Longrightarrow> vq_len q = (if q_hd q \<le> q_tl q then q_tl q - q_hd q else q_tl q + cap q - q_hd q)"
  using mod_wrap [of "q_tl q + cap q - q_hd q" "cap q"]
  by (cases "q_hd q \<le> q_tl q") (auto simp: vq_inv_def vq_len_def simp del: mod_less)

lemma length_vq_contents [simp]: "length (vq_contents q) = vq_len q"
  by (simp add: vq_contents_def)

lemma nth_vq_contents: "i < vq_len q \<Longrightarrow> vq_contents q ! i = buffer q ! ((q_hd q + i) mod cap q)"
  by (simp add: vq_contents_def)

lemma vq_inv_reset: "vq_inv q \<Longrightarrow> vq_inv (VectorQueue_reset q) \<and> vq_contents (VectorQueue_reset q) = []"
  by (auto simp: vq_inv_def VectorQueue_reset_def vq_contents_def vq_len_def)

lemma vq_inv_new: "k \<le> 30 \<Longrightarrow> vq_inv (VectorQueue_new d k) \<and> vq_contents (VectorQueue_new d k) = []"
  by (auto simp: vq_inv_def VectorQueue_new_def vq_contents_def vq_len_def push_bit_eq_mult)

lemma vq_enlarge_ok:
  assumes inv: "vq_inv q" and cap: "cap q < 2 ^ 30" and full: "(q_tl q + 1) mod cap q = q_hd q"
  shows "\<exists>q'. VectorQueue_enlarge d q = Inr q' \<and> vq_inv q' \<and> vq_contents q' = vq_contents q \<and>
    q_hd q' = 0 \<and> q_tl q' + 1 = cap q \<and> cap q' = 2 * cap q"
proof -
  obtain k where k: "cap q = 2 ^ k" "k \<le> 30" using inv by (auto simp: vq_inv_def)
  then have "k < 30" using cap by (cases "k = 30") auto
  have bnd: "q_hd q < cap q" "q_tl q < cap q" "length (buffer q) = cap q"
    using inv by (simp_all add: vq_inv_def)
  have full': "q_hd q = 0 \<and> q_tl q + 1 = cap q \<or> q_hd q = q_tl q + 1"
    using full bnd by (cases "q_tl q + 1 = cap q") auto
  let ?off = "if q_tl q < q_hd q then cap q - q_hd q else 0"
  let ?hd = "if q_tl q < q_hd q then 0 else q_hd q"
  let ?moved = "map (\<lambda>i. buffer q ! (q_hd q + i)) [0..<?off] @ map (\<lambda>i. buffer q ! i) [?hd..<q_tl q]"
  let ?q = "\<lparr>q_hd = ?hd, q_tl = ?off + q_tl q - ?hd, cap = cap q * 2,
    buffer = ?moved @ replicate (cap q * 2 - length ?moved) d\<rparr>"
  have len: "vq_len q = cap q - 1" using full' bnd vq_len_cases [OF inv] by auto
  have moved: "?moved = vq_contents q"
  proof (rule nth_equalityI)
    show l: "length ?moved = length (vq_contents q)" using full' bnd len by auto
    fix i assume "i < length ?moved"
    then have i: "i < cap q - 1" using l len by simp
    then have "(q_hd q + i) mod cap q = (if q_hd q + i < cap q then q_hd q + i else q_hd q + i - cap q)"
      using bnd by (intro mod_wrap) auto
    then show "?moved ! i = vq_contents q ! i"
      using i full' bnd len by (auto simp: nth_vq_contents nth_append add.commute)
  qed
  have "VectorQueue_enlarge d q = Inr ?q"
    using cap by (simp add: VectorQueue_enlarge_def Let_def)
  moreover have tl: "q_tl ?q + 1 = cap q" "q_hd ?q = 0" using full' bnd by auto
  moreover have invq: "vq_inv ?q"
    unfolding vq_inv_def
  proof (intro conjI)
    show "\<exists>k\<le>30. cap ?q = 2 ^ k" using k \<open>k < 30\<close> by (intro exI [of _ "Suc k"]) auto
    show "length (buffer ?q) = cap ?q" using moved len by simp
    show "q_hd ?q < cap ?q" using tl bnd by simp
    show "q_tl ?q < cap ?q" using tl bnd by simp
  qed
  moreover have "vq_contents ?q = vq_contents q"
  proof (rule nth_equalityI)
    have l: "vq_len ?q = cap q - 1" using vq_len_cases [OF invq] tl by simp
    then show "length (vq_contents ?q) = length (vq_contents q)" using len by simp
    fix i assume "i < length (vq_contents ?q)"
    then have i: "i < cap q - 1" using l by simp
    then have "vq_contents ?q ! i = buffer ?q ! i"
      using l tl(2) by (simp add: nth_vq_contents)
    also have "\<dots> = ?moved ! i" using i len moved by (simp add: nth_append)
    finally show "vq_contents ?q ! i = vq_contents q ! i" using moved by simp
  qed
  ultimately show ?thesis using \<open>VectorQueue_enlarge d q = Inr ?q\<close> by (intro exI [of _ ?q]) simp
qed

lemma vq_store:
  fixes x :: 'a
  assumes "vq_inv q" "(q_tl q + 1) mod cap q \<noteq> q_hd q"
  defines "q' \<equiv> q\<lparr>buffer := (buffer q)[q_tl q := x], q_tl := (q_tl q + 1) mod cap q\<rparr>"
  shows "vq_inv q' \<and> vq_contents q' = vq_contents q @ [x]"
proof -
  have bnd: "q_hd q < cap q" "q_tl q < cap q" "length (buffer q) = cap q"
    using assms(1) by (simp_all add: vq_inv_def)
  have inv: "vq_inv q'" using assms(1) bnd by (auto simp: vq_inv_def q'_def)
  have next_tl: "(q_tl q + 1) mod cap q = (if q_tl q + 1 = cap q then 0 else q_tl q + 1)"
    using bnd by (auto simp: mod_if)
  have len: "vq_len q' = Suc (vq_len q)" "vq_len q < cap q"
    using vq_len_cases [OF inv] vq_len_cases [OF assms(1)] next_tl assms(2) bnd
    by (auto simp: q'_def split: if_splits)
  have pos: "(q_hd q + i) mod cap q = (if q_hd q + i < cap q then q_hd q + i else q_hd q + i - cap q)"
    if "i < cap q" for i using that bnd by (intro mod_wrap) auto
  have last: "(q_hd q + vq_len q) mod cap q = q_tl q"
    using pos [OF len(2)] vq_len_cases [OF assms(1)] bnd by auto
  have other: "(q_hd q + i) mod cap q \<noteq> q_tl q" if "i < vq_len q" for i
    using pos [of i] that len(2) vq_len_cases [OF assms(1)] bnd by (auto split: if_splits)
  have "vq_contents q' = vq_contents q @ [x]"
  proof (rule nth_equalityI)
    fix i assume "i < length (vq_contents q')"
    then have i: "i \<le> vq_len q" using len by simp
    have "vq_contents q' ! i = (buffer q)[q_tl q := x] ! ((q_hd q + i) mod cap q)"
      using i len by (simp add: nth_vq_contents) (simp add: q'_def)
    then show "vq_contents q' ! i = (vq_contents q @ [x]) ! i"
      using i last other [of i] bnd by (cases "i = vq_len q") (auto simp: nth_append nth_vq_contents)
  qed (use len in simp)
  with inv show ?thesis by simp
qed

lemma vq_put_ok:
  assumes "vq_inv q" "Suc (vq_len q) < 2 ^ 30"
  shows "\<exists>q'. VectorQueue_put d x q = Inr q' \<and> vq_inv q' \<and> vq_contents q' = vq_contents q @ [x]"
proof (cases "(q_tl q + 1) mod cap q = q_hd q")
  case False
  have "q_tl q < length (buffer q)" using assms(1) by (simp add: vq_inv_def)
  then have "VectorQueue_put d x q = Inr (q\<lparr>buffer := (buffer q)[q_tl q := x], q_tl := (q_tl q + 1) mod cap q\<rparr>)"
    using False vq_mask [OF assms(1)] by (simp add: VectorQueue_put_def Let_def)
  with vq_store [OF assms(1) False] show ?thesis by simp
next
  case True
  have "vq_len q + 1 = cap q"
    using True assms(1) vq_len_cases [OF assms(1)] by (auto simp: vq_inv_def mod_if split: if_splits)
  then have "cap q < 2 ^ 30" using assms(2) by simp
  from vq_enlarge_ok [OF assms(1) this True] obtain q1 where
    q1: "VectorQueue_enlarge d q = Inr q1" "vq_inv q1" "vq_contents q1 = vq_contents q" "q_hd q1 = 0"
      "q_tl q1 + 1 = cap q" "cap q1 = 2 * cap q" by blast
  have ne: "(q_tl q1 + 1) mod cap q1 = q_tl q1 + 1" "(q_tl q1 + 1) mod cap q1 \<noteq> q_hd q1"
    using q1 by auto
  have "q_tl q1 < length (buffer q1)" using q1(2) by (simp add: vq_inv_def)
  then have "VectorQueue_put d x q = Inr (q1\<lparr>buffer := (buffer q1)[q_tl q1 := x], q_tl := (q_tl q1 + 1) mod cap q1\<rparr>)"
    using True q1(1) ne(1) vq_mask [OF assms(1)] by (simp add: VectorQueue_put_def Let_def)
  with vq_store [OF q1(2) ne(2), of x] q1(3) show ?thesis by simp
qed

lemma vq_get_ok:
  assumes "vq_inv q" "vq_contents q = x # xs"
  shows "\<exists>q'. VectorQueue_get q = Inr (x, q') \<and> vq_inv q' \<and> vq_contents q' = xs \<and> VectorQueue_head q = Inr x"
proof -
  have bnd: "q_hd q < cap q" "q_tl q < cap q" "length (buffer q) = cap q"
    using assms(1) by (simp_all add: vq_inv_def)
  have pos: "0 < vq_len q" using assms(2) length_vq_contents [of q] by simp
  then have ne: "q_hd q \<noteq> q_tl q" using vq_len_cases [OF assms(1)] by auto
  let ?q = "q\<lparr>q_hd := (q_hd q + 1) mod cap q\<rparr>"
  have inv: "vq_inv ?q" using assms(1) bnd by (auto simp: vq_inv_def)
  have "(q_hd q + 1) mod cap q = (if q_hd q + 1 = cap q then 0 else q_hd q + 1)"
    using bnd by (auto simp: mod_if)
  then have len: "vq_len q = Suc (vq_len ?q)"
    using vq_len_cases [OF inv] vq_len_cases [OF assms(1)] bnd ne by auto
  have "x = buffer q ! q_hd q" using nth_vq_contents [OF pos] assms(2) bnd by simp
  moreover have "vq_contents ?q = xs"
  proof (rule nth_equalityI)
    show "length (vq_contents ?q) = length xs"
      using len assms(2) length_vq_contents [of q] by simp
    fix i assume "i < length (vq_contents ?q)"
    then have "Suc i < vq_len q" using len by simp
    then have "vq_contents ?q ! i = vq_contents q ! Suc i"
      using len by (simp add: nth_vq_contents mod_simps)
    then show "vq_contents ?q ! i = xs ! i" using assms(2) by simp
  qed
  ultimately show ?thesis
    using inv ne bnd vq_mask [OF assms(1)] by (simp add: VectorQueue_get_def VectorQueue_head_def)
qed

lemma vq_empty: "vq_inv q \<Longrightarrow> (vq_contents q = []) = (q_hd q = q_tl q)"
  using vq_len_cases [of q] by (auto simp: vq_inv_def vq_contents_def)

interpretation vector_queue: fifo_queue vq_inv vq_contents "\<lambda>n. n < 2 ^ 30" "VectorQueue_put d" VectorQueue_get
  VectorQueue_head VectorQueue_isEmpty for d
proof (unfold_locales, goal_cases)
  case (2 q x)
  then show ?case using vq_put_ok [OF 2(1), of d x] by simp
next
  case (3 q)
  then have "q_hd q = q_tl q" using vq_empty by blast
  then show ?case by (simp add: VectorQueue_get_def)
next
  case (4 q x xs)
  then show ?case using vq_get_ok [OF 4] by auto
next
  case (5 q)
  then show ?case
  proof (cases "vq_contents q")
    case Nil
    with vq_empty [OF 5] show ?thesis by (simp add: VectorQueue_head_def)
  next
    case (Cons x xs)
    with vq_get_ok [OF 5 Cons] show ?thesis by auto
  qed
next
  case (6 q)
  from vq_empty [OF 6] show ?case by (simp add: VectorQueue_isEmpty_def)
qed simp

section \<open>ListQueue\<close>

text \<open>
  The chain of nodes from \<^verbatim>\<open>h\<close> to \<^verbatim>\<open>t\<close>. \<^verbatim>\<open>reset\<close> frees the nodes but leaves
  \<^verbatim>\<open>h\<close> and \<^verbatim>\<open>t\<close> pointing to them, which \<open>lq_freed\<close> records: following such a
  pointer is an error.
\<close>

record 'a lqueue =
  lq_chain :: "'a list"
  lq_freed :: bool

definition use_after_free :: error where
  "use_after_free = Exception ''use after free''"

definition ListQueue_new :: "'a lqueue" where
  "ListQueue_new = \<lparr>lq_chain = [], lq_freed = False\<rparr>"

definition ListQueue_isEmpty :: "'a lqueue \<Rightarrow> bool" where
  "ListQueue_isEmpty q = (lq_chain q = [])"

definition ListQueue_head :: "'a lqueue \<Rightarrow> 'a res" where
  "ListQueue_head q =
     (case lq_chain q of
        [] \<Rightarrow> Inl Assertion_failed
      | x # xs \<Rightarrow> if lq_freed q then Inl use_after_free else Inr x)"

definition ListQueue_get :: "'a lqueue \<Rightarrow> ('a \<times> 'a lqueue) res" where
  "ListQueue_get q =
     (case lq_chain q of
        [] \<Rightarrow> Inl Assertion_failed
      | x # xs \<Rightarrow> if lq_freed q then Inl use_after_free else Inr (x, q\<lparr>lq_chain := xs\<rparr>))"

definition ListQueue_put :: "'a \<Rightarrow> 'a lqueue \<Rightarrow> 'a lqueue res" where
  "ListQueue_put x q =
     (if lq_chain q \<noteq> [] \<and> lq_freed q then Inl use_after_free
      else Inr (q\<lparr>lq_chain := lq_chain q @ [x]\<rparr>))"

definition ListQueue_contains :: "('a \<Rightarrow> 'a \<Rightarrow> bool) \<Rightarrow> 'a \<Rightarrow> 'a lqueue \<Rightarrow> bool res" where
  "ListQueue_contains eq x q =
     (if lq_chain q \<noteq> [] \<and> lq_freed q then Inl use_after_free
      else Inr (list_ex (\<lambda>y. eq y x) (lq_chain q)))"

definition ListQueue_reset :: "'a lqueue \<Rightarrow> 'a lqueue res" where
  "ListQueue_reset q =
     (if lq_chain q \<noteq> [] \<and> lq_freed q then Inl use_after_free
      else Inr (q\<lparr>lq_freed := lq_chain q \<noteq> []\<rparr>))"

interpretation list_queue: fifo_queue "\<lambda>q. \<not> lq_freed q" lq_chain "\<lambda>n. True" ListQueue_put ListQueue_get
  ListQueue_head ListQueue_isEmpty
  by unfold_locales
    (auto simp: ListQueue_put_def ListQueue_get_def ListQueue_head_def ListQueue_isEmpty_def split: list.splits)


section \<open>StaticStack\<close>

text \<open>
  An array of \<open>N\<close> cells and the number of the used ones. \<^verbatim>\<open>top\<close> has no check of its own;
  \<^verbatim>\<open>contains\<close> starts at the cell above the top.
\<close>

record 'a sstack =
  ss_cells :: "'a list"
  ss_t :: nat

definition StaticStack_new :: "'a \<Rightarrow> nat \<Rightarrow> 'a sstack" where
  "StaticStack_new dflt N = \<lparr>ss_cells = replicate N dflt, ss_t = 0\<rparr>"

definition StaticStack_isEmpty :: "'a sstack \<Rightarrow> bool" where
  "StaticStack_isEmpty s = (ss_t s = 0)"

definition StaticStack_top :: "'a sstack \<Rightarrow> 'a res" where
  "StaticStack_top s =
     (if 0 < ss_t s \<and> ss_t s \<le> length (ss_cells s) then Inr (ss_cells s ! (ss_t s - 1)) else Inl Out_of_bounds)"

definition StaticStack_pop :: "'a sstack \<Rightarrow> ('a \<times> 'a sstack) res" where
  "StaticStack_pop s =
     (if ss_t s = 0 then Inl Assertion_failed
      else if ss_t s - 1 < length (ss_cells s)
        then Inr (ss_cells s ! (ss_t s - 1), s\<lparr>ss_t := ss_t s - 1\<rparr>)
      else Inl Out_of_bounds)"

definition StaticStack_push :: "'a \<Rightarrow> 'a sstack \<Rightarrow> 'a sstack res" where
  "StaticStack_push v s =
     (if ss_t s = length (ss_cells s) then Inl Assertion_failed
      else if ss_t s < length (ss_cells s)
        then Inr (s\<lparr>ss_cells := (ss_cells s)[ss_t s := v], ss_t := ss_t s + 1\<rparr>)
      else Inl Out_of_bounds)"

definition StaticStack_reset :: "'a sstack \<Rightarrow> 'a sstack" where
  "StaticStack_reset s = s\<lparr>ss_t := 0\<rparr>"

fun ss_scan :: "'a \<Rightarrow> 'a list \<Rightarrow> nat \<Rightarrow> bool res" where
  "ss_scan v cs i =
     (if \<not> i < length cs then Inl Out_of_bounds
      else if cs ! i = v then Inr True
      else if i = 0 then Inr False else ss_scan v cs (i - 1))"

declare ss_scan.simps [simp del]

definition StaticStack_contains :: "'a \<Rightarrow> 'a sstack \<Rightarrow> bool res" where
  "StaticStack_contains v s = ss_scan v (ss_cells s) (ss_t s)"

definition StaticStack_equals :: "'a sstack \<Rightarrow> 'a sstack \<Rightarrow> bool" where
  "StaticStack_equals s s' =
     (ss_t s = ss_t s' \<and> list_all (\<lambda>i. ss_cells s ! i = ss_cells s' ! i) [0..<ss_t s])"

definition StaticStack_copy :: "'a sstack \<Rightarrow> 'a sstack \<Rightarrow> 'a sstack" where
  "StaticStack_copy s s' =
     s\<lparr>ss_cells := take (ss_t s') (ss_cells s') @ drop (ss_t s') (ss_cells s), ss_t := ss_t s'\<rparr>"

text \<open>The contents, the top first.\<close>

definition ss_contents :: "'a sstack \<Rightarrow> 'a list" where
  "ss_contents s = rev (take (ss_t s) (ss_cells s))"

definition ss_inv :: "nat \<Rightarrow> 'a sstack \<Rightarrow> bool" where
  "ss_inv N s \<longleftrightarrow> length (ss_cells s) = N \<and> ss_t s \<le> N"

lemma ss_scan_iff: "i < length cs \<Longrightarrow> ss_scan v cs i = Inr (v \<in> set (take (Suc i) cs))"
proof (induction i)
  case 0
  then show ?case by (cases cs) (auto simp: ss_scan.simps)
next
  case (Suc i)
  then have "take (Suc (Suc i)) cs = take (Suc i) cs @ [cs ! Suc i]"
    by (intro take_Suc_conv_app_nth)
  with Suc show ?case by (auto simp: ss_scan.simps [of v cs "Suc i"])
qed

lemma ss_push_ok:
  assumes "ss_inv N s" "ss_t s < N"
  shows "\<exists>s'. StaticStack_push v s = Inr s' \<and> ss_inv N s' \<and> ss_contents s' = v # ss_contents s"
  using assms by (auto simp: StaticStack_push_def ss_inv_def ss_contents_def take_Suc_conv_app_nth)

lemma ss_pop_ok:
  assumes "ss_inv N s" "ss_contents s = v # vs"
  shows "\<exists>s'. StaticStack_pop s = Inr (v, s') \<and> ss_inv N s' \<and> ss_contents s' = vs \<and> StaticStack_top s = Inr v"
proof -
  obtain n where n: "ss_t s = Suc n" "n < length (ss_cells s)"
    using assms by (cases "ss_t s") (auto simp: ss_inv_def ss_contents_def)
  with assms show ?thesis
    by (auto simp: StaticStack_pop_def StaticStack_top_def ss_inv_def ss_contents_def take_Suc_conv_app_nth)
qed


section \<open>Properties\<close>

text \<open>
  C8. The ring buffer \<^verbatim>\<open>VectorQueue\<close> is a queue: starting from any well-formed state, every
  sequence of \<^verbatim>\<open>put\<close> and \<^verbatim>\<open>get\<close> that keeps the length below \<open>2 ^ 30\<close> behaves as on
  a list, through all wrap-arounds and enlargements: \<^verbatim>\<open>get\<close> delivers the items in the
  order of the puts, and fails its assertion exactly when the list is empty.
\<close>

theorem vector_queue_fifo:
  assumes "vq_inv q" "vq_len q + length ops < 2 ^ 30"
  shows "case fifo_spec ops (vq_contents q) of
      Inl e \<Rightarrow> fifo_run (VectorQueue_put d) VectorQueue_get ops q = Inl e
    | Inr (ys, zs) \<Rightarrow> \<exists>q'. fifo_run (VectorQueue_put d) VectorQueue_get ops q = Inr (ys, q') \<and>
        vq_inv q' \<and> vq_contents q' = zs"
  using vector_queue.run_refines [OF assms(1)] assms(2) by simp

theorem vector_queue_fifo_witness:
  "\<exists>q'. fifo_run (VectorQueue_put 0) VectorQueue_get [Put 1, Put 2, Get, Put (3 :: int), Get, Get]
      (VectorQueue_new 0 1) = Inr ([1, 2, 3], q') \<and> vq_contents q' = []"
  using vector_queue_fifo [of "VectorQueue_new 0 1" "[Put 1, Put 2, Get, Put (3 :: int), Get, Get]" 0]
    vq_inv_new [of 1 "0 :: int"] length_vq_contents [of "VectorQueue_new (0 :: int) 1"]
  by auto

text \<open>
  \<^verbatim>\<open>VectorQueue::size\<close> counts the items of a non-empty queue; on an empty queue it answers
  the whole capacity instead of zero.
\<close>

lemma vector_queue_size:
  assumes "vq_inv q"
  shows "VectorQueue_size q = (if VectorQueue_isEmpty q then cap q else length (vq_contents q))"
  using assms vq_len_cases [OF assms]
  by (auto simp: VectorQueue_size_def VectorQueue_isEmpty_def vq_inv_def)

lemma vector_queue_size_witness: "VectorQueue_size (VectorQueue_new (0 :: int) 2) = 4"
  using vector_queue_size [of "VectorQueue_new (0 :: int) 2"] vq_inv_new [of 2 "0 :: int"]
  by (simp add: VectorQueue_isEmpty_def VectorQueue_new_def push_bit_eq_mult)

text \<open>
  \<^verbatim>\<open>ListQueue\<close> is a queue under \<^verbatim>\<open>put\<close> and \<^verbatim>\<open>get\<close>. Its \<^verbatim>\<open>reset\<close> frees
  the nodes without unlinking them: afterwards a queue that was not empty still claims not to
  be, and every access to it follows a freed node.
\<close>

lemma list_queue_fifo_reset:
  assumes "\<not> lq_freed q"
  shows "(case fifo_spec ops (lq_chain q) of
      Inl e \<Rightarrow> fifo_run ListQueue_put ListQueue_get ops q = Inl e
    | Inr (ys, zs) \<Rightarrow> \<exists>q'. fifo_run ListQueue_put ListQueue_get ops q = Inr (ys, q') \<and>
        \<not> lq_freed q' \<and> lq_chain q' = zs) \<and>
    (\<exists>q'. ListQueue_reset q = Inr q' \<and> ListQueue_isEmpty q' = ListQueue_isEmpty q \<and>
      (lq_chain q \<noteq> [] \<longrightarrow> ListQueue_get q' = Inl use_after_free \<and> ListQueue_put x q' = Inl use_after_free))"
  using list_queue.run_refines [OF assms, of ops] assms
  by (auto simp: ListQueue_reset_def ListQueue_isEmpty_def ListQueue_get_def ListQueue_put_def
      split: list.splits)

lemma list_queue_fifo_reset_witness:
  "\<exists>q'. ListQueue_reset \<lparr>lq_chain = [1 :: int], lq_freed = False\<rparr> = Inr q' \<and>
     ListQueue_get q' = Inl use_after_free"
  using list_queue_fifo_reset [of "\<lparr>lq_chain = [1 :: int], lq_freed = False\<rparr>" "[]"] by auto

text \<open>
  \<^verbatim>\<open>StaticStack\<close> of capacity \<open>N\<close> is a bounded stack: \<^verbatim>\<open>push\<close> fails its assertion
  exactly when \<open>N\<close> items are there and else puts its argument on top; \<^verbatim>\<open>pop\<close> fails exactly
  on the empty stack and else gives back and removes the top, which \<^verbatim>\<open>top\<close> reads.
  \<^verbatim>\<open>contains\<close> also looks at the cell above the top: it is out of bounds on a full stack, and
  else finds the members and the stale item of that cell.
\<close>

lemma static_stack_correct:
  assumes "ss_inv N s"
  shows "(if ss_t s = N then StaticStack_push v s = Inl Assertion_failed
      else \<exists>s'. StaticStack_push v s = Inr s' \<and> ss_inv N s' \<and> ss_contents s' = v # ss_contents s) \<and>
    (case ss_contents s of
       [] \<Rightarrow> StaticStack_pop s = Inl Assertion_failed \<and> StaticStack_isEmpty s
     | x # xs \<Rightarrow> \<not> StaticStack_isEmpty s \<and> StaticStack_top s = Inr x \<and>
         (\<exists>s'. StaticStack_pop s = Inr (x, s') \<and> ss_inv N s' \<and> ss_contents s' = xs)) \<and>
    StaticStack_contains v s =
      (if ss_t s = N then Inl Out_of_bounds
       else Inr (v \<in> set (ss_contents s) \<or> ss_cells s ! ss_t s = v))"
proof (intro conjI)
  show "if ss_t s = N then StaticStack_push v s = Inl Assertion_failed
      else \<exists>s'. StaticStack_push v s = Inr s' \<and> ss_inv N s' \<and> ss_contents s' = v # ss_contents s"
    using ss_push_ok [OF assms, of v] assms by (auto simp: StaticStack_push_def ss_inv_def)
  show "StaticStack_contains v s =
      (if ss_t s = N then Inl Out_of_bounds
       else Inr (v \<in> set (ss_contents s) \<or> ss_cells s ! ss_t s = v))"
    using assms ss_scan_iff [of "ss_t s" "ss_cells s" v]
    by (auto simp: StaticStack_contains_def ss_inv_def ss_contents_def take_Suc_conv_app_nth ss_scan.simps)
  show "case ss_contents s of
       [] \<Rightarrow> StaticStack_pop s = Inl Assertion_failed \<and> StaticStack_isEmpty s
     | x # xs \<Rightarrow> \<not> StaticStack_isEmpty s \<and> StaticStack_top s = Inr x \<and>
         (\<exists>s'. StaticStack_pop s = Inr (x, s') \<and> ss_inv N s' \<and> ss_contents s' = xs)"
  proof (cases "ss_contents s")
    case Nil
    then have "ss_t s = 0" using assms by (auto simp: ss_contents_def ss_inv_def)
    with Nil show ?thesis by (simp add: StaticStack_pop_def StaticStack_isEmpty_def)
  next
    case (Cons x xs)
    then have "ss_t s \<noteq> 0" by (cases "ss_t s") (auto simp: ss_contents_def)
    with Cons ss_pop_ok [OF assms Cons] show ?thesis by (auto simp: StaticStack_isEmpty_def)
  qed
qed

lemma static_stack_correct_witness:
  "StaticStack_contains 7 \<lparr>ss_cells = [5, 7 :: int], ss_t = 1\<rparr> = Inr True"
  using static_stack_correct [of 2 "\<lparr>ss_cells = [5, 7 :: int], ss_t = 1\<rparr>" 7] by (simp add: ss_inv_def)

end
