(* ===== verification/Elm_List.thy ===== *)
theory Elm_List
  imports Ordered_Store
begin

text \<open>
  The singly linked list \<^verbatim>\<open>List\<close> (\<^verbatim>\<open>include/elm/data/List.h\<close>, over
  \<^verbatim>\<open>inhstruct::SLList\<close>), the \<^verbatim>\<open>SortedList\<close> built on it and the set and the map
  built on sorted lists (\<^verbatim>\<open>SortedList.h\<close>, \<^verbatim>\<open>ListSet.h\<close>, \<^verbatim>\<open>ListMap.h\<close>).

  A list is the sequence of the values along the chain of its nodes. An \<^verbatim>\<open>Iter\<close> is the rest
  of the chain from its node, empty at the end; a \<^verbatim>\<open>PrecIter\<close> is the pair of the nodes
  passed, the last one first (its head is \<^verbatim>\<open>prev\<close>), and of the rest from \<^verbatim>\<open>node\<close>.
  Following a null node is the error \<open>Null_dereference\<close>.
\<close>

section \<open>List\<close>

type_synonym 'a prec_iter = "'a list \<times> 'a list"

definition zip_list :: "'a prec_iter \<Rightarrow> 'a list" where
  "zip_list i = rev (fst i) @ snd i"

definition List_addFirst :: "'a \<Rightarrow> 'a list \<Rightarrow> 'a list" where
  "List_addFirst v xs = v # xs"

text \<open>\<^verbatim>\<open>SLList::addLast\<close> and \<^verbatim>\<open>last\<close> walk to the last node.\<close>

fun List_addLast :: "'a \<Rightarrow> 'a list \<Rightarrow> 'a list" where
  "List_addLast v [] = [v]"
| "List_addLast v (x # xs) = x # List_addLast v xs"

fun List_last :: "'a list \<Rightarrow> 'a res" where
  "List_last [] = Inl Null_dereference"
| "List_last [x] = Inr x"
| "List_last (x # y # xs) = List_last (y # xs)"

fun List_first :: "'a list \<Rightarrow> 'a res" where
  "List_first [] = Inl Null_dereference"
| "List_first (x # xs) = Inr x"

fun List_removeFirst :: "'a list \<Rightarrow> 'a list res" where
  "List_removeFirst [] = Inl Null_dereference"
| "List_removeFirst (x # xs) = Inr xs"

fun List_removeLast :: "'a list \<Rightarrow> 'a list res" where
  "List_removeLast [] = Inl Null_dereference"
| "List_removeLast [x] = Inr []"
| "List_removeLast (x # y # xs) = bind_res (List_removeLast (y # xs)) (\<lambda>ys. Inr (x # ys))"

fun List_count :: "'a list \<Rightarrow> int" where
  "List_count [] = 0"
| "List_count (x # xs) = List_count xs + 1"

fun List_contains :: "('a \<Rightarrow> 'a \<Rightarrow> bool) \<Rightarrow> 'a \<Rightarrow> 'a list \<Rightarrow> bool" where
  "List_contains eq v [] = False"
| "List_contains eq v (x # xs) = (if eq v x then True else List_contains eq v xs)"

fun List_equals :: "('a \<Rightarrow> 'a \<Rightarrow> bool) \<Rightarrow> 'a list \<Rightarrow> 'a list \<Rightarrow> bool" where
  "List_equals eq (x # xs) (y # ys) = (if \<not> eq x y then False else List_equals eq xs ys)"
| "List_equals eq xs ys = (xs = [] \<and> ys = [])"

fun List_find :: "('a \<Rightarrow> 'a \<Rightarrow> bool) \<Rightarrow> 'a \<Rightarrow> 'a list \<Rightarrow> 'a list" where
  "List_find eq v [] = []"
| "List_find eq v (x # xs) = (if eq v x then x # xs else List_find eq v xs)"

fun List_nth :: "nat \<Rightarrow> 'a list \<Rightarrow> 'a res" where
  "List_nth n [] = Inl Assertion_failed"
| "List_nth 0 (x # xs) = Inr x"
| "List_nth (Suc n) (x # xs) = List_nth n xs"

fun List_addAll :: "'a list \<Rightarrow> 'a list \<Rightarrow> 'a list" where
  "List_addAll [] xs = xs"
| "List_addAll (v # vs) xs = List_addAll vs (List_addFirst v xs)"

text \<open>The loop of \<^verbatim>\<open>remove\<close> after its first test: \<open>prev\<close> is kept, \<open>cur\<close> is the next.\<close>

fun remove_next :: "('a \<Rightarrow> 'a \<Rightarrow> bool) \<Rightarrow> 'a \<Rightarrow> 'a list \<Rightarrow> 'a list" where
  "remove_next eq v [] = []"
| "remove_next eq v (cur # xs) = (if eq cur v then xs else cur # remove_next eq v xs)"

fun List_remove :: "('a \<Rightarrow> 'a \<Rightarrow> bool) \<Rightarrow> 'a \<Rightarrow> 'a list \<Rightarrow> 'a list" where
  "List_remove eq v [] = []"
| "List_remove eq v (x # xs) = (if eq x v then xs else x # remove_next eq v xs)"

fun List_removeAll :: "('a \<Rightarrow> 'a \<Rightarrow> bool) \<Rightarrow> 'a list \<Rightarrow> 'a list \<Rightarrow> 'a list" where
  "List_removeAll eq [] xs = xs"
| "List_removeAll eq (v # vs) xs = List_removeAll eq vs (List_remove eq v xs)"

text \<open>\<^verbatim>\<open>copy\<close> adds the first item, then each next one after the node just made.\<close>

fun copy_after :: "'a list \<Rightarrow> 'a list \<Rightarrow> 'a list" where
  "copy_after [] made = rev made"
| "copy_after (x # xs) made = copy_after xs (x # made)"

definition List_copy :: "'a list \<Rightarrow> 'a list" where
  "List_copy l = (case l of [] \<Rightarrow> [] | x # xs \<Rightarrow> copy_after xs [x])"

definition List_pop :: "'a list \<Rightarrow> ('a \<times> 'a list) res" where
  "List_pop xs = bind_res (List_first xs) (\<lambda>r. bind_res (List_removeFirst xs) (\<lambda>xs'. Inr (r, xs')))"

fun prec_next :: "'a prec_iter \<Rightarrow> 'a prec_iter res" where
  "prec_next (ps, []) = Inl Assertion_failed"
| "prec_next (ps, x # xs) = Inr (x # ps, xs)"

definition List_addBefore :: "'a prec_iter \<Rightarrow> 'a \<Rightarrow> 'a prec_iter" where
  "List_addBefore i v =
     (case fst i of
        [] \<Rightarrow> ([v], snd i)
      | p # ps \<Rightarrow> (v # p # ps, snd i))"

fun List_remove_iter :: "'a prec_iter \<Rightarrow> 'a prec_iter res" where
  "List_remove_iter (ps, []) = Inl Assertion_failed"
| "List_remove_iter (ps, x # xs) = Inr (ps, xs)"

definition List_addAfter :: "'a prec_iter \<Rightarrow> 'a \<Rightarrow> 'a prec_iter res" where
  "List_addAfter i v =
     (case snd i of [] \<Rightarrow> Inl Assertion_failed | x # xs \<Rightarrow> Inr (fst i, x # v # xs))"

definition List_set :: "'a prec_iter \<Rightarrow> 'a \<Rightarrow> 'a prec_iter res" where
  "List_set i v = (case snd i of [] \<Rightarrow> Inl Assertion_failed | x # xs \<Rightarrow> Inr (fst i, v # xs))"


section \<open>SortedList\<close>

fun SortedList_add_loop :: "('a \<Rightarrow> 'a \<Rightarrow> int) \<Rightarrow> 'a \<Rightarrow> 'a prec_iter \<Rightarrow> 'a list" where
  "SortedList_add_loop cmp v (ps, []) = List_addLast v (rev ps)"
| "SortedList_add_loop cmp v (ps, x # xs) =
     (if cmp v x < 0 then zip_list (List_addBefore (ps, x # xs) v)
      else SortedList_add_loop cmp v (x # ps, xs))"

definition SortedList_add :: "('a \<Rightarrow> 'a \<Rightarrow> int) \<Rightarrow> 'a \<Rightarrow> 'a list \<Rightarrow> 'a list" where
  "SortedList_add cmp v xs = SortedList_add_loop cmp v ([], xs)"

fun SortedList_find :: "('a \<Rightarrow> 'a \<Rightarrow> int) \<Rightarrow> 'a \<Rightarrow> 'a list \<Rightarrow> 'a list" where
  "SortedList_find cmp v [] = []"
| "SortedList_find cmp v (x # xs) =
     (if 0 < cmp v x then SortedList_find cmp v xs else if cmp v x = 0 then x # xs else [])"

definition SortedList_contains :: "('a \<Rightarrow> 'a \<Rightarrow> int) \<Rightarrow> 'a \<Rightarrow> 'a list \<Rightarrow> bool" where
  "SortedList_contains cmp v xs = (SortedList_find cmp v xs \<noteq> [])"

definition SortedList_remove :: "('a \<Rightarrow> 'a \<Rightarrow> int) \<Rightarrow> 'a \<Rightarrow> 'a list \<Rightarrow> 'a list" where
  "SortedList_remove cmp v xs = List_remove (\<lambda>x y. cmp x y = 0) v xs"

definition SortedList_addAll :: "'a list \<Rightarrow> 'a list \<Rightarrow> 'a list" where
  "SortedList_addAll vs xs = List_addAll vs xs"

fun SortedList_equals :: "('a \<Rightarrow> 'a \<Rightarrow> int) \<Rightarrow> 'a list \<Rightarrow> 'a list \<Rightarrow> bool" where
  "SortedList_equals cmp (x # xs) (y # ys) = (if cmp x y \<noteq> 0 then False else SortedList_equals cmp xs ys)"
| "SortedList_equals cmp xs ys = (xs = [] \<and> ys = [])"


section \<open>ListSet\<close>

definition ListSet_insert :: "('a \<Rightarrow> 'a \<Rightarrow> int) \<Rightarrow> 'a \<Rightarrow> 'a list \<Rightarrow> 'a list" where
  "ListSet_insert cmp v xs = (if \<not> SortedList_contains cmp v xs then SortedList_add cmp v xs else xs)"

text \<open>\<open>is\<close> runs over the other set, \<open>js\<close> over this one.\<close>

fun ListSet_subset_loop :: "('a \<Rightarrow> 'a \<Rightarrow> int) \<Rightarrow> 'a list \<Rightarrow> 'a list \<Rightarrow> bool" where
  "ListSet_subset_loop cmp (i # is) (j # js) =
     (if 0 < cmp i j then False
      else if cmp i j = 0 then ListSet_subset_loop cmp is js
      else ListSet_subset_loop cmp is (j # js))"
| "ListSet_subset_loop cmp is js = (js = [])"

definition ListSet_subsetOf :: "('a \<Rightarrow> 'a \<Rightarrow> int) \<Rightarrow> 'a list \<Rightarrow> 'a list \<Rightarrow> bool" where
  "ListSet_subsetOf cmp xs l = ListSet_subset_loop cmp l xs"

function join_loop :: "('a \<Rightarrow> 'a \<Rightarrow> int) \<Rightarrow> 'a prec_iter \<Rightarrow> 'a list \<Rightarrow> 'a prec_iter" where
  "join_loop cmp (ps, x # xs) (j # js) =
     (if cmp x j = 0 then join_loop cmp (x # ps, xs) js
      else if cmp x j < 0 then join_loop cmp (x # ps, xs) (j # js)
      else join_loop cmp (List_addBefore (ps, x # xs) j) js)"
| "join_loop cmp (ps, []) (j # js) = join_loop cmp (List_addBefore (ps, []) j) js"
| "join_loop cmp (ps, xs) [] = (ps, xs)"
  by pat_completeness auto
termination
  by (relation "measure (\<lambda>(cmp, i, js). length (snd i) + length js)")
    (auto simp: List_addBefore_def split: list.splits)

definition ListSet_join :: "('a \<Rightarrow> 'a \<Rightarrow> int) \<Rightarrow> 'a list \<Rightarrow> 'a list \<Rightarrow> 'a list" where
  "ListSet_join cmp xs s = zip_list (join_loop cmp ([], xs) s)"

text \<open>Both loops of \<^verbatim>\<open>meet\<close>: once \<open>js\<close> is at its end, what remains is removed.\<close>

fun meet_loop :: "('a \<Rightarrow> 'a \<Rightarrow> int) \<Rightarrow> 'a list \<Rightarrow> 'a list \<Rightarrow> 'a list \<Rightarrow> 'a list" where
  "meet_loop cmp ps (x # xs) (j # js) =
     (if cmp x j = 0 then meet_loop cmp (x # ps) xs js
      else if cmp x j < 0 then meet_loop cmp ps xs (j # js)
      else meet_loop cmp ps (x # xs) js)"
| "meet_loop cmp ps (x # xs) [] = meet_loop cmp ps xs []"
| "meet_loop cmp ps [] js = zip_list (ps, [])"

definition ListSet_meet :: "('a \<Rightarrow> 'a \<Rightarrow> int) \<Rightarrow> 'a list \<Rightarrow> 'a list \<Rightarrow> 'a list" where
  "ListSet_meet cmp xs s = meet_loop cmp [] xs s"

fun diff_loop :: "('a \<Rightarrow> 'a \<Rightarrow> int) \<Rightarrow> 'a list \<Rightarrow> 'a list \<Rightarrow> 'a list \<Rightarrow> 'a list" where
  "diff_loop cmp ps (x # xs) (j # js) =
     (if cmp x j = 0 then diff_loop cmp ps xs js
      else if cmp x j < 0 then diff_loop cmp (x # ps) xs (j # js)
      else diff_loop cmp ps (x # xs) js)"
| "diff_loop cmp ps xs js = zip_list (ps, xs)"

definition ListSet_diff :: "('a \<Rightarrow> 'a \<Rightarrow> int) \<Rightarrow> 'a list \<Rightarrow> 'a list \<Rightarrow> 'a list" where
  "ListSet_diff cmp xs s = diff_loop cmp [] xs s"


section \<open>ListMap\<close>

type_synonym ('k, 'v) list_map = "('k \<times> 'v) list"

text \<open>\<^verbatim>\<open>lookup\<close> gives the iterator on the pair found, or \<open>None\<close> for the end iterator.\<close>

fun ListMap_lookup ::
    "('k \<Rightarrow> 'k \<Rightarrow> int) \<Rightarrow> 'k \<Rightarrow> ('k \<times> 'v) list \<Rightarrow> ('k, 'v) list_map \<Rightarrow> ('k \<times> 'v) prec_iter option" where
  "ListMap_lookup cmp k ps [] = None"
| "ListMap_lookup cmp k ps (p # xs) =
     (if cmp k (fst p) = 0 then Some (ps, p # xs)
      else if cmp k (fst p) < 0 then None
      else ListMap_lookup cmp k (p # ps) xs)"

definition ListMap_get :: "('k \<Rightarrow> 'k \<Rightarrow> int) \<Rightarrow> 'k \<Rightarrow> ('k, 'v) list_map \<Rightarrow> 'v option" where
  "ListMap_get cmp k m =
     (case ListMap_lookup cmp k [] m of
        Some (ps, p # xs) \<Rightarrow> Some (snd p)
      | _ \<Rightarrow> None)"

definition ListMap_get_default :: "('k \<Rightarrow> 'k \<Rightarrow> int) \<Rightarrow> 'k \<Rightarrow> 'v \<Rightarrow> ('k, 'v) list_map \<Rightarrow> 'v" where
  "ListMap_get_default cmp k d m =
     (case ListMap_lookup cmp k [] m of
        Some (ps, p # xs) \<Rightarrow> snd p
      | _ \<Rightarrow> d)"

definition ListMap_hasKey :: "('k \<Rightarrow> 'k \<Rightarrow> int) \<Rightarrow> 'k \<Rightarrow> ('k, 'v) list_map \<Rightarrow> bool" where
  "ListMap_hasKey cmp k m = (ListMap_lookup cmp k [] m \<noteq> None)"

fun ListMap_contains :: "('v \<Rightarrow> 'v \<Rightarrow> bool) \<Rightarrow> 'v \<Rightarrow> ('k, 'v) list_map \<Rightarrow> bool" where
  "ListMap_contains eq v [] = False"
| "ListMap_contains eq v (p # m) = (if eq (snd p) v then True else ListMap_contains eq v m)"

definition ListMap_put :: "('k \<Rightarrow> 'k \<Rightarrow> int) \<Rightarrow> 'k \<Rightarrow> 'v \<Rightarrow> ('k, 'v) list_map \<Rightarrow> ('k, 'v) list_map res" where
  "ListMap_put cmp k v m =
     (case ListMap_lookup cmp k [] m of
        Some i \<Rightarrow> bind_res (List_set i (k, v)) (\<lambda>i'. Inr (zip_list i'))
      | None \<Rightarrow> Inr (SortedList_add (AssocComparator_compare cmp) (k, v) m))"

definition ListMap_remove :: "('k \<Rightarrow> 'k \<Rightarrow> int) \<Rightarrow> 'k \<Rightarrow> ('k, 'v) list_map \<Rightarrow> ('k, 'v) list_map" where
  "ListMap_remove cmp k m =
     (case ListMap_lookup cmp k [] m of
        Some (ps, p # xs) \<Rightarrow> SortedList_remove (AssocComparator_compare cmp) p m
      | _ \<Rightarrow> m)"


section \<open>The operations on lists of values\<close>

lemma List_addLast_append [simp]: "List_addLast v xs = xs @ [v]"
  by (induction xs) auto

lemma List_last_ok: "xs \<noteq> [] \<Longrightarrow> List_last xs = Inr (last xs)"
  by (induction xs rule: List_last.induct) auto

lemma List_removeLast_ok: "xs \<noteq> [] \<Longrightarrow> List_removeLast xs = Inr (butlast xs)"
  by (induction xs rule: List_removeLast.induct) auto

lemma List_count_length [simp]: "List_count xs = int (length xs)"
  by (induction xs) auto

lemma List_contains_iff: "List_contains eq v xs \<longleftrightarrow> (\<exists>x \<in> set xs. eq v x)"
  by (induction xs) auto

lemma List_equals_iff: "List_equals eq xs ys \<longleftrightarrow> list_all2 eq xs ys"
  by (induction eq xs ys rule: List_equals.induct) auto

lemma List_find_dropWhile: "List_find eq v xs = dropWhile (\<lambda>x. \<not> eq v x) xs"
  by (induction xs) auto

lemma List_nth_ok: "List_nth n xs = (if n < length xs then Inr (xs ! n) else Inl Assertion_failed)"
  by (induction n xs rule: List_nth.induct) auto

lemma List_addAll_rev [simp]: "List_addAll vs xs = rev vs @ xs"
  by (induction vs arbitrary: xs) (auto simp: List_addFirst_def)

lemma remove_next_eq: "remove_next eq v xs = takeWhile (\<lambda>x. \<not> eq x v) xs @ tl (dropWhile (\<lambda>x. \<not> eq x v) xs)"
  by (induction xs) auto

lemma List_remove_eq: "List_remove eq v xs = takeWhile (\<lambda>x. \<not> eq x v) xs @ tl (dropWhile (\<lambda>x. \<not> eq x v) xs)"
  by (cases xs) (auto simp: remove_next_eq)

lemma copy_after_rev: "copy_after xs made = rev made @ xs"
  by (induction xs arbitrary: made) auto

lemma List_copy_id: "List_copy xs = xs"
  by (cases xs) (auto simp: List_copy_def copy_after_rev)

lemma zip_addBefore [simp]: "zip_list (List_addBefore i v) = rev (fst i) @ v # snd i"
  by (auto simp: zip_list_def List_addBefore_def split: list.splits)

lemma List_addBefore_simps [simp]: "List_addBefore (ps, xs) v = (v # ps, xs)"
  by (simp add: List_addBefore_def split: list.split)


section \<open>Sorted lists\<close>

lemma SortedList_add_loop_eq:
  "SortedList_add_loop cmp v (ps, xs) = rev ps @ SortedList_add_loop cmp v ([], xs)"
proof (induction xs arbitrary: ps)
  case (Cons x xs)
  have "SortedList_add_loop cmp v (x # ps, xs) = rev ps @ SortedList_add_loop cmp v ([x], xs)"
    using Cons [of "x # ps"] Cons [of "[x]"] by simp
  then show ?case by (auto simp: zip_list_def)
qed simp

lemma SortedList_add_simps [simp]:
  "SortedList_add cmp v [] = [v]"
  "SortedList_add cmp v (x # xs) = (if cmp v x < 0 then v # x # xs else x # SortedList_add cmp v xs)"
  using SortedList_add_loop_eq [of cmp v "[x]" xs] by (auto simp: SortedList_add_def zip_list_def)

lemma mset_SortedList_add [simp]: "mset (SortedList_add cmp v xs) = add_mset v (mset xs)"
  by (induction xs) auto

lemma set_SortedList_add [simp]: "set (SortedList_add cmp v xs) = insert v (set xs)"
  by (induction xs) auto

definition sorted_list :: "('a \<Rightarrow> 'a \<Rightarrow> int) \<Rightarrow> 'a list \<Rightarrow> bool" where
  "sorted_list cmp = sorted_wrt (\<lambda>x y. cmp x y \<le> 0)"

context comparator
begin

lemma sorted_SortedList_add: "sorted_list cmp xs \<Longrightarrow> sorted_list cmp (SortedList_add cmp v xs)"
proof (induction xs)
  case (Cons x xs)
  show ?case
  proof (cases "cmp v x < 0")
    case True
    then have "\<forall>y \<in> set xs. cmp v y \<le> 0"
      using Cons.prems cmp_trans [of v x] by (auto simp: sorted_list_def)
    with True Cons.prems show ?thesis by (simp add: sorted_list_def)
  next
    case False
    then have "cmp x v \<le> 0" using cmp_le_iff [of x v] by simp
    with False Cons show ?thesis by (simp add: sorted_list_def)
  qed
qed (simp add: sorted_list_def)

lemma sorted_wrt_drop_one: "sorted_wrt P (as @ bs) \<Longrightarrow> sorted_wrt P (as @ tl bs)"
  by (cases bs) (auto simp: sorted_wrt_append)

lemma SortedList_find_ok:
  "sorted_list cmp xs \<Longrightarrow> SortedList_find cmp v xs = dropWhile (\<lambda>x. cmp v x \<noteq> 0) xs"
proof (induction xs)
  case (Cons x xs)
  show ?case
  proof (cases "cmp v x < 0")
    case True
    have "cmp v y \<noteq> 0" if "y \<in> set xs" for y
      using that True Cons.prems cmp_less_le_trans [of v x y] by (auto simp: sorted_list_def)
    with True have "dropWhile (\<lambda>x. cmp v x \<noteq> 0) (x # xs) = []" by (simp add: dropWhile_eq_Nil_conv)
    moreover from True have "SortedList_find cmp v (x # xs) = []" by simp
    ultimately show ?thesis by (simp only:)
  next
    case False
    with Cons show ?thesis by (auto simp: sorted_list_def)
  qed
qed simp

lemma SortedList_contains_ok: "sorted_list cmp xs \<Longrightarrow> SortedList_contains cmp v xs = has cmp id v xs"
  by (auto simp: SortedList_contains_def SortedList_find_ok has_def dropWhile_eq_Nil_conv)

lemma sorted_SortedList_remove: "sorted_list cmp xs \<Longrightarrow> sorted_list cmp (SortedList_remove cmp v xs)"
proof -
  assume "sorted_list cmp xs"
  let ?p = "\<lambda>x. \<not> cmp x v = 0"
  have "sorted_list cmp (takeWhile ?p xs @ dropWhile ?p xs)" using \<open>sorted_list cmp xs\<close> by simp
  then have "sorted_list cmp (takeWhile ?p xs @ tl (dropWhile ?p xs))"
    unfolding sorted_list_def by (rule sorted_wrt_drop_one)
  then show ?thesis by (simp only: SortedList_remove_def List_remove_eq)
qed

lemma strict_sorted_list: "sorted_items cmp id xs \<Longrightarrow> sorted_list cmp xs"
  by (auto simp: sorted_list_def elim: sorted_wrt_mono_rel [rotated])

lemma ListSet_insert_ok: "sorted_items cmp id xs \<Longrightarrow> ListSet_insert cmp v xs = ins_item cmp id v xs"
proof -
  assume s: "sorted_items cmp id xs"
  have "\<not> has cmp id v xs \<Longrightarrow> SortedList_add cmp v xs = ins_item cmp id v xs"
    by (induction xs) auto
  moreover have "has cmp id v xs \<Longrightarrow> ins_item cmp id v xs = xs" using s
  proof (induction xs)
    case (Cons x xs)
    have "\<not> cmp v x < 0"
    proof
      assume "cmp v x < 0"
      then have "cmp v y < 0" if "y \<in> set xs" for y
        using that Cons.prems cmp_less_trans [of v x y] by simp
      with \<open>cmp v x < 0\<close> Cons.prems(1) show False unfolding has_def by fastforce
    qed
    with Cons show ?case by (auto simp: id_def)
  qed simp
  ultimately show ?thesis
    using SortedList_contains_ok [OF strict_sorted_list [OF s]] by (auto simp: ListSet_insert_def)
qed

end

section \<open>Set algebra on sorted lists\<close>

lemma join_loop_eq: "zip_list (join_loop cmp (fst i @ qs, snd i) js) = rev qs @ zip_list (join_loop cmp i js)"
  by (induction cmp i js rule: join_loop.induct) (auto simp: zip_list_def)

lemma ListSet_join_simps [simp]:
  "ListSet_join cmp xs [] = xs"
  "ListSet_join cmp [] (j # js) = j # ListSet_join cmp [] js"
  "ListSet_join cmp (x # xs) (j # js) =
     (if cmp x j = 0 then x # ListSet_join cmp xs js
      else if cmp x j < 0 then x # ListSet_join cmp xs (j # js)
      else j # ListSet_join cmp (x # xs) js)"
  using join_loop_eq [of cmp "([], xs)" "[x]"] join_loop_eq [of cmp "([], x # xs)" "[j]"]
    join_loop_eq [of cmp "([], [])" "[j]"]
  by (simp_all add: ListSet_join_def, simp add: zip_list_def)

lemma meet_loop_eq: "meet_loop cmp (ps @ qs) xs js = rev qs @ meet_loop cmp ps xs js"
  by (induction cmp ps xs js rule: meet_loop.induct) (auto simp: zip_list_def)

lemma ListSet_meet_simps [simp]:
  "ListSet_meet cmp [] js = []"
  "ListSet_meet cmp xs [] = []"
  "ListSet_meet cmp (x # xs) (j # js) =
     (if cmp x j = 0 then x # ListSet_meet cmp xs js
      else if cmp x j < 0 then ListSet_meet cmp xs (j # js)
      else ListSet_meet cmp (x # xs) js)"
proof -
  show "ListSet_meet cmp xs [] = []" by (induction xs) (auto simp: ListSet_meet_def zip_list_def)
qed (use meet_loop_eq [of cmp "[]" "[x]"] in \<open>auto simp: ListSet_meet_def zip_list_def\<close>)

lemma diff_loop_eq: "diff_loop cmp (ps @ qs) xs js = rev qs @ diff_loop cmp ps xs js"
  by (induction cmp ps xs js rule: diff_loop.induct) (auto simp: zip_list_def)

lemma ListSet_diff_simps [simp]:
  "ListSet_diff cmp [] js = []"
  "ListSet_diff cmp xs [] = xs"
  "ListSet_diff cmp (x # xs) (j # js) =
     (if cmp x j = 0 then ListSet_diff cmp xs js
      else if cmp x j < 0 then x # ListSet_diff cmp xs (j # js)
      else ListSet_diff cmp (x # xs) js)"
  using diff_loop_eq [of cmp "[]" "[x]"] by (auto simp: ListSet_diff_def zip_list_def)

text \<open>An induction over two sorted lists run through in parallel.\<close>

lemma two_lists_induct:
  assumes "\<And>js. P [] js" "\<And>xs. P xs []"
    "\<And>x xs j js. P xs js \<Longrightarrow> P xs (j # js) \<Longrightarrow> P (x # xs) js \<Longrightarrow> P (x # xs) (j # js)"
  shows "P xs js"
proof (induction xs arbitrary: js)
  case (Cons x xs)
  show ?case by (induction js) (auto intro: assms Cons)
qed (rule assms)

lemma ListSet_join_nil [simp]: "ListSet_join cmp [] js = js"
  by (induction js) auto

lemma set_join_subset: "set (ListSet_join cmp xs js) \<subseteq> set xs \<union> set js"
  by (induction xs js rule: two_lists_induct) auto

lemma set_meet_subset: "set (ListSet_meet cmp xs js) \<subseteq> set xs"
  by (induction xs js rule: two_lists_induct) auto

lemma set_diff_subset: "set (ListSet_diff cmp xs js) \<subseteq> set xs"
  by (induction xs js rule: two_lists_induct) auto

definition sorted_set :: "('a \<Rightarrow> 'a \<Rightarrow> int) \<Rightarrow> 'a list \<Rightarrow> bool" where
  "sorted_set cmp xs = sorted_items cmp id xs"

definition member :: "('a \<Rightarrow> 'a \<Rightarrow> int) \<Rightarrow> 'a \<Rightarrow> 'a list \<Rightarrow> bool" where
  "member cmp k xs = has cmp id k xs"

lemma member_simps [simp]:
  "member cmp k [] = False"
  "member cmp k (x # xs) = (cmp k x = 0 \<or> member cmp k xs)"
  by (simp_all add: member_def)

lemma sorted_set_simps [simp]:
  "sorted_set cmp []"
  "sorted_set cmp (x # xs) = ((\<forall>y \<in> set xs. cmp x y < 0) \<and> sorted_set cmp xs)"
  by (simp_all add: sorted_set_def)

context comparator
begin

lemma member_above: "\<forall>y \<in> set xs. cmp a y < 0 \<Longrightarrow> member cmp k xs \<Longrightarrow> cmp a k < 0"
  using has_above [of xs a id k] by (simp add: member_def)

lemma sorted_join: "sorted_set cmp xs \<Longrightarrow> sorted_set cmp js \<Longrightarrow> sorted_set cmp (ListSet_join cmp xs js)"
proof (induction xs js rule: two_lists_induct)
  case (3 x xs j js)
  note sub = set_join_subset [of cmp xs js] set_join_subset [of cmp xs "j # js"] set_join_subset [of cmp "x # xs" js]
  consider "cmp x j = 0" | "cmp x j < 0" | "cmp j x < 0" "0 < cmp x j"
    using cmp_gt_iff [of x j] by linarith
  then show ?case
  proof cases
    case 1
    then have "cmp x y < 0" if "y \<in> set xs \<union> set js" for y
      using that "3.prems" cmp_le_less_trans [of x j y] by auto
    moreover have "ListSet_join cmp (x # xs) (j # js) = x # ListSet_join cmp xs js" using 1 by simp
    ultimately show ?thesis using 3 sub(1) by (simp only: sorted_set_simps) blast
  next
    case 2
    then have "cmp x y < 0" if "y \<in> set xs \<union> set (j # js)" for y
      using that "3.prems" cmp_less_trans [of x j y] by auto
    moreover have "ListSet_join cmp (x # xs) (j # js) = x # ListSet_join cmp xs (j # js)" using 2 by simp
    ultimately show ?thesis using 3 sub(2) by (simp only: sorted_set_simps) blast
  next
    case c: 3
    then have "cmp j y < 0" if "y \<in> set (x # xs) \<union> set js" for y
      using that "3.prems" cmp_less_trans [of j x y] by auto
    moreover have "ListSet_join cmp (x # xs) (j # js) = j # ListSet_join cmp (x # xs) js" using c by simp
    ultimately show ?thesis using 3 sub(3) by (simp only: sorted_set_simps) blast
  qed
qed simp_all

lemma sorted_meet: "sorted_set cmp xs \<Longrightarrow> sorted_set cmp (ListSet_meet cmp xs js)"
  using set_meet_subset by (induction xs js rule: two_lists_induct) fastforce+

lemma sorted_diff: "sorted_set cmp xs \<Longrightarrow> sorted_set cmp (ListSet_diff cmp xs js)"
  using set_diff_subset by (induction xs js rule: two_lists_induct) fastforce+

text \<open>Where an item \<open>k\<close> can be, from the order of the two heads.\<close>

lemma heads_apart:
  assumes "sorted_set cmp (x # xs)" "sorted_set cmp (j # js)"
  shows "cmp x j = 0 \<Longrightarrow> (cmp k x = 0) = (cmp k j = 0)"
    "cmp x j = 0 \<Longrightarrow> member cmp k xs \<Longrightarrow> cmp k j \<noteq> 0"
    "cmp x j < 0 \<Longrightarrow> cmp k x = 0 \<Longrightarrow> cmp k j \<noteq> 0 \<and> \<not> member cmp k js"
    "0 < cmp x j \<Longrightarrow> cmp k x = 0 \<or> member cmp k xs \<Longrightarrow> cmp k j \<noteq> 0"
    "0 < cmp x j \<Longrightarrow> cmp k j = 0 \<Longrightarrow> cmp k x \<noteq> 0 \<and> \<not> member cmp k xs"
proof -
  have above: "member cmp k xs \<Longrightarrow> cmp x k < 0" "member cmp k js \<Longrightarrow> cmp j k < 0"
    using member_above [of xs x k] member_above [of js j k] assms by auto
  show eq: "(cmp k x = 0) = (cmp k j = 0)" if "cmp x j = 0"
    using that cmp_eq_trans [of k x j] cmp_eq_trans [of k j x] cmp_eq_sym [of x j] by blast
  show "cmp k j \<noteq> 0" if "cmp x j = 0" "member cmp k xs"
    using that eq above(1) cmp_less_not_eq by blast
  show "cmp k j \<noteq> 0 \<and> \<not> member cmp k js" if "cmp x j < 0" "cmp k x = 0"
  proof -
    have "cmp k j < 0" using cmp_le_less_trans [of k x j] that by simp
    then show ?thesis using above(2) cmp_gt_iff [of k j] by auto
  qed
  have gt: "cmp j k < 0" if "0 < cmp x j" "cmp k x = 0 \<or> member cmp k xs"
    using that cmp_less_le_trans [of j x k] cmp_less_trans [of j x k] cmp_gt_iff [of x j]
      above(1) cmp_eq_sym [of k x] by auto
  then show "cmp k j \<noteq> 0" if "0 < cmp x j" "cmp k x = 0 \<or> member cmp k xs"
    using that cmp_less_not_eq by blast
  then show "cmp k x \<noteq> 0 \<and> \<not> member cmp k xs" if "0 < cmp x j" "cmp k j = 0"
    using that by blast
qed

lemma member_join:
  "sorted_set cmp xs \<Longrightarrow> sorted_set cmp js \<Longrightarrow>
   member cmp k (ListSet_join cmp xs js) \<longleftrightarrow> member cmp k xs \<or> member cmp k js"
proof (induction xs js rule: two_lists_induct)
  case (3 x xs j js)
  then show ?case using heads_apart(1) [OF "3.prems", of k] by auto
qed simp_all

lemma member_meet:
  "sorted_set cmp xs \<Longrightarrow> sorted_set cmp js \<Longrightarrow>
   member cmp k (ListSet_meet cmp xs js) \<longleftrightarrow> member cmp k xs \<and> member cmp k js"
proof (induction xs js rule: two_lists_induct)
  case (3 x xs j js)
  note h = heads_apart [OF "3.prems", of k]
  consider "cmp x j = 0" | "cmp x j < 0" | "0 < cmp x j" by linarith
  then show ?case
  proof cases
    case 1
    show ?thesis using 3 1 h(1) [OF 1] h(2) [OF 1] by auto
  next
    case 2
    show ?thesis using 3 2 h(3) [OF 2] by auto
  next
    case c: 3
    have "ListSet_meet cmp (x # xs) (j # js) = ListSet_meet cmp (x # xs) js" using c by simp
    moreover have "sorted_set cmp js" using "3.prems"(2) by simp
    ultimately have "member cmp k (ListSet_meet cmp (x # xs) (j # js)) \<longleftrightarrow>
        (cmp k x = 0 \<or> member cmp k xs) \<and> (cmp k j = 0 \<or> member cmp k js)"
      using "3.IH"(3) [OF "3.prems"(1), unfolded member_simps] h(4) [OF c] by metis
    then show ?thesis by (simp only: member_simps)
  qed
qed simp_all

lemma member_diff:
  "sorted_set cmp xs \<Longrightarrow> sorted_set cmp js \<Longrightarrow>
   member cmp k (ListSet_diff cmp xs js) \<longleftrightarrow> member cmp k xs \<and> \<not> member cmp k js"
proof (induction xs js rule: two_lists_induct)
  case (3 x xs j js)
  note h = heads_apart [OF "3.prems", of k]
  consider "cmp x j = 0" | "cmp x j < 0" | "0 < cmp x j" by linarith
  then show ?case
  proof cases
    case 1
    show ?thesis using 3 1 h(1) [OF 1] h(2) [OF 1] by auto
  next
    case 2
    show ?thesis using 3 2 h(3) [OF 2] by auto
  next
    case c: 3
    have "ListSet_diff cmp (x # xs) (j # js) = ListSet_diff cmp (x # xs) js" using c by simp
    moreover have "sorted_set cmp js" using "3.prems"(2) by simp
    ultimately have "member cmp k (ListSet_diff cmp (x # xs) (j # js)) \<longleftrightarrow>
        (cmp k x = 0 \<or> member cmp k xs) \<and> \<not> (cmp k j = 0 \<or> member cmp k js)"
      using "3.IH"(3) [OF "3.prems"(1), unfolded member_simps] h(4) [OF c] by metis
    then show ?thesis by (simp only: member_simps)
  qed
qed simp_all

lemma subsetOf_iff:
  "sorted_set cmp xs \<Longrightarrow> sorted_set cmp l \<Longrightarrow>
   ListSet_subsetOf cmp xs l \<longleftrightarrow> (\<forall>k. member cmp k xs \<longrightarrow> member cmp k l)"
proof -
  have "ListSet_subset_loop cmp is js = sub_items cmp js is" for "is" js
    using cmp_gt_iff cmp_eq_sym
    by (induction js "is" rule: two_lists_induct) (auto; metis)+
  then show "sorted_set cmp xs \<Longrightarrow> sorted_set cmp l \<Longrightarrow> ?thesis"
    unfolding ListSet_subsetOf_def sorted_set_def member_def by (simp only: sub_items_ok)
qed

end

section \<open>Contracts\<close>

text \<open>\<^verbatim>\<open>ListSet\<close> is an ordered store without a size limit.\<close>

locale list_set = comparator cmp for cmp :: "'a \<Rightarrow> 'a \<Rightarrow> int"
begin

lemma remove_next_del: "remove_next (\<lambda>x y. cmp x y = 0) k xs = del_item cmp id k xs"
  by (induction xs) (auto simp: cmp_eq_sym [of _ k])

lemma remove_del: "SortedList_remove cmp k xs = del_item cmp id k xs"
  by (cases xs) (auto simp: SortedList_remove_def remove_next_del cmp_eq_sym [of _ k])

lemma find_find:
  "sorted_items cmp id xs \<Longrightarrow> (case SortedList_find cmp k xs of [] \<Rightarrow> None | x # _ \<Rightarrow> Some x) = find_item cmp id k xs"
proof -
  have "(case dropWhile (\<lambda>x. cmp k x \<noteq> 0) xs of [] \<Rightarrow> None | x # _ \<Rightarrow> Some x) = find_item cmp id k xs"
    by (induction xs) auto
  then show "sorted_items cmp id xs \<Longrightarrow> ?thesis"
    using SortedList_find_ok [OF strict_sorted_list, of xs k] by simp
qed

end

sublocale list_set \<subseteq> store: ordered_store cmp id "sorted_set cmp" id "\<lambda>n. True"
  "\<lambda>x xs. Inr (ListSet_insert cmp x xs)" "\<lambda>k xs. Inr (SortedList_remove cmp k xs)"
  "\<lambda>k xs. case SortedList_find cmp k xs of [] \<Rightarrow> None | x # _ \<Rightarrow> Some x"
proof (unfold_locales, goal_cases)
  case (1 t)
  then show ?case by (simp add: sorted_set_def id_def)
next
  case (2 t x)
  then show ?case
    using ListSet_insert_ok [of t x] sorted_ins_item [of id t x] by (simp add: sorted_set_def id_def)
next
  case (3 t k)
  then show ?case
    using remove_del [of k t] sorted_del_item [of id t k] by (simp add: sorted_set_def id_def)
next
  case (4 t k)
  then show ?case using find_find [of t k] by (simp add: sorted_set_def id_def)
qed

context list_set
begin

lemmas list_set_get_add = store.get_add
lemmas list_set_get_del = store.get_del

end

interpretation std_list_set: list_set "Comparator_compare :: 'a::linorder \<Rightarrow> 'a \<Rightarrow> int"
  by unfold_locales

context comparator
begin

lemma ListMap_lookup_ok:
  "sorted_items cmp fst xs \<Longrightarrow>
   (case ListMap_lookup cmp k ps xs of
      None \<Rightarrow> \<forall>p \<in> set xs. cmp k (fst p) \<noteq> 0
    | Some i \<Rightarrow> \<exists>before p after. i = (rev before @ ps, p # after) \<and> xs = before @ p # after \<and>
        cmp k (fst p) = 0 \<and> (\<forall>q \<in> set before. cmp k (fst q) \<noteq> 0))"
proof (induction xs arbitrary: ps)
  case (Cons q xs)
  consider "cmp k (fst q) = 0" | "cmp k (fst q) < 0" | "0 < cmp k (fst q)" by linarith
  then show ?case
  proof cases
    case 1
    then show ?thesis by (auto intro!: exI [of _ "[]"])
  next
    case 2
    have "cmp k (fst p) < 0" if "p \<in> set xs" for p
      using that 2 Cons.prems cmp_less_trans [of k "fst q" "fst p"] by simp
    with 2 show ?thesis by fastforce
  next
    case 3
    have s: "sorted_items cmp fst xs" using Cons.prems by simp
    show ?thesis
    proof (cases "ListMap_lookup cmp k (q # ps) xs")
      case None
      with Cons.IH [OF s, of "q # ps"] 3 show ?thesis by simp
    next
      case (Some i)
      with Cons.IH [OF s, of "q # ps"] obtain before p after where
        "i = (rev before @ q # ps, p # after)" "xs = before @ p # after" "cmp k (fst p) = 0"
        "\<forall>q \<in> set before. cmp k (fst q) \<noteq> 0" by auto
      with 3 Some show ?thesis by (auto intro!: exI [of _ "q # before"])
    qed
  qed
qed simp

lemma ListMap_get_find:
  assumes "sorted_items cmp fst m"
  shows "ListMap_get cmp k m = map_option snd (find_item cmp fst k m)"
proof (cases "ListMap_lookup cmp k [] m")
  case None
  with ListMap_lookup_ok [OF assms, of k "[]"] have "find_item cmp fst k m = None"
    by (simp add: find_item_None)
  with None show ?thesis by (simp add: ListMap_get_def)
next
  case (Some i)
  with ListMap_lookup_ok [OF assms, of k "[]"] obtain before p after where
    i: "i = (rev before, p # after)" "m = before @ p # after" "cmp k (fst p) = 0"
      "\<forall>q \<in> set before. cmp k (fst q) \<noteq> 0" by auto
  then have "find_item cmp fst k before = None" by (simp add: find_item_None)
  with i Some show ?thesis by (simp add: ListMap_get_def find_item_append)
qed

lemma assoc_add_ins:
  "\<forall>p \<in> set m. cmp k (fst p) \<noteq> 0 \<Longrightarrow>
   SortedList_add (AssocComparator_compare cmp) (k, v) m = ins_item cmp fst (k, v) m"
  by (induction m) (auto simp: AssocComparator_compare_def)

lemma find_ins_new:
  "sorted_items cmp fst m \<Longrightarrow> \<forall>p \<in> set m. cmp k (fst p) \<noteq> 0 \<Longrightarrow>
   find_item cmp fst j (ins_item cmp fst (k, v) m) = (if cmp j k = 0 then Some (k, v) else find_item cmp fst j m)"
proof (induction m)
  case (Cons p m)
  have "cmp j k = 0 \<Longrightarrow> cmp j (fst p) \<noteq> 0"
    using Cons.prems(2) cmp_eq_trans [of k j "fst p"] cmp_eq_sym [of j k] by auto
  with Cons show ?case by auto
qed simp

lemma ListMap_put_ok:
  assumes "sorted_items cmp fst m"
  shows "\<exists>m'. ListMap_put cmp k v m = Inr m' \<and> sorted_items cmp fst m' \<and>
    (\<forall>j. ListMap_get cmp j m' = (if cmp j k = 0 then Some v else ListMap_get cmp j m))"
proof (cases "ListMap_lookup cmp k [] m")
  case None
  with ListMap_lookup_ok [OF assms, of k "[]"] have new: "\<forall>p \<in> set m. cmp k (fst p) \<noteq> 0" by simp
  let ?m = "ins_item cmp fst (k, v) m"
  have "ListMap_put cmp k v m = Inr ?m" using None assoc_add_ins [OF new] by (simp add: ListMap_put_def)
  moreover have s: "sorted_items cmp fst ?m" using assms by (rule sorted_ins_item)
  ultimately show ?thesis
    using find_ins_new [OF assms new] by (simp add: ListMap_get_find [OF s] ListMap_get_find [OF assms])
next
  case (Some i)
  with ListMap_lookup_ok [OF assms, of k "[]"] obtain before p after where
    i: "i = (rev before, p # after)" "m = before @ p # after" "cmp k (fst p) = 0"
      "\<forall>q \<in> set before. cmp k (fst q) \<noteq> 0" by auto
  let ?m = "before @ (k, v) # after"
  have put: "ListMap_put cmp k v m = Inr ?m"
    using Some i by (simp add: ListMap_put_def List_set_def zip_list_def)
  have "\<forall>q \<in> set before. cmp (fst q) k < 0"
    using assms i(2,3) cmp_less_le_trans [of _ "fst p" k] cmp_eq_sym [of k "fst p"]
    by (auto simp: sorted_wrt_append)
  moreover have "\<forall>q \<in> set after. cmp k (fst q) < 0"
    using assms i(2,3) cmp_le_less_trans [of k "fst p"] by (auto simp: sorted_wrt_append)
  ultimately have s: "sorted_items cmp fst ?m" using assms i(2) by (auto simp: sorted_wrt_append)
  have eq: "cmp j (fst p) = 0 \<longleftrightarrow> cmp j k = 0" for j
    using i(3) cmp_eq_trans [of j "fst p" k] cmp_eq_trans [of j k "fst p"] cmp_eq_sym [of k "fst p"] by auto
  have before: "find_item cmp fst j before = None" if "cmp j k = 0" for j
    using i(4) that cmp_eq_trans [of k j] cmp_eq_sym [of j k] by (auto simp: find_item_None)
  have "map_option snd (find_item cmp fst j ?m) = (if cmp j k = 0 then Some v else map_option snd (find_item cmp fst j m))" for j
    using eq [of j] before [of j] i(2) by (auto simp: find_item_append split: option.splits)
  with put s show ?thesis by (simp add: ListMap_get_find [OF s] ListMap_get_find [OF assms])
qed

lemma ListMap_remove_del:
  assumes "sorted_items cmp fst m"
  shows "ListMap_remove cmp k m = del_item cmp fst k m"
proof (cases "ListMap_lookup cmp k [] m")
  case None
  with ListMap_lookup_ok [OF assms, of k "[]"] show ?thesis
    by (simp add: ListMap_remove_def del_item_absent)
next
  case (Some i)
  with ListMap_lookup_ok [OF assms, of k "[]"] obtain before p after where
    i: "i = (rev before, p # after)" "m = before @ p # after" "cmp k (fst p) = 0"
      "\<forall>q \<in> set before. cmp k (fst q) \<noteq> 0" by auto
  have "cmp (fst q) (fst p) = 0 \<longleftrightarrow> cmp k (fst q) = 0" for q
    using i(3) cmp_eq_trans [of k "fst p" "fst q"] cmp_eq_trans [of "fst q" k "fst p"]
      cmp_eq_sym [of "fst q"] by metis
  then have "remove_next (\<lambda>x y. AssocComparator_compare cmp x y = 0) p xs = del_item cmp fst k xs" for xs
    by (induction xs) (auto simp: AssocComparator_compare_def)
  with \<open>\<And>q. cmp (fst q) (fst p) = 0 \<longleftrightarrow> cmp k (fst q) = 0\<close>
  have "SortedList_remove (AssocComparator_compare cmp) p xs = del_item cmp fst k xs" for xs
    by (cases xs) (auto simp: SortedList_remove_def AssocComparator_compare_def)
  with Some i(1) show ?thesis by (simp add: ListMap_remove_def)
qed

lemma ListMap_remove_ok:
  assumes "sorted_items cmp fst m"
  shows "sorted_items cmp fst (ListMap_remove cmp k m)"
    "ListMap_get cmp j (ListMap_remove cmp k m) = (if cmp j k = 0 then None else ListMap_get cmp j m)"
proof -
  have rem: "ListMap_remove cmp k m = del_item cmp fst k m" using assms by (rule ListMap_remove_del)
  show s: "sorted_items cmp fst (ListMap_remove cmp k m)" using assms by (simp only: rem sorted_del_item)
  show "ListMap_get cmp j (ListMap_remove cmp k m) = (if cmp j k = 0 then None else ListMap_get cmp j m)"
    unfolding ListMap_get_find [OF s] ListMap_get_find [OF assms] unfolding rem find_item_del [OF assms] by simp
qed

end

lemma list_map_contract:
  "comparator cmp \<Longrightarrow>
   key_map (\<lambda>j k. cmp j k = 0) (sorted_items cmp fst) (ListMap_get cmp) (ListMap_put cmp)
     (\<lambda>k m. Inr (ListMap_remove cmp k m))"
  by (rule key_map.intro)
    (simp_all add: comparator.ListMap_put_ok comparator.ListMap_remove_ok)

interpretation std_list_map: key_map "\<lambda>j k. Comparator_compare j k = 0" "sorted_items Comparator_compare fst"
  "ListMap_get Comparator_compare" "ListMap_put Comparator_compare"
  "\<lambda>k m. Inr (ListMap_remove Comparator_compare k m)"
  by (rule list_map_contract [OF comparator_Comparator_compare])


section \<open>Properties\<close>

text \<open>
  The elementary operations of \<^verbatim>\<open>List\<close>: access and removal at both ends fail on the
  empty list only, \<^verbatim>\<open>nth\<close> asserts its bound, \<^verbatim>\<open>addLast\<close> appends, a copy is equal to its
  source, \<^verbatim>\<open>addAll\<close> leaves the added items in the reverse order in front, \<^verbatim>\<open>find\<close>
  stops at the first equal item, \<^verbatim>\<open>remove\<close> deletes exactly the first equal item.
\<close>

lemma list_operations:
  "List_last xs = (if xs = [] then Inl Null_dereference else Inr (last xs)) \<and>
   List_removeLast xs = (if xs = [] then Inl Null_dereference else Inr (butlast xs)) \<and>
   List_nth n xs = (if n < length xs then Inr (xs ! n) else Inl Assertion_failed) \<and>
   List_addLast v xs = xs @ [v] \<and> List_copy xs = xs \<and> List_addAll vs xs = rev vs @ xs \<and>
   (case List_find eq v xs of
      [] \<Rightarrow> \<not> List_contains eq v xs
    | y # ys \<Rightarrow> eq v y \<and> (\<exists>zs. xs = zs @ y # ys \<and> (\<forall>z \<in> set zs. \<not> eq v z))) \<and>
   (if \<exists>x \<in> set xs. eq x v
    then \<exists>ys y zs. xs = ys @ y # zs \<and> eq y v \<and> (\<forall>z \<in> set ys. \<not> eq z v) \<and> List_remove eq v xs = ys @ zs
    else List_remove eq v xs = xs)"
proof (intro conjI)
  show "case List_find eq v xs of
      [] \<Rightarrow> \<not> List_contains eq v xs
    | y # ys \<Rightarrow> eq v y \<and> (\<exists>zs. xs = zs @ y # ys \<and> (\<forall>z \<in> set zs. \<not> eq v z))"
  proof (induction xs)
    case (Cons x xs)
    then show ?case by (auto simp: split: list.splits)
  qed simp
  show "if \<exists>x \<in> set xs. eq x v
    then \<exists>ys y zs. xs = ys @ y # zs \<and> eq y v \<and> (\<forall>z \<in> set ys. \<not> eq z v) \<and> List_remove eq v xs = ys @ zs
    else List_remove eq v xs = xs"
  proof (cases "\<exists>x \<in> set xs. eq x v")
    case True
    then obtain ys y zs where f: "xs = ys @ y # zs" "eq y v" "\<forall>z \<in> set ys. \<not> eq z v"
      using split_list_first_prop [of xs "\<lambda>x. eq x v"] by blast
    then have "List_remove eq v xs = ys @ zs" by (simp add: List_remove_eq)
    with f True show ?thesis by (simp only: if_True) blast
  next
    case False
    then have "takeWhile (\<lambda>x. \<not> eq x v) xs = xs" by (simp add: takeWhile_eq_all_conv)
    moreover from False have "dropWhile (\<lambda>x. \<not> eq x v) xs = []" by (simp add: dropWhile_eq_Nil_conv)
    ultimately have "List_remove eq v xs = xs" by (simp only: List_remove_eq list.sel append_Nil2)
    with False show ?thesis by (simp only: if_False)
  qed
qed (auto simp: List_last_ok List_removeLast_ok List_nth_ok List_copy_id)

text \<open>
  \<^verbatim>\<open>SortedList\<close>: with a total preorder as comparator, \<^verbatim>\<open>add\<close> keeps the list sorted and
  adds exactly its item, \<^verbatim>\<open>remove\<close> keeps it sorted, \<^verbatim>\<open>find\<close> and \<^verbatim>\<open>contains\<close> find an
  equivalent item whenever there is one although they stop early. \<^verbatim>\<open>addAll\<close> does not keep the
  order: it puts the items in front as they come.
\<close>

lemma sorted_list_operations:
  assumes "comparator cmp" "sorted_list cmp xs"
  shows "sorted_list cmp (SortedList_add cmp v xs) \<and> mset (SortedList_add cmp v xs) = add_mset v (mset xs) \<and>
    sorted_list cmp (SortedList_remove cmp v xs) \<and>
    SortedList_find cmp v xs = dropWhile (\<lambda>x. cmp v x \<noteq> 0) xs \<and>
    SortedList_contains cmp v xs = (\<exists>x \<in> set xs. cmp v x = 0) \<and>
    SortedList_addAll vs xs = rev vs @ xs"
  using comparator.sorted_SortedList_add [OF assms] comparator.sorted_SortedList_remove [OF assms]
    comparator.SortedList_find_ok [OF assms] comparator.SortedList_contains_ok [OF assms]
  by (auto simp: SortedList_addAll_def has_def)

lemma sorted_list_operations_witness:
  "sorted_list Comparator_compare (SortedList_add Comparator_compare 2 [1, 3 :: int]) \<and>
   SortedList_addAll [5, 4] [1, 3 :: int] = [4, 5, 1, 3]"
  using sorted_list_operations [OF comparator_Comparator_compare, of "[1, 3 :: int]" 2 "[5, 4]"]
  by (simp add: sorted_list_def)

text \<open>
  C9. \<^verbatim>\<open>ListSet\<close> is a set, modulo the equivalence of its comparator: insertion is that of the
  ordered store, and \<^verbatim>\<open>join\<close>, \<^verbatim>\<open>meet\<close> and \<^verbatim>\<open>diff\<close>, which run over both lists once
  and update the first one in place, keep it strictly sorted and give union, intersection and
  difference; \<^verbatim>\<open>subsetOf\<close> decides inclusion.
\<close>

theorem list_set_algebra:
  assumes "comparator cmp" "sorted_set cmp xs" "sorted_set cmp ys"
  shows "sorted_set cmp (ListSet_insert cmp v xs) \<and> sorted_set cmp (ListSet_join cmp xs ys) \<and>
    sorted_set cmp (ListSet_meet cmp xs ys) \<and> sorted_set cmp (ListSet_diff cmp xs ys) \<and>
    (\<forall>k. member cmp k (ListSet_join cmp xs ys) = (member cmp k xs \<or> member cmp k ys)) \<and>
    (\<forall>k. member cmp k (ListSet_meet cmp xs ys) = (member cmp k xs \<and> member cmp k ys)) \<and>
    (\<forall>k. member cmp k (ListSet_diff cmp xs ys) = (member cmp k xs \<and> \<not> member cmp k ys)) \<and>
    ListSet_insert cmp v xs = ins_item cmp id v xs \<and>
    ListSet_subsetOf cmp xs ys = (\<forall>k. member cmp k xs \<longrightarrow> member cmp k ys)"
proof -
  have s: "sorted_items cmp id xs" using assms(2) by (simp only: sorted_set_def)
  show ?thesis
    using comparator.member_join [OF assms] comparator.member_meet [OF assms]
      comparator.member_diff [OF assms] comparator.subsetOf_iff [OF assms]
      comparator.sorted_join [OF assms] comparator.sorted_meet [OF assms(1,2)]
      comparator.sorted_diff [OF assms(1,2)] comparator.ListSet_insert_ok [OF assms(1) s]
      comparator.sorted_ins_item [OF assms(1) s]
    by (simp only: sorted_set_def) blast
qed

theorem list_set_algebra_witness:
  "member Comparator_compare 3 (ListSet_meet Comparator_compare [1, 3, 5] [3, 4, 5 :: int]) \<and>
   \<not> member Comparator_compare 3 (ListSet_diff Comparator_compare [1, 3, 5] [3, 4, 5 :: int]) \<and>
   \<not> ListSet_subsetOf Comparator_compare [1, 3, 5] [3, 4, 5 :: int]"
proof -
  let ?x = "[1, 3, 5] :: int list" and ?y = "[3, 4, 5] :: int list"
  have s: "sorted_set Comparator_compare ?x" "sorted_set Comparator_compare ?y" by simp_all
  have m: "member Comparator_compare 3 ?x" "member Comparator_compare 3 ?y"
    "member Comparator_compare 1 ?x" "\<not> member Comparator_compare 1 ?y" by simp_all
  show ?thesis using list_set_algebra [OF comparator_Comparator_compare s, of 0] m by blast
qed

text \<open>
  C10. \<^verbatim>\<open>ListMap\<close> refines a map from keys to values: after any sequence of \<^verbatim>\<open>put\<close>, which
  overwrites, and \<^verbatim>\<open>remove\<close>, none of which can fail, the pairs are strictly sorted by key and
  \<^verbatim>\<open>get\<close> answers as the function updated in the same way does.
\<close>

theorem list_map_refines:
  assumes "comparator cmp" "sorted_items cmp fst m"
  shows "\<exists>m'. map_run (ListMap_put cmp) (\<lambda>k m. Inr (ListMap_remove cmp k m)) ops m = Inr m' \<and>
    sorted_items cmp fst m' \<and>
    (\<forall>j. ListMap_get cmp j m' = map_spec (\<lambda>j k. cmp j k = 0) ops (\<lambda>j. ListMap_get cmp j m) j)"
  using key_map.run_refines [OF list_map_contract [OF assms(1)] assms(2)] by blast

theorem list_map_refines_witness:
  "\<exists>m'. map_run (ListMap_put Comparator_compare) (\<lambda>k m. Inr (ListMap_remove Comparator_compare k m))
      [Put_key 1 True, Put_key 2 True, Put_key (1 :: int) False, Remove_key 2] [] = Inr m' \<and>
    ListMap_get Comparator_compare 1 m' = Some False \<and> ListMap_get Comparator_compare 2 m' = None"
  using list_map_refines [OF comparator_Comparator_compare, of "[]"
      "[Put_key 1 True, Put_key 2 True, Put_key (1 :: int) False, Remove_key 2]"]
  by (auto simp: ListMap_get_def)

end
