(* ===== verification/Binomial_Queue.thy ===== *)
theory Binomial_Queue
  imports Elm_Prelude
begin

text \<open>
  The priority queue \<^verbatim>\<open>BinomialQueue\<close> (\<^verbatim>\<open>include/elm/data/BinomialQueue.h\<close>): a forest
  of heap-ordered binomial trees chained by increasing degree.

  A node is a tree with the chain of its children; the chain of roots is a list. The field
  \<^verbatim>\<open>_min\<close>, which is meant to cache the minimum outside of the forest, is an option.
\<close>

section \<open>Model\<close>

datatype 'a bnode = BNode (degree: nat) (item: 'a) (child: "'a bnode list")

record 'a bqueue =
  bq_head :: "'a bnode list"
  bq_min :: "'a bnode option"

definition BinomialQueue_new :: "'a bqueue" where
  "BinomialQueue_new = \<lparr>bq_head = [], bq_min = None\<rparr>"

definition BinomialQueue_isEmpty :: "'a bqueue \<Rightarrow> bool" where
  "BinomialQueue_isEmpty q = (bq_head q = [] \<and> bq_min q = None)"

definition higher :: "('a \<Rightarrow> 'a \<Rightarrow> int) \<Rightarrow> 'a \<Rightarrow> 'a \<Rightarrow> bool" where
  "higher cmp x y = (cmp x y \<le> 0)"

definition bq_link :: "'a bnode \<Rightarrow> 'a bnode \<Rightarrow> 'a bnode" where
  "bq_link r c = BNode (degree r + 1) (item r) (c # child r)"

text \<open>
  \<^verbatim>\<open>min\<close> keeps the best node so far; the model keeps the roots before it (their last one is
  \<^verbatim>\<open>prev\<close>) and those after it, up to the cursor.
\<close>

fun min_loop :: "('a \<Rightarrow> 'a \<Rightarrow> int) \<Rightarrow> 'a bnode list \<Rightarrow> 'a bnode \<Rightarrow> 'a bnode list \<Rightarrow> 'a bnode list \<Rightarrow>
    'a bnode list \<times> 'a bnode \<times> 'a bnode list" where
  "min_loop cmp before n seen [] = (before, n, seen)"
| "min_loop cmp before n seen (c # cs) =
     (if higher cmp (item c) (item n) then min_loop cmp (before @ n # seen) c [] cs
      else min_loop cmp before n (seen @ [c]) cs)"

fun bq_find_min :: "('a \<Rightarrow> 'a \<Rightarrow> int) \<Rightarrow> 'a bnode list \<Rightarrow> ('a bnode list \<times> 'a bnode \<times> 'a bnode list) res" where
  "bq_find_min cmp [] = Inl Assertion_failed"
| "bq_find_min cmp (h # hs) = Inr (min_loop cmp [] h [] hs)"

fun bq_merge :: "'a bnode list \<Rightarrow> 'a bnode list \<Rightarrow> 'a bnode list" where
  "bq_merge (a # as) (b # bs) =
     (if degree a < degree b then a # bq_merge as (b # bs) else b # bq_merge (a # as) bs)"
| "bq_merge as [] = as"
| "bq_merge [] bs = bs"

text \<open>
  The linking loop of \<^verbatim>\<open>join\<close>: \<open>ps\<close> are the roots before \<open>x\<close> (its head is \<open>p\<close>), the
  list holds the roots after it.
\<close>

function join_trees :: "('a \<Rightarrow> 'a \<Rightarrow> int) \<Rightarrow> 'a bnode list \<Rightarrow> 'a bnode \<Rightarrow> 'a bnode list \<Rightarrow> 'a bnode list" where
  "join_trees cmp ps x [] = rev ps @ [x]"
| "join_trees cmp ps x (n # ns) =
     (if degree x \<noteq> degree n \<or> (ns \<noteq> [] \<and> degree (hd ns) = degree x)
        then join_trees cmp (x # ps) n ns
      else if higher cmp (item x) (item n) then join_trees cmp ps (bq_link x n) ns
      else join_trees cmp ps (bq_link n x) ns)"
  by pat_completeness auto
termination by (relation "measure (\<lambda>(cmp, ps, x, ns). length ns)") auto

definition bq_join :: "('a \<Rightarrow> 'a \<Rightarrow> int) \<Rightarrow> 'a bnode list \<Rightarrow> 'a bqueue \<Rightarrow> 'a bqueue" where
  "bq_join cmp h2 q =
     (if h2 = [] then q
      else if bq_head q = [] then q\<lparr>bq_head := h2\<rparr>
      else (case bq_merge (bq_head q) h2 of
              [] \<Rightarrow> q
            | x # ns \<Rightarrow> q\<lparr>bq_head := join_trees cmp [] x ns\<rparr>))"

fun bq_reverse :: "'a bnode list \<Rightarrow> 'a bnode list \<Rightarrow> 'a bnode list" where
  "bq_reverse t [] = t"
| "bq_reverse t (h # hs) = bq_reverse (h # t) hs"

definition BinomialQueue_head :: "('a \<Rightarrow> 'a \<Rightarrow> int) \<Rightarrow> 'a bqueue \<Rightarrow> 'a res" where
  "BinomialQueue_head cmp q = bind_res (bq_find_min cmp (bq_head q)) (\<lambda>(before, n, after). Inr (item n))"

definition BinomialQueue_get :: "('a \<Rightarrow> 'a \<Rightarrow> int) \<Rightarrow> 'a bqueue \<Rightarrow> ('a \<times> 'a bqueue) res" where
  "BinomialQueue_get cmp q =
     bind_res (bq_find_min cmp (bq_head q)) (\<lambda>(before, n, after).
       Inr (item n, bq_join cmp (bq_reverse [] (child n)) (q\<lparr>bq_head := before @ after\<rparr>)))"

definition BinomialQueue_put :: "('a \<Rightarrow> 'a \<Rightarrow> int) \<Rightarrow> 'a \<Rightarrow> 'a bqueue \<Rightarrow> 'a bqueue" where
  "BinomialQueue_put cmp x q =
     (let n = BNode 0 x []
      in case bq_min q of
           Some m \<Rightarrow>
             if higher cmp (item n) (item m)
             then (bq_join cmp [BNode 0 (item m) []] q)\<lparr>bq_min := Some n\<rparr>
             else bq_join cmp [n] q
         | None \<Rightarrow> bq_join cmp [n] q)"


section \<open>Invariant\<close>

fun node_items :: "'a bnode \<Rightarrow> 'a multiset" where
  "node_items (BNode d x cs) = add_mset x (\<Sum>c\<leftarrow>cs. node_items c)"

definition forest_items :: "'a bnode list \<Rightarrow> 'a multiset" where
  "forest_items ns = (\<Sum>n\<leftarrow>ns. node_items n)"

definition bq_items :: "'a bqueue \<Rightarrow> 'a multiset" where
  "bq_items q = forest_items (bq_head q) + (case bq_min q of None \<Rightarrow> {#} | Some m \<Rightarrow> node_items m)"

text \<open>A node of degree \<open>d\<close> has children of degrees \<open>d - 1\<close> down to \<open>0\<close>, and is above them.\<close>

fun node_ok :: "('a \<Rightarrow> 'a \<Rightarrow> int) \<Rightarrow> 'a bnode \<Rightarrow> bool" where
  "node_ok cmp (BNode d x cs) \<longleftrightarrow>
     map degree cs = rev [0..<d] \<and> (\<forall>c \<in> set cs. node_ok cmp c \<and> cmp x (item c) \<le> 0)"

definition forest_ok :: "('a \<Rightarrow> 'a \<Rightarrow> int) \<Rightarrow> 'a bnode list \<Rightarrow> bool" where
  "forest_ok cmp ns \<longleftrightarrow> (\<forall>n \<in> set ns. node_ok cmp n) \<and> sorted_wrt (<) (map degree ns)"

definition bq_inv :: "('a \<Rightarrow> 'a \<Rightarrow> int) \<Rightarrow> 'a bqueue \<Rightarrow> bool" where
  "bq_inv cmp q \<longleftrightarrow> forest_ok cmp (bq_head q) \<and> bq_min q = None"

lemma forest_items_simps [simp]:
  "forest_items [] = {#}"
  "forest_items (n # ns) = node_items n + forest_items ns"
  "forest_items (ms @ ns) = forest_items ms + forest_items ns"
  "forest_items (rev ns) = forest_items ns"
  by (simp_all add: forest_items_def sum_list_rev flip: rev_map)

lemma node_items_eq: "node_items n = add_mset (item n) (forest_items (child n))"
  by (cases n) (simp add: forest_items_def)

lemma bq_reverse_rev [simp]: "bq_reverse t hs = rev hs @ t"
  by (induction hs arbitrary: t) auto

lemma link_items [simp]: "node_items (bq_link r c) = node_items r + node_items c"
  by (simp add: bq_link_def node_items_eq)

lemma link_simps [simp]: "degree (bq_link r c) = Suc (degree r)" "item (bq_link r c) = item r"
  by (simp_all add: bq_link_def)

lemma node_ok_iff:
  "node_ok cmp n \<longleftrightarrow> map degree (child n) = rev [0..<degree n] \<and>
     (\<forall>c \<in> set (child n). node_ok cmp c \<and> cmp (item n) (item c) \<le> 0)"
  by (cases n) simp

lemma link_ok: "node_ok cmp r \<Longrightarrow> node_ok cmp c \<Longrightarrow> degree r = degree c \<Longrightarrow> cmp (item r) (item c) \<le> 0 \<Longrightarrow>
    node_ok cmp (bq_link r c)"
  by (auto simp: node_ok_iff [of cmp r] bq_link_def)

lemma forest_size:
  "\<forall>c \<in> set cs. size (node_items c) = 2 ^ degree c \<Longrightarrow>
   size (forest_items cs) = (\<Sum>k\<leftarrow>map degree cs. 2 ^ k)"
  by (induction cs) auto

lemma sum_powers: "(\<Sum>k\<leftarrow>rev [0..<d]. 2 ^ k) + 1 = (2 :: nat) ^ d"
  by (induction d) auto

lemma sum_distinct_powers:
  "sorted_wrt (<) ds \<Longrightarrow> \<forall>d \<in> set ds. k \<le> d \<Longrightarrow> (2 :: nat) ^ (k + length ds) \<le> (\<Sum>d\<leftarrow>ds. 2 ^ d) + 2 ^ k"
proof (induction ds arbitrary: k)
  case (Cons d ds)
  then have a: "(2 :: nat) ^ (Suc k + length ds) \<le> (\<Sum>d\<leftarrow>ds. 2 ^ d) + 2 ^ Suc k"
    by (intro Cons.IH) (auto intro: Suc_leI le_less_trans)
  have b: "(2 :: nat) ^ k \<le> 2 ^ d" using Cons.prems(2) by (intro power_increasing) auto
  have "(2 :: nat) ^ (k + length (d # ds)) = 2 ^ (Suc k + length ds)" by simp
  with a b show ?case by (simp only: list.map sum_list.Cons power_Suc)
qed simp

lemma node_size: "node_ok cmp n \<Longrightarrow> size (node_items n) = 2 ^ degree n"
proof (induction n)
  case (BNode d x cs)
  then have "size (forest_items cs) = (\<Sum>k\<leftarrow>map degree cs. 2 ^ k)" by (intro forest_size) auto
  with BNode.prems sum_powers [of d] show ?case by (simp add: forest_items_def)
qed


section \<open>Joining two forests\<close>

lemma mset_bq_merge [simp]: "mset (bq_merge as bs) = mset as + mset bs"
  by (induction as bs rule: bq_merge.induct) auto

lemma forest_items_mset: "mset ms = mset ns \<Longrightarrow> forest_items ms = forest_items ns"
  by (metis forest_items_def mset_map sum_mset_sum_list)

lemma set_bq_merge [simp]: "set (bq_merge as bs) = set as \<union> set bs"
  by (induction as bs rule: bq_merge.induct) auto

lemma sorted_bq_merge:
  "sorted (map degree as) \<Longrightarrow> sorted (map degree bs) \<Longrightarrow> sorted (map degree (bq_merge as bs))"
  by (induction as bs rule: bq_merge.induct) auto

lemma count_distinct: "distinct xs \<Longrightarrow> count (mset xs) x \<le> 1"
  by (simp add: distinct_count_atmost_1)

text \<open>What holds at the head of the linking loop.\<close>

definition join_inv :: "'a bnode list \<Rightarrow> 'a bnode \<Rightarrow> 'a bnode list \<Rightarrow> bool" where
  "join_inv ps x ns \<longleftrightarrow>
     sorted_wrt (\<lambda>a b. degree b < degree a) ps \<and> sorted (map degree (x # ns)) \<and>
     (\<forall>d. count (mset (map degree ns)) d \<le> 2) \<and>
     ((\<forall>p \<in> set ps. degree p < degree x) \<or>
      (\<exists>p ps' n ns'. ps = p # ps' \<and> degree p = degree x \<and> (\<forall>q \<in> set ps'. degree q < degree x) \<and>
         ns = n # ns' \<and> degree n = degree x \<and> (\<forall>m \<in> set ns'. degree x < degree m)))"

lemma join_inv_advance:
  assumes inv: "join_inv ps x (n # ns)" and c: "degree x \<noteq> degree n \<or> (ns \<noteq> [] \<and> degree (hd ns) = degree x)"
  shows "join_inv (x # ps) n ns"
proof -
  have first: "\<forall>p \<in> set ps. degree p < degree x"
    using inv c by (cases ns) (auto simp: join_inv_def)
  have le: "degree x \<le> degree n" "sorted (map degree (n # ns))" "\<forall>d. count (mset (map degree (n # ns))) d \<le> 2"
    using inv by (auto simp: join_inv_def)
  have cnt: "\<forall>d. count (mset (map degree ns)) d \<le> 2"
  proof
    show "count (mset (map degree ns)) d \<le> 2" for d
      using le(3) [rule_format, of d] by (simp split: if_splits)
  qed
  have sorted: "sorted_wrt (\<lambda>a b. degree b < degree a) (x # ps)"
    using inv first by (simp add: join_inv_def)
  show ?thesis
  proof (cases "degree x = degree n")
    case False
    then have "\<forall>p \<in> set (x # ps). degree p < degree n" using first le(1) by force
    then show ?thesis using sorted le(2) cnt by (simp only: join_inv_def) blast
  next
    case True
    with c obtain n' ns' where ns: "ns = n' # ns'" "degree n' = degree x" by (cases ns) auto
    have "degree x \<noteq> degree m" if "m \<in> set ns'" for m
    proof
      assume "degree x = degree m"
      then have "degree x \<in># mset (map degree ns')" using that by auto
      then have "0 < count (mset (map degree ns')) (degree x)" by (simp only: count_greater_zero_iff)
      with le(3) [rule_format, of "degree x"] ns True show False by simp
    qed
    then have "\<forall>m \<in> set ns'. degree n < degree m"
      using le(2) ns True by (auto simp: order.order_iff_strict)
    with first True ns sorted le(2) cnt show ?thesis by (auto simp: join_inv_def)
  qed
qed

lemma join_inv_link:
  assumes inv: "join_inv ps x (n # ns)" and c: "\<not> (degree x \<noteq> degree n \<or> (ns \<noteq> [] \<and> degree (hd ns) = degree x))"
    and y: "degree y = Suc (degree x)"
  shows "join_inv ps y ns"
proof -
  have s: "sorted (map degree ns)" "\<forall>m \<in> set ns. degree x \<le> degree m" "\<forall>d. count (mset (map degree (n # ns))) d \<le> 2"
    "sorted_wrt (\<lambda>a b. degree b < degree a) ps" "\<forall>p \<in> set ps. degree p \<le> degree x"
    using inv by (auto simp: join_inv_def intro: less_imp_le)
  have cnt: "\<forall>d. count (mset (map degree ns)) d \<le> 2"
  proof
    show "count (mset (map degree ns)) d \<le> 2" for d
      using s(3) [rule_format, of d] by (simp split: if_splits)
  qed
  have "\<forall>m \<in> set ns. degree x < degree m" using s(1,2) c by (cases ns) auto
  with s cnt y show ?thesis by (auto simp: join_inv_def Suc_le_eq less_Suc_eq_le)
qed

lemma join_trees_ok:
  "comparator cmp \<Longrightarrow> join_inv ps x ns \<Longrightarrow> \<forall>n \<in> set (ps @ x # ns). node_ok cmp n \<Longrightarrow>
    forest_ok cmp (join_trees cmp ps x ns) \<and>
    forest_items (join_trees cmp ps x ns) = forest_items ps + node_items x + forest_items ns"
proof (induction cmp ps x ns rule: join_trees.induct)
  case (1 cmp ps x)
  then have "\<forall>p \<in> set ps. degree p < degree x" by (auto simp: join_inv_def)
  then have "sorted_wrt (<) (map degree (rev ps @ [x]))"
    using 1 by (simp add: join_inv_def sorted_wrt_append sorted_wrt_rev sorted_wrt_map)
  with 1 show ?case by (auto simp: forest_ok_def)
next
  case (2 cmp ps x n ns)
  show ?case
  proof (cases "degree x \<noteq> degree n \<or> (ns \<noteq> [] \<and> degree (hd ns) = degree x)")
    case True
    have "\<forall>n \<in> set ((x # ps) @ n # ns). node_ok cmp n" using "2.prems"(3) by auto
    from "2.IH"(1) [OF True "2.prems"(1) join_inv_advance [OF "2.prems"(2) True] this] True
    show ?thesis by (simp add: ac_simps)
  next
    case False
    then have deg: "degree n = degree x" by simp
    show ?thesis
    proof (cases "higher cmp (item x) (item n)")
      case True
      have "node_ok cmp (bq_link x n)"
        using "2.prems"(3) deg True by (intro link_ok) (auto simp: higher_def)
      then have "\<forall>m \<in> set (ps @ bq_link x n # ns). node_ok cmp m" using "2.prems"(3) by auto
      from "2.IH"(2) [OF False True "2.prems"(1) join_inv_link [OF "2.prems"(2) False] this]
      show ?thesis
        by (simp only: join_trees.simps(2) if_not_P [OF False] if_P [OF True]) (simp add: deg ac_simps)
    next
      case lower: False
      then have "cmp (item n) (item x) \<le> 0"
        using comparator.cmp_le_iff [OF "2.prems"(1), of "item n" "item x"] by (simp add: higher_def)
      then have "node_ok cmp (bq_link n x)"
        using "2.prems"(3) deg by (intro link_ok) auto
      then have "\<forall>m \<in> set (ps @ bq_link n x # ns). node_ok cmp m" using "2.prems"(3) by auto
      from "2.IH"(3) [OF False lower "2.prems"(1) join_inv_link [OF "2.prems"(2) False] this]
      show ?thesis
        by (simp only: join_trees.simps(2) if_not_P [OF False] if_not_P [OF lower]) (simp add: deg ac_simps)
    qed
  qed
qed

lemma bq_join_ok:
  assumes cmp: "comparator cmp" and q: "bq_inv cmp q" and h2: "forest_ok cmp h2"
  shows "bq_inv cmp (bq_join cmp h2 q) \<and> bq_items (bq_join cmp h2 q) = bq_items q + forest_items h2"
proof -
  have h1: "forest_ok cmp (bq_head q)" "bq_min q = None" using q by (simp_all add: bq_inv_def)
  consider "h2 = []" | "bq_head q = []" "h2 \<noteq> []" | "bq_head q \<noteq> []" "h2 \<noteq> []" by blast
  then show ?thesis
  proof cases
    case 3
    let ?m = "bq_merge (bq_head q) h2"
    have "?m \<noteq> []" using set_bq_merge [of "bq_head q" h2] 3 by (metis Un_empty set_empty)
    then obtain x ns where m: "?m = x # ns" by (cases ?m) auto
    have ok: "\<forall>n \<in> set (x # ns). node_ok cmp n"
      using h1 h2 arg_cong [OF m, of set] by (auto simp: forest_ok_def)
    have strict: "sorted_wrt (<) (map degree (bq_head q))" "sorted_wrt (<) (map degree h2)"
      using h1 h2 by (simp_all add: forest_ok_def)
    have "count (mset (map degree (x # ns))) d \<le> 2" for d
    proof -
      have "mset (map degree (x # ns)) = mset (map degree (bq_head q)) + mset (map degree h2)"
        by (simp only: mset_map m [symmetric] mset_bq_merge image_mset_union)
      moreover have "distinct (map degree (bq_head q))" "distinct (map degree h2)"
        using strict by (simp_all add: strict_sorted_iff)
      ultimately show ?thesis
        using count_distinct [of "map degree (bq_head q)" d] count_distinct [of "map degree h2" d] by simp
    qed
    then have "count (mset (map degree ns)) d \<le> 2" for d
      using le_trans [of "count (mset (map degree ns)) d" "count (mset (map degree (x # ns))) d" 2] by simp
    moreover have "sorted (map degree (x # ns))"
      using sorted_bq_merge [of "bq_head q" h2] strict m by (simp add: strict_sorted_imp_sorted)
    ultimately have "join_inv [] x ns" by (auto simp: join_inv_def)
    from join_trees_ok [OF cmp this] ok
    have "forest_ok cmp (join_trees cmp [] x ns)" "forest_items (join_trees cmp [] x ns) = forest_items ?m"
      by (simp_all add: m)
    moreover have "forest_items ?m = forest_items (bq_head q) + forest_items h2"
      using forest_items_mset [of ?m "bq_head q @ h2"] by simp
    ultimately show ?thesis using 3 m h1 by (simp add: bq_join_def bq_inv_def bq_items_def)
  qed (use h1 h2 in \<open>auto simp: bq_join_def bq_inv_def bq_items_def\<close>)
qed


section \<open>Finding the minimum\<close>

lemma min_loop_split: "min_loop cmp before n seen cs = (b, m, a) \<Longrightarrow> b @ m # a = before @ n # seen @ cs"
  by (induction cmp before n seen cs rule: min_loop.induct) (auto split: if_splits)

lemma min_loop_least:
  "comparator cmp \<Longrightarrow> \<forall>m \<in> set (before @ n # seen). cmp (item n) (item m) \<le> 0 \<Longrightarrow>
   min_loop cmp before n seen cs = (b, m, a) \<Longrightarrow> \<forall>k \<in> set (b @ m # a). cmp (item m) (item k) \<le> 0"
proof (induction cmp before n seen cs rule: min_loop.induct)
  case (2 cmp before n seen c cs)
  show ?case
  proof (cases "higher cmp (item c) (item n)")
    case True
    then have "cmp (item c) (item k) \<le> 0" if "k \<in> set (before @ n # seen)" for k
      using "2.prems"(2) that comparator.cmp_trans [OF "2.prems"(1), of "item c" "item n" "item k"]
      by (auto simp: higher_def)
    moreover have "cmp (item c) (item c) \<le> 0" using comparator.cmp_refl [OF "2.prems"(1)] by simp
    ultimately have "\<forall>m \<in> set ((before @ n # seen) @ c # []). cmp (item c) (item m) \<le> 0" by auto
    from "2.IH"(1) [OF True "2.prems"(1) this] "2.prems"(3) True show ?thesis by simp
  next
    case False
    then have "cmp (item n) (item c) \<le> 0"
      using comparator.cmp_le_iff [OF "2.prems"(1), of "item n" "item c"] by (simp add: higher_def)
    then have "\<forall>m \<in> set (before @ n # seen @ [c]). cmp (item n) (item m) \<le> 0"
      using "2.prems"(2) by auto
    from "2.IH"(2) [OF False "2.prems"(1) this] "2.prems"(3) False show ?thesis by simp
  qed
qed auto

lemma node_least:
  assumes "comparator cmp"
  shows "node_ok cmp n \<Longrightarrow> y \<in># node_items n \<Longrightarrow> cmp (item n) y \<le> 0"
proof (induction n)
  case (BNode d x cs)
  then consider "y = x" | c where "c \<in> set cs" "y \<in># node_items c" by auto
  then show ?case
  proof cases
    case 1
    then show ?thesis using comparator.cmp_refl [OF assms] by simp
  next
    case 2
    then have "cmp x (item c) \<le> 0" "cmp (item c) y \<le> 0" using BNode by auto
    then show ?thesis using comparator.cmp_trans [OF assms, of x "item c" y] by simp
  qed
qed

lemma forest_member: "y \<in># forest_items ns \<longleftrightarrow> (\<exists>n \<in> set ns. y \<in># node_items n)"
  by (induction ns) auto

lemma children_ok: "node_ok cmp n \<Longrightarrow> forest_ok cmp (rev (child n))"
  by (simp add: node_ok_iff [of cmp n] forest_ok_def flip: rev_map)

lemma find_min_ok:
  assumes "comparator cmp" "forest_ok cmp ns" "ns \<noteq> []"
  obtains b n a where "bq_find_min cmp ns = Inr (b, n, a)" "ns = b @ n # a"
    "\<forall>y \<in># forest_items ns. cmp (item n) y \<le> 0"
proof -
  obtain h hs where ns: "ns = h # hs" using assms(3) by (cases ns) auto
  obtain b n a where r: "min_loop cmp [] h [] hs = (b, n, a)" by (cases "min_loop cmp [] h [] hs")
  have split: "ns = b @ n # a" using min_loop_split [OF r] ns by simp
  have least: "\<forall>k \<in> set ns. cmp (item n) (item k) \<le> 0"
    using min_loop_least [OF assms(1) _ r] comparator.cmp_refl [OF assms(1)] split by simp
  have "cmp (item n) y \<le> 0" if "y \<in># forest_items ns" for y
  proof -
    from that obtain k where k: "k \<in> set ns" "y \<in># node_items k" by (auto simp: forest_member)
    then have "cmp (item k) y \<le> 0"
      using node_least [OF assms(1)] assms(2) by (auto simp: forest_ok_def)
    then show ?thesis
      using least k(1) comparator.cmp_trans [OF assms(1), of "item n" "item k" y] by blast
  qed
  moreover have "bq_find_min cmp ns = Inr (b, n, a)" using r ns by simp
  ultimately show ?thesis using split that by blast
qed


section \<open>The contract of a priority queue\<close>

locale priority_queue = comparator cmp for cmp :: "'a \<Rightarrow> 'a \<Rightarrow> int" +
  fixes inv :: "'q \<Rightarrow> bool"
    and bag :: "'q \<Rightarrow> 'a multiset"
    and put :: "'a \<Rightarrow> 'q \<Rightarrow> 'q"
    and get :: "'q \<Rightarrow> ('a \<times> 'q) res"
  assumes put_law: "inv q \<Longrightarrow> inv (put x q) \<and> bag (put x q) = add_mset x (bag q)"
    and get_empty: "inv q \<Longrightarrow> bag q = {#} \<Longrightarrow> get q = Inl Assertion_failed"
    and get_law: "inv q \<Longrightarrow> bag q \<noteq> {#} \<Longrightarrow>
      \<exists>x q'. get q = Inr (x, q') \<and> inv q' \<and> bag q = add_mset x (bag q') \<and> (\<forall>y \<in># bag q. cmp x y \<le> 0)"

text \<open>Emptying a priority queue by successive \<open>get\<close>.\<close>

fun drain :: "('q \<Rightarrow> ('a \<times> 'q) res) \<Rightarrow> nat \<Rightarrow> 'q \<Rightarrow> 'a list res" where
  "drain get 0 q = Inr []"
| "drain get (Suc n) q = bind_res (get q) (\<lambda>(x, q'). bind_res (drain get n q') (\<lambda>xs. Inr (x # xs)))"

context priority_queue
begin

lemma drain_sorted:
  "inv q \<Longrightarrow> n = size (bag q) \<Longrightarrow>
   \<exists>xs. drain get n q = Inr xs \<and> mset xs = bag q \<and> sorted_wrt (\<lambda>x y. cmp x y \<le> 0) xs"
proof (induction n arbitrary: q)
  case (Suc n)
  then have "bag q \<noteq> {#}" by auto
  with get_law [OF Suc.prems(1)] obtain x q' where g: "get q = Inr (x, q')" "inv q'"
    "bag q = add_mset x (bag q')" "\<forall>y \<in># bag q. cmp x y \<le> 0" by blast
  with Suc.prems(2) Suc.IH [of q'] obtain xs where
    xs: "drain get n q' = Inr xs" "mset xs = bag q'" "sorted_wrt (\<lambda>x y. cmp x y \<le> 0) xs" by auto
  then have "set xs \<subseteq> set_mset (bag q)" using g(3) by (metis insert_subset set_mset_add_mset_insert set_mset_mset subset_insertI)
  with g xs show ?case by auto
qed simp

lemma sorts: "inv q \<Longrightarrow> bag q = {#} \<Longrightarrow>
    \<exists>ys. drain get (length xs) (fold put xs q) = Inr ys \<and> mset ys = mset xs \<and> sorted_wrt (\<lambda>x y. cmp x y \<le> 0) ys"
proof -
  assume q: "inv q" "bag q = {#}"
  have "inv (fold put xs q) \<and> bag (fold put xs q) = mset xs + bag q" if "inv q" for q
    using that by (induction xs arbitrary: q) (auto simp: put_law)
  with q drain_sorted [of "fold put xs q" "length xs"] show ?thesis by simp
qed

end

lemma binomial_priority_queue:
  assumes "comparator cmp"
  shows "priority_queue cmp (bq_inv cmp) bq_items (BinomialQueue_put cmp) (BinomialQueue_get cmp)"
proof (rule priority_queue.intro [OF assms], unfold_locales)
  fix q x
  assume q: "bq_inv cmp q"
  then have min: "bq_min q = None" by (simp add: bq_inv_def)
  have n: "forest_ok cmp [BNode 0 x []]" by (simp add: forest_ok_def)
  show "bq_inv cmp (BinomialQueue_put cmp x q) \<and> bq_items (BinomialQueue_put cmp x q) = add_mset x (bq_items q)"
    using bq_join_ok [OF assms q n] min by (simp add: BinomialQueue_put_def)
  have empty: "bq_items q = {#} \<longleftrightarrow> bq_head q = []"
    using min by (cases "bq_head q") (auto simp: bq_items_def node_items_eq)
  show "BinomialQueue_get cmp q = Inl Assertion_failed" if "bq_items q = {#}"
    using empty that by (simp add: BinomialQueue_get_def)
  show "\<exists>x q'. BinomialQueue_get cmp q = Inr (x, q') \<and> bq_inv cmp q' \<and> bq_items q = add_mset x (bq_items q') \<and>
      (\<forall>y \<in># bq_items q. cmp x y \<le> 0)" if "bq_items q \<noteq> {#}"
  proof -
    have f: "forest_ok cmp (bq_head q)" "bq_head q \<noteq> []" using q empty that by (simp_all add: bq_inv_def)
    from find_min_ok [OF assms f] obtain b n a where
      m: "bq_find_min cmp (bq_head q) = Inr (b, n, a)" "bq_head q = b @ n # a"
        "\<forall>y \<in># forest_items (bq_head q). cmp (item n) y \<le> 0" by blast
    have "bq_inv cmp (q\<lparr>bq_head := b @ a\<rparr>)"
      using f(1) m(2) min by (auto simp: bq_inv_def forest_ok_def sorted_wrt_append)
    moreover have "forest_ok cmp (rev (child n))"
      using f(1) m(2) by (intro children_ok) (simp add: forest_ok_def)
    ultimately have "bq_inv cmp (bq_join cmp (rev (child n)) (q\<lparr>bq_head := b @ a\<rparr>))"
      "bq_items (bq_join cmp (rev (child n)) (q\<lparr>bq_head := b @ a\<rparr>)) = forest_items (b @ a) + forest_items (child n)"
      using bq_join_ok [OF assms] min by (auto simp: bq_items_def)
    then show ?thesis
      using m min by (auto simp: BinomialQueue_get_def bq_items_def node_items_eq [of n])
  qed
qed

interpretation std_binomial_queue: priority_queue Comparator_compare "bq_inv Comparator_compare" bq_items
  "BinomialQueue_put Comparator_compare" "BinomialQueue_get Comparator_compare"
  by (rule binomial_priority_queue [OF comparator_Comparator_compare])


section \<open>Properties\<close>

text \<open>
  C11. \<^verbatim>\<open>BinomialQueue\<close> keeps its invariant (heap-ordered binomial trees of strictly increasing
  degrees) under \<^verbatim>\<open>put\<close> and \<^verbatim>\<open>get\<close>; \<^verbatim>\<open>put\<close> adds exactly one item;
  \<^verbatim>\<open>get\<close> asserts on the empty queue and else returns a least item, which is the one
  \<^verbatim>\<open>head\<close> reads, and removes exactly it.
\<close>

theorem binomial_queue_correct:
  assumes "comparator cmp" "bq_inv cmp q"
  shows "bq_inv cmp (BinomialQueue_put cmp x q) \<and>
    bq_items (BinomialQueue_put cmp x q) = add_mset x (bq_items q) \<and>
    (if BinomialQueue_isEmpty q then BinomialQueue_get cmp q = Inl Assertion_failed
     else \<exists>y q'. BinomialQueue_get cmp q = Inr (y, q') \<and> BinomialQueue_head cmp q = Inr y \<and>
       bq_inv cmp q' \<and> bq_items q = add_mset y (bq_items q') \<and> (\<forall>z \<in># bq_items q. cmp y z \<le> 0))"
proof -
  have min: "bq_min q = None" using assms(2) by (simp add: bq_inv_def)
  then have empty: "BinomialQueue_isEmpty q \<longleftrightarrow> bq_items q = {#}"
    by (cases "bq_head q") (auto simp: BinomialQueue_isEmpty_def bq_items_def node_items_eq)
  have head: "BinomialQueue_head cmp q = Inr y" if "BinomialQueue_get cmp q = Inr (y, q')" for y q'
    using that by (auto simp: BinomialQueue_get_def BinomialQueue_head_def bind_res_eq_Inr)
  note pq = binomial_priority_queue [OF assms(1)]
  show ?thesis
    using priority_queue.put_law [OF pq assms(2)] priority_queue.get_empty [OF pq assms(2)]
      priority_queue.get_law [OF pq assms(2)] head
    by (simp only: empty) (metis (full_types))
qed

theorem binomial_queue_correct_witness:
  "BinomialQueue_get Comparator_compare (BinomialQueue_new :: int bqueue) = Inl Assertion_failed \<and>
   bq_items (BinomialQueue_put Comparator_compare 3 (BinomialQueue_new :: int bqueue)) = {#3#}"
proof -
  have "bq_inv Comparator_compare (BinomialQueue_new :: int bqueue)"
    "BinomialQueue_isEmpty (BinomialQueue_new :: int bqueue)" "bq_items (BinomialQueue_new :: int bqueue) = {#}"
    by (simp_all add: bq_inv_def BinomialQueue_new_def BinomialQueue_isEmpty_def bq_items_def forest_ok_def)
  with binomial_queue_correct [OF comparator_Comparator_compare, of "BinomialQueue_new :: int bqueue" 3]
  show ?thesis by simp
qed

text \<open>
  A \<^verbatim>\<open>BinomialQueue\<close> sorts: putting any items in an empty queue and getting as many gives
  a sorted permutation of them. Each root of degree \<open>d\<close> carries \<open>2 ^ d\<close> items, so a queue of
  \<open>n\<close> items has a number of roots logarithmic in \<open>n\<close>.
\<close>

lemma binomial_queue_sorts:
  assumes "comparator cmp"
  shows "(\<exists>ys. drain (BinomialQueue_get cmp) (length xs) (fold (BinomialQueue_put cmp) xs BinomialQueue_new) = Inr ys \<and>
      mset ys = mset xs \<and> sorted_wrt (\<lambda>x y. cmp x y \<le> 0) ys) \<and>
    (\<forall>q. bq_inv cmp q \<longrightarrow> size (bq_items q) = (\<Sum>n\<leftarrow>bq_head q. 2 ^ degree n) \<and>
      2 ^ length (bq_head q) \<le> size (bq_items q) + 1)"
proof (intro conjI allI impI)
  have "bq_inv cmp BinomialQueue_new" "bq_items BinomialQueue_new = {#}"
    by (simp_all add: bq_inv_def BinomialQueue_new_def bq_items_def forest_ok_def)
  then show "\<exists>ys. drain (BinomialQueue_get cmp) (length xs) (fold (BinomialQueue_put cmp) xs BinomialQueue_new) = Inr ys \<and>
      mset ys = mset xs \<and> sorted_wrt (\<lambda>x y. cmp x y \<le> 0) ys"
    by (rule priority_queue.sorts [OF binomial_priority_queue [OF assms]])
  fix q :: "'a bqueue"
  assume q: "bq_inv cmp q"
  then have ok: "\<forall>n \<in> set (bq_head q). size (node_items n) = 2 ^ degree n"
    by (auto simp: bq_inv_def forest_ok_def node_size)
  show sz: "size (bq_items q) = (\<Sum>n\<leftarrow>bq_head q. 2 ^ degree n)"
    using forest_size [OF ok] q by (simp add: bq_items_def bq_inv_def o_def)
  show "2 ^ length (bq_head q) \<le> size (bq_items q) + 1"
    using sum_distinct_powers [of "map degree (bq_head q)" 0] q sz
    by (simp add: bq_inv_def forest_ok_def o_def)
qed

lemma binomial_queue_sorts_witness:
  "\<exists>ys. drain (BinomialQueue_get Comparator_compare) 3
      (fold (BinomialQueue_put Comparator_compare) [3, 1, 2 :: int] BinomialQueue_new) = Inr ys \<and>
    mset ys = {#1, 2, 3#}"
  using binomial_queue_sorts [OF comparator_Comparator_compare, of "[3, 1, 2 :: int]"]
  by (auto simp: numeral_3_eq_3)

end
