(* ===== verification/Hash_Table.thy ===== *)
theory Hash_Table
  imports Ordered_Store
begin

unbundle bit_operations_syntax

text \<open>
  Hashing (\<^verbatim>\<open>include/elm/hash.h\<close>, \<^verbatim>\<open>src/util_HashKey.cpp\<close>), the chained
  \<^verbatim>\<open>HashTable\<close> whose lookups move the item found to the front of its bucket, and the
  \<^verbatim>\<open>HashMap\<close> and \<^verbatim>\<open>HashSet\<close> over it (\<^verbatim>\<open>include/elm/data/\<close>).

  \<open>hash\<close> and \<open>eq\<close> are the \<^verbatim>\<open>computeHash\<close> and \<^verbatim>\<open>isEqual\<close> of the hash key
  parameter \<open>H\<close>; \<^verbatim>\<open>t::hash\<close> is a 64-bit unsigned integer, so the bucket of an item is
  never negative.
\<close>

section \<open>Hash functions\<close>

type_synonym hash_t = "64 word"

fun jenkins_loop :: "8 word list \<Rightarrow> hash_t \<Rightarrow> hash_t" where
  "jenkins_loop [] h = h"
| "jenkins_loop (p # ps) h =
     (let h1 = h + ucast p;
          h2 = h1 + push_bit 10 h1;
          h3 = h2 XOR drop_bit 6 h2
      in jenkins_loop ps h3)"

definition hash_jenkins :: "8 word list \<Rightarrow> hash_t" where
  "hash_jenkins block =
     (let h = jenkins_loop block 0;
          h1 = h + push_bit 3 h;
          h2 = h1 XOR drop_bit 11 h1
      in h2 + push_bit 15 h2)"

text \<open>One character, sign-extended as the signed \<^verbatim>\<open>char\<close> of the code is.\<close>

definition hash_char :: "hash_t \<Rightarrow> 8 word \<Rightarrow> hash_t" where
  "hash_char h c =
     (let h1 = push_bit 4 h + scast c;
          g = h1 AND 0xF0000000
      in if g \<noteq> 0 then (h1 XOR drop_bit 24 g) XOR g else h1)"

fun hash_string_loop :: "8 word list \<Rightarrow> nat \<Rightarrow> hash_t \<Rightarrow> hash_t res" where
  "hash_string_loop cs 0 h = Inr h"
| "hash_string_loop [] (Suc n) h = Inl Out_of_bounds"
| "hash_string_loop (c # cs) (Suc n) h = hash_string_loop cs n (hash_char h c)"

definition hash_string :: "8 word list \<Rightarrow> nat \<Rightarrow> hash_t res" where
  "hash_string cs len = hash_string_loop cs len 0"

text \<open>A C string is read up to its null character; reading past the memory is an error.\<close>

fun hash_cstring_loop :: "8 word list \<Rightarrow> hash_t \<Rightarrow> hash_t res" where
  "hash_cstring_loop [] h = Inl Out_of_bounds"
| "hash_cstring_loop (c # cs) h = (if c = 0 then Inr h else hash_cstring_loop cs (hash_char h c))"

definition hash_cstring :: "8 word list \<Rightarrow> hash_t res" where
  "hash_cstring cs = hash_cstring_loop cs 0"

definition hash_pair :: "('a \<Rightarrow> hash_t) \<Rightarrow> ('b \<Rightarrow> hash_t) \<Rightarrow> 'a \<times> 'b \<Rightarrow> hash_t" where
  "hash_pair h1 h2 p = h1 (fst p) + h2 (snd p)"

definition Hasher_add :: "hash_t \<Rightarrow> hash_t \<Rightarrow> hash_t" where
  "Hasher_add h v = h XOR v"


section \<open>HashTable\<close>

text \<open>The buckets; \<^verbatim>\<open>_size\<close> is their number.\<close>

type_synonym 'a htab = "'a list list"

definition HashTable_new :: "nat \<Rightarrow> 'a htab" where
  "HashTable_new n = replicate n []"

definition ht_index :: "('a \<Rightarrow> hash_t) \<Rightarrow> 'a htab \<Rightarrow> 'a \<Rightarrow> nat res" where
  "ht_index hash t x =
     (if length t = 0 then Inl (Exception ''division by zero'') else Inr (unat (hash x) mod length t))"

text \<open>The scan of a bucket: the nodes before the one found, its item and the nodes after it.\<close>

fun ht_scan :: "('a \<Rightarrow> 'a \<Rightarrow> bool) \<Rightarrow> 'a \<Rightarrow> 'a list \<Rightarrow> 'a list \<Rightarrow> ('a list \<times> 'a \<times> 'a list) option" where
  "ht_scan eq k prev [] = None"
| "ht_scan eq k prev (x # xs) =
     (if eq x k then Some (rev prev, x, xs) else ht_scan eq k (x # prev) xs)"

definition ht_find :: "('a \<Rightarrow> hash_t) \<Rightarrow> ('a \<Rightarrow> 'a \<Rightarrow> bool) \<Rightarrow> 'a \<Rightarrow> 'a htab \<Rightarrow> ('a option \<times> 'a htab) res" where
  "ht_find hash eq k t =
     bind_res (ht_index hash t k) (\<lambda>i.
       case ht_scan eq k [] (t ! i) of
         None \<Rightarrow> Inr (None, t)
       | Some (before, x, after) \<Rightarrow>
           Inr (Some x, if before \<noteq> [] then t[i := x # before @ after] else t))"

definition ht_find_const :: "('a \<Rightarrow> hash_t) \<Rightarrow> ('a \<Rightarrow> 'a \<Rightarrow> bool) \<Rightarrow> 'a \<Rightarrow> 'a htab \<Rightarrow> 'a option res" where
  "ht_find_const hash eq k t =
     bind_res (ht_index hash t k) (\<lambda>i.
       case ht_scan eq k [] (t ! i) of
         None \<Rightarrow> Inr None
       | Some (before, x, after) \<Rightarrow> Inr (Some x))"

definition ht_make :: "('a \<Rightarrow> hash_t) \<Rightarrow> 'a \<Rightarrow> 'a htab \<Rightarrow> 'a htab res" where
  "ht_make hash x t = bind_res (ht_index hash t x) (\<lambda>i. Inr (t[i := x # t ! i]))"

definition HashTable_get :: "('a \<Rightarrow> hash_t) \<Rightarrow> ('a \<Rightarrow> 'a \<Rightarrow> bool) \<Rightarrow> 'a \<Rightarrow> 'a htab \<Rightarrow> ('a option \<times> 'a htab) res" where
  "HashTable_get hash eq k t = ht_find hash eq k t"

definition HashTable_hasKey :: "('a \<Rightarrow> hash_t) \<Rightarrow> ('a \<Rightarrow> 'a \<Rightarrow> bool) \<Rightarrow> 'a \<Rightarrow> 'a htab \<Rightarrow> (bool \<times> 'a htab) res" where
  "HashTable_hasKey hash eq k t = bind_res (ht_find hash eq k t) (\<lambda>(r, t'). Inr (r \<noteq> None, t'))"

definition HashTable_add :: "('a \<Rightarrow> hash_t) \<Rightarrow> 'a \<Rightarrow> 'a htab \<Rightarrow> 'a htab res" where
  "HashTable_add hash x t = ht_make hash x t"

text \<open>In \<^verbatim>\<open>put\<close>, the node found is the first of its bucket; its item is overwritten.\<close>

definition HashTable_put :: "('a \<Rightarrow> hash_t) \<Rightarrow> ('a \<Rightarrow> 'a \<Rightarrow> bool) \<Rightarrow> 'a \<Rightarrow> 'a htab \<Rightarrow> 'a htab res" where
  "HashTable_put hash eq x t =
     bind_res (ht_find hash eq x t) (\<lambda>(r, t').
       case r of
         None \<Rightarrow> HashTable_add hash x t'
       | Some y \<Rightarrow> bind_res (ht_index hash t' x) (\<lambda>i. Inr (t'[i := x # tl (t' ! i)])))"

fun HashTable_putAll :: "('a \<Rightarrow> hash_t) \<Rightarrow> ('a \<Rightarrow> 'a \<Rightarrow> bool) \<Rightarrow> 'a list \<Rightarrow> 'a htab \<Rightarrow> 'a htab res" where
  "HashTable_putAll hash eq [] t = Inr t"
| "HashTable_putAll hash eq (x # xs) t = bind_res (HashTable_put hash eq x t) (HashTable_putAll hash eq xs)"

definition HashTable_remove :: "('a \<Rightarrow> hash_t) \<Rightarrow> ('a \<Rightarrow> 'a \<Rightarrow> bool) \<Rightarrow> 'a \<Rightarrow> 'a htab \<Rightarrow> 'a htab res" where
  "HashTable_remove hash eq k t =
     bind_res (ht_index hash t k) (\<lambda>i.
       case ht_scan eq k [] (t ! i) of
         None \<Rightarrow> Inr t
       | Some (before, x, after) \<Rightarrow> Inr (t[i := before @ after]))"

fun HashTable_removeAll :: "('a \<Rightarrow> hash_t) \<Rightarrow> ('a \<Rightarrow> 'a \<Rightarrow> bool) \<Rightarrow> 'a list \<Rightarrow> 'a htab \<Rightarrow> 'a htab res" where
  "HashTable_removeAll hash eq [] t = Inr t"
| "HashTable_removeAll hash eq (x # xs) t =
     bind_res (HashTable_remove hash eq x t) (HashTable_removeAll hash eq xs)"

fun HashTable_isEmpty :: "'a htab \<Rightarrow> bool" where
  "HashTable_isEmpty [] = True"
| "HashTable_isEmpty (b # t) = (if b \<noteq> [] then False else HashTable_isEmpty t)"

fun HashTable_count :: "'a htab \<Rightarrow> nat" where
  "HashTable_count [] = 0"
| "HashTable_count (b # t) = length b + HashTable_count t"

definition HashTable_clear :: "'a htab \<Rightarrow> 'a htab" where
  "HashTable_clear t = map (\<lambda>b. []) t"

text \<open>
  The iterator is the number of the bucket and the rest of the chain from the node;
  \<^verbatim>\<open>step\<close> looks for the next bucket that is not empty.
\<close>

type_synonym 'a ht_iter = "nat \<times> 'a list"

function ht_step :: "'a htab \<Rightarrow> nat \<Rightarrow> 'a ht_iter" where
  "ht_step t i =
     (if i < length t then (if t ! i \<noteq> [] then (i, t ! i) else ht_step t (i + 1)) else (i, []))"
  by pat_completeness auto
termination by (relation "measure (\<lambda>(t, i). length t - i)") auto

declare ht_step.simps [simp del]

definition ht_iter_ended :: "'a htab \<Rightarrow> 'a ht_iter \<Rightarrow> bool" where
  "ht_iter_ended t it = (length t \<le> fst it)"

fun ht_iter_next :: "'a htab \<Rightarrow> 'a ht_iter \<Rightarrow> 'a ht_iter res" where
  "ht_iter_next t (i, []) = Inl Null_dereference"
| "ht_iter_next t (i, [x]) = Inr (ht_step t (i + 1))"
| "ht_iter_next t (i, x # y # xs) = Inr (i, y # xs)"

fun ht_iter_item :: "'a ht_iter \<Rightarrow> 'a res" where
  "ht_iter_item (i, []) = Inl Null_dereference"
| "ht_iter_item (i, x # xs) = Inr x"

fun ht_collect :: "nat \<Rightarrow> 'a htab \<Rightarrow> 'a ht_iter \<Rightarrow> 'a list res" where
  "ht_collect 0 t it = (if ht_iter_ended t it then Inr [] else Inl Out_of_fuel)"
| "ht_collect (Suc f) t it =
     (if ht_iter_ended t it then Inr []
      else bind_res (ht_iter_item it) (\<lambda>x.
           bind_res (ht_iter_next t it) (\<lambda>it'.
           bind_res (ht_collect f t it') (\<lambda>xs. Inr (x # xs)))))"

definition HashTable_iterate :: "'a htab \<Rightarrow> 'a list res" where
  "HashTable_iterate t = ht_collect (HashTable_count t) t (ht_step t 0)"

fun HashTable_containsAll :: "('a \<Rightarrow> hash_t) \<Rightarrow> ('a \<Rightarrow> 'a \<Rightarrow> bool) \<Rightarrow> 'a list \<Rightarrow> 'a htab \<Rightarrow> (bool \<times> 'a htab) res" where
  "HashTable_containsAll hash eq [] t = Inr (True, t)"
| "HashTable_containsAll hash eq (x # xs) t =
     bind_res (HashTable_hasKey hash eq x t) (\<lambda>(b, t').
       if \<not> b then Inr (False, t') else HashTable_containsAll hash eq xs t')"

text \<open>
  \<^verbatim>\<open>copy\<close>: the chains are duplicated when the sizes agree, else the items are put one by one.
\<close>

definition HashTable_copy :: "('a \<Rightarrow> hash_t) \<Rightarrow> ('a \<Rightarrow> 'a \<Rightarrow> bool) \<Rightarrow> 'a htab \<Rightarrow> 'a htab \<Rightarrow> 'a htab res" where
  "HashTable_copy hash eq t src =
     (if length t \<noteq> length src
      then bind_res (HashTable_iterate src) (\<lambda>xs. HashTable_putAll hash eq xs (HashTable_clear t))
      else Inr src)"


section \<open>HashMap\<close>

text \<open>\<open>d\<close> is the default value that completes a key to a pair in \<^verbatim>\<open>key(k)\<close>.\<close>

definition assoc_hash :: "('k \<Rightarrow> hash_t) \<Rightarrow> 'k \<times> 'v \<Rightarrow> hash_t" where
  "assoc_hash hash p = hash (fst p)"

definition assoc_eq :: "('k \<Rightarrow> 'k \<Rightarrow> bool) \<Rightarrow> 'k \<times> 'v \<Rightarrow> 'k \<times> 'v \<Rightarrow> bool" where
  "assoc_eq eq p q = eq (fst p) (fst q)"

type_synonym ('k, 'v) hmap = "('k \<times> 'v) htab"

definition HashMap_get ::
    "('k \<Rightarrow> hash_t) \<Rightarrow> ('k \<Rightarrow> 'k \<Rightarrow> bool) \<Rightarrow> 'v \<Rightarrow> 'k \<Rightarrow> ('k, 'v) hmap \<Rightarrow> ('v option \<times> ('k, 'v) hmap) res" where
  "HashMap_get hash eq d k m =
     bind_res (HashTable_get (assoc_hash hash) (assoc_eq eq) (k, d) m) (\<lambda>(r, m'). Inr (map_option snd r, m'))"

definition HashMap_get_const ::
    "('k \<Rightarrow> hash_t) \<Rightarrow> ('k \<Rightarrow> 'k \<Rightarrow> bool) \<Rightarrow> 'v \<Rightarrow> 'k \<Rightarrow> ('k, 'v) hmap \<Rightarrow> 'v option res" where
  "HashMap_get_const hash eq d k m =
     bind_res (ht_find_const (assoc_hash hash) (assoc_eq eq) (k, d) m) (\<lambda>r. Inr (map_option snd r))"

definition HashMap_hasKey ::
    "('k \<Rightarrow> hash_t) \<Rightarrow> ('k \<Rightarrow> 'k \<Rightarrow> bool) \<Rightarrow> 'v \<Rightarrow> 'k \<Rightarrow> ('k, 'v) hmap \<Rightarrow> (bool \<times> ('k, 'v) hmap) res" where
  "HashMap_hasKey hash eq d k m = HashTable_hasKey (assoc_hash hash) (assoc_eq eq) (k, d) m"

definition HashMap_put ::
    "('k \<Rightarrow> hash_t) \<Rightarrow> ('k \<Rightarrow> 'k \<Rightarrow> bool) \<Rightarrow> 'k \<Rightarrow> 'v \<Rightarrow> ('k, 'v) hmap \<Rightarrow> ('k, 'v) hmap res" where
  "HashMap_put hash eq k v m = HashTable_put (assoc_hash hash) (assoc_eq eq) (k, v) m"

definition HashMap_remove ::
    "('k \<Rightarrow> hash_t) \<Rightarrow> ('k \<Rightarrow> 'k \<Rightarrow> bool) \<Rightarrow> 'v \<Rightarrow> 'k \<Rightarrow> ('k, 'v) hmap \<Rightarrow> ('k, 'v) hmap res" where
  "HashMap_remove hash eq d k m = HashTable_remove (assoc_hash hash) (assoc_eq eq) (k, d) m"

definition HashMap_add ::
    "('k \<Rightarrow> hash_t) \<Rightarrow> 'k \<Rightarrow> 'v \<Rightarrow> ('k, 'v) hmap \<Rightarrow> ('k, 'v) hmap res" where
  "HashMap_add hash k v m = HashTable_add (assoc_hash hash) (k, v) m"

definition HashMap_fetch ::
    "('k \<Rightarrow> hash_t) \<Rightarrow> ('k \<Rightarrow> 'k \<Rightarrow> bool) \<Rightarrow> 'v \<Rightarrow> 'k \<Rightarrow> ('k, 'v) hmap \<Rightarrow> ('v \<times> ('k, 'v) hmap) res" where
  "HashMap_fetch hash eq d k m =
     bind_res (HashTable_get (assoc_hash hash) (assoc_eq eq) (k, d) m) (\<lambda>(r, m').
       case r of
         Some p \<Rightarrow> Inr (snd p, m')
       | None \<Rightarrow> bind_res (HashTable_add (assoc_hash hash) (k, d) m') (\<lambda>m''. Inr (d, m'')))"

definition HashMap_contains :: "'v \<Rightarrow> ('k, 'v) hmap \<Rightarrow> bool res" where
  "HashMap_contains v m = bind_res (HashTable_iterate m) (\<lambda>ps. Inr (list_ex (\<lambda>p. snd p = v) ps))"

text \<open>
  The loop of \<^verbatim>\<open>containsAll\<close> tests the collection \<open>c\<close> instead of its iterator, so it goes on
  after the last item, where the iterator has no node.
\<close>

fun HashMap_containsAll :: "'v list \<Rightarrow> bool \<Rightarrow> ('k, 'v) hmap \<Rightarrow> bool res" where
  "HashMap_containsAll [] c m = (if c then Inl Null_dereference else Inr True)"
| "HashMap_containsAll (v # vs) c m =
     (if c then bind_res (HashMap_contains v m) (\<lambda>b. if \<not> b then Inr False else HashMap_containsAll vs c m)
      else Inr True)"

definition HashMap_equals :: "('k, 'v) hmap \<Rightarrow> ('k, 'v) hmap \<Rightarrow> bool res" where
  "HashMap_equals m n =
     bind_res (HashTable_iterate n) (\<lambda>qs.
     bind_res (HashMap_containsAll (map snd qs) (\<not> HashTable_isEmpty n) m) (\<lambda>b.
       if \<not> b then Inr False
       else bind_res (HashTable_iterate m) (\<lambda>ps.
            HashMap_containsAll (map snd ps) (\<not> HashTable_isEmpty m) n)))"


section \<open>HashSet\<close>

definition HashSet_insert :: "('a \<Rightarrow> hash_t) \<Rightarrow> ('a \<Rightarrow> 'a \<Rightarrow> bool) \<Rightarrow> 'a \<Rightarrow> 'a htab \<Rightarrow> 'a htab res" where
  "HashSet_insert hash eq x s = HashTable_put hash eq x s"

definition HashSet_contains :: "('a \<Rightarrow> hash_t) \<Rightarrow> ('a \<Rightarrow> 'a \<Rightarrow> bool) \<Rightarrow> 'a \<Rightarrow> 'a htab \<Rightarrow> (bool \<times> 'a htab) res" where
  "HashSet_contains hash eq x s = HashTable_hasKey hash eq x s"

definition HashSet_subsetOf :: "('a \<Rightarrow> hash_t) \<Rightarrow> ('a \<Rightarrow> 'a \<Rightarrow> bool) \<Rightarrow> 'a htab \<Rightarrow> 'a htab \<Rightarrow> (bool \<times> 'a htab) res" where
  "HashSet_subsetOf hash eq s u =
     bind_res (HashTable_iterate s) (\<lambda>xs. HashTable_containsAll hash eq xs u)"

definition HashSet_join :: "('a \<Rightarrow> hash_t) \<Rightarrow> ('a \<Rightarrow> 'a \<Rightarrow> bool) \<Rightarrow> 'a htab \<Rightarrow> 'a htab \<Rightarrow> 'a htab res" where
  "HashSet_join hash eq s c = bind_res (HashTable_iterate c) (\<lambda>xs. HashTable_putAll hash eq xs s)"

definition HashSet_diff :: "('a \<Rightarrow> hash_t) \<Rightarrow> ('a \<Rightarrow> 'a \<Rightarrow> bool) \<Rightarrow> 'a htab \<Rightarrow> 'a htab \<Rightarrow> 'a htab res" where
  "HashSet_diff hash eq s c = bind_res (HashTable_iterate c) (\<lambda>xs. HashTable_removeAll hash eq xs s)"

text \<open>\<^verbatim>\<open>meet\<close> collects the items to remove, the last one first, and removes them then.\<close>

fun meet_collect :: "('a \<Rightarrow> hash_t) \<Rightarrow> ('a \<Rightarrow> 'a \<Rightarrow> bool) \<Rightarrow> 'a list \<Rightarrow> 'a list \<Rightarrow> 'a htab \<Rightarrow> ('a list \<times> 'a htab) res" where
  "meet_collect hash eq [] l c = Inr (l, c)"
| "meet_collect hash eq (x # xs) l c =
     bind_res (HashSet_contains hash eq x c) (\<lambda>(b, c').
       meet_collect hash eq xs (if \<not> b then x # l else l) c')"

definition HashSet_meet :: "('a \<Rightarrow> hash_t) \<Rightarrow> ('a \<Rightarrow> 'a \<Rightarrow> bool) \<Rightarrow> 'a htab \<Rightarrow> 'a htab \<Rightarrow> ('a htab \<times> 'a htab) res" where
  "HashSet_meet hash eq s c =
     bind_res (HashTable_iterate s) (\<lambda>xs.
     bind_res (meet_collect hash eq xs [] c) (\<lambda>(l, c').
     bind_res (HashTable_removeAll hash eq l s) (\<lambda>s'. Inr (s', c'))))"

section \<open>Hashing\<close>

lemma hash_string_loop_ok:
  "hash_string_loop cs n h = (if n \<le> length cs then Inr (foldl hash_char h (take n cs)) else Inl Out_of_bounds)"
  by (induction cs n h rule: hash_string_loop.induct) auto

lemma hash_cstring_loop_ok:
  "hash_cstring_loop (cs @ 0 # rest) h = (if 0 \<notin> set cs then Inr (foldl hash_char h cs)
     else hash_cstring_loop (takeWhile (\<lambda>c. c \<noteq> 0) cs @ [0]) h)"
  by (induction cs arbitrary: h) auto


section \<open>Invariant of the table\<close>

definition ht_idx :: "('a \<Rightarrow> hash_t) \<Rightarrow> 'a htab \<Rightarrow> 'a \<Rightarrow> nat" where
  "ht_idx hash t x = unat (hash x) mod length t"

definition bucket_ok :: "('a \<Rightarrow> hash_t) \<Rightarrow> ('a \<Rightarrow> 'a \<Rightarrow> bool) \<Rightarrow> nat \<Rightarrow> nat \<Rightarrow> 'a list \<Rightarrow> bool" where
  "bucket_ok hash eq n i b \<longleftrightarrow> (\<forall>x \<in> set b. unat (hash x) mod n = i) \<and> sorted_wrt (\<lambda>x y. \<not> eq x y) b"

definition ht_inv :: "('a \<Rightarrow> hash_t) \<Rightarrow> ('a \<Rightarrow> 'a \<Rightarrow> bool) \<Rightarrow> 'a htab \<Rightarrow> bool" where
  "ht_inv hash eq t \<longleftrightarrow> t \<noteq> [] \<and> (\<forall>i < length t. bucket_ok hash eq (length t) i (t ! i))"

definition ht_items :: "'a htab \<Rightarrow> 'a set" where
  "ht_items t = set (concat t)"

text \<open>What a hash key has to be: an equivalence that respects the hash.\<close>

locale hash_key =
  fixes hash :: "'a \<Rightarrow> hash_t" and eq :: "'a \<Rightarrow> 'a \<Rightarrow> bool"
  assumes eq_refl: "eq x x"
    and eq_sym: "eq x y \<Longrightarrow> eq y x"
    and eq_trans: "eq x y \<Longrightarrow> eq y z \<Longrightarrow> eq x z"
    and hash_cong: "eq x y \<Longrightarrow> hash x = hash y"
begin

lemma index_ok: "ht_inv hash eq t \<Longrightarrow> ht_index hash t x = Inr (ht_idx hash t x) \<and> ht_idx hash t x < length t"
  by (auto simp: ht_index_def ht_idx_def ht_inv_def)

lemma idx_cong: "eq x y \<Longrightarrow> ht_idx hash t x = ht_idx hash t y"
  using hash_cong by (simp add: ht_idx_def)

lemma items_iff:
  assumes "ht_inv hash eq t"
  shows "x \<in> ht_items t \<longleftrightarrow> x \<in> set (t ! ht_idx hash t x)"
proof
  assume "x \<in> ht_items t"
  then obtain i where "i < length t" "x \<in> set (t ! i)" by (auto simp: ht_items_def in_set_conv_nth [of _ t])
  with assms show "x \<in> set (t ! ht_idx hash t x)" by (auto simp: ht_inv_def bucket_ok_def ht_idx_def)
next
  have "t ! ht_idx hash t x \<in> set t" using assms by (intro nth_mem) (simp add: ht_inv_def ht_idx_def)
  then show "x \<in> set (t ! ht_idx hash t x) \<Longrightarrow> x \<in> ht_items t" by (auto simp: ht_items_def)
qed

lemma inv_update:
  "ht_inv hash eq t \<Longrightarrow> bucket_ok hash eq (length t) i b \<Longrightarrow> ht_inv hash eq (t[i := b])"
  by (cases "i < length t") (auto simp: ht_inv_def nth_list_update)

lemma items_update:
  assumes "ht_inv hash eq t" "i < length t" "bucket_ok hash eq (length t) i b"
  shows "x \<in> ht_items (t[i := b]) \<longleftrightarrow> (if ht_idx hash t x = i then x \<in> set b else x \<in> ht_items t)"
  using items_iff [OF inv_update [OF assms(1,3)], of x] items_iff [OF assms(1), of x] assms(2)
  by (auto simp: ht_idx_def)

lemma bucket_at: "ht_inv hash eq t \<Longrightarrow> bucket_ok hash eq (length t) (ht_idx hash t x) (t ! ht_idx hash t x)"
  using index_ok [of t x] by (simp add: ht_inv_def)

lemma bucket_unique:
  "sorted_wrt (\<lambda>x y. \<not> eq x y) b \<Longrightarrow> x \<in> set b \<Longrightarrow> y \<in> set b \<Longrightarrow> eq x y \<Longrightarrow> x = y"
  using eq_sym by (induction b) auto

lemma items_unique: "ht_inv hash eq t \<Longrightarrow> x \<in> ht_items t \<Longrightarrow> y \<in> ht_items t \<Longrightarrow> eq x y \<Longrightarrow> x = y"
  using bucket_unique [of "t ! ht_idx hash t x" x y] bucket_at [of t x] items_iff [of t x] items_iff [of t y]
    idx_cong [of x y t] by (simp add: bucket_ok_def)

text \<open>The scan of the bucket of a key.\<close>

lemma scan_split:
  "ht_scan eq k prev xs = Some (b, x, a) \<Longrightarrow>
   \<exists>c. b = rev prev @ c \<and> xs = c @ x # a \<and> eq x k \<and> (\<forall>y \<in> set c. \<not> eq y k)"
proof (induction xs arbitrary: prev)
  case (Cons y xs)
  show ?case
  proof (cases "eq y k")
    case False
    with Cons.IH [of "y # prev"] Cons.prems obtain c where
      "b = rev prev @ y # c" "xs = c @ x # a" "eq x k" "\<forall>z \<in> set c. \<not> eq z k" by auto
    with False show ?thesis by (intro exI [of _ "y # c"]) auto
  qed (use Cons.prems in auto)
qed simp

lemma scan_None: "ht_scan eq k prev xs = None \<longleftrightarrow> (\<forall>y \<in> set xs. \<not> eq y k)"
  by (induction xs arbitrary: prev) auto

lemma scan_cases:
  assumes "ht_inv hash eq t"
  obtains (absent) "ht_scan eq k [] (t ! ht_idx hash t k) = None" "\<forall>y \<in> ht_items t. \<not> eq y k"
    | (found) b x a where "ht_scan eq k [] (t ! ht_idx hash t k) = Some (b, x, a)"
      "t ! ht_idx hash t k = b @ x # a" "eq x k" "\<forall>y \<in> set b \<union> set a. \<not> eq y k"
proof (cases "ht_scan eq k [] (t ! ht_idx hash t k)")
  case None
  then have "\<not> eq y k" if "y \<in> ht_items t" for y
    using that items_iff [OF assms, of y] idx_cong [of y k t] scan_None [of k "[]"] by auto
  with None absent show ?thesis by blast
next
  case (Some r)
  then obtain b x a where r: "r = (b, x, a)" by (cases r)
  with Some scan_split [of k "[]"] have s: "t ! ht_idx hash t k = b @ x # a" "eq x k" "\<forall>y \<in> set b. \<not> eq y k"
    by fastforce+
  have "sorted_wrt (\<lambda>x y. \<not> eq x y) (b @ x # a)"
    using bucket_at [OF assms, of k] s(1) by (simp add: bucket_ok_def)
  then have "\<not> eq y k" if "y \<in> set a" for y
    using that s(2) eq_trans [of x k y] eq_sym [of y k] by (auto simp: sorted_wrt_append)
  with Some r s found show ?thesis by blast
qed

lemma bucket_permute:
  assumes "bucket_ok hash eq n i (b @ x # a)"
  shows "bucket_ok hash eq n i (x # b @ a)" "bucket_ok hash eq n i (b @ a)"
  using assms eq_sym by (auto simp: bucket_ok_def sorted_wrt_append)

lemma find_ok:
  assumes inv: "ht_inv hash eq t"
  shows "\<exists>r t'. ht_find hash eq k t = Inr (r, t') \<and> ht_find_const hash eq k t = Inr r \<and>
    ht_inv hash eq t' \<and> ht_items t' = ht_items t \<and> length t' = length t \<and>
    (case r of None \<Rightarrow> \<forall>y \<in> ht_items t. \<not> eq y k
     | Some x \<Rightarrow> x \<in> ht_items t \<and> eq x k \<and> (\<exists>xs. t' ! ht_idx hash t k = x # xs))"
  using inv
proof (cases rule: scan_cases [of t k])
  case absent
  with index_ok [OF inv, of k] inv show ?thesis by (auto simp: ht_find_def ht_find_const_def)
next
  case (found b x a)
  let ?i = "ht_idx hash t k"
  have i: "?i < length t" "ht_index hash t k = Inr ?i" using index_ok [OF inv, of k] by simp_all
  have bk: "bucket_ok hash eq (length t) ?i (x # b @ a)"
    using bucket_permute(1) bucket_at [OF inv, of k] found(2) by simp
  let ?t = "if b \<noteq> [] then t[?i := x # b @ a] else t"
  have "ht_items (t[?i := x # b @ a]) = ht_items t"
    using items_update [OF inv i(1) bk] items_iff [OF inv] found(2) by (auto simp: set_eq_iff)
  moreover have "ht_inv hash eq (t[?i := x # b @ a])" using inv bk by (rule inv_update)
  moreover have "x \<in> ht_items t"
    using items_iff [OF inv, of x] found(2) idx_cong [OF found(3)] by simp
  ultimately show ?thesis
    using found i inv by (auto simp: ht_find_def ht_find_const_def)
qed

lemma put_ok:
  assumes inv: "ht_inv hash eq t"
  shows "\<exists>t'. HashTable_put hash eq x t = Inr t' \<and> ht_inv hash eq t' \<and> length t' = length t \<and>
    ht_items t' = insert x {y \<in> ht_items t. \<not> eq y x}"
proof -
  obtain r t1 where f: "ht_find hash eq x t = Inr (r, t1)" "ht_inv hash eq t1" "ht_items t1 = ht_items t"
    "length t1 = length t"
    "case r of None \<Rightarrow> \<forall>y \<in> ht_items t. \<not> eq y x
     | Some z \<Rightarrow> z \<in> ht_items t \<and> eq z x \<and> (\<exists>xs. t1 ! ht_idx hash t x = z # xs)"
    using find_ok [OF inv, of x] by blast
  let ?i = "ht_idx hash t1 x"
  have i: "?i < length t1" "ht_index hash t1 x = Inr ?i" "?i = ht_idx hash t x"
    using index_ok [OF f(2), of x] f(4) by (simp_all add: ht_idx_def)
  have bi: "bucket_ok hash eq (length t1) ?i (t1 ! ?i)" using bucket_at [OF f(2)] .
  show ?thesis
  proof (cases r)
    case None
    then have none: "\<forall>y \<in> ht_items t1. \<not> eq y x" using f(3,5) by simp
    have "\<not> eq x y" if "y \<in> set (t1 ! ?i)" for y
    proof -
      have "unat (hash y) mod length t1 = ?i" using bi that by (simp add: bucket_ok_def)
      then have "y \<in> ht_items t1" using that items_iff [OF f(2), of y] by (simp add: ht_idx_def)
      with none eq_sym show ?thesis by blast
    qed
    then have bk: "bucket_ok hash eq (length t1) ?i (x # t1 ! ?i)"
      using bi by (auto simp: bucket_ok_def ht_idx_def)
    have "HashTable_put hash eq x t = Inr (t1[?i := x # t1 ! ?i])"
      using f(1) None i by (simp add: HashTable_put_def HashTable_add_def ht_make_def)
    moreover have "ht_items (t1[?i := x # t1 ! ?i]) = insert x {y \<in> ht_items t. \<not> eq y x}"
      using items_update [OF f(2) i(1) bk] items_iff [OF f(2)] none f(3) by (auto simp: set_eq_iff)
    ultimately show ?thesis using inv_update [OF f(2) bk] f(4) by auto
  next
    case (Some z)
    then obtain xs where z: "eq z x" "t1 ! ?i = z # xs" using f(5) i(3) by auto
    have ne: "\<not> eq x y" if "y \<in> set xs" for y
      using bi z(2) that eq_trans [OF z(1), of y] by (auto simp: bucket_ok_def)
    then have bk: "bucket_ok hash eq (length t1) ?i (x # xs)"
      using bi z(2) by (auto simp: bucket_ok_def ht_idx_def)
    have "HashTable_put hash eq x t = Inr (t1[?i := x # xs])"
      using f(1) Some i z by (simp add: HashTable_put_def)
    moreover have "ht_items (t1[?i := x # xs]) = insert x {y \<in> ht_items t. \<not> eq y x}"
    proof (rule set_eqI)
      fix y
      show "y \<in> ht_items (t1[?i := x # xs]) \<longleftrightarrow> y \<in> insert x {y \<in> ht_items t. \<not> eq y x}"
        using items_update [OF f(2) i(1) bk, of y] items_iff [OF f(2), of y] f(3) z ne [of y]
          idx_cong [of y x t1] eq_sym [of y x] eq_refl [of x]
        by (auto simp: ht_idx_def)
    qed
    ultimately show ?thesis using inv_update [OF f(2) bk] f(4) by auto
  qed
qed

lemma remove_ok:
  assumes inv: "ht_inv hash eq t"
  shows "\<exists>t'. HashTable_remove hash eq k t = Inr t' \<and> ht_inv hash eq t' \<and> length t' = length t \<and>
    ht_items t' = {y \<in> ht_items t. \<not> eq y k}"
  using inv
proof (cases rule: scan_cases [of t k])
  case absent
  with index_ok [OF inv, of k] inv show ?thesis by (auto simp: HashTable_remove_def)
next
  case (found b x a)
  let ?i = "ht_idx hash t k"
  have i: "?i < length t" "ht_index hash t k = Inr ?i" using index_ok [OF inv, of k] by simp_all
  have bk: "bucket_ok hash eq (length t) ?i (b @ a)"
    using bucket_permute(2) bucket_at [OF inv, of k] found(2) by simp
  have "ht_items (t[?i := b @ a]) = {y \<in> ht_items t. \<not> eq y k}"
  proof (rule set_eqI)
    fix y
    show "y \<in> ht_items (t[?i := b @ a]) \<longleftrightarrow> y \<in> {y \<in> ht_items t. \<not> eq y k}"
      using items_update [OF inv i(1) bk, of y] items_iff [OF inv, of y] found idx_cong [of y k t]
      by auto
  qed
  with found i inv_update [OF inv bk] show ?thesis by (auto simp: HashTable_remove_def)
qed

end

section \<open>Iteration\<close>

lemma ht_step_cases:
  assumes "i \<le> length t"
  obtains "ht_step t i = (length t, [])" "concat (drop i t) = []"
    | j x xs where "ht_step t i = (j, x # xs)" "j < length t"
        "concat (drop i t) = (x # xs) @ concat (drop (Suc j) t)"
  using assms
proof (induction t i arbitrary: thesis rule: ht_step.induct)
  case (1 t i)
  show ?case
  proof (cases "i < length t")
    case True
    then have split: "concat (drop i t) = t ! i @ concat (drop (Suc i) t)"
      by (simp add: Cons_nth_drop_Suc [symmetric])
    show ?thesis
    proof (cases "t ! i")
      case Nil
      then have "ht_step t i = ht_step t (i + 1)" using True by (simp add: ht_step.simps [of t i])
      with "1.IH" [OF True] Nil split "1.prems" True show ?thesis by auto
    next
      case (Cons x xs)
      then have "ht_step t i = (i, x # xs)" using True by (simp add: ht_step.simps [of t i])
      with "1.prems"(2) True split Cons show ?thesis by metis
    qed
  next
    case False
    with "1.prems" show ?thesis by (simp add: ht_step.simps [of t i])
  qed
qed

lemma ht_collect_ok:
  "i < length t \<Longrightarrow> length xs + length (concat (drop (Suc i) t)) < f \<Longrightarrow>
   ht_collect f t (i, x # xs) = Inr (x # xs @ concat (drop (Suc i) t))"
proof (induction f arbitrary: i x xs)
  case (Suc f)
  have step: "ht_collect (Suc f) t (i, x # xs) =
      bind_res (ht_iter_next t (i, x # xs)) (\<lambda>it'. bind_res (ht_collect f t it') (\<lambda>xs. Inr (x # xs)))"
    using Suc.prems(1) by (simp add: ht_iter_ended_def)
  show ?case
  proof (cases xs)
    case (Cons y ys)
    with Suc.IH [of i ys y] Suc.prems step show ?thesis by simp
  next
    case Nil
    have "Suc i \<le> length t" using Suc.prems(1) by simp
    then show ?thesis
    proof (cases rule: ht_step_cases)
      case 1
      then have "ht_collect f t (length t, []) = Inr []" by (cases f) (simp_all add: ht_iter_ended_def)
      with 1 Nil step show ?thesis by simp
    next
      case (2 j y ys)
      with Suc.IH [of j ys y] Suc.prems(2) Nil step show ?thesis by simp
    qed
  qed
qed simp

lemma HashTable_count_concat: "HashTable_count t = length (concat t)"
  by (induction t) auto

lemma HashTable_iterate_ok: "HashTable_iterate t = Inr (concat t)"
proof -
  have "0 \<le> length t" by simp
  then show ?thesis
  proof (cases rule: ht_step_cases)
    case 1
    have "ht_collect n t (length t, []) = Inr []" for n by (cases n) (simp_all add: ht_iter_ended_def)
    with 1 show ?thesis by (simp add: HashTable_iterate_def)
  next
    case (2 j x xs)
    with ht_collect_ok [OF 2(2), of xs "HashTable_count t" x] show ?thesis
      by (simp add: HashTable_iterate_def HashTable_count_concat)
  qed
qed

lemma HashTable_isEmpty_iff: "HashTable_isEmpty t \<longleftrightarrow> concat t = []"
  by (induction t) auto


section \<open>Whole collections\<close>

definition ht_mem :: "('a \<Rightarrow> 'a \<Rightarrow> bool) \<Rightarrow> 'a \<Rightarrow> 'a htab \<Rightarrow> bool" where
  "ht_mem eq k t \<longleftrightarrow> (\<exists>x \<in> ht_items t. eq x k)"

context hash_key
begin

lemma hasKey_ok:
  assumes "ht_inv hash eq t"
  shows "\<exists>t'. HashTable_hasKey hash eq k t = Inr (ht_mem eq k t, t') \<and> ht_inv hash eq t' \<and> ht_items t' = ht_items t"
proof -
  obtain r t' where "ht_find hash eq k t = Inr (r, t')" "ht_inv hash eq t'" "ht_items t' = ht_items t"
    "case r of None \<Rightarrow> \<forall>y \<in> ht_items t. \<not> eq y k
     | Some x \<Rightarrow> x \<in> ht_items t \<and> eq x k \<and> (\<exists>xs. t' ! ht_idx hash t k = x # xs)"
    using find_ok [OF assms, of k] by blast
  then show ?thesis by (cases r) (auto simp: HashTable_hasKey_def ht_mem_def)
qed

lemma putAll_ok:
  "ht_inv hash eq t \<Longrightarrow>
   \<exists>t'. HashTable_putAll hash eq xs t = Inr t' \<and> ht_inv hash eq t' \<and>
     (\<forall>k. ht_mem eq k t' \<longleftrightarrow> ht_mem eq k t \<or> (\<exists>x \<in> set xs. eq x k))"
proof (induction xs arbitrary: t)
  case (Cons x xs)
  obtain t1 where t1: "HashTable_put hash eq x t = Inr t1" "ht_inv hash eq t1"
    "ht_items t1 = insert x {y \<in> ht_items t. \<not> eq y x}"
    using put_ok [OF Cons.prems, of x] by blast
  have "ht_mem eq k t1 \<longleftrightarrow> ht_mem eq k t \<or> eq x k" for k
  proof -
    have "eq x k" if "eq y x" "eq y k" for y using eq_trans [OF eq_sym [OF that(1)] that(2)] .
    then show ?thesis using t1(3) by (auto simp: ht_mem_def)
  qed
  with Cons.IH [OF t1(2)] t1(1) show ?case by auto
qed simp

lemma removeAll_ok:
  "ht_inv hash eq t \<Longrightarrow>
   \<exists>t'. HashTable_removeAll hash eq xs t = Inr t' \<and> ht_inv hash eq t' \<and>
     ht_items t' = {y \<in> ht_items t. \<forall>x \<in> set xs. \<not> eq y x}"
proof (induction xs arbitrary: t)
  case (Cons x xs)
  obtain t1 where t1: "HashTable_remove hash eq x t = Inr t1" "ht_inv hash eq t1"
    "ht_items t1 = {y \<in> ht_items t. \<not> eq y x}"
    using remove_ok [OF Cons.prems, of x] by blast
  with Cons.IH [OF t1(2)] show ?case by auto
qed simp

lemma containsAll_ok:
  "ht_inv hash eq t \<Longrightarrow>
   \<exists>t'. HashTable_containsAll hash eq xs t = Inr (\<forall>x \<in> set xs. ht_mem eq x t, t') \<and> ht_inv hash eq t' \<and>
     ht_items t' = ht_items t"
proof (induction xs arbitrary: t)
  case (Cons x xs)
  obtain t1 where t1: "HashTable_hasKey hash eq x t = Inr (ht_mem eq x t, t1)" "ht_inv hash eq t1" "ht_items t1 = ht_items t"
    using hasKey_ok [OF Cons.prems, of x] by blast
  have same: "ht_mem eq y t1 = ht_mem eq y t" for y using t1(3) by (simp add: ht_mem_def)
  show ?case
  proof (cases "ht_mem eq x t")
    case True
    with Cons.IH [OF t1(2)] t1 same show ?thesis by auto
  next
    case False
    with t1 show ?thesis by auto
  qed
qed simp

lemma meet_collect_ok:
  "ht_inv hash eq c \<Longrightarrow>
   \<exists>l' c'. meet_collect hash eq xs l c = Inr (l', c') \<and> ht_inv hash eq c' \<and> ht_items c' = ht_items c \<and>
     set l' = set l \<union> {x \<in> set xs. \<not> ht_mem eq x c}"
proof (induction xs arbitrary: l c)
  case (Cons x xs)
  obtain c1 where c1: "HashTable_hasKey hash eq x c = Inr (ht_mem eq x c, c1)" "ht_inv hash eq c1" "ht_items c1 = ht_items c"
    using hasKey_ok [OF Cons.prems, of x] by blast
  have same: "ht_mem eq y c1 = ht_mem eq y c" for y using c1(3) by (simp add: ht_mem_def)
  from Cons.IH [OF c1(2), of "if \<not> ht_mem eq x c then x # l else l"] obtain l' c' where
    "meet_collect hash eq xs (if \<not> ht_mem eq x c then x # l else l) c1 = Inr (l', c')" "ht_inv hash eq c'"
    "ht_items c' = ht_items c" "set l' = set (if \<not> ht_mem eq x c then x # l else l) \<union> {x \<in> set xs. \<not> ht_mem eq x c}"
    using c1(3) same by auto
  with c1(1) show ?case by (auto simp: HashSet_contains_def)
qed simp

lemma ht_mem_items: "ht_items t = set (concat t)" "ht_mem eq k t \<longleftrightarrow> (\<exists>x \<in> set (concat t). eq x k)"
  by (simp_all add: ht_mem_def ht_items_def)

lemma mem_filter:
  assumes "ht_items d = {y \<in> ht_items s. P y}" "\<And>y. eq y k \<Longrightarrow> P y = P k"
  shows "ht_mem eq k d \<longleftrightarrow> ht_mem eq k s \<and> P k"
  unfolding ht_mem_def assms(1) using assms(2) by blast

lemma mem_cong: "eq x k \<Longrightarrow> ht_mem eq x c \<longleftrightarrow> ht_mem eq k c"
  unfolding ht_mem_def by (meson eq_sym eq_trans)

lemma set_algebra:
  assumes s: "ht_inv hash eq s" and c: "ht_inv hash eq c"
  shows "\<exists>j d m c1 c2. HashSet_join hash eq s c = Inr j \<and> HashSet_diff hash eq s c = Inr d \<and>
    HashSet_meet hash eq s c = Inr (m, c1) \<and>
    HashSet_subsetOf hash eq s c = Inr (\<forall>k. ht_mem eq k s \<longrightarrow> ht_mem eq k c, c2) \<and>
    ht_inv hash eq j \<and> ht_inv hash eq d \<and> ht_inv hash eq m \<and>
    (\<forall>k. ht_mem eq k j \<longleftrightarrow> ht_mem eq k s \<or> ht_mem eq k c) \<and> (\<forall>k. ht_mem eq k d \<longleftrightarrow> ht_mem eq k s \<and> \<not> ht_mem eq k c) \<and>
    (\<forall>k. ht_mem eq k m \<longleftrightarrow> ht_mem eq k s \<and> ht_mem eq k c)"
proof -
  obtain j where j: "HashSet_join hash eq s c = Inr j" "ht_inv hash eq j" "\<forall>k. ht_mem eq k j \<longleftrightarrow> ht_mem eq k s \<or> ht_mem eq k c"
    using putAll_ok [OF s, of "concat c"] by (auto simp: HashSet_join_def HashTable_iterate_ok ht_mem_items(2) [of _ c])
  obtain d where d: "HashSet_diff hash eq s c = Inr d" "ht_inv hash eq d"
    "ht_items d = {y \<in> ht_items s. \<forall>x \<in> set (concat c). \<not> eq y x}"
    using removeAll_ok [OF s, of "concat c"] by (auto simp: HashSet_diff_def HashTable_iterate_ok)
  have "ht_items d = {y \<in> ht_items s. \<not> ht_mem eq y c}"
    unfolding d(3) ht_mem_items(2) [of _ c] using eq_sym by blast
  then have dk: "ht_mem eq k d \<longleftrightarrow> ht_mem eq k s \<and> \<not> ht_mem eq k c" for k
    by (rule mem_filter) (simp add: mem_cong [of _ k])
  obtain l c1 where l: "meet_collect hash eq (concat s) [] c = Inr (l, c1)"
    "set l = {x \<in> set (concat s). \<not> ht_mem eq x c}"
    using meet_collect_ok [OF c, of "concat s" "[]"] by auto
  obtain m where m: "HashTable_removeAll hash eq l s = Inr m" "ht_inv hash eq m"
    "ht_items m = {y \<in> ht_items s. \<forall>x \<in> set l. \<not> eq y x}"
    using removeAll_ok [OF s, of l] by blast
  have "y \<in> ht_items m \<longleftrightarrow> y \<in> ht_items s \<and> ht_mem eq y c" for y
  proof
    assume "y \<in> ht_items m"
    then have y: "y \<in> ht_items s" "\<forall>x \<in> set l. \<not> eq y x" using m(3) by auto
    then have "y \<notin> set l" using eq_refl [of y] by blast
    with y(1) l(2) show "y \<in> ht_items s \<and> ht_mem eq y c" by (simp add: ht_items_def)
  next
    assume y: "y \<in> ht_items s \<and> ht_mem eq y c"
    then have "\<not> eq y x" if "x \<in> set l" for x
      using that l(2) mem_cong [of y x c] by auto
    with y m(3) show "y \<in> ht_items m" by blast
  qed
  then have "ht_items m = {y \<in> ht_items s. ht_mem eq y c}" by blast
  then have mk: "ht_mem eq k m \<longleftrightarrow> ht_mem eq k s \<and> ht_mem eq k c" for k
    by (rule mem_filter) (simp add: mem_cong [of _ k])
  have meet: "HashSet_meet hash eq s c = Inr (m, c1)"
    using l(1) m(1) by (simp add: HashSet_meet_def HashTable_iterate_ok)
  have "(\<forall>x \<in> set (concat s). ht_mem eq x c) \<longleftrightarrow> (\<forall>k. ht_mem eq k s \<longrightarrow> ht_mem eq k c)"
  proof
    assume l: "\<forall>x \<in> set (concat s). ht_mem eq x c"
    show "\<forall>k. ht_mem eq k s \<longrightarrow> ht_mem eq k c"
      using l mem_cong unfolding ht_mem_items(2) [of _ s] by blast
  next
    assume r: "\<forall>k. ht_mem eq k s \<longrightarrow> ht_mem eq k c"
    show "\<forall>x \<in> set (concat s). ht_mem eq x c"
    proof
      fix x assume "x \<in> set (concat s)"
      then have "ht_mem eq x s" using eq_refl [of x] unfolding ht_mem_items(2) by blast
      with r show "ht_mem eq x c" by blast
    qed
  qed
  then obtain c2 where "HashSet_subsetOf hash eq s c = Inr (\<forall>k. ht_mem eq k s \<longrightarrow> ht_mem eq k c, c2)"
    using containsAll_ok [OF c, of "concat s"] by (auto simp: HashSet_subsetOf_def HashTable_iterate_ok)
  with j d(1,2) dk m(2) mk meet show ?thesis by blast
qed

end

section \<open>HashMap is a map\<close>

definition hm_value :: "('k \<Rightarrow> hash_t) \<Rightarrow> ('k \<Rightarrow> 'k \<Rightarrow> bool) \<Rightarrow> 'v \<Rightarrow> 'k \<Rightarrow> ('k, 'v) hmap \<Rightarrow> 'v option" where
  "hm_value hash eq d k m = (case HashMap_get hash eq d k m of Inl e \<Rightarrow> None | Inr (r, m') \<Rightarrow> r)"

definition hm_inv :: "('k \<Rightarrow> hash_t) \<Rightarrow> ('k \<Rightarrow> 'k \<Rightarrow> bool) \<Rightarrow> ('k, 'v) hmap \<Rightarrow> bool" where
  "hm_inv hash eq m = ht_inv (assoc_hash hash) (assoc_eq eq) m"

context hash_key
begin

lemma assoc_key: "hash_key (assoc_hash hash) (assoc_eq eq)"
  by (rule hash_key.intro)
    (auto simp: assoc_hash_def assoc_eq_def eq_refl intro: eq_sym eq_trans hash_cong)

lemma get_ok:
  assumes inv: "hm_inv hash eq m"
  shows "\<exists>m'. HashMap_get hash eq d k m = Inr (hm_value hash eq d k m, m') \<and> hm_inv hash eq m' \<and>
      ht_items m' = ht_items m \<and> HashMap_get_const hash eq d k m = Inr (hm_value hash eq d k m) \<and>
      HashMap_hasKey hash eq d k m = Inr (hm_value hash eq d k m \<noteq> None, m')"
    and get_Some: "hm_value hash eq d k m = Some v \<longleftrightarrow> (\<exists>j. (j, v) \<in> ht_items m \<and> eq j k)"
proof -
  note ht = inv [unfolded hm_inv_def]
  obtain r m' where f: "ht_find (assoc_hash hash) (assoc_eq eq) (k, d) m = Inr (r, m')"
    "ht_find_const (assoc_hash hash) (assoc_eq eq) (k, d) m = Inr r"
    "ht_inv (assoc_hash hash) (assoc_eq eq) m'" "ht_items m' = ht_items m"
    "case r of None \<Rightarrow> \<forall>y \<in> ht_items m. \<not> assoc_eq eq y (k, d)
     | Some x \<Rightarrow> x \<in> ht_items m \<and> assoc_eq eq x (k, d) \<and> (\<exists>xs. m' ! ht_idx (assoc_hash hash) m (k, d) = x # xs)"
    using hash_key.find_ok [OF assoc_key ht, of "(k, d)"] by blast
  have v: "hm_value hash eq d k m = map_option snd r"
    using f(1) by (simp add: hm_value_def HashMap_get_def HashTable_get_def)
  with f show "\<exists>m'. HashMap_get hash eq d k m = Inr (hm_value hash eq d k m, m') \<and> hm_inv hash eq m' \<and>
      ht_items m' = ht_items m \<and> HashMap_get_const hash eq d k m = Inr (hm_value hash eq d k m) \<and>
      HashMap_hasKey hash eq d k m = Inr (hm_value hash eq d k m \<noteq> None, m')"
    by (simp add: HashMap_get_def HashTable_get_def HashMap_get_const_def HashMap_hasKey_def
        HashTable_hasKey_def hm_inv_def)
  show "hm_value hash eq d k m = Some v \<longleftrightarrow> (\<exists>j. (j, v) \<in> ht_items m \<and> eq j k)"
  proof (cases r)
    case None
    with v f(5) show ?thesis by (auto simp: assoc_eq_def)
  next
    case (Some x)
    have "p = x" if "p \<in> ht_items m" "eq (fst p) k" for p
      using hash_key.items_unique [OF assoc_key ht that(1), of x] that(2) f(5) Some eq_trans [of "fst p" k] eq_sym [of "fst x" k]
      by (auto simp: assoc_eq_def)
    then have u: "\<And>j. (j, v) \<in> ht_items m \<Longrightarrow> eq j k \<Longrightarrow> snd x = v" by fastforce
    have "x \<in> ht_items m" "eq (fst x) k" using f(5) Some by (simp_all add: assoc_eq_def)
    with u v Some show ?thesis by (cases x) auto
  qed
qed

lemma value_put:
  assumes inv: "hm_inv hash eq m"
  shows "\<exists>m'. HashMap_put hash eq k v m = Inr m' \<and> hm_inv hash eq m' \<and>
    (\<forall>j. hm_value hash eq d j m' = (if eq j k then Some v else hm_value hash eq d j m))"
proof -
  obtain m' where m': "HashMap_put hash eq k v m = Inr m'" "hm_inv hash eq m'"
    "ht_items m' = insert (k, v) {p \<in> ht_items m. \<not> eq (fst p) k}"
    using hash_key.put_ok [OF assoc_key inv [unfolded hm_inv_def], of "(k, v)"]
    by (auto simp: HashMap_put_def hm_inv_def assoc_eq_def)
  have "hm_value hash eq d j m' = (if eq j k then Some v else hm_value hash eq d j m)" for j
  proof (cases "eq j k")
    case True
    then have "hm_value hash eq d j m' = Some v"
      using eq_sym [OF True] by (auto simp: get_Some [OF m'(2)] m'(3))
    with True show ?thesis by simp
  next
    case False
    have k: "\<not> eq k j" using False eq_sym by blast
    have nk: "\<not> eq i k" if "eq i j" for i using eq_trans [OF eq_sym [OF that], of k] False by blast
    have "hm_value hash eq d j m' = Some w \<longleftrightarrow> hm_value hash eq d j m = Some w" for w
      unfolding get_Some [OF m'(2)] get_Some [OF inv] m'(3)
      using k nk by auto
    then have "hm_value hash eq d j m' = hm_value hash eq d j m" by (rule option_eqI)
    with False show ?thesis by simp
  qed
  with m' show ?thesis by blast
qed

lemma value_remove:
  assumes inv: "hm_inv hash eq m"
  shows "\<exists>m'. HashMap_remove hash eq d k m = Inr m' \<and> hm_inv hash eq m' \<and>
    (\<forall>j. hm_value hash eq d j m' = (if eq j k then None else hm_value hash eq d j m))"
proof -
  obtain m' where m': "HashMap_remove hash eq d k m = Inr m'" "hm_inv hash eq m'"
    "ht_items m' = {p \<in> ht_items m. \<not> eq (fst p) k}"
    using hash_key.remove_ok [OF assoc_key inv [unfolded hm_inv_def], of "(k, d)"]
    by (auto simp: HashMap_remove_def hm_inv_def assoc_eq_def)
  have "hm_value hash eq d j m' = (if eq j k then None else hm_value hash eq d j m)" for j
  proof (rule option_eqI)
    fix w
    have "eq i k \<longleftrightarrow> eq j k" if "eq i j" for i
      using that eq_trans [of i j k] eq_trans [of j i k] eq_sym [of i j] by blast
    then show "hm_value hash eq d j m' = Some w \<longleftrightarrow>
        (if eq j k then None else hm_value hash eq d j m) = Some w"
      unfolding get_Some [OF m'(2)] if_distrib [of "\<lambda>x. x = Some w"] get_Some [OF inv] m'(3) by auto
  qed
  with m' show ?thesis by blast
qed

end

lemma hash_map_contract:
  assumes "hash_key hash eq"
  shows "key_map eq (hm_inv hash eq) (hm_value hash eq d) (HashMap_put hash eq) (HashMap_remove hash eq d)"
  by (rule key_map.intro) (simp_all add: hash_key.value_put [OF assms] hash_key.value_remove [OF assms])

text \<open>The predefined key for \<^verbatim>\<open>int\<close>.\<close>

definition HashKey_int :: "32 word \<Rightarrow> hash_t" where
  "HashKey_int k = scast k"

interpretation int_key: hash_key HashKey_int "(=)"
  by unfold_locales auto

interpretation int_hash_map: key_map "(=)" "hm_inv HashKey_int (=)" "hm_value HashKey_int (=) d"
  "HashMap_put HashKey_int (=)" "HashMap_remove HashKey_int (=) d" for d
  by (rule hash_map_contract) (rule int_key.hash_key_axioms)

lemma hash_jenkins_key: "hash_key (\<lambda>x. hash_jenkins (bytes x)) (=)"
  by (rule hash_key.intro) auto


section \<open>Properties\<close>

lemma ht_inv_new: "0 < n \<Longrightarrow> ht_inv hash eq (HashTable_new n)" "ht_items (HashTable_new n) = {}"
  by (auto simp: ht_inv_def HashTable_new_def bucket_ok_def ht_items_def)

text \<open>
  C13. A hash table built by \<^verbatim>\<open>put\<close> holds at most one item per equivalence class, each in the
  bucket of its hash. On such a table \<^verbatim>\<open>put\<close> replaces the equivalent item or adds the new one,
  \<^verbatim>\<open>remove\<close> deletes the equivalent item, and a lookup, which moves the item found to the
  front of its bucket, changes neither the items nor the invariant and finds an equivalent item
  exactly when there is one; the const lookup gives the same answer.
\<close>

theorem hash_table_correct:
  assumes "hash_key hash eq" "ht_inv hash eq t"
  shows "(\<exists>t'. HashTable_put hash eq x t = Inr t' \<and> ht_inv hash eq t' \<and>
      ht_items t' = insert x {y \<in> ht_items t. \<not> eq y x}) \<and>
    (\<exists>t'. HashTable_remove hash eq x t = Inr t' \<and> ht_inv hash eq t' \<and>
      ht_items t' = {y \<in> ht_items t. \<not> eq y x}) \<and>
    (\<exists>r t'. ht_find hash eq x t = Inr (r, t') \<and> ht_find_const hash eq x t = Inr r \<and>
      ht_inv hash eq t' \<and> ht_items t' = ht_items t \<and>
      (case r of None \<Rightarrow> \<forall>y \<in> ht_items t. \<not> eq y x | Some y \<Rightarrow> y \<in> ht_items t \<and> eq y x))"
proof -
  obtain r t' where "ht_find hash eq x t = Inr (r, t')" "ht_find_const hash eq x t = Inr r"
    "ht_inv hash eq t'" "ht_items t' = ht_items t"
    "case r of None \<Rightarrow> \<forall>y \<in> ht_items t. \<not> eq y x
     | Some y \<Rightarrow> y \<in> ht_items t \<and> eq y x \<and> (\<exists>xs. t' ! ht_idx hash t x = y # xs)"
    using hash_key.find_ok [OF assms, of x] by blast
  then have "\<exists>r t'. ht_find hash eq x t = Inr (r, t') \<and> ht_find_const hash eq x t = Inr r \<and>
      ht_inv hash eq t' \<and> ht_items t' = ht_items t \<and>
      (case r of None \<Rightarrow> \<forall>y \<in> ht_items t. \<not> eq y x | Some y \<Rightarrow> y \<in> ht_items t \<and> eq y x)"
    by (cases r) auto
  with hash_key.put_ok [OF assms, of x] hash_key.remove_ok [OF assms, of x] show ?thesis by blast
qed

theorem hash_table_correct_witness:
  "\<exists>t'. HashTable_put HashKey_int (=) 5 (HashTable_new 3) = Inr t' \<and> ht_items t' = {5}"
  using hash_table_correct [OF int_key.hash_key_axioms ht_inv_new(1) [of 3], of 5]
  by (auto simp: ht_inv_new(2))

text \<open>
  C12. \<^verbatim>\<open>HashMap\<close> refines a map: with a key equivalence that respects the hash, any sequence of
  \<^verbatim>\<open>put\<close> and \<^verbatim>\<open>remove\<close> runs without failure and leaves the function that the same
  updates give; \<^verbatim>\<open>get\<close>, \<^verbatim>\<open>get_const\<close> and \<^verbatim>\<open>hasKey\<close> read it.
\<close>

theorem hash_map_refines:
  assumes "hash_key hash eq" "hm_inv hash eq m"
  shows "\<exists>m'. map_run (HashMap_put hash eq) (HashMap_remove hash eq d) ops m = Inr m' \<and> hm_inv hash eq m' \<and>
    (\<forall>k. let r = map_spec eq ops (\<lambda>j. hm_value hash eq d j m) k in
       HashMap_get_const hash eq d k m' = Inr r \<and>
       (\<exists>m''. HashMap_get hash eq d k m' = Inr (r, m'') \<and> HashMap_hasKey hash eq d k m' = Inr (r \<noteq> None, m'')))"
proof -
  obtain m' where m': "map_run (HashMap_put hash eq) (HashMap_remove hash eq d) ops m = Inr m'" "hm_inv hash eq m'"
    "\<forall>k. hm_value hash eq d k m' = map_spec eq ops (\<lambda>j. hm_value hash eq d j m) k"
    using key_map.run_refines [OF hash_map_contract [OF assms(1)] assms(2)] by blast
  with hash_key.get_ok [OF assms(1) m'(2)] show ?thesis unfolding Let_def by metis
qed

theorem hash_map_refines_witness:
  "\<exists>m'. map_run (HashMap_put HashKey_int (=)) (HashMap_remove HashKey_int (=) False)
      [Put_key 1 True, Put_key 8 False, Put_key 1 False, Remove_key 8] (HashTable_new 7) = Inr m' \<and>
    HashMap_get_const HashKey_int (=) False 1 m' = Inr (Some False) \<and>
    HashMap_get_const HashKey_int (=) False 8 m' = Inr None"
proof -
  have "hm_inv HashKey_int (=) (HashTable_new 7 :: (32 word, bool) hmap)"
    by (simp add: hm_inv_def ht_inv_new(1))
  from hash_map_refines [OF int_key.hash_key_axioms this, of False
      "[Put_key 1 True, Put_key 8 False, Put_key 1 False, Remove_key 8]"]
  show ?thesis
    by (auto simp: Let_def hm_value_def HashMap_get_def HashTable_get_def ht_find_def ht_index_def HashTable_new_def)
qed

text \<open>
  C14. \<^verbatim>\<open>HashSet\<close>: \<^verbatim>\<open>join\<close>, \<^verbatim>\<open>diff\<close> and \<^verbatim>\<open>meet\<close> compute union, difference and
  intersection and keep the table well-formed, and \<^verbatim>\<open>subsetOf\<close> decides inclusion.
\<close>

theorem hash_set_algebra:
  assumes "hash_key hash eq" "ht_inv hash eq s" "ht_inv hash eq c"
  shows "\<exists>j d m c1 c2. HashSet_join hash eq s c = Inr j \<and> HashSet_diff hash eq s c = Inr d \<and>
    HashSet_meet hash eq s c = Inr (m, c1) \<and>
    HashSet_subsetOf hash eq s c = Inr (\<forall>k. ht_mem eq k s \<longrightarrow> ht_mem eq k c, c2) \<and>
    ht_inv hash eq j \<and> ht_inv hash eq d \<and> ht_inv hash eq m \<and>
    (\<forall>k. ht_mem eq k j = (ht_mem eq k s \<or> ht_mem eq k c)) \<and>
    (\<forall>k. ht_mem eq k d = (ht_mem eq k s \<and> \<not> ht_mem eq k c)) \<and>
    (\<forall>k. ht_mem eq k m = (ht_mem eq k s \<and> ht_mem eq k c))"
  by (rule hash_key.set_algebra [OF assms])

theorem hash_set_algebra_witness:
  "\<exists>j. HashSet_join HashKey_int (=) (HashTable_new 3) (HashTable_new 5) = Inr j \<and> \<not> ht_mem (=) 0 j"
proof -
  have "\<not> ht_mem (=) (0 :: 32 word) (HashTable_new n)" for n by (simp add: ht_mem_def ht_inv_new(2))
  with hash_set_algebra [OF int_key.hash_key_axioms ht_inv_new(1) [of 3] ht_inv_new(1) [of 5]]
  show ?thesis by fastforce
qed

text \<open>
  The table iterator visits every item of every bucket exactly once, in the order of the
  buckets and of their chains, with no null pointer followed; \<^verbatim>\<open>count\<close> is the number of items,
  and copying a table of the same size duplicates its chains.
\<close>

lemma hash_table_iterate:
  "HashTable_iterate t = Inr (concat t) \<and> HashTable_count t = length (concat t) \<and>
   HashTable_isEmpty t = (concat t = []) \<and> concat (HashTable_clear t) = [] \<and>
   HashTable_copy hash eq (HashTable_new (length t)) t = Inr t"
  by (simp add: HashTable_iterate_ok HashTable_count_concat HashTable_isEmpty_iff HashTable_copy_def HashTable_new_def)
    (simp add: HashTable_clear_def)

text \<open>
  \<^verbatim>\<open>HashMap::equals\<close> never answers true on maps with items: its \<^verbatim>\<open>containsAll\<close> tests the
  collection instead of the iterator as loop condition, and follows a null node after the last
  item unless some value is missing. In particular a non-empty map compared with itself fails.
\<close>

lemma hash_map_equals_broken:
  assumes "concat m \<noteq> []" "concat n \<noteq> []"
  shows "HashMap_equals m n =
    (if \<forall>v \<in> snd ` set (concat n). v \<in> snd ` set (concat m) then Inl Null_dereference else Inr False)"
proof -
  have "HashMap_containsAll vs True m =
      (if \<forall>v \<in> set vs. v \<in> snd ` set (concat m) then Inl Null_dereference else Inr False)" for vs
    by (induction vs) (auto simp: HashMap_contains_def HashTable_iterate_ok list_ex_iff)
  then show ?thesis
    using assms by (simp add: HashMap_equals_def HashTable_iterate_ok HashTable_isEmpty_iff)
qed

lemma hash_map_equals_broken_witness:
  "HashMap_equals [[(1 :: int, True)]] [[(1 :: int, True)]] = Inl Null_dereference"
  using hash_map_equals_broken [of "[[(1 :: int, True)]]" "[[(1 :: int, True)]]"] by simp

text \<open>
  The two string hash functions agree: hashing a C string, up to its null character, is
  hashing the string of that length.
\<close>

lemma hash_cstring_string:
  assumes "0 \<notin> set cs"
  shows "hash_cstring (cs @ 0 # rest) = hash_string (cs @ 0 # rest) (length cs)"
  using assms by (simp add: hash_cstring_def hash_string_def hash_string_loop_ok hash_cstring_loop_ok)

lemma hash_cstring_string_witness: "hash_cstring [97, 98, 0] = hash_string [97, 98, 0] 2"
proof -
  have nz: "0 \<notin> set [97, 98 :: 8 word]" by simp
  have len: "length [97, 98 :: 8 word] = 2" by simp
  from hash_cstring_string [OF nz, of "[]"] show ?thesis by (simp only: append_Cons append_Nil len)
qed

end
