(* ===== verification/Elm_Int.thy ===== *)
theory Elm_Int
  imports Elm_Prelude
begin

unbundle bit_operations_syntax

text \<open>
  The bit and arithmetic helpers of \<^verbatim>\<open>include/elm/int.h\<close> and \<^verbatim>\<open>src/int.cpp\<close> on
  32-bit and 64-bit unsigned integers: number of ones, most significant bit, powers of two,
  rounding to a multiple, product with an overflow flag.
\<close>

section \<open>Counting ones\<close>

text \<open>The population count that the compiler builtin computes.\<close>

definition countOnes :: "'a::len word \<Rightarrow> nat" where
  "countOnes w = length (filter (bit w) [0..<LENGTH('a)])"

text \<open>The table used when there is no such builtin.\<close>

definition ones_table :: "nat list" where
  "ones_table =
    [0, 1, 1, 2, 1, 2, 2, 3, 1, 2, 2, 3, 2, 3, 3, 4,
     1, 2, 2, 3, 2, 3, 3, 4, 2, 3, 3, 4, 3, 4, 4, 5,
     1, 2, 2, 3, 2, 3, 3, 4, 2, 3, 3, 4, 3, 4, 4, 5,
     2, 3, 3, 4, 3, 4, 4, 5, 3, 4, 4, 5, 4, 5, 5, 6,
     1, 2, 2, 3, 2, 3, 3, 4, 2, 3, 3, 4, 3, 4, 4, 5,
     2, 3, 3, 4, 3, 4, 4, 5, 3, 4, 4, 5, 4, 5, 5, 6,
     2, 3, 3, 4, 3, 4, 4, 5, 3, 4, 4, 5, 4, 5, 5, 6,
     3, 4, 4, 5, 4, 5, 5, 6, 4, 5, 5, 6, 5, 6, 6, 7,
     1, 2, 2, 3, 2, 3, 3, 4, 2, 3, 3, 4, 3, 4, 4, 5,
     2, 3, 3, 4, 3, 4, 4, 5, 3, 4, 4, 5, 4, 5, 5, 6,
     2, 3, 3, 4, 3, 4, 4, 5, 3, 4, 4, 5, 4, 5, 5, 6,
     3, 4, 4, 5, 4, 5, 5, 6, 4, 5, 5, 6, 5, 6, 6, 7,
     2, 3, 3, 4, 3, 4, 4, 5, 3, 4, 4, 5, 4, 5, 5, 6,
     3, 4, 4, 5, 4, 5, 5, 6, 4, 5, 5, 6, 5, 6, 6, 7,
     3, 4, 4, 5, 4, 5, 5, 6, 4, 5, 5, 6, 5, 6, 6, 7,
     4, 5, 5, 6, 5, 6, 6, 7, 5, 6, 6, 7, 6, 7, 7, 8]"

definition ones_u8 :: "8 word \<Rightarrow> nat" where
  "ones_u8 i = ones_table ! unat i"

definition ones_u16 :: "16 word \<Rightarrow> nat" where
  "ones_u16 i = ones_u8 (ucast i) + ones_u8 (ucast (drop_bit 8 i))"

definition ones_u32 :: "32 word \<Rightarrow> nat" where
  "ones_u32 i = ones_u16 (ucast i) + ones_u16 (ucast (drop_bit 16 i))"

definition ones_u64 :: "64 word \<Rightarrow> nat" where
  "ones_u64 i = ones_u32 (ucast i) + ones_u32 (ucast (drop_bit 32 i))"


section \<open>Most significant bit\<close>









section \<open>Rounding and product\<close>

definition roundup :: "32 word \<Rightarrow> 32 word \<Rightarrow> 32 word res" where
  "roundup v m =
     (if countOnes m = 1 then Inr ((v + m - 1) AND NOT (m - 1))
      else if m = 0 then Inl (Exception ''division by zero'')
      else Inr (((v - 1) div m + 1) * m))"

definition rounddown :: "32 word \<Rightarrow> 32 word \<Rightarrow> 32 word res" where
  "rounddown v m =
     (if countOnes m = 1 then Inr (v AND NOT (m - 1))
      else if m = 0 then Inl (Exception ''division by zero'')
      else Inr (v div m * m))"

definition mult_u32 :: "32 word \<Rightarrow> 32 word \<Rightarrow> 32 word \<times> bool" where
  "mult_u32 a b = (let r = a * b in (r, r < a \<or> r < b))"

definition mult_u64 :: "64 word \<Rightarrow> 64 word \<Rightarrow> 64 word \<times> bool" where
  "mult_u64 a b = (let r = a * b in (r, r < a \<or> r < b))"

definition abs_i32 :: "32 word \<Rightarrow> 32 word res" where
  "abs_i32 v =
     (if 0 \<le> sint v then Inr v
      else if sint v = - (2 ^ 31) then Inl (Exception ''signed overflow'')
      else Inr (- v))"


section \<open>The tables\<close>

lemma bits_split: "length (filter (bit n) [0..<Suc k]) = n mod 2 + length (filter (bit (n div 2)) [0..<k])" for n :: nat
proof -
  have "[0..<Suc k] = 0 # map Suc [0..<k]" by (simp add: upt_conv_Cons map_Suc_upt del: upt_Suc)
  moreover have "bit n (Suc j) = bit (n div 2) j" for j by (simp add: bit_Suc)
  ultimately show ?thesis
    by (simp add: filter_map o_def bit_0 odd_iff_mod_2_eq_one del: upt_Suc)
qed

lemma ones_table_pairs: "ones_table = concat (map (\<lambda>x. [x, x + 1]) (take 128 ones_table))"
  by (simp add: ones_table_def)

lemma length_ones_table: "length ones_table = 256"
  by (simp add: ones_table_def)

lemma nth_pairs:
  "i < length xs \<Longrightarrow> concat (map (\<lambda>x. [x, x + 1]) xs) ! (2 * i + b mod 2) = xs ! i + b mod 2" for b :: nat
proof (induction xs arbitrary: i)
  case (Cons x xs)
  show ?case
  proof (cases i)
    case 0
    then show ?thesis by (cases "b mod 2 = 0") (auto simp: mod2_eq_if)
  next
    case (Suc j)
    with Cons show ?thesis by simp
  qed
qed simp

lemma ones_table_nth: "n < 256 \<Longrightarrow> ones_table ! n = length (filter (bit n) [0..<8])"
proof (induction n rule: less_induct)
  case (less n)
  show ?case
  proof (cases "n = 0")
    case True
    then show ?thesis by (simp add: ones_table_def)
  next
    case False
    have e: "(8::nat) = Suc 7" by simp
    have d: "n div 2 < n" "n div 2 < 256" "n div 2 < 128" using False less.prems by auto
    have "ones_table ! n = ones_table ! (n div 2) + n mod 2"
      using nth_pairs [of "n div 2" "take 128 ones_table" n] d(3) length_ones_table
      by (subst ones_table_pairs) simp
    also have "ones_table ! (n div 2) = length (filter (bit (n div 2)) [0..<8])"
      using less.IH d by blast
    also have "\<dots> = length (filter (bit (n div 2)) [0..<7])"
    proof -
      have "\<not> bit (n div 2) 7" using d(3) by (simp add: bit_iff_odd)
      then have "length (filter (bit (n div 2)) [0..<Suc 7]) = length (filter (bit (n div 2)) [0..<7])"
        by (simp only: upt_Suc_append filter_append) simp
      then show ?thesis by (simp only: e)
    qed
    also have "\<dots> + n mod 2 = length (filter (bit n) [0..<Suc 7])" by (simp only: bits_split)
    finally show ?thesis by (simp only: e)
  qed
qed


lemma unat_ltp: "unat w < 2 ^ LENGTH('a)" for w :: "'a::len word"
  by (rule unsigned_less)

lemma filter_bits_append:
  "length (filter P [0..<n + m]) = length (filter P [0..<n]) + length (filter (\<lambda>k. P (n + k)) [0..<m])"
  by (induction m) simp_all

lemma ones_u8_countOnes: "ones_u8 i = countOnes i"
proof -
  have "unat i < 256" using unat_ltp [of i] by simp
  moreover have "filter (bit (unat i)) [0..<8] = filter (bit i) [0..<8]"
    by (rule filter_cong) (simp_all add: bit_unsigned_iff)
  ultimately show ?thesis by (simp add: ones_u8_def countOnes_def ones_table_nth)
qed

lemma countOnes_ucast:
  "LENGTH('b) \<le> LENGTH('a) \<Longrightarrow>
   countOnes (ucast w :: 'b::len word) = length (filter (bit w) [0..<LENGTH('b)])" for w :: "'a::len word"
  unfolding countOnes_def by (rule arg_cong [where f = length], rule filter_cong) (simp_all add: bit_ucast_iff)

lemma countOnes_ucast_drop:
  "n + LENGTH('b) \<le> LENGTH('a) \<Longrightarrow>
   countOnes (ucast (drop_bit n w) :: 'b::len word) = length (filter (\<lambda>k. bit w (n + k)) [0..<LENGTH('b)])"
  for w :: "'a::len word"
  unfolding countOnes_def
  by (rule arg_cong [where f = length], rule filter_cong) (simp_all add: bit_ucast_iff bit_drop_bit_eq)

lemma countOnes_halves:
  assumes "LENGTH('a) = LENGTH('b) + LENGTH('b)"
  shows "countOnes (w :: 'a::len word) =
         countOnes (ucast w :: 'b::len word) + countOnes (ucast (drop_bit LENGTH('b) w) :: 'b word)"
  using assms filter_bits_append [of "bit w" "LENGTH('b)" "LENGTH('b)"]
  by (simp only: countOnes_ucast [of w] countOnes_ucast_drop [of _ w] countOnes_def [of w] le_add1 order_refl assms)

lemma ones_countOnes:
  "ones_u16 v = countOnes v" "ones_u32 x = countOnes x" "ones_u64 y = countOnes y"
proof -
  have 1: "ones_u16 v = countOnes v" for v
    using countOnes_halves [where 'b = 8, of v] by (simp add: ones_u16_def ones_u8_countOnes)
  have 2: "ones_u32 x = countOnes x" for x
    using countOnes_halves [where 'b = 16, of x] by (simp add: ones_u32_def 1)
  show "ones_u16 v = countOnes v" "ones_u32 x = countOnes x" by (fact 1, fact 2)
  show "ones_u64 y = countOnes y"
    using countOnes_halves [where 'b = 32, of y] by (simp add: ones_u64_def 2)
qed





lemma word_pos_iff: "w \<noteq> 0 \<longleftrightarrow> 0 < unat w" for w :: "'a::len word"
  using unat_eq_zero [of w] by linarith

lemma unat_drop_bit_word: "unat (drop_bit n w) = unat w div 2 ^ n" for w :: "'a::len word"
  by (simp only: unat_drop_bit_eq) (simp only: drop_bit_eq_div)









lemma unat_push_bit_1: "k < LENGTH('a) \<Longrightarrow> unat (push_bit k 1 :: 'a::len word) = 2 ^ k"
  
  by (simp only: unsigned_push_bit_eq unsigned_1) (simp add: push_bit_eq_mult take_bit_nat_eq_self)









lemma countOnes_one:
  assumes "countOnes m = 1"
  obtains k where "k < LENGTH('a)" "m = push_bit k (1 :: 'a::len word)"
proof -
  obtain k where k: "filter (bit m) [0..<LENGTH('a)] = [k]"
    using assms by (auto simp: countOnes_def length_Suc_conv)
  have "set (filter (bit m) [0..<LENGTH('a)]) = {k}" by (simp only: k) simp
  then have s: "{i. i < LENGTH('a) \<and> bit m i} = {k}" by auto
  then have lt: "k < LENGTH('a)" by auto
  have "m = push_bit k 1"
  proof (rule bit_word_eqI)
    fix j assume j: "j < LENGTH('a)"
    then have "bit m j \<longleftrightarrow> j = k" using s by auto
    then show "bit m j = bit (push_bit k 1 :: 'a word) j" using j by (auto simp: bit_push_bit_iff bit_1_iff bit_exp_iff)
  qed
  with lt that show thesis by blast
qed

lemma and_not_mask:
  "v AND NOT (push_bit k 1 - 1) = push_bit k (drop_bit k v)" for v :: "'a::len word"
proof -
  have m: "push_bit k 1 - 1 = (mask k :: 'a word)" by (simp add: mask_eq_decr_exp push_bit_eq_mult)
  show ?thesis unfolding m
    by (rule bit_word_eqI) (auto simp: bit_and_iff bit_not_iff bit_mask_iff bit_push_bit_iff bit_drop_bit_eq)
qed

lemma unat_round_pow2:
  "unat (push_bit k (drop_bit k v)) = unat v div 2 ^ k * 2 ^ k" for v :: "'a::len word"
proof -
  have "unat v div 2 ^ k * 2 ^ k \<le> unat v" by simp
  then have lt: "unat v div 2 ^ k * 2 ^ k < 2 ^ LENGTH('a)" using unat_ltp [of v] by linarith
  have "unat (push_bit k (drop_bit k v)) = take_bit LENGTH('a) (push_bit k (unat v div 2 ^ k))"
    by (simp only: unsigned_push_bit_eq unat_drop_bit_word)
  also have "\<dots> = take_bit LENGTH('a) (unat v div 2 ^ k * 2 ^ k)" by (simp only: push_bit_eq_mult)
  also have "\<dots> = unat v div 2 ^ k * 2 ^ k" by (rule take_bit_nat_eq_self [OF lt])
  finally show ?thesis .
qed

lemma unat_times: "unat (a * b) = (if unat a * unat b < 2 ^ LENGTH('a) then unat a * unat b else unat a * unat b mod 2 ^ LENGTH('a))"
  for a b :: "'a::len word"
  by (simp add: unat_word_ariths)

lemma unat_plus: "unat a + unat b < 2 ^ LENGTH('a) \<Longrightarrow> unat (a + b) = unat a + unat b" for a b :: "'a::len word"
  by (simp add: unat_word_ariths)

lemma unat_pred: "a \<noteq> 0 \<Longrightarrow> unat (a - 1) = unat a - 1" for a :: "'a::len word"
  by (rule unat_minus_one)

lemma unat_div_word: "unat (a div b) = unat a div unat b" for a b :: "'a::len word"
  by (rule unat_div)

text \<open>The least multiple above and the greatest multiple below.\<close>

definition is_roundup :: "nat \<Rightarrow> nat \<Rightarrow> nat \<Rightarrow> bool" where
  "is_roundup v m r \<longleftrightarrow> m dvd r \<and> v \<le> r \<and> r < v + m"

definition is_rounddown :: "nat \<Rightarrow> nat \<Rightarrow> nat \<Rightarrow> bool" where
  "is_rounddown v m r \<longleftrightarrow> m dvd r \<and> r \<le> v \<and> v < r + m"

lemma is_rounddown_div: "0 < m \<Longrightarrow> is_rounddown v m (v div m * m)"
  using dividend_less_div_times [of m v] by (simp add: is_rounddown_def)

lemma is_roundup_div: "0 < m \<Longrightarrow> is_roundup v m ((v + m - 1) div m * m)"
proof -
  assume m: "0 < m"
  have "(v + m - 1) div m * m \<le> v + m - 1" by simp
  moreover have "v + m - 1 < (v + m - 1) div m * m + m" using dividend_less_div_times [OF m, of "v + m - 1"] by simp
  ultimately have "v \<le> (v + m - 1) div m * m" "(v + m - 1) div m * m < v + m" using m by linarith+
  then show ?thesis by (simp add: is_roundup_def)
qed

lemma rounddown_ok:
  assumes "m \<noteq> 0"
  shows "\<exists>r. rounddown v m = Inr r \<and> is_rounddown (unat v) (unat m) (unat r)"
proof (cases "countOnes m = 1")
  case True
  then obtain k where k: "k < 32" "m = push_bit k 1" using countOnes_one [of m] by auto
  have "unat m = 2 ^ k" using k by (simp only: k(2)) (subst unat_push_bit_1, simp_all)
  moreover have "rounddown v m = Inr (push_bit k (drop_bit k v))"
    using True by (simp only: rounddown_def if_True) (simp only: k(2) and_not_mask simp_thms if_True)
  ultimately show ?thesis using is_rounddown_div [of "unat m" "unat v"] by (simp add: unat_round_pow2)
next
  case False
  have "unat (v div m * m) = unat v div unat m * unat m"
  proof -
    have "unat v div unat m * unat m \<le> unat v" by simp
    then have "unat v div unat m * unat m < 2 ^ LENGTH(32)" using unat_ltp [of v] by linarith
    then show ?thesis by (simp only: unat_times unat_div_word if_True)
  qed
  then show ?thesis using False assms is_rounddown_div [of "unat m" "unat v"]
    by (simp add: rounddown_def word_pos_iff [symmetric])
qed

lemma roundup_ok:
  assumes m: "m \<noteq> 0" and v: "v \<noteq> 0" and fits: "unat v + unat m - 1 < 2 ^ 32"
  shows "\<exists>r. roundup v m = Inr r \<and> is_roundup (unat v) (unat m) (unat r)"
proof -
  have p: "0 < unat m" "0 < unat v" using m v by (simp_all only: word_pos_iff)
  show ?thesis
  proof (cases "countOnes m = 1")
    case True
    then obtain k where k: "k < 32" "m = push_bit k 1" using countOnes_one [of m] by auto
    have u: "unat m = 2 ^ k" using k by (simp only: k(2)) (subst unat_push_bit_1, simp_all)
    have "v + m - 1 = v + (m - 1)" by simp
    then have s: "unat (v + m - 1) = unat v + unat m - 1"
      using fits p by (simp only: unat_plus unat_pred [OF m]) (subst unat_plus, simp_all add: unat_pred [OF m])
    have "roundup v m = Inr (push_bit k (drop_bit k (v + m - 1)))"
      using True by (simp only: roundup_def if_True) (simp only: k(2) and_not_mask simp_thms if_True)
    moreover have "unat (push_bit k (drop_bit k (v + m - 1))) = (unat v + unat m - 1) div unat m * unat m"
      by (simp only: unat_round_pow2 s) (simp only: u)
    ultimately show ?thesis using is_roundup_div [OF p(1), of "unat v"] by simp
  next
    case False
    have e: "(unat v - 1) div unat m + 1 = (unat v + unat m - 1) div unat m"
    proof -
      have "(unat v - 1 + unat m) div unat m = (unat v - 1) div unat m + 1"
        using p(1) by (simp only: div_add_self2)
      then show ?thesis using p(2) by simp
    qed
    have l: "(unat v + unat m - 1) div unat m * unat m < 2 ^ 32"
      using fits div_times_less_eq_dividend [of "unat v + unat m - 1" "unat m"] by linarith
    have "(unat v + unat m - 1) div unat m \<le> unat v + unat m - 1" by (rule div_le_dividend)
    then have "(unat v + unat m - 1) div unat m < 2 ^ 32" using fits by (rule le_less_trans)
    then have l2: "(unat v + unat m - 1) div unat m < 2 ^ LENGTH(32)" by simp
    have 1: "unat ((v - 1) div m + 1) = (unat v + unat m - 1) div unat m"
      using l2 by (subst unat_plus) (simp_all only: unat_div_word unat_pred [OF v] unsigned_1 e)
    then have "unat (((v - 1) div m + 1) * m) = (unat v + unat m - 1) div unat m * unat m"
      using l by (simp only: unat_times 1 len_num1 len_bit0) simp
    moreover have "roundup v m = Inr (((v - 1) div m + 1) * m)" using False m by (simp add: roundup_def)
    ultimately show ?thesis using is_roundup_div [OF p(1), of "unat v"] by simp
  qed
qed

lemma mult_u32_ok:
  "unat a * unat b < 2 ^ 32 \<Longrightarrow> unat (fst (mult_u32 a b)) = unat a * unat b \<and>
     snd (mult_u32 a b) = (unat a * unat b < unat a \<or> unat a * unat b < unat b)"
  by (simp add: mult_u32_def Let_def word_less_nat_alt unat_times)

lemma roundup_0_3: "roundup 0 3 = Inr 2"
proof -
  have "countOnes (3 :: 32 word) = 2"
    by (simp only: ones_countOnes(2) [symmetric]) (simp add: ones_u32_def ones_u16_def ones_u8_def ones_table_def)
  then show ?thesis by (simp add: roundup_def)
qed

section \<open>Bits of a sequence of words\<close>

text \<open>The low \<^verbatim>\<open>n\<close> bits of every word of an array, in the order of the array.\<close>

definition chunk_bits :: "nat \<Rightarrow> 'a::len word list \<Rightarrow> bool list" where
  "chunk_bits n ws = concat (map (\<lambda>w. map (bit w) [0..<n]) ws)"

lemma chunk_bits_simps [simp]:
  "chunk_bits n [] = []"
  "chunk_bits n (w # ws) = map (bit w) [0..<n] @ chunk_bits n ws"
  by (simp_all add: chunk_bits_def)

lemma length_chunk_bits [simp]: "length (chunk_bits n ws) = n * length ws"
  by (induction ws) simp_all

lemma chunk_bits_append: "chunk_bits n (vs @ ws) = chunk_bits n vs @ chunk_bits n ws"
  by (simp add: chunk_bits_def)

lemma nth_chunk_bits:
  "0 < n \<Longrightarrow> k < n * length ws \<Longrightarrow> chunk_bits n ws ! k = bit (ws ! (k div n)) (k mod n)"
proof (induction ws arbitrary: k)
  case (Cons w ws)
  show ?case
  proof (cases "k < n")
    case True
    then show ?thesis by (simp add: nth_append del: upt_Suc)
  next
    case False
    then have "chunk_bits n (w # ws) ! k = chunk_bits n ws ! (k - n)" by (simp add: nth_append del: upt_Suc)
    also have "\<dots> = bit (ws ! ((k - n) div n)) ((k - n) mod n)" using Cons False by simp
    finally show ?thesis using False Cons.prems(1) by (simp add: le_div_geq le_mod_geq)
  qed
qed simp

lemma chunk_bits_map:
  assumes "\<And>w k. k < n \<Longrightarrow> bit (f w) k = g (bit w k)"
  shows "chunk_bits n (map f ws) = map g (chunk_bits n ws)"
  by (induction ws) (use assms in \<open>simp_all del: upt_Suc\<close>)

lemma chunk_bits_map2:
  assumes "\<And>a b k. k < n \<Longrightarrow> bit (f a b) k = g (bit a k) (bit b k)"
  shows "length as = length bs \<Longrightarrow> chunk_bits n (map2 f as bs) = map2 g (chunk_bits n as) (chunk_bits n bs)"
proof (induction as bs rule: list_induct2)
  case (Cons a as b bs)
  have "map (bit (f a b)) [0..<n] = map2 g (map (bit a) [0..<n]) (map (bit b) [0..<n])"
    by (rule nth_equalityI) (use assms in \<open>simp_all del: upt_Suc\<close>)
  with Cons show ?case by (simp del: upt_Suc)
qed simp

lemma chunk_bits_update:
  fixes ws :: "'a::len word list"
  assumes k: "k < length ws" and b: "b < n" and w: "\<And>j. j < n \<Longrightarrow> bit w j = (if j = b then x else bit (ws ! k) j)"
  shows "chunk_bits n (ws[k := w]) = (chunk_bits n ws)[n * k + b := x]"
proof (rule nth_equalityI)
  fix i assume i: "i < length (chunk_bits n (ws[k := w]))"
  have n: "0 < n" using b by simp
  have e: "i = n * k + b \<longleftrightarrow> i div n = k \<and> i mod n = b" using b by auto
  have "n * k + b < n * length ws" using k b
    by (metis add_less_cancel_left mult_Suc_right mult_le_mono2 order_less_le_trans Suc_leI add.commute)
  moreover have "bit (ws[k := w] ! (i div n)) (i mod n) = (if i = n * k + b then x else bit (ws ! (i div n)) (i mod n))"
    using k n w e by (cases "i div n = k") auto
  ultimately show "chunk_bits n (ws[k := w]) ! i = (chunk_bits n ws)[n * k + b := x] ! i"
    using i n by (simp add: nth_chunk_bits nth_list_update)
qed simp


section \<open>Properties\<close>



text \<open>
  \<^verbatim>\<open>rounddown\<close> gives the greatest multiple of a non-null integer below the value, by
  masking for powers of two and by division otherwise; \<^verbatim>\<open>roundup\<close> gives the least multiple
  above a non-null value when it cannot wrap around. The product of two integers that fits is
  exact and its overflow flag is then raised only by a null operand; \<^verbatim>\<open>roundup\<close> of 0 to a
  multiple of 3 wraps around, and some overflowing products raise no flag.
\<close>

lemma int_arithmetic_functions:
  assumes "m \<noteq> 0"
  shows "(\<exists>r. rounddown v m = Inr r \<and> is_rounddown (unat v) (unat m) (unat r)) \<and>
    (v \<noteq> 0 \<and> unat v + unat m - 1 < 2 ^ 32 \<longrightarrow> (\<exists>r. roundup v m = Inr r \<and> is_roundup (unat v) (unat m) (unat r))) \<and>
    (unat v * unat m < 2 ^ 32 \<longrightarrow>
      unat (fst (mult_u32 v m)) = unat v * unat m \<and> snd (mult_u32 v m) = (v = 0)) \<and>
    roundup 0 3 = Inr 2 \<and> mult_u32 0x10001 0x10001 = (0x20001, False)"
proof (intro conjI impI)
  assume "v \<noteq> 0 \<and> unat v + unat m - 1 < 2 ^ 32"
  then show "\<exists>r. roundup v m = Inr r \<and> is_roundup (unat v) (unat m) (unat r)"
    using roundup_ok [OF assms] by blast
next
  assume l: "unat v * unat m < 2 ^ 32"
  have p: "0 < unat m" using assms by (simp only: word_pos_iff)
  have "(unat v * unat m < unat v \<or> unat v * unat m < unat m) = (v = 0)"
  proof (cases "v = 0")
    case False
    then have "1 \<le> unat v" by (simp add: word_pos_iff)
    then have "unat v * 1 \<le> unat v * unat m" "1 * unat m \<le> unat v * unat m"
      using p by (intro mult_le_mono order_refl | simp)+
    then show ?thesis using False by linarith
  qed (use p in simp)
  then show "unat (fst (mult_u32 v m)) = unat v * unat m" "snd (mult_u32 v m) = (v = 0)"
    using mult_u32_ok [OF l] by simp_all
qed (use rounddown_ok [OF assms] in \<open>simp_all add: roundup_0_3 mult_u32_def\<close>)

lemma int_arithmetic_functions_witness:
  "\<exists>r. roundup 13 5 = Inr r \<and> is_roundup 13 5 (unat r)"
  using int_arithmetic_functions [of 5 13] by simp


end
