(* ===== verification/Bit_Vector.thy ===== *)
theory Bit_Vector
  imports Elm_Int
begin

unbundle bit_operations_syntax

text \<open>
  Bit vectors, \<^verbatim>\<open>include/elm/util/BitVector.h\<close> and \<^verbatim>\<open>src/util_BitVector.cpp\<close>: an array of
  bytes and a size in bits. The bits of the last byte above the size are masked out by some
  operations only, on the vector they are called on; the model keeps these tail bits, and the
  effect of the masking in the operations declared constant. A bit vector is compared with the
  list of its bits.
\<close>

section \<open>The vector and its words\<close>

record bitvec =
  bv_bits :: "8 word list"
  bv_size :: int
  bv_null :: bool

definition inWords :: "int \<Rightarrow> int" where
  "inWords s = (s + 7) div 8"

definition wcount :: "bitvec \<Rightarrow> int" where
  "wcount v = inWords (bv_size v)"

definition windex :: "int \<Rightarrow> int" where
  "windex i = i div 8"

definition bindex :: "int \<Rightarrow> nat" where
  "bindex i = nat (i mod 8)"

text \<open>Access to \<^verbatim>\<open>bits[k]\<close>.\<close>

definition bv_read :: "bitvec \<Rightarrow> int \<Rightarrow> 8 word res" where
  "bv_read v k =
     (if bv_null v then Inl Null_dereference
      else if 0 \<le> k \<and> nat k < length (bv_bits v) then Inr (bv_bits v ! nat k)
      else Inl Out_of_bounds)"

definition bv_write :: "bitvec \<Rightarrow> int \<Rightarrow> 8 word \<Rightarrow> bitvec" where
  "bv_write v k w = v\<lparr>bv_bits := (bv_bits v)[nat k := w]\<rparr>"

text \<open>The words that a loop from 0 to \<^verbatim>\<open>wcount()\<close> goes through.\<close>

definition bv_words :: "bitvec \<Rightarrow> 8 word list res" where
  "bv_words v =
     (if wcount v \<le> 0 then Inr []
      else if bv_null v then Inl Null_dereference
      else if nat (wcount v) \<le> length (bv_bits v) then Inr (take (nat (wcount v)) (bv_bits v))
      else Inl Out_of_bounds)"

definition BitVector_mask :: "bitvec \<Rightarrow> bitvec res" where
  "BitVector_mask v =
     (let m = drop_bit (8 - bindex (bv_size v)) (- 1 :: 8 word) in
      if m = 0 then Inr v
      else bind_res (bv_read v (wcount v - 1)) (\<lambda>w. Inr (bv_write v (wcount v - 1) (w AND m))))"


section \<open>Construction and assignment\<close>

definition BitVector_null :: bitvec where
  "BitVector_null = \<lparr>bv_bits = [], bv_size = 0, bv_null = True\<rparr>"

definition BitVector_new :: "int \<Rightarrow> bool \<Rightarrow> bitvec res" where
  "BitVector_new n b =
     (if 0 < n
      then Inr \<lparr>bv_bits = replicate (nat (inWords n)) (if b then - 1 else 0), bv_size = n, bv_null = False\<rparr>
      else Inl Assertion_failed)"

definition BitVector_copy_new :: "bitvec \<Rightarrow> bitvec res" where
  "BitVector_copy_new v =
     bind_res (bv_words v) (\<lambda>ws. Inr \<lparr>bv_bits = ws, bv_size = bv_size v, bv_null = False\<rparr>)"

text \<open>\<^verbatim>\<open>memcpy\<close> of \<^verbatim>\<open>n\<close> bytes over the start of an array.\<close>

definition memcpy :: "8 word list \<Rightarrow> 8 word list \<Rightarrow> int \<Rightarrow> 8 word list res" where
  "memcpy dst src n =
     (if nat n \<le> length dst \<and> nat n \<le> length src
      then Inr (take (nat n) src @ drop (nat n) dst) else Inl Out_of_bounds)"

text \<open>The bytes of a fresh array are not initialised: \<^verbatim>\<open>junk\<close>.\<close>

definition BitVector_resized :: "8 word list \<Rightarrow> bitvec \<Rightarrow> int \<Rightarrow> bitvec res" where
  "BitVector_resized junk v n =
     (if n \<le> 0 then Inl Assertion_failed
      else
        let fresh = take (nat (inWords n)) junk in
        if bv_size v \<le> n then
          bind_res (memcpy fresh (bv_bits v) (bv_size v)) (\<lambda>bs.
            Inr \<lparr>bv_bits = take (nat (wcount v)) bs @ replicate (nat (inWords n) - nat (wcount v)) 0,
                 bv_size = n, bv_null = False\<rparr>)
        else
          bind_res (memcpy fresh (bv_bits v) (inWords n)) (\<lambda>bs.
            BitVector_mask \<lparr>bv_bits = bs, bv_size = n, bv_null = False\<rparr>))"

definition BitVector_copy :: "bitvec \<Rightarrow> bitvec \<Rightarrow> bitvec res" where
  "BitVector_copy v vec =
     (if bv_size v \<noteq> bv_size vec then Inl Assertion_failed
      else bind_res (bv_words vec) (\<lambda>ws. Inr (v\<lparr>bv_bits := ws\<rparr>)))"

definition BitVector_assign :: "bitvec \<Rightarrow> bitvec \<Rightarrow> bitvec res" where
  "BitVector_assign v vec =
     (if wcount v \<noteq> 0 \<and> wcount v = wcount vec then BitVector_copy v vec
      else if bv_null vec then Inr (v\<lparr>bv_bits := [], bv_null := True\<rparr>)
      else BitVector_copy (v\<lparr>bv_size := bv_size vec, bv_null := False\<rparr>) vec)"

definition BitVector_resize :: "8 word list \<Rightarrow> bitvec \<Rightarrow> int \<Rightarrow> bitvec" where
  "BitVector_resize junk v n =
     (if wcount v \<noteq> inWords n
      then (let k = (if bv_null v then 0 else min (nat (wcount v)) (nat (inWords n))) in
            v\<lparr>bv_bits := take k (bv_bits v) @ drop k (take (nat (inWords n)) junk),
              bv_size := n, bv_null := False\<rparr>)
      else v\<lparr>bv_size := n\<rparr>)"


section \<open>Bits\<close>

definition BitVector_bit :: "bitvec \<Rightarrow> int \<Rightarrow> bool res" where
  "BitVector_bit v i =
     (if i < bv_size v then bind_res (bv_read v (windex i)) (\<lambda>w. Inr (bit w (bindex i)))
      else Inl Assertion_failed)"

definition BitVector_set :: "bitvec \<Rightarrow> int \<Rightarrow> bitvec res" where
  "BitVector_set v i =
     (if i < bv_size v
      then bind_res (bv_read v (windex i)) (\<lambda>w. Inr (bv_write v (windex i) (w OR push_bit (bindex i) 1)))
      else Inl Assertion_failed)"

definition BitVector_clear :: "bitvec \<Rightarrow> int \<Rightarrow> bitvec res" where
  "BitVector_clear v i =
     (if i < bv_size v
      then bind_res (bv_read v (windex i)) (\<lambda>w. Inr (bv_write v (windex i) (w AND NOT (push_bit (bindex i) 1))))
      else Inl Assertion_failed)"

definition BitVector_set_value :: "bitvec \<Rightarrow> int \<Rightarrow> bool \<Rightarrow> bitvec res" where
  "BitVector_set_value v i b =
     (if i < bv_size v then if b then BitVector_set v i else BitVector_clear v i else Inl Assertion_failed)"

definition BitVector_set_all :: "bitvec \<Rightarrow> bitvec res" where
  "BitVector_set_all v =
     bind_res (bv_words v) (\<lambda>ws. BitVector_mask (v\<lparr>bv_bits := map (\<lambda>_. - 1) ws\<rparr>))"

definition BitVector_clear_all :: "bitvec \<Rightarrow> bitvec res" where
  "BitVector_clear_all v = bind_res (bv_words v) (\<lambda>ws. Inr (v\<lparr>bv_bits := map (\<lambda>_. 0) ws\<rparr>))"


section \<open>Tests and combinations of vectors\<close>

text \<open>The tests declared constant mask the vector they are called on: they return it too.\<close>

fun nonnull_loop :: "8 word list \<Rightarrow> bool" where
  "nonnull_loop [] = True"
| "nonnull_loop (b # bs) = (if b \<noteq> 0 then False else nonnull_loop bs)"

definition BitVector_isEmpty :: "bitvec \<Rightarrow> (bool \<times> bitvec) res" where
  "BitVector_isEmpty v =
     bind_res (BitVector_mask v) (\<lambda>v. bind_res (bv_words v) (\<lambda>ws. Inr (nonnull_loop ws, v)))"

fun includes_loop :: "8 word list \<Rightarrow> 8 word list \<Rightarrow> bool" where
  "includes_loop (a # as) (b # bs) = (if NOT a AND b \<noteq> 0 then False else includes_loop as bs)"
| "includes_loop _ _ = True"

definition BitVector_includes :: "bitvec \<Rightarrow> bitvec \<Rightarrow> (bool \<times> bitvec) res" where
  "BitVector_includes v vec =
     (if bv_size v \<noteq> bv_size vec then Inl Assertion_failed
      else bind_res (BitVector_mask v) (\<lambda>v. bind_res (bv_words v) (\<lambda>as. bind_res (bv_words vec) (\<lambda>bs.
        Inr (includes_loop as bs, v)))))"

fun strict_loop :: "bool \<Rightarrow> 8 word list \<Rightarrow> 8 word list \<Rightarrow> bool" where
  "strict_loop eq (a # as) (b # bs) =
     (if NOT a AND b \<noteq> 0 then False else strict_loop (if a \<noteq> b then False else eq) as bs)"
| "strict_loop eq _ _ = (\<not> eq)"

definition BitVector_includesStrictly :: "bitvec \<Rightarrow> bitvec \<Rightarrow> (bool \<times> bitvec) res" where
  "BitVector_includesStrictly v vec =
     (if bv_size v \<noteq> bv_size vec then Inl Assertion_failed
      else bind_res (BitVector_mask v) (\<lambda>v. bind_res (bv_words v) (\<lambda>as. bind_res (bv_words vec) (\<lambda>bs.
        Inr (strict_loop True as bs, v)))))"

fun equals_words :: "8 word list \<Rightarrow> 8 word list \<Rightarrow> bool" where
  "equals_words (a # as) (b # bs) = (if a \<noteq> b then False else equals_words as bs)"
| "equals_words _ _ = True"

definition BitVector_equals :: "bitvec \<Rightarrow> bitvec \<Rightarrow> (bool \<times> bitvec) res" where
  "BitVector_equals v vec =
     (if bv_size v \<noteq> bv_size vec then Inl Assertion_failed
      else bind_res (BitVector_mask v) (\<lambda>v. bind_res (bv_words v) (\<lambda>as. bind_res (bv_words vec) (\<lambda>bs.
        Inr (equals_words as bs, v)))))"

fun meets_loop :: "8 word list \<Rightarrow> 8 word list \<Rightarrow> bool" where
  "meets_loop (a # as) (b # bs) = (if a AND b \<noteq> 0 then True else meets_loop as bs)"
| "meets_loop _ _ = False"

definition BitVector_meets :: "bitvec \<Rightarrow> bitvec \<Rightarrow> bool res" where
  "BitVector_meets v vec =
     (if min (wcount v) (wcount vec) \<le> 0 then Inr False
      else bind_res (bv_words v) (\<lambda>as. bind_res (bv_words vec) (\<lambda>bs. Inr (meets_loop as bs))))"

definition BitVector_applyNot :: "bitvec \<Rightarrow> bitvec res" where
  "BitVector_applyNot v = bind_res (bv_words v) (\<lambda>ws. Inr (v\<lparr>bv_bits := map (\<lambda>w. NOT w) ws\<rparr>))"

text \<open>The loops over the words of two vectors, storing into the first one.\<close>

definition apply_words :: "(8 word \<Rightarrow> 8 word \<Rightarrow> 8 word) \<Rightarrow> bitvec \<Rightarrow> bitvec \<Rightarrow> bitvec res" where
  "apply_words f v vec =
     (if bv_size v \<noteq> bv_size vec then Inl Assertion_failed
      else bind_res (bv_words v) (\<lambda>as. bind_res (bv_words vec) (\<lambda>bs.
        Inr (v\<lparr>bv_bits := map2 f as bs\<rparr>))))"

definition BitVector_applyOr :: "bitvec \<Rightarrow> bitvec \<Rightarrow> bitvec res" where
  "BitVector_applyOr v vec = apply_words (\<lambda>a b. a OR b) v vec"

definition BitVector_applyAnd :: "bitvec \<Rightarrow> bitvec \<Rightarrow> bitvec res" where
  "BitVector_applyAnd v vec = apply_words (\<lambda>a b. a AND b) v vec"

definition BitVector_applyReset :: "bitvec \<Rightarrow> bitvec \<Rightarrow> bitvec res" where
  "BitVector_applyReset v vec = bind_res (apply_words (\<lambda>a b. a AND NOT b) v vec) BitVector_mask"

text \<open>The operations that build their result in a fresh vector of the same size.\<close>

definition make_words :: "(8 word \<Rightarrow> 8 word \<Rightarrow> 8 word) \<Rightarrow> bitvec \<Rightarrow> bitvec \<Rightarrow> bitvec res" where
  "make_words f v vec =
     (if bv_size v \<noteq> bv_size vec then Inl Assertion_failed
      else bind_res (BitVector_new (bv_size v) False) (\<lambda>r.
        bind_res (bv_words v) (\<lambda>as. bind_res (bv_words vec) (\<lambda>bs.
        Inr (r\<lparr>bv_bits := map2 f as bs\<rparr>)))))"

definition BitVector_makeNot :: "bitvec \<Rightarrow> bitvec res" where
  "BitVector_makeNot v =
     bind_res (BitVector_new (bv_size v) False) (\<lambda>r. bind_res (bv_words v) (\<lambda>ws.
       Inr (r\<lparr>bv_bits := map (\<lambda>w. NOT w) ws\<rparr>)))"

definition BitVector_makeOr :: "bitvec \<Rightarrow> bitvec \<Rightarrow> bitvec res" where
  "BitVector_makeOr v vec = make_words (\<lambda>a b. a OR b) v vec"

definition BitVector_makeAnd :: "bitvec \<Rightarrow> bitvec \<Rightarrow> bitvec res" where
  "BitVector_makeAnd v vec = make_words (\<lambda>a b. a AND b) v vec"

definition BitVector_makeReset :: "bitvec \<Rightarrow> bitvec \<Rightarrow> bitvec res" where
  "BitVector_makeReset v vec = make_words (\<lambda>a b. a AND NOT b) v vec"


section \<open>Counting, printing and iterating\<close>

fun count_loop :: "nat \<Rightarrow> 8 word list \<Rightarrow> nat" where
  "count_loop cnt [] = cnt"
| "count_loop cnt (b # bs) = count_loop (cnt + ones_u8 b) bs"

definition BitVector_countOnes :: "bitvec \<Rightarrow> nat res" where
  "BitVector_countOnes v = bind_res (bv_words v) (\<lambda>ws. Inr (count_loop 0 ws))"

definition BitVector_countBits :: "bitvec \<Rightarrow> nat res" where
  "BitVector_countBits v = bind_res (bv_words v) (\<lambda>ws. Inr (count_loop 0 ws))"

definition BitVector_countZeroes :: "bitvec \<Rightarrow> int res" where
  "BitVector_countZeroes v =
     bind_res (BitVector_countBits v) (\<lambda>b. bind_res (BitVector_countOnes v) (\<lambda>o1. Inr (int b - int o1)))"

text \<open>Printing from the bit \<^verbatim>\<open>n - 1\<close> down.\<close>

fun print_loop :: "bitvec \<Rightarrow> nat \<Rightarrow> string res" where
  "print_loop v 0 = Inr []"
| "print_loop v (Suc i) =
     bind_res (BitVector_bit v (int i)) (\<lambda>b.
     bind_res (print_loop v i) (\<lambda>s.
       Inr ((if b then CHR ''1'' else CHR ''0'') # (if i mod 8 = 0 then CHR '' '' # s else s))))"

definition BitVector_print :: "bitvec \<Rightarrow> string res" where
  "BitVector_print v = print_loop v (nat (bv_size v))"

text \<open>
  The iterators on the bits of a given value, the loop of \<^verbatim>\<open>next\<close> started at \<^verbatim>\<open>i\<close>;
  \<^verbatim>\<open>OneIterator\<close> stops on ones, \<^verbatim>\<open>ZeroIterator\<close> on zeroes.
\<close>

function bit_search :: "bool \<Rightarrow> bitvec \<Rightarrow> int \<Rightarrow> int res" where
  "bit_search b v i =
     (if i < bv_size v
      then bind_res (BitVector_bit v i) (\<lambda>c. if c = b then Inr i else bit_search b v (i + 1))
      else Inr i)"
  by pat_completeness auto
termination by (relation "measure (\<lambda>(b, v, i). nat (bv_size v - i))") auto

declare bit_search.simps [simp del]

definition OneIterator_new :: "bitvec \<Rightarrow> int \<Rightarrow> int res" where
  "OneIterator_new v ii = bit_search True v (ii - 1 + 1)"

definition OneIterator_next :: "bitvec \<Rightarrow> int \<Rightarrow> int res" where
  "OneIterator_next v i = bit_search True v (i + 1)"

definition ZeroIterator_new :: "bitvec \<Rightarrow> int res" where
  "ZeroIterator_new v = bit_search False v (- 1 + 1)"

definition ZeroIterator_next :: "bitvec \<Rightarrow> int \<Rightarrow> int res" where
  "ZeroIterator_next v i = bit_search False v (i + 1)"

text \<open>The items that a loop over an iterator visits, for at most \<^verbatim>\<open>fuel\<close> items.\<close>

fun iter_items :: "nat \<Rightarrow> (int \<Rightarrow> int res) \<Rightarrow> bitvec \<Rightarrow> int \<Rightarrow> int list res" where
  "iter_items fuel nxt v i =
     (if bv_size v \<le> i then Inr []
      else case fuel of
          0 \<Rightarrow> Inl Out_of_fuel
        | Suc f \<Rightarrow> bind_res (nxt i) (\<lambda>j. bind_res (iter_items f nxt v j) (\<lambda>is. Inr (i # is))))"

declare iter_items.simps [simp del]

definition OneIterator_items :: "bitvec \<Rightarrow> int list res" where
  "OneIterator_items v =
     bind_res (OneIterator_new v 0) (iter_items (nat (bv_size v)) (OneIterator_next v) v)"

definition ZeroIterator_items :: "bitvec \<Rightarrow> int list res" where
  "ZeroIterator_items v =
     bind_res (ZeroIterator_new v) (iter_items (nat (bv_size v)) (ZeroIterator_next v) v)"

definition Ref_set :: "bitvec \<Rightarrow> int \<Rightarrow> bool \<Rightarrow> bitvec res" where
  "Ref_set v i b = (if b then BitVector_set v i else BitVector_clear v i)"



section \<open>The list of bits\<close>

definition bits_of :: "8 word list \<Rightarrow> bool list" where
  "bits_of ws = chunk_bits 8 ws"

definition bv_list :: "bitvec \<Rightarrow> bool list" where
  "bv_list v = take (nat (bv_size v)) (bits_of (bv_bits v))"

definition bv_tail :: "bitvec \<Rightarrow> bool list" where
  "bv_tail v = drop (nat (bv_size v)) (bits_of (bv_bits v))"

definition bv_ok :: "bitvec \<Rightarrow> bool" where
  "bv_ok v \<longleftrightarrow> 0 < bv_size v \<and> \<not> bv_null v \<and> length (bv_bits v) = nat (wcount v)"

text \<open>A vector is clean when no bit above its size is set.\<close>

definition bv_clean :: "bitvec \<Rightarrow> bool" where
  "bv_clean v \<longleftrightarrow> True \<notin> set (bv_tail v)"

lemma bits_of_simps [simp]:
  "bits_of [] = []"
  "bits_of (w # ws) = map (bit w) [0..<8] @ bits_of ws"
  by (simp_all add: bits_of_def)

lemma length_bits_of [simp]: "length (bits_of ws) = 8 * length ws"
  by (induction ws) simp_all

lemma nth_bits_of: "k < 8 * length ws \<Longrightarrow> bits_of ws ! k = bit (ws ! (k div 8)) (k mod 8)"
  by (simp add: bits_of_def nth_chunk_bits)

lemma bits_of_map:
  "(\<And>w k. k < 8 \<Longrightarrow> bit (f w) k = g (bit w k)) \<Longrightarrow> bits_of (map f ws) = map g (bits_of ws)"
  unfolding bits_of_def by (rule chunk_bits_map)

lemma bits_of_map2:
  "(\<And>a b k. k < 8 \<Longrightarrow> bit (f a b) k = g (bit a k) (bit b k)) \<Longrightarrow> length as = length bs \<Longrightarrow>
   bits_of (map2 f as bs) = map2 g (bits_of as) (bits_of bs)"
  unfolding bits_of_def by (rule chunk_bits_map2)

lemma bits_of_inject: "length as = length bs \<Longrightarrow> bits_of as = bits_of bs \<longleftrightarrow> as = bs"
proof (induction as bs rule: list_induct2)
  case (Cons a as b bs)
  have "a = b" if "map (bit a) [0..<8] = map (bit b) [0..<8]"
  proof (rule bit_word_eqI)
    fix k assume "k < LENGTH(8)"
    then show "bit a k = bit b k" using that by (simp add: map_eq_conv)
  qed
  with Cons show ?case by (auto simp del: upt_Suc)
qed simp

lemma bits_of_set:
  "k < length ws \<Longrightarrow> b < 8 \<Longrightarrow> bits_of (ws[k := ws ! k OR push_bit b 1]) = (bits_of ws)[8 * k + b := True]"
  unfolding bits_of_def by (rule chunk_bits_update) (auto simp: bit_or_iff bit_exp_iff)

lemma bits_of_clear:
  "k < length ws \<Longrightarrow> b < 8 \<Longrightarrow> bits_of (ws[k := ws ! k AND NOT (push_bit b 1)]) = (bits_of ws)[8 * k + b := False]"
  unfolding bits_of_def by (rule chunk_bits_update) (auto simp: bit_and_iff bit_not_iff bit_exp_iff)

lemma bits_of_split: "bits_of (bv_bits v) = bv_list v @ bv_tail v"
  by (simp add: bv_list_def bv_tail_def)

lemma bv_ok_size:
  assumes "bv_ok v"
  shows "nat (bv_size v) \<le> 8 * length (bv_bits v)" "8 * length (bv_bits v) < nat (bv_size v) + 8"
    "0 < length (bv_bits v)" "bv_words v = Inr (bv_bits v)" "length (bv_list v) = nat (bv_size v)"
proof -
  have w: "int (length (bv_bits v)) = (bv_size v + 7) div 8" "0 < bv_size v" "\<not> bv_null v"
    using assms by (auto simp: bv_ok_def wcount_def inWords_def)
  show l: "nat (bv_size v) \<le> 8 * length (bv_bits v)" "8 * length (bv_bits v) < nat (bv_size v) + 8"
    using w by linarith+
  then show "0 < length (bv_bits v)" using w(2) by linarith
  show "bv_words v = Inr (bv_bits v)" using assms w by (auto simp: bv_ok_def bv_words_def)
  show "length (bv_list v) = nat (bv_size v)" using l by (simp add: bv_list_def)
qed

section \<open>Effect of the operations on the list of bits\<close>

lemma last_word_index:
  fixes n l :: nat
  assumes "n \<le> 8 * l" "8 * l < n + 8" "0 < l"
  shows "n mod 8 \<noteq> 0 \<Longrightarrow> n div 8 = l - 1" "n mod 8 = 0 \<Longrightarrow> n = 8 * l"
proof -
  have n: "n = 8 * (n div 8) + n mod 8" "n mod 8 < 8" by simp_all
  show "n div 8 = l - 1" if "n mod 8 \<noteq> 0" using n that assms by linarith
  show "n = 8 * l" if m: "n mod 8 = 0"
  proof -
    have "n div 8 = l" using n m assms by linarith
    then show ?thesis using n(1) m by linarith
  qed
qed

lemma index_below:
  fixes i n l :: nat
  assumes "n div 8 = l - 1" "i < 8 * l"
  shows "i div 8 = l - 1 \<Longrightarrow> i < n \<longleftrightarrow> i mod 8 < n mod 8" "i div 8 \<noteq> l - 1 \<Longrightarrow> i < n"
proof -
  have n: "n = 8 * (n div 8) + n mod 8" "i = 8 * (i div 8) + i mod 8" "i mod 8 < 8" by simp_all
  show "i < n \<longleftrightarrow> i mod 8 < n mod 8" if "i div 8 = l - 1" using n that assms by linarith
  show "i < n" if "i div 8 \<noteq> l - 1" using n that assms by linarith
qed

lemma bv_mask_ok:
  assumes "bv_ok v"
  obtains v' where "BitVector_mask v = Inr v'" "bv_ok v'" "bv_size v' = bv_size v" "bv_list v' = bv_list v"
    "bv_clean v'" "bv_clean v \<Longrightarrow> v' = v"
proof -
  define n where "n = nat (bv_size v)"
  define k where "k = length (bv_bits v) - 1"
  define m where "m = drop_bit (8 - bindex (bv_size v)) (- 1 :: 8 word)"
  define v' where "v' = v\<lparr>bv_bits := if m = 0 then bv_bits v else (bv_bits v)[k := bv_bits v ! k AND m]\<rparr>"
  have s: "n \<le> 8 * length (bv_bits v)" "8 * length (bv_bits v) < n + 8" "0 < length (bv_bits v)"
    using bv_ok_size [OF assms] by (simp_all add: n_def)
  have o: "0 < bv_size v" "\<not> bv_null v" "nat (wcount v) = length (bv_bits v)"
    using assms by (auto simp: bv_ok_def)
  then have w: "wcount v - 1 = int k" using s(3) unfolding k_def by linarith
  have r: "BitVector_mask v = Inr v'"
    unfolding BitVector_mask_def Let_def m_def [symmetric] w
    using o(2) s(3) by (simp add: bv_read_def bv_write_def v'_def k_def)
  have b: "bindex (bv_size v) = n mod 8" using o(1) by (simp add: bindex_def n_def nat_mod_distrib)
  have mb: "bit m j \<longleftrightarrow> j < n mod 8" for j
    by (auto simp: m_def b bit_drop_bit_eq bit_mask_iff intro: order_less_trans)
  have m0: "m = 0 \<longleftrightarrow> n mod 8 = 0"
  proof
    assume "m = 0"
    then show "n mod 8 = 0" using mb [of 0] by simp
  next
    assume "n mod 8 = 0"
    then show "m = 0" using mb by (intro bit_word_eqI) simp
  qed
  have nk: "n mod 8 \<noteq> 0 \<Longrightarrow> n div 8 = k" "n mod 8 = 0 \<Longrightarrow> n = 8 * length (bv_bits v)"
    by (fact last_word_index [OF s, folded k_def])+
  have bits: "bits_of (bv_bits v') ! i = (bits_of (bv_bits v) ! i \<and> i < n)" if "i < 8 * length (bv_bits v)" for i
  proof (cases "n mod 8 = 0")
    case True
    with m0 nk that show ?thesis by (simp add: v'_def)
  next
    case False
    have "i div 8 = k \<Longrightarrow> i < n \<longleftrightarrow> i mod 8 < n mod 8" "i div 8 \<noteq> k \<Longrightarrow> i < n"
      using index_below [OF nk(1) [OF False, unfolded k_def] that] by (simp_all only: k_def simp_thms)
    moreover have "k < length (bv_bits v)" using s(3) by (simp add: k_def)
    ultimately show ?thesis using False m0 that
      by (cases "i div 8 = k") (simp_all add: v'_def nth_bits_of bit_and_iff mb)
  qed
  have len: "length (bv_bits v') = length (bv_bits v)" "bv_size v' = bv_size v" by (simp_all add: v'_def)
  have ok: "bv_ok v'" using assms len by (simp add: bv_ok_def wcount_def v'_def)
  have l: "bv_list v' = bv_list v"
    by (rule nth_equalityI) (use len bits s in \<open>simp_all add: bv_list_def n_def [symmetric]\<close>)
  have t: "bv_tail v' ! i = False" if "i < length (bv_tail v')" for i
    using that bits [of "n + i"] len s by (simp add: bv_tail_def n_def [symmetric])
  then have c: "bv_clean v'" by (auto simp: bv_clean_def in_set_conv_nth)
  have cl: "v' = v" if "bv_clean v"
  proof -
    have "i < n" if b: "bits_of (bv_bits v) ! i" "i < 8 * length (bv_bits v)" for i
    proof (rule ccontr)
      assume "\<not> i < n"
      then have "bv_tail v ! (i - n)" "i - n < length (bv_tail v)"
        using b s(1) by (simp_all add: bv_tail_def n_def [symmetric])
      then have "True \<in> set (bv_tail v)" by (metis (full_types) nth_mem)
      then show False using \<open>bv_clean v\<close> by (simp add: bv_clean_def)
    qed
    then have "bits_of (bv_bits v') = bits_of (bv_bits v)"
      by (intro nth_equalityI) (auto simp: bits len)
    then have "bv_bits v' = bv_bits v" using bits_of_inject len(1) by blast
    then show ?thesis by (simp add: v'_def split: if_splits)
  qed
  show thesis by (rule that [OF r ok len(2) l c cl])
qed

lemma bv_ok_update: "bv_ok v \<Longrightarrow> length ws = length (bv_bits v) \<Longrightarrow> bv_ok (v\<lparr>bv_bits := ws\<rparr>)"
  by (simp add: bv_ok_def wcount_def)

lemma same_size: "bv_ok v \<Longrightarrow> bv_ok w \<Longrightarrow> bv_size v = bv_size w \<Longrightarrow> length (bv_bits v) = length (bv_bits w)"
  by (simp add: bv_ok_def wcount_def)

lemma bv_list_map2:
  assumes "\<And>a b k. k < 8 \<Longrightarrow> bit (f a b) k = g (bit a k) (bit b k)"
    and "bv_ok v" "bv_ok w" "bv_size v = bv_size w" "bv_size r = bv_size v" "bv_bits r = map2 f (bv_bits v) (bv_bits w)"
  shows "bv_list r = map2 g (bv_list v) (bv_list w)" "bv_tail r = map2 g (bv_tail v) (bv_tail w)"
proof -
  have "bits_of (bv_bits r) = map2 g (bits_of (bv_bits v)) (bits_of (bv_bits w))"
    unfolding assms(6) by (rule bits_of_map2 [where f = f and g = g, OF assms(1) same_size [OF assms(2-4)]])
  then show "bv_list r = map2 g (bv_list v) (bv_list w)" "bv_tail r = map2 g (bv_tail v) (bv_tail w)"
    using assms(4,5) by (simp_all add: bv_list_def bv_tail_def take_map take_zip drop_map drop_zip)
qed

lemma apply_words_ok:
  assumes "\<And>a b k. k < 8 \<Longrightarrow> bit (f a b) k = g (bit a k) (bit b k)"
    and "bv_ok v" "bv_ok w" "bv_size v = bv_size w"
  shows "\<exists>r. apply_words f v w = Inr r \<and> bv_ok r \<and> bv_size r = bv_size v \<and>
    bv_list r = map2 g (bv_list v) (bv_list w) \<and> bv_tail r = map2 g (bv_tail v) (bv_tail w)"
proof -
  let ?r = "v\<lparr>bv_bits := map2 f (bv_bits v) (bv_bits w)\<rparr>"
  have "bv_list ?r = map2 g (bv_list v) (bv_list w)" "bv_tail ?r = map2 g (bv_tail v) (bv_tail w)"
    by (rule bv_list_map2 [where f = f and g = g and v = v and w = w, OF assms(1)]; use assms in simp)+
  moreover have "apply_words f v w = Inr ?r"
    using assms by (simp add: apply_words_def bv_ok_size(4))
  moreover have "bv_ok ?r" using bv_ok_update [OF assms(2)] same_size [OF assms(2-4)] by simp
  ultimately show ?thesis by simp
qed

lemma BitVector_new_ok: "0 < n \<Longrightarrow>
  \<exists>r. BitVector_new n b = Inr r \<and> bv_ok r \<and> bv_size r = n \<and> bv_list r = replicate (nat n) b \<and> (\<not> b \<longrightarrow> bv_clean r)"
proof -
  assume n: "0 < n"
  let ?r = "\<lparr>bv_bits = replicate (nat (inWords n)) (if b then - 1 else 0), bv_size = n, bv_null = False\<rparr>"
  have ok: "bv_ok ?r" using n by (simp add: bv_ok_def wcount_def)
  have nth: "i < 8 * length (bv_bits ?r) \<Longrightarrow> bits_of (bv_bits ?r) ! i = b" for i
    by (subst nth_bits_of) auto
  have l: "bv_list ?r = replicate (nat n) b"
    using bv_ok_size [OF ok] nth by (intro nth_equalityI) (simp_all add: bv_list_def)
  moreover have "bv_clean ?r" if "\<not> b"
    using that nth by (auto simp: bv_clean_def bv_tail_def in_set_conv_nth)
  ultimately show ?thesis using n ok by (simp add: BitVector_new_def)
qed

lemma make_words_ok:
  assumes "\<And>a b k. k < 8 \<Longrightarrow> bit (f a b) k = g (bit a k) (bit b k)"
    and "bv_ok v" "bv_ok w" "bv_size v = bv_size w"
  shows "\<exists>r. make_words f v w = Inr r \<and> bv_ok r \<and> bv_size r = bv_size v \<and>
    bv_list r = map2 g (bv_list v) (bv_list w) \<and> bv_tail r = map2 g (bv_tail v) (bv_tail w)"
proof -
  let ?r = "\<lparr>bv_bits = map2 f (bv_bits v) (bv_bits w), bv_size = bv_size v, bv_null = False\<rparr>"
  have "bv_list ?r = map2 g (bv_list v) (bv_list w)" "bv_tail ?r = map2 g (bv_tail v) (bv_tail w)"
    by (rule bv_list_map2 [where f = f and g = g and v = v and w = w, OF assms(1)]; use assms in simp)+
  moreover have "make_words f v w = Inr ?r"
    using assms by (simp add: make_words_def bv_ok_size(4)) (simp add: BitVector_new_def bv_ok_def)
  moreover have "bv_ok ?r" using assms same_size [OF assms(2-4)] by (simp add: bv_ok_def wcount_def)
  ultimately show ?thesis by simp
qed

lemma nat_windex_eq: "0 \<le> i \<Longrightarrow> nat (windex i) = nat i div 8" "0 \<le> i \<Longrightarrow> bindex i = nat i mod 8"
  by (simp_all add: windex_def bindex_def nat_div_distrib nat_mod_distrib)

lemma nat_windex: "0 \<le> i \<Longrightarrow> 8 * nat (windex i) + bindex i = nat i \<and> bindex i < 8"
  by (simp add: nat_windex_eq)

lemma bv_access:
  assumes "bv_ok v" "0 \<le> i" "i < bv_size v"
  shows "bv_read v (windex i) = Inr (bv_bits v ! nat (windex i))" "nat (windex i) < length (bv_bits v)"
proof -
  show l: "nat (windex i) < length (bv_bits v)"
    using bv_ok_size(1) [OF assms(1)] nat_windex [OF assms(2)] assms(2,3) by linarith
  show "bv_read v (windex i) = Inr (bv_bits v ! nat (windex i))"
    using l assms by (simp add: bv_read_def bv_ok_def windex_def)
qed

lemma BitVector_bit_ok:
  assumes "bv_ok v" "0 \<le> i" "i < bv_size v"
  shows "BitVector_bit v i = Inr (bv_list v ! nat i)"
proof -
  have n: "nat i < nat (bv_size v)" "nat i < 8 * length (bv_bits v)"
    using assms bv_ok_size(1) [OF assms(1)] by linarith+
  have "bv_list v ! nat i = bit (bv_bits v ! nat (windex i)) (bindex i)"
    using n by (simp add: bv_list_def nth_bits_of nat_windex_eq [OF assms(2)])
  then show ?thesis using assms(3) by (simp add: BitVector_bit_def bv_access [OF assms])
qed

lemma BitVector_set_value_ok:
  assumes "bv_ok v" "0 \<le> i" "i < bv_size v"
  shows "\<exists>r. BitVector_set_value v i b = Inr r \<and> bv_ok r \<and> bv_size r = bv_size v \<and>
    bv_list r = (bv_list v)[nat i := b] \<and> bv_tail r = bv_tail v"
proof -
  let ?w = "bv_bits v ! nat (windex i)"
  let ?ws = "(bv_bits v)[nat (windex i) := if b then ?w OR push_bit (bindex i) 1 else ?w AND NOT (push_bit (bindex i) 1)]"
  let ?r = "v\<lparr>bv_bits := ?ws\<rparr>"
  have e: "BitVector_set_value v i b = Inr ?r"
    using assms bv_access [OF assms]
    by (simp add: BitVector_set_value_def BitVector_set_def BitVector_clear_def bv_write_def del: push_bit_of_1)
  have w: "8 * nat (windex i) + bindex i = nat i" "bindex i < 8" using nat_windex [OF assms(2)] by auto
  have u: "bits_of ?ws = (bits_of (bv_bits v))[nat i := b]"
  proof (cases b)
    case True
    then show ?thesis
      using bits_of_set [OF bv_access(2) [OF assms] w(2)] w(1) by (simp del: push_bit_of_1)
  next
    case False
    then show ?thesis
      using bits_of_clear [OF bv_access(2) [OF assms] w(2)] w(1) by (simp del: push_bit_of_1)
  qed
  have "nat i < nat (bv_size v)" using assms by linarith
  then have "bv_list ?r = (bv_list v)[nat i := b]" "bv_tail ?r = bv_tail v"
    by (simp_all add: bv_list_def bv_tail_def u take_update_swap drop_update_cancel)
  moreover have "bv_ok ?r" using bv_ok_update [OF assms(1)] by simp
  ultimately show ?thesis using e by simp
qed

lemma word_eq_bits: "a = b \<longleftrightarrow> list_all2 (=) (map (bit a) [0..<8]) (map (bit b) [0..<8])" for a b :: "8 word"
  using bits_of_inject [of "[a]" "[b]"] by (simp add: list_all2_eq del: upt_Suc)

lemma word_disjoint_bits:
  "NOT a AND b = 0 \<longleftrightarrow> list_all2 (\<lambda>x y. y \<longrightarrow> x) (map (bit a) [0..<8]) (map (bit b) [0..<8])" for a b :: "8 word"
proof -
  have "NOT a AND b = 0 \<longleftrightarrow> (\<forall>k < 8. bit b k \<longrightarrow> bit a k)"
    by (auto simp: bit_eq_iff bit_and_iff bit_not_iff)
  then show ?thesis by (simp add: list_all2_conv_all_nth del: upt_Suc)
qed

lemma includes_loop_ok:
  "length as = length bs \<Longrightarrow> includes_loop as bs = list_all2 (\<lambda>x y. y \<longrightarrow> x) (bits_of as) (bits_of bs)"
  by (induction as bs rule: list_induct2) (simp_all add: word_disjoint_bits list_all2_append del: upt_Suc)

lemma equals_words_ok: "length as = length bs \<Longrightarrow> equals_words as bs = (as = bs)"
  by (induction as bs rule: list_induct2) simp_all

lemma strict_loop_ok:
  "length as = length bs \<Longrightarrow> strict_loop eq as bs = (includes_loop as bs \<and> \<not> (eq \<and> as = bs))"
  by (induction as bs arbitrary: eq rule: list_induct2) simp_all

lemma meets_loop_ok:
  "length as = length bs \<Longrightarrow> meets_loop as bs = ((True, True) \<in> set (zip (bits_of as) (bits_of bs)))"
proof (induction as bs rule: list_induct2)
  case (Cons a as b bs)
  have "a AND b = 0 \<longleftrightarrow> (\<forall>k < 8. \<not> (bit a k \<and> bit b k))"
    by (auto simp: bit_eq_iff bit_and_iff)
  moreover have "(True, True) \<in> set (zip (map (bit a) [0..<8]) (map (bit b) [0..<8])) \<longleftrightarrow> (\<exists>k < 8. bit a k \<and> bit b k)"
    by (simp add: in_set_zip del: upt_Suc) (metis add_0 nth_map_upt diff_zero)
  ultimately show ?case using Cons by (simp del: upt_Suc) blast
qed simp

lemma nonnull_loop_ok: "nonnull_loop ws = (True \<notin> set (bits_of ws))"
proof (induction ws)
  case (Cons w ws)
  have "w = 0 \<longleftrightarrow> (\<forall>k < 8. \<not> bit w k)" by (auto simp: bit_eq_iff)
  then have "w = 0 \<longleftrightarrow> True \<notin> set (map (bit w) [0..<8])" by auto
  then show ?case using Cons by (simp del: upt_Suc)
qed simp

lemma count_loop_ok: "count_loop c ws = c + length (filter id (bits_of ws))"
  by (induction ws arbitrary: c) (simp_all add: ones_u8_countOnes countOnes_def filter_map o_def del: upt_Suc)

lemma clean_filter: "bv_clean v \<Longrightarrow> filter id (bits_of (bv_bits v)) = filter id (bv_list v)"
  by (auto simp: bits_of_split bv_clean_def filter_empty_conv)

lemma clean_all2:
  assumes "bv_ok v" "bv_ok w" "bv_size v = bv_size w" "bv_clean v" "bv_clean w"
  shows "list_all2 P (bits_of (bv_bits v)) (bits_of (bv_bits w)) \<longleftrightarrow>
    list_all2 P (bv_list v) (bv_list w) \<and> (bv_tail v \<noteq> [] \<longrightarrow> P False False)"
proof -
  have l: "length (bv_list v) = length (bv_list w)" "length (bv_tail v) = length (bv_tail w)"
    using same_size [OF assms(1-3)] assms(3) by (simp_all add: bv_list_def bv_tail_def)
  have "bv_tail u = replicate (length (bv_tail u)) False" if "bv_clean u" for u
    using that by (intro replicate_eqI [symmetric, THEN sym]) (auto simp: bv_clean_def)
  then have "list_all2 P (bv_tail v) (bv_tail w) \<longleftrightarrow> (bv_tail v \<noteq> [] \<longrightarrow> P False False)"
    using assms(4,5) l(2) by (metis length_0_conv length_replicate list_all2_conv_all_nth nth_replicate neq0_conv)
  then show ?thesis using l by (simp add: bits_of_split list_all2_append)
qed

lemma bit_search_ok:
  assumes "bv_ok v" "0 \<le> i"
  shows "\<exists>j. bit_search b v i = Inr j \<and> i \<le> j \<and> (j < bv_size v \<longrightarrow> bv_list v ! nat j = b) \<and>
    (\<forall>k. i \<le> k \<and> k < j \<and> k < bv_size v \<longrightarrow> bv_list v ! nat k \<noteq> b)"
  using assms
proof (induction b v i rule: bit_search.induct)
  case (1 b v i)
  show ?case
  proof (cases "i < bv_size v")
    case True
    note bit = BitVector_bit_ok [OF 1(2,3) True]
    show ?thesis
    proof (cases "bv_list v ! nat i = b")
      case t: True
      then show ?thesis using bit True by (subst bit_search.simps) auto
    next
      case False
      then obtain j where j: "bit_search b v (i + 1) = Inr j" "i + 1 \<le> j"
        "j < bv_size v \<longrightarrow> bv_list v ! nat j = b"
        "\<forall>k. i + 1 \<le> k \<and> k < j \<and> k < bv_size v \<longrightarrow> bv_list v ! nat k \<noteq> b"
        using 1(1) [OF True bit] 1(2,3) by auto
      have "\<forall>k. i \<le> k \<and> k < j \<and> k < bv_size v \<longrightarrow> bv_list v ! nat k \<noteq> b"
        using j(4) False by (metis order_le_less zless_imp_add1_zle)
      moreover have "bit_search b v i = Inr j" using bit True False j(1) by (subst bit_search.simps) simp
      ultimately show ?thesis using j(2,3) by force
    qed
  qed (subst bit_search.simps, auto)
qed

lemma search_filter:
  assumes "bv_ok v" "0 \<le> i" "bit_search b v i = Inr j"
  shows "filter (\<lambda>k. bv_list v ! nat k = b) [i..bv_size v - 1] =
    (if j < bv_size v then j # filter (\<lambda>k. bv_list v ! nat k = b) [j + 1..bv_size v - 1] else [])" "i \<le> j"
proof -
  let ?P = "\<lambda>k. bv_list v ! nat k = b"
  have j: "i \<le> j" "j < bv_size v \<longrightarrow> ?P j" "\<forall>k. i \<le> k \<and> k < j \<and> k < bv_size v \<longrightarrow> \<not> ?P k"
    using bit_search_ok [OF assms(1,2), of b] assms(3) by auto
  show "filter ?P [i..bv_size v - 1] =
    (if j < bv_size v then j # filter ?P [j + 1..bv_size v - 1] else [])"
  proof (cases "j < bv_size v")
    case True
    then have "[i..bv_size v - 1] = [i..j - 1] @ j # [j + 1..bv_size v - 1]" using j(1) by (intro upto_split3) simp_all
    moreover have "filter ?P [i..j - 1] = []" using j(3) True by (auto simp: filter_empty_conv)
    ultimately show ?thesis using True j(2) by simp
  next
    case False
    then show ?thesis using j(3) by (auto simp: filter_empty_conv)
  qed
  show "i \<le> j" by (fact j(1))
qed

lemma iter_items_ok:
  assumes "bv_ok v" "0 \<le> i" "bv_size v - i \<le> int fuel"
  shows "bind_res (bit_search b v i) (iter_items fuel (\<lambda>i. bit_search b v (i + 1)) v) =
    Inr (filter (\<lambda>k. bv_list v ! nat k = b) [i..bv_size v - 1])"
  using assms(2,3)
proof (induction fuel arbitrary: i)
  case 0
  then show ?case by (simp add: bit_search.simps [of b v i] iter_items.simps)
next
  case (Suc fuel)
  obtain j where j: "bit_search b v i = Inr j" using bit_search_ok [OF assms(1) Suc(2)] by blast
  note f = search_filter [OF assms(1) Suc(2) j]
  show ?case
  proof (cases "j < bv_size v")
    case True
    have "bind_res (bit_search b v (j + 1)) (iter_items fuel (\<lambda>i. bit_search b v (i + 1)) v) =
      Inr (filter (\<lambda>k. bv_list v ! nat k = b) [j + 1..bv_size v - 1])"
      using f(2) Suc(2,3) by (intro Suc.IH) linarith+
    then obtain j' where j': "bit_search b v (j + 1) = Inr j'"
      "iter_items fuel (\<lambda>i. bit_search b v (i + 1)) v j' = Inr (filter (\<lambda>k. bv_list v ! nat k = b) [j + 1..bv_size v - 1])"
      by (auto simp: bind_res_eq_Inr)
    then show ?thesis using True f(1) j by (simp add: iter_items.simps [of "Suc fuel" _ v j])
  next
    case False
    then show ?thesis using f(1) j by (simp add: iter_items.simps [of "Suc fuel" _ v j])
  qed
qed

lemma items_ok:
  assumes "bv_ok v"
  shows "OneIterator_items v = Inr (filter (\<lambda>k. bv_list v ! nat k) [0..bv_size v - 1])"
    "ZeroIterator_items v = Inr (filter (\<lambda>k. \<not> bv_list v ! nat k) [0..bv_size v - 1])"
  using iter_items_ok [OF assms, of 0 "nat (bv_size v)"]
  by (simp_all add: OneIterator_items_def OneIterator_new_def OneIterator_next_def [abs_def]
    ZeroIterator_items_def ZeroIterator_new_def ZeroIterator_next_def [abs_def])


section \<open>Properties\<close>

lemma applyReset_ok:
  assumes "bv_ok v" "bv_ok w" "bv_size v = bv_size w"
  shows "\<exists>r. BitVector_applyReset v w = Inr r \<and> bv_ok r \<and> bv_size r = bv_size v \<and> bv_clean r \<and>
    bv_list r = map2 (\<lambda>x y. x \<and> \<not> y) (bv_list v) (bv_list w)"
proof -
  obtain r where r: "apply_words (\<lambda>a b. a AND NOT b) v w = Inr r" "bv_ok r" "bv_size r = bv_size v"
    "bv_list r = map2 (\<lambda>x y. x \<and> \<not> y) (bv_list v) (bv_list w)"
    using apply_words_ok [where f = "\<lambda>a b. a AND NOT b" and g = "\<lambda>x y. x \<and> \<not> y", OF _ assms]
    by (auto simp: bit_and_iff bit_not_iff)
  obtain r' where "BitVector_mask r = Inr r'" "bv_ok r'" "bv_size r' = bv_size r" "bv_list r' = bv_list r" "bv_clean r'"
    using bv_mask_ok [OF r(2)] by blast
  with r show ?thesis by (simp add: BitVector_applyReset_def)
qed

lemma applyNot_ok:
  assumes "bv_ok v"
  shows "\<exists>r. BitVector_applyNot v = Inr r \<and> bv_ok r \<and> bv_list r = map Not (bv_list v) \<and> bv_tail r = map Not (bv_tail v)"
proof -
  have b: "bits_of (map (\<lambda>w. NOT w) ws) = map Not (bits_of ws)" for ws
    by (rule bits_of_map) (simp add: bit_not_iff)
  show ?thesis using assms bv_ok_update [OF assms]
    by (simp add: BitVector_applyNot_def bv_ok_size(4) bv_list_def bv_tail_def b take_map drop_map)
qed

lemma map2_or_and_tail:
  "True \<notin> set xs \<Longrightarrow> True \<notin> set ys \<Longrightarrow> True \<notin> set (map2 (\<or>) xs ys)"
  "True \<notin> set xs \<Longrightarrow> True \<notin> set (map2 (\<and>) xs ys)"
  by (auto dest: set_zip_leftD set_zip_rightD)

lemmas or_ok = apply_words_ok [where f = "\<lambda>a b. a OR b" and g = "(\<or>)"]
lemmas and_ok = apply_words_ok [where f = "\<lambda>a b. a AND b" and g = "(\<and>)"]
lemmas make_or_ok = make_words_ok [where f = "\<lambda>a b. a OR b" and g = "(\<or>)"]
lemmas make_and_ok = make_words_ok [where f = "\<lambda>a b. a AND b" and g = "(\<and>)"]

text \<open>
  C16. The bit vector as an array of bits: an index in range reads, sets and clears exactly its
  bit, an index above the size asserts, and a negative one accesses a word in front of the array.
  The union, the intersection and the difference of two vectors of the same size work bit by bit,
  in place and into a new vector, and keep the vectors clean, where clean means that no bit is
  set above the size; vectors of different sizes assert.
\<close>

theorem bitvec_operations:
  assumes "bv_ok v" "bv_ok w"
  shows "(if bv_size v = bv_size w
     then (\<exists>r. BitVector_applyOr v w = Inr r \<and> bv_ok r \<and> bv_list r = map2 (\<or>) (bv_list v) (bv_list w) \<and>
            (bv_clean v \<and> bv_clean w \<longrightarrow> bv_clean r)) \<and>
          (\<exists>r. BitVector_applyAnd v w = Inr r \<and> bv_ok r \<and> bv_list r = map2 (\<and>) (bv_list v) (bv_list w) \<and>
            (bv_clean v \<longrightarrow> bv_clean r)) \<and>
          (\<exists>r. BitVector_applyReset v w = Inr r \<and> bv_ok r \<and> bv_clean r \<and>
            bv_list r = map2 (\<lambda>x y. x \<and> \<not> y) (bv_list v) (bv_list w)) \<and>
          (\<exists>r. BitVector_makeOr v w = Inr r \<and> bv_ok r \<and> bv_list r = map2 (\<or>) (bv_list v) (bv_list w)) \<and>
          (\<exists>r. BitVector_makeAnd v w = Inr r \<and> bv_ok r \<and> bv_list r = map2 (\<and>) (bv_list v) (bv_list w))
     else BitVector_applyOr v w = Inl Assertion_failed \<and> BitVector_applyAnd v w = Inl Assertion_failed \<and>
          BitVector_applyReset v w = Inl Assertion_failed \<and> BitVector_makeOr v w = Inl Assertion_failed \<and>
          BitVector_makeAnd v w = Inl Assertion_failed) \<and>
    (if bv_size v \<le> i then BitVector_bit v i = Inl Assertion_failed \<and> BitVector_set_value v i b = Inl Assertion_failed
     else if i < 0 then BitVector_bit v i = Inl Out_of_bounds \<and> BitVector_set_value v i b = Inl Out_of_bounds
     else BitVector_bit v i = Inr (bv_list v ! nat i) \<and>
          (\<exists>r. BitVector_set_value v i b = Inr r \<and> bv_ok r \<and> bv_list r = (bv_list v)[nat i := b] \<and>
            (bv_clean v \<longrightarrow> bv_clean r)))" (is "?A \<and> ?B")
proof
  show ?A
  proof (cases "bv_size v = bv_size w")
    case True
    note a = assms True
    show ?thesis
      using or_ok [OF _ a] and_ok [OF _ a] make_or_ok [OF _ a] make_and_ok [OF _ a] applyReset_ok [OF a]
      by (simp add: True BitVector_applyOr_def BitVector_applyAnd_def BitVector_makeOr_def BitVector_makeAnd_def
          bit_or_iff bit_and_iff bv_clean_def)
        (metis map2_or_and_tail)
  next
    case False
    then show ?thesis
      by (simp add: BitVector_applyOr_def BitVector_applyAnd_def BitVector_applyReset_def BitVector_makeOr_def
          BitVector_makeAnd_def apply_words_def make_words_def)
  qed
  show ?B
  proof (cases "0 \<le> i \<and> i < bv_size v")
    case True
    then show ?thesis
      using BitVector_bit_ok [OF assms(1)] BitVector_set_value_ok [OF assms(1), of i b] by (auto simp: bv_clean_def)
  next
    case False
    then show ?thesis using assms(1)
      by (auto simp: BitVector_bit_def BitVector_set_value_def BitVector_set_def BitVector_clear_def bv_read_def
          bv_ok_def windex_def)
  qed
qed

theorem bitvec_operations_witness:
  "\<exists>v w r. BitVector_new 11 True = Inr v \<and> BitVector_new 11 False = Inr w \<and> BitVector_applyOr v w = Inr r \<and>
    bv_list r = replicate 11 True"
proof -
  obtain v where v: "BitVector_new 11 True = Inr v" "bv_ok v" "bv_size v = 11" "bv_list v = replicate 11 True"
    using BitVector_new_ok [of 11 True] by auto
  obtain w where w: "BitVector_new 11 False = Inr w" "bv_ok w" "bv_size w = 11" "bv_list w = replicate 11 False"
    using BitVector_new_ok [of 11 False] by auto
  obtain r where "BitVector_applyOr v w = Inr r" "bv_list r = map2 (\<or>) (bv_list v) (bv_list w)"
    using bitvec_operations [OF v(2) w(2)] v(3) w(3) by auto
  with v w show ?thesis by (auto simp: eval_nat_numeral)
qed

lemma bv_tests_ok:
  assumes "bv_ok v" "bv_ok w" "bv_size v = bv_size w" "bv_clean w"
  obtains v' where "BitVector_mask v = Inr v'" "bv_ok v'" "bv_clean v'" "bv_list v' = bv_list v" "bv_size v' = bv_size v"
    "length (bv_bits v') = length (bv_bits w)" "bv_bits v' = bv_bits w \<longleftrightarrow> bv_list v = bv_list w"
    "includes_loop (bv_bits v') (bv_bits w) = list_all2 (\<lambda>x y. y \<longrightarrow> x) (bv_list v) (bv_list w)"
proof -
  obtain v' where v: "BitVector_mask v = Inr v'" "bv_ok v'" "bv_size v' = bv_size v" "bv_list v' = bv_list v" "bv_clean v'"
    using bv_mask_ok [OF assms(1)] by blast
  have s: "bv_size v' = bv_size w" using v(3) assms(3) by simp
  note a = clean_all2 [OF v(2) assms(2) s v(5) assms(4)]
  have l: "length (bv_bits v') = length (bv_bits w)" by (rule same_size [OF v(2) assms(2) s])
  have "bv_bits v' = bv_bits w \<longleftrightarrow> bv_list v = bv_list w"
    using a [of "(=)"] bits_of_inject [OF l] by (simp add: list_all2_eq [symmetric] v(4))
  moreover have "includes_loop (bv_bits v') (bv_bits w) = list_all2 (\<lambda>x y. y \<longrightarrow> x) (bv_list v) (bv_list w)"
    using a [of "\<lambda>x y. y \<longrightarrow> x"] by (simp add: includes_loop_ok [OF l] v(4))
  ultimately show thesis using that [OF v(1,2,5,4,3) l] by blast
qed

lemma bv_meets_ok:
  assumes "bv_ok v" "bv_ok w" "bv_size v = bv_size w" "bv_clean w"
  shows "BitVector_meets v w = Inr ((True, True) \<in> set (zip (bv_list v) (bv_list w)))"
proof -
  have l: "length (bv_bits v) = length (bv_bits w)" "length (bv_list v) = length (bv_list w)"
    using same_size [OF assms(1-3)] assms(3) by (simp_all add: bv_list_def)
  have "0 < wcount v" "0 < wcount w" using assms(1,2) bv_ok_size(3) by (auto simp: bv_ok_def)
  moreover have "(True, True) \<notin> set (zip (bv_tail v) (bv_tail w))"
    using assms(4) by (auto simp: bv_clean_def dest: set_zip_rightD)
  ultimately show ?thesis
    using assms l by (simp add: BitVector_meets_def bv_ok_size(4) meets_loop_ok bits_of_split)
qed

text \<open>
  C17. The tests of a bit vector against a clean vector of the same size decide equality,
  inclusion, strict inclusion and meeting of the bits, and leave the masked vector; \<^verbatim>\<open>isEmpty\<close>
  tests that no bit is set; \<^verbatim>\<open>countOnes\<close> on a clean vector counts the set bits; the iterators
  visit the positions of the ones and of the zeroes in order. \<^verbatim>\<open>countZeroes\<close> is always 0, and
  \<^verbatim>\<open>makeNot\<close> gives a vector with the bits above the size set: \<^verbatim>\<open>countOnes\<close> counts them and the
  equality with a clean vector of the same bits is false.
\<close>

theorem bitvec_tests:
  assumes "bv_ok v" "bv_ok w" "bv_size v = bv_size w" "bv_clean w"
  shows "(\<exists>v'. bv_ok v' \<and> bv_clean v' \<and> bv_list v' = bv_list v \<and>
      BitVector_equals v w = Inr (bv_list v = bv_list w, v') \<and>
      BitVector_includes v w = Inr (list_all2 (\<lambda>x y. y \<longrightarrow> x) (bv_list v) (bv_list w), v') \<and>
      BitVector_includesStrictly v w =
        Inr (list_all2 (\<lambda>x y. y \<longrightarrow> x) (bv_list v) (bv_list w) \<and> bv_list v \<noteq> bv_list w, v') \<and>
      BitVector_isEmpty v = Inr (True \<notin> set (bv_list v), v')) \<and>
    BitVector_meets v w = Inr ((True, True) \<in> set (zip (bv_list v) (bv_list w))) \<and>
    BitVector_countOnes w = Inr (length (filter id (bv_list w))) \<and> BitVector_countZeroes v = Inr 0 \<and>
    OneIterator_items v = Inr (filter (\<lambda>k. bv_list v ! nat k) [0..bv_size v - 1]) \<and>
    ZeroIterator_items v = Inr (filter (\<lambda>k. \<not> bv_list v ! nat k) [0..bv_size v - 1]) \<and>
    (\<exists>r. BitVector_makeNot \<lparr>bv_bits = [0], bv_size = 3, bv_null = False\<rparr> = Inr r \<and> bv_list r = [True, True, True] \<and>
      BitVector_countOnes r = Inr 8 \<and>
      BitVector_equals \<lparr>bv_bits = [7], bv_size = 3, bv_null = False\<rparr> r =
        Inr (False, \<lparr>bv_bits = [7], bv_size = 3, bv_null = False\<rparr>))" (is "?T \<and> _ \<and> _ \<and> _ \<and> _ \<and> _ \<and> ?N")
proof (intro conjI)
  show ?T
  proof (rule bv_tests_ok [OF assms])
    fix v' assume v: "BitVector_mask v = Inr v'" "bv_ok v'" "bv_clean v'" "bv_list v' = bv_list v" "bv_size v' = bv_size v"
      "length (bv_bits v') = length (bv_bits w)" "bv_bits v' = bv_bits w \<longleftrightarrow> bv_list v = bv_list w"
      "includes_loop (bv_bits v') (bv_bits w) = list_all2 (\<lambda>x y. y \<longrightarrow> x) (bv_list v) (bv_list w)"
    have "nonnull_loop (bv_bits v') = (True \<notin> set (bv_list v))"
      using v(3,4) by (simp add: nonnull_loop_ok bits_of_split bv_clean_def)
    with v show ?T
      using assms by (intro exI [of _ v'])
        (simp add: BitVector_equals_def BitVector_includes_def BitVector_includesStrictly_def BitVector_isEmpty_def
          bv_ok_size(4) equals_words_ok strict_loop_ok)
  qed
  show "BitVector_countOnes w = Inr (length (filter id (bv_list w)))"
    using assms by (simp add: BitVector_countOnes_def bv_ok_size(4) count_loop_ok clean_filter)
  show "BitVector_countZeroes v = Inr 0"
    using assms by (simp add: BitVector_countZeroes_def BitVector_countBits_def BitVector_countOnes_def bv_ok_size(4))
  show ?N
    by (simp add: BitVector_makeNot_def BitVector_new_def bv_words_def wcount_def inWords_def BitVector_countOnes_def
        BitVector_equals_def BitVector_mask_def bindex_def bv_read_def bv_write_def ones_u8_countOnes countOnes_def
        bv_list_def upt_conv_Cons bit_not_iff mask_numeral)
qed (use assms in \<open>simp_all add: bv_meets_ok items_ok\<close>)

theorem bitvec_tests_witness:
  "BitVector_meets \<lparr>bv_bits = [5, 1], bv_size = 9, bv_null = False\<rparr> \<lparr>bv_bits = [2, 1], bv_size = 9, bv_null = False\<rparr> = Inr True"
proof -
  let ?v = "\<lparr>bv_bits = [5 :: 8 word, 1], bv_size = 9, bv_null = False\<rparr>"
  let ?w = "\<lparr>bv_bits = [2 :: 8 word, 1], bv_size = 9, bv_null = False\<rparr>"
  have "bv_ok ?v" "bv_ok ?w" by (simp_all add: bv_ok_def wcount_def inWords_def)
  moreover have "bv_clean ?w"
    by (simp add: bv_clean_def bv_tail_def upt_conv_Cons bit_1_iff)
  ultimately have "BitVector_meets ?v ?w = Inr ((True, True) \<in> set (zip (bv_list ?v) (bv_list ?w)))"
    using bitvec_tests [of ?v ?w] by simp
  then show ?thesis by (simp add: bv_list_def upt_conv_Cons)
qed

end
