(* ===== verification/Wah_Vector.thy ===== *)
theory Wah_Vector
  imports Elm_Int
begin

unbundle bit_operations_syntax

text \<open>
  The compressed bit vectors of \<^verbatim>\<open>include/elm/util/WAHVector.h\<close> and \<^verbatim>\<open>src/util_WAHVector.cpp\<close>:
  words of 32 bits that are either a literal of 31 bits or a fill, a count of groups of 31 equal
  bits. A vector is compared with the list of its groups, and every operation with the same
  operation on the groups.
\<close>

section \<open>Words\<close>

type_synonym word_t = "32 word"

definition FILL :: word_t where "FILL = 0x80000000"
definition ONES :: word_t where "ONES = 0x40000000"
definition ALL_ONES :: word_t where "ALL_ONES = 0x7fffffff"
definition ALL_ZEROES :: word_t where "ALL_ZEROES = 0"

definition isFill :: "word_t \<Rightarrow> bool" where "isFill w \<longleftrightarrow> w AND FILL \<noteq> 0"
definition isLite :: "word_t \<Rightarrow> bool" where "isLite w \<longleftrightarrow> \<not> (w AND FILL \<noteq> 0)"
definition isOnes :: "word_t \<Rightarrow> bool" where "isOnes w \<longleftrightarrow> w AND ONES \<noteq> 0"
definition isZeroes :: "word_t \<Rightarrow> bool" where "isZeroes w \<longleftrightarrow> \<not> (w AND ONES \<noteq> 0)"
definition fillCount :: "word_t \<Rightarrow> word_t" where "fillCount w = w AND NOT (FILL OR ONES)"
definition wmask :: "nat \<Rightarrow> word_t" where "wmask n = push_bit n 1 - 1"
definition fill :: "int \<Rightarrow> bool \<Rightarrow> word_t" where
  "fill n v = FILL OR (if v then ONES else 0) OR word_of_int n"

definition times :: "int \<Rightarrow> int" where
  "times v = push_bit 5 v - v"

text \<open>The division by 31 by a product on 64 bits, read back as an \<^verbatim>\<open>int\<close>.\<close>

definition wdiv :: "int \<Rightarrow> int" where
  "wdiv v = sint (ucast (drop_bit 32 ((0x100000000 div 31 + 30) * word_of_int v :: 64 word)) :: 32 word)"

definition wmod :: "int \<Rightarrow> int" where
  "wmod v = v - times (wdiv v)"


section \<open>The builder\<close>

record builder =
  bld_cap :: nat
  bld_words :: "word_t list"

definition builder_new :: "nat \<Rightarrow> builder" where
  "builder_new c = \<lparr>bld_cap = c, bld_words = []\<rparr>"

definition allocate :: "builder \<Rightarrow> nat \<Rightarrow> builder" where
  "allocate b c = b\<lparr>bld_cap := c\<rparr>"

definition pushRaw :: "builder \<Rightarrow> word_t \<Rightarrow> builder" where
  "pushRaw b w =
     (let b = (if length (bld_words b) = bld_cap b then allocate b (bld_cap b * 2) else b) in
      b\<lparr>bld_words := bld_words b @ [w]\<rparr>)"

definition pushFill :: "builder \<Rightarrow> word_t \<Rightarrow> builder" where
  "pushFill b w =
     (let ws = bld_words b; k = length ws in
      if k \<noteq> 0 \<and> w AND (FILL OR ONES) = ws ! (k - 1) AND (FILL OR ONES)
      then b\<lparr>bld_words := ws[k - 1 := ws ! (k - 1) + fillCount w]\<rparr>
      else pushRaw b w)"

definition pushLite :: "builder \<Rightarrow> word_t \<Rightarrow> builder" where
  "pushLite b w =
     (if w = 0 then pushFill b (fill 1 False)
      else if w = ALL_ONES then pushFill b (fill 1 True)
      else pushRaw b w)"

definition builder_push :: "builder \<Rightarrow> word_t \<Rightarrow> builder" where
  "builder_push b w = (if w AND FILL \<noteq> 0 then pushFill b w else pushLite b w)"

definition builder_copy :: "builder \<Rightarrow> word_t \<Rightarrow> builder" where
  "builder_copy b w =
     (let b = (if length (bld_words b) = bld_cap b then allocate b (bld_cap b * 2) else b) in
      b\<lparr>bld_words := bld_words b @ [w]\<rparr>)"

definition builder_copy_words :: "builder \<Rightarrow> word_t list \<Rightarrow> builder" where
  "builder_copy_words b ws =
     (let n = length (bld_words b) + length ws;
          b = (if bld_cap b < n then allocate b n else b) in
      b\<lparr>bld_words := bld_words b @ ws\<rparr>)"

text \<open>The words that \<^verbatim>\<open>fix\<close> stores in the vector.\<close>

definition builder_fix :: "builder \<Rightarrow> nat \<Rightarrow> word_t list res" where
  "builder_fix b rem =
     (let ws = bld_words b; k = length ws in
      if rem = 0 then Inr ws
      else if k = 0 then Inl Out_of_bounds
      else if isLite (ws ! (k - 1)) then
        (let w = ws ! (k - 1) AND wmask rem; ws = ws[k - 1 := w] in
         if w = 0 then
           (if 2 \<le> k \<and> isZeroes (ws ! (k - 2)) then Inr (take (k - 1) (ws[k - 2 := ws ! (k - 2) + 1]))
            else Inr (ws[k - 1 := fill 1 False]))
         else if w = wmask rem then
           (if 2 \<le> k \<and> isOnes (ws ! (k - 2)) then Inr (take (k - 1) (ws[k - 2 := ws ! (k - 2) + 1]))
            else Inr (ws[k - 1 := fill 1 True]))
         else Inr ws)
      else Inr ws)"


section \<open>The iterator\<close>

text \<open>The words from \<^verbatim>\<open>cur\<close> to \<^verbatim>\<open>end\<close> are kept in \<^verbatim>\<open>it_rest\<close>.\<close>

record witer =
  it_fill :: bool
  it_val :: word_t
  it_cnt :: word_t
  it_i :: int
  it_ii :: int
  it_rest :: "word_t list"

definition it_step :: "witer \<Rightarrow> witer" where
  "it_step it =
     (let it = it\<lparr>it_i := it_ii it\<rparr>; w = hd (it_rest it); it = it\<lparr>it_fill := isFill w\<rparr> in
      if it_fill it then
        (let it = it\<lparr>it_cnt := fillCount w, it_val := if isOnes w then ALL_ONES else ALL_ZEROES\<rparr> in
         it\<lparr>it_ii := it_ii it + times (uint (it_cnt it))\<rparr>)
      else it\<lparr>it_cnt := 1, it_val := w, it_ii := it_ii it + times 1\<rparr>)"

definition it_new :: "word_t list \<Rightarrow> witer res" where
  "it_new ws =
     (if ws = [] then Inl Null_dereference
      else Inr (it_step \<lparr>it_fill = False, it_val = 0, it_cnt = 0, it_i = 0, it_ii = 0, it_rest = ws\<rparr>))"

definition it_ended :: "witer \<Rightarrow> bool" where
  "it_ended it \<longleftrightarrow> it_rest it = []"

definition it_next :: "witer \<Rightarrow> witer" where
  "it_next it =
     (let it = it\<lparr>it_rest := tl (it_rest it)\<rparr> in if it_rest it \<noteq> [] then it_step it else it)"

definition it_consume :: "witer \<Rightarrow> word_t \<Rightarrow> witer res" where
  "it_consume it c =
     (if c \<le> it_cnt it
      then (let it = it\<lparr>it_cnt := it_cnt it - c, it_i := it_i it + times (uint c)\<rparr> in
            Inr (if it_cnt it = 0 then it_next it else it))
      else Inl Assertion_failed)"

definition it_copy :: "witer \<Rightarrow> builder \<Rightarrow> builder" where
  "it_copy it b = builder_copy b (hd (it_rest it))"

definition it_pushTail :: "witer \<Rightarrow> builder \<Rightarrow> builder" where
  "it_pushTail it b =
     (case tl (it_rest it) of
        [] \<Rightarrow> b
      | w # ws \<Rightarrow> builder_copy_words (builder_push b w) ws)"

definition it_isLast :: "witer \<Rightarrow> bool" where
  "it_isLast it \<longleftrightarrow> tl (it_rest it) = []"

lemma it_step_rest [simp]: "it_rest (it_step it) = it_rest it"
  by (simp add: it_step_def Let_def)

lemma it_next_rest [simp]: "it_rest (it_next it) = tl (it_rest it)"
  by (simp add: it_next_def Let_def)


section \<open>The vector\<close>

record wah =
  wah_rem :: nat
  wah_words :: "word_t list"

definition WAHVector_null :: wah where
  "WAHVector_null = \<lparr>wah_rem = 0, wah_words = []\<rparr>"

definition WAHVector_new :: "int \<Rightarrow> bool \<Rightarrow> wah" where
  "WAHVector_new n init =
     (let rem = nat (wmod n) in
      \<lparr>wah_rem = rem, wah_words = [fill (wdiv n + (if rem \<noteq> 0 then 1 else 0)) init]\<rparr>)"

definition WAHVector_clone :: "wah \<Rightarrow> wah" where
  "WAHVector_clone v =
     \<lparr>wah_rem = wah_rem v, wah_words = (if length (wah_words v) = 0 then [] else wah_words v)\<rparr>"

function bit_loop :: "witer \<Rightarrow> int \<Rightarrow> bool res" where
  "bit_loop it k =
     (if it_ended it then Inl Assertion_failed
      else if it_i it \<le> k \<and> k < it_ii it then Inr (it_val it AND push_bit (nat (wmod k)) 1 \<noteq> 0)
      else bit_loop (it_next it) k)"
  by pat_completeness auto
termination by (relation "measure (\<lambda>(it, k). length (it_rest it))") (auto simp: it_ended_def)

declare bit_loop.simps [simp del]

definition WAHVector_bit :: "wah \<Rightarrow> int \<Rightarrow> bool res" where
  "WAHVector_bit v k = bind_res (it_new (wah_words v)) (\<lambda>it. bit_loop it k)"

definition WAHVector_isEmpty :: "wah \<Rightarrow> bool res" where
  "WAHVector_isEmpty v =
     (case wah_words v of
        [] \<Rightarrow> Inl Assertion_failed
      | w # ws \<Rightarrow>
          if \<not> isZeroes w then Inr False
          else if length (wah_words v) = 1 then Inr True
          else Inr (length (wah_words v) = 2 \<and> wah_words v ! 1 = 0))"

definition WAHVector_isFull :: "wah \<Rightarrow> bool res" where
  "WAHVector_isFull v =
     (case wah_words v of
        [] \<Rightarrow> Inl Assertion_failed
      | w # ws \<Rightarrow>
          if \<not> isOnes w then Inr False
          else if length (wah_words v) = 1 then Inr True
          else Inr (length (wah_words v) = 2 \<and> wah_words v ! 1 = push_bit (wah_rem v) 1 - 1))"

fun same_words :: "word_t list \<Rightarrow> word_t list \<Rightarrow> bool" where
  "same_words (a # as) (b # bs) = (if a \<noteq> b then False else same_words as bs)"
| "same_words _ _ = True"

definition WAHVector_equals :: "wah \<Rightarrow> wah \<Rightarrow> bool" where
  "WAHVector_equals v w =
     (if length (wah_words v) \<noteq> length (wah_words w) then False
      else same_words (wah_words v) (wah_words w))"

text \<open>A step of the loops that consume two iterators together.\<close>

definition it_both :: "word_t \<Rightarrow> witer \<Rightarrow> witer \<Rightarrow> (witer \<times> witer) res" where
  "it_both c i j = bind_res (it_consume i c) (\<lambda>i. bind_res (it_consume j c) (\<lambda>j. Inr (i, j)))"

definition iters_measure :: "((witer \<times> witer) \<times> (witer \<times> witer)) set" where
  "iters_measure = measures [\<lambda>(i, j). length (it_rest i) + length (it_rest j), \<lambda>(i, j). unat (it_cnt i) + unat (it_cnt j)]"

lemma it_consume_rest:
  assumes "it_consume it c = Inr it'"
  shows "if it_cnt it = c then it_rest it' = tl (it_rest it)
         else it_rest it' = it_rest it \<and> it_cnt it' = it_cnt it - c \<and> c \<le> it_cnt it"
  using assms by (auto simp: it_consume_def Let_def split: if_splits)

lemma it_both_less:
  assumes "it_both c i j = Inr (i', j')" "\<not> it_ended i" "\<not> it_ended j" "c = it_cnt i \<or> c = it_cnt j \<or> 0 < c"
  shows "((i', j'), (i, j)) \<in> iters_measure"
proof -
  obtain h: "it_consume i c = Inr i'" "it_consume j c = Inr j'"
    using assms(1) by (auto simp: it_both_def bind_res_eq_Inr)
  have ne: "it_rest i \<noteq> []" "it_rest j \<noteq> []" using assms(2,3) by (auto simp: it_ended_def)
  show ?thesis
  proof (cases "c = it_cnt i \<or> c = it_cnt j")
    case True
    then have "length (it_rest i') + length (it_rest j') < length (it_rest i) + length (it_rest j)"
      using it_consume_rest [OF h(1)] it_consume_rest [OF h(2)] ne
      by (cases "it_rest i"; cases "it_rest j") (auto split: if_splits)
    then show ?thesis by (simp add: iters_measure_def)
  next
    case False
    then have c: "it_rest i' = it_rest i" "it_cnt i' = it_cnt i - c" "c \<le> it_cnt i"
      "it_rest j' = it_rest j" "it_cnt j' = it_cnt j - c" "c \<le> it_cnt j" "0 < c"
      using it_consume_rest [OF h(1)] it_consume_rest [OF h(2)] assms(4) by auto
    then have "unat (it_cnt i') < unat (it_cnt i)" "unat (it_cnt j') < unat (it_cnt j)"
      by (simp_all add: unat_sub word_less_nat_alt word_le_nat_alt)
    then show ?thesis using c by (simp add: iters_measure_def)
  qed
qed

text \<open>The loop of \<^verbatim>\<open>includes\<close>.\<close>

function wincludes_loop :: "witer \<Rightarrow> witer \<Rightarrow> bool res" where
  "wincludes_loop i j =
     (if \<not> it_ended i \<and> \<not> it_ended j then
        if it_fill i \<and> it_fill j then
          if it_val i = 0 \<and> it_val j \<noteq> 0 then Inr False
          else bind_res (it_both (min (it_cnt i) (it_cnt j)) i j) (\<lambda>(i, j). wincludes_loop i j)
        else if NOT (it_val i) AND it_val j \<noteq> 0 then Inr False
        else bind_res (it_both 1 i j) (\<lambda>(i, j). wincludes_loop i j)
      else if it_ended i \<and> it_ended j then Inr True
      else Inl Assertion_failed)"
  by pat_completeness auto
termination
proof (relation iters_measure)
  show "wf iters_measure" by (simp add: iters_measure_def)
qed (auto intro!: it_both_less simp: min_def)

declare wincludes_loop.simps [simp del]

definition WAHVector_includes :: "wah \<Rightarrow> wah \<Rightarrow> bool res" where
  "WAHVector_includes v w =
     bind_res (it_new (wah_words v)) (\<lambda>i. bind_res (it_new (wah_words w)) (\<lambda>j. wincludes_loop i j))"

definition WAHVector_includesStrictly :: "wah \<Rightarrow> wah \<Rightarrow> bool res" where
  "WAHVector_includesStrictly v w = (if WAHVector_equals v w then Inr False else WAHVector_includes v w)"

function size_loop :: "witer \<Rightarrow> int \<Rightarrow> int" where
  "size_loop it r = (if it_ended it then r else size_loop (it_next it) (r + uint (it_cnt it)))"
  by pat_completeness auto
termination by (relation "measure (\<lambda>(it, k). length (it_rest it))") (auto simp: it_ended_def)

declare size_loop.simps [simp del]

definition WAHVector_size :: "wah \<Rightarrow> int res" where
  "WAHVector_size v =
     bind_res (it_new (wah_words v)) (\<lambda>it.
       let r = size_loop it 0 in
       Inr (if wah_rem v \<noteq> 0 then times r - (31 - int (wah_rem v)) else times r))"

function ones_loop :: "nat \<Rightarrow> witer \<Rightarrow> int \<Rightarrow> int" where
  "ones_loop rem it r =
     (if it_ended it then r
      else
        let r = (if it_fill it then
                   if it_val it \<noteq> 0
                   then (let r = r + times (uint (it_cnt it)) in
                         if rem \<noteq> 0 \<and> it_isLast it then r - (31 - int rem) else r)
                   else r
                 else r + int (ones_u32 (if rem \<noteq> 0 \<and> it_isLast it then it_val it AND wmask rem else it_val it))) in
        ones_loop rem (it_next it) r)"
  by pat_completeness auto
termination by (relation "measure (\<lambda>(rem, it, k). length (it_rest it))") (auto simp: it_ended_def)

declare ones_loop.simps [simp del]

definition WAHVector_countOnes :: "wah \<Rightarrow> int res" where
  "WAHVector_countOnes v = bind_res (it_new (wah_words v)) (\<lambda>it. Inr (ones_loop (wah_rem v) it 0))"

definition WAHVector_countZeroes :: "wah \<Rightarrow> int res" where
  "WAHVector_countZeroes v =
     bind_res (WAHVector_size v) (\<lambda>s. bind_res (WAHVector_countOnes v) (\<lambda>c. Inr (s - c)))"


section \<open>Updates\<close>

text \<open>
  Setting (\<^verbatim>\<open>v\<close> true) or clearing a bit: the two functions have the same structure. The
  word found is written with the bit changed, or split when it is a fill of the other value.
\<close>

definition lite_update :: "bool \<Rightarrow> word_t \<Rightarrow> nat \<Rightarrow> word_t" where
  "lite_update v w k = (if v then w OR push_bit k 1 else w AND NOT (push_bit k 1))"

definition update_word :: "bool \<Rightarrow> witer \<Rightarrow> builder \<Rightarrow> int \<Rightarrow> builder" where
  "update_word v it b index =
     (let w = lite_update v (it_val it) (nat (wmod index)) in
      if \<not> it_fill it then pushLite b w
      else if (it_val it \<noteq> 0) = v then it_copy it b
      else
        let n1 = wdiv (index - it_i it);
            n2 = uint (it_cnt it) - n1 - 1;
            b = (if n1 \<noteq> 0 then pushRaw b (fill n1 (it_val it \<noteq> 0)) else b);
            b = pushLite b w in
        if n2 \<noteq> 0 then pushRaw b (fill n2 (it_val it \<noteq> 0)) else b)"

function update_loop :: "bool \<Rightarrow> witer \<Rightarrow> builder \<Rightarrow> int \<Rightarrow> builder res" where
  "update_loop v it b index =
     (if it_ended it then Inl Assertion_failed
      else if index < it_i it \<or> it_ii it \<le> index
      then update_loop v (it_next it) (it_copy it b) index
      else Inr (it_pushTail it (update_word v it b index)))"
  by pat_completeness auto
termination by (relation "measure (\<lambda>(v, it, b, k). length (it_rest it))") (auto simp: it_ended_def)

declare update_loop.simps [simp del]

definition wah_store :: "wah \<Rightarrow> builder \<Rightarrow> nat \<Rightarrow> wah res" where
  "wah_store v b rem = bind_res (builder_fix b rem) (\<lambda>ws. Inr (v\<lparr>wah_words := ws\<rparr>))"

definition WAHVector_set :: "wah \<Rightarrow> int \<Rightarrow> wah res" where
  "WAHVector_set v index =
     bind_res (it_new (wah_words v)) (\<lambda>it.
     bind_res (update_loop True it (builder_new (length (wah_words v) + 2)) index) (\<lambda>b.
       wah_store v b (wah_rem v)))"

definition WAHVector_clear :: "wah \<Rightarrow> int \<Rightarrow> wah res" where
  "WAHVector_clear v index =
     bind_res (it_new (wah_words v)) (\<lambda>it.
     bind_res (update_loop False it (builder_new (length (wah_words v) + 2)) index) (\<lambda>b.
       wah_store v b (wah_rem v)))"

definition WAHVector_set_value :: "wah \<Rightarrow> int \<Rightarrow> bool \<Rightarrow> wah res" where
  "WAHVector_set_value v index b = (if b then WAHVector_set v index else WAHVector_clear v index)"

text \<open>Setting or clearing the whole vector writes its first word only.\<close>

definition wah_fill_all :: "bool \<Rightarrow> wah \<Rightarrow> wah res" where
  "wah_fill_all b v =
     (if wah_words v = [] then Inl Null_dereference
      else Inr (v\<lparr>wah_words := (wah_words v)
        [0 := fill (wdiv (int (length (wah_words v))) + (if wah_rem v \<noteq> 0 then 1 else 0)) b]\<rparr>))"

definition WAHVector_clear_all :: "wah \<Rightarrow> wah res" where
  "WAHVector_clear_all v = wah_fill_all False v"

definition WAHVector_set_all :: "wah \<Rightarrow> wah res" where
  "WAHVector_set_all v = wah_fill_all True v"

definition WAHVector_copy :: "wah \<Rightarrow> wah \<Rightarrow> wah" where
  "WAHVector_copy v w = v\<lparr>wah_words := wah_words w, wah_rem := wah_rem w\<rparr>"

text \<open>The loop of \<^verbatim>\<open>doAnd\<close>, \<^verbatim>\<open>doOr\<close> and \<^verbatim>\<open>doReset\<close>, for the operation \<^verbatim>\<open>f\<close> of each.\<close>

function do_loop :: "(word_t \<Rightarrow> word_t \<Rightarrow> word_t) \<Rightarrow> witer \<Rightarrow> witer \<Rightarrow> builder \<Rightarrow> builder res" where
  "do_loop f i j b =
     (if it_ended i then Inr b
      else if it_ended j then Inl Assertion_failed
      else if it_fill i \<and> it_fill j then
        (let n = min (it_cnt i) (it_cnt j);
             b = pushFill b (fill (uint n) (f (it_val i) (it_val j) \<noteq> 0)) in
         bind_res (it_both n i j) (\<lambda>(i, j). do_loop f i j b))
      else
        (let b = pushLite b (f (it_val i) (it_val j)) in
         bind_res (it_both 1 i j) (\<lambda>(i, j). do_loop f i j b)))"
  by pat_completeness auto
termination
proof (relation "inv_image iters_measure (\<lambda>(f, i, j, b). (i, j))")
  show "wf (inv_image iters_measure (\<lambda>(f, i, j, b). (i, j)))" by (simp add: iters_measure_def)
qed (auto intro!: it_both_less simp: min_def)

declare do_loop.simps [simp del]

definition do_op :: "(word_t \<Rightarrow> word_t \<Rightarrow> word_t) \<Rightarrow> wah \<Rightarrow> wah \<Rightarrow> wah \<Rightarrow> wah res" where
  "do_op f r v w =
     bind_res (it_new (wah_words v)) (\<lambda>i. bind_res (it_new (wah_words w)) (\<lambda>j.
     bind_res (do_loop f i j (builder_new (max (length (wah_words v)) (length (wah_words w))))) (\<lambda>b.
       wah_store r b (wah_rem v))))"

definition WAHVector_doAnd :: "wah \<Rightarrow> wah \<Rightarrow> wah \<Rightarrow> wah res" where
  "WAHVector_doAnd r v w = do_op (\<lambda>a b. a AND b) r v w"

definition WAHVector_doOr :: "wah \<Rightarrow> wah \<Rightarrow> wah \<Rightarrow> wah res" where
  "WAHVector_doOr r v w = do_op (\<lambda>a b. a OR b) r v w"

definition WAHVector_doReset :: "wah \<Rightarrow> wah \<Rightarrow> wah \<Rightarrow> wah res" where
  "WAHVector_doReset r v w = do_op (\<lambda>a b. a AND NOT b) r v w"

function not_loop :: "witer \<Rightarrow> builder \<Rightarrow> builder" where
  "not_loop it b =
     (if it_ended it then b
      else not_loop (it_next it)
        (if it_fill it then pushFill b (fill (uint (it_cnt it)) (it_val it = 0))
         else pushLite b (NOT (it_val it) AND (push_bit 31 1 - 1))))"
  by pat_completeness auto
termination by (relation "measure (\<lambda>(it, b). length (it_rest it))") (auto simp: it_ended_def)

declare not_loop.simps [simp del]

definition WAHVector_doNot :: "wah \<Rightarrow> wah \<Rightarrow> wah res" where
  "WAHVector_doNot r v =
     bind_res (it_new (wah_words v)) (\<lambda>it.
       wah_store r (not_loop it (builder_new (length (wah_words v)))) (wah_rem v))"

definition WAHVector_applyAnd :: "wah \<Rightarrow> wah \<Rightarrow> wah res" where
  "WAHVector_applyAnd v w = WAHVector_doAnd v v w"

definition WAHVector_makeAnd :: "wah \<Rightarrow> wah \<Rightarrow> wah res" where
  "WAHVector_makeAnd v w = WAHVector_doAnd WAHVector_null v w"

definition WAHVector_applyOr :: "wah \<Rightarrow> wah \<Rightarrow> wah res" where
  "WAHVector_applyOr v w = WAHVector_doOr v v w"

definition WAHVector_makeOr :: "wah \<Rightarrow> wah \<Rightarrow> wah res" where
  "WAHVector_makeOr v w = WAHVector_doOr WAHVector_null v w"

definition WAHVector_applyReset :: "wah \<Rightarrow> wah \<Rightarrow> wah res" where
  "WAHVector_applyReset v w = WAHVector_doReset v v w"

definition WAHVector_makeReset :: "wah \<Rightarrow> wah \<Rightarrow> wah res" where
  "WAHVector_makeReset v w = WAHVector_doReset WAHVector_null v w"

definition WAHVector_applyNot :: "wah \<Rightarrow> wah res" where
  "WAHVector_applyNot v = WAHVector_doNot v v"

definition WAHVector_makeNot :: "wah \<Rightarrow> wah res" where
  "WAHVector_makeNot v = WAHVector_doNot WAHVector_null v"


section \<open>Words and their groups\<close>

lemma word_constants: "FILL = 2 ^ 31" "ONES = 2 ^ 30" "ALL_ONES = mask 31" "NOT (FILL OR ONES) = mask 30" "ALL_ZEROES = 0"
  by (simp_all add: FILL_def ONES_def ALL_ONES_def ALL_ZEROES_def mask_numeral)

lemma isFill_bit: "isFill w \<longleftrightarrow> bit w 31" "isLite w \<longleftrightarrow> \<not> bit w 31"
  by (simp_all only: isFill_def isLite_def word_constants and_exp_eq_0_iff_not_bit simp_thms)

lemma isOnes_bit: "isOnes w \<longleftrightarrow> bit w 30" "isZeroes w \<longleftrightarrow> \<not> bit w 30"
  by (simp_all only: isOnes_def isZeroes_def word_constants and_exp_eq_0_iff_not_bit simp_thms)

lemma isLite_isFill: "isLite w \<longleftrightarrow> \<not> isFill w" "isZeroes w \<longleftrightarrow> \<not> isOnes w"
  by (simp_all add: isFill_bit isOnes_bit)

lemma fillCount_take: "fillCount w = take_bit 30 w"
  by (simp only: fillCount_def word_constants(4) take_bit_eq_mask)

lemma wmask_mask: "wmask n = mask n"
  by (simp add: wmask_def mask_eq_decr_exp)

lemma kind_eq: "v AND (FILL OR ONES) = w AND (FILL OR ONES) \<longleftrightarrow> isFill v = isFill w \<and> isOnes v = isOnes w"
proof -
  have b: "bit (u AND (FILL OR ONES)) k \<longleftrightarrow> bit u k \<and> (k = 31 \<or> k = 30)" for u :: word_t and k
    by (simp only: word_constants(1,2) bit_and_iff bit_or_iff bit_exp_iff) (auto dest: bit_imp_le_length)
  show ?thesis
  proof
    assume e: "v AND (FILL OR ONES) = w AND (FILL OR ONES)"
    show "isFill v = isFill w \<and> isOnes v = isOnes w"
      using arg_cong [OF e, of "\<lambda>u. bit u 31"] arg_cong [OF e, of "\<lambda>u. bit u 30"]
      by (simp add: b isFill_bit isOnes_bit)
  next
    assume "isFill v = isFill w \<and> isOnes v = isOnes w"
    then show "v AND (FILL OR ONES) = w AND (FILL OR ONES)"
      by (intro bit_word_eqI) (auto simp only: b isFill_bit isOnes_bit)
  qed
qed

lemma fill_bits:
  assumes "n < 2 ^ 30"
  shows "isFill (fill (int n) v)" "isOnes (fill (int n) v) = v" "unat (fillCount (fill (int n) v)) = n"
proof -
  have w: "\<not> bit (word_of_nat n :: word_t) k" if "30 \<le> k" for k
  proof -
    have "take_bit 30 n = n" using assms by (simp add: take_bit_nat_eq_self)
    then show ?thesis using that by (metis bit_of_nat_iff bit_take_bit_iff not_le)
  qed
  have e: "fill (int n) v = FILL OR (if v then ONES else 0) OR word_of_nat n" for v by (simp add: fill_def)
  have b: "bit (fill (int n) v) k \<longleftrightarrow> k = 31 \<or> v \<and> k = 30 \<or> bit (word_of_nat n :: word_t) k" for k
    by (cases v) (auto simp only: e word_constants(1,2) bit_or_iff bit_exp_iff if_True if_False possible_bit_word bit_0_eq
      len_num1 len_bit0 bot_apply bot_bool_def simp_thms)
  show "isFill (fill (int n) v)" "isOnes (fill (int n) v) = v" by (simp_all add: isFill_bit isOnes_bit b w)
  have "fillCount (fill (int n) v) = word_of_nat n"
  proof (rule bit_word_eqI)
    fix k assume "k < LENGTH(32)"
    then show "bit (fillCount (fill (int n) v)) k = bit (word_of_nat n :: word_t) k"
      using w [of k] by (cases "30 \<le> k") (auto simp: fillCount_take b bit_take_bit_iff)
  qed
  then show "unat (fillCount (fill (int n) v)) = n"
    using assms by (simp add: unat_of_nat take_bit_nat_eq_self)
qed

lemma fill_add:
  assumes "unat (fillCount w) + unat c < 2 ^ 30"
  shows "isFill (w + c) = isFill w" "isOnes (w + c) = isOnes w" "unat (fillCount (w + c)) = unat (fillCount w) + unat c"
proof -
  have f: "unat (fillCount v) = unat v mod 2 ^ 30" for v :: word_t
    by (simp only: fillCount_take unsigned_take_bit_eq) (simp only: take_bit_eq_mod)
  have u: "unat w = unat w div 2 ^ 30 * 2 ^ 30 + unat (fillCount w)" by (simp only: f div_mult_mod_eq)
  have q: "unat w div 2 ^ 30 < 4" using unat_ltp [of w] by (simp add: less_mult_imp_div_less)
  have s: "unat (w + c) = unat w div 2 ^ 30 * 2 ^ 30 + (unat (fillCount w) + unat c)"
    using u q assms by (subst unat_plus) simp_all
  then have d: "unat (w + c) div 2 ^ 30 = unat w div 2 ^ 30"
    using assms by (simp only: s div_mult_self3 power_not_zero) simp
  have b: "bit v (30 + k) = bit (unat v div 2 ^ 30) k" for v :: word_t and k
  proof -
    have "bit v (30 + k) = bit (drop_bit 30 v) k" by (simp only: bit_drop_bit_eq o_def)
    also have "\<dots> = bit (unat (drop_bit 30 v)) k"
      by (simp only: bit_unsigned_iff) simp
    finally show ?thesis by (simp only: unat_drop_bit_word)
  qed
  show "isFill (w + c) = isFill w" "isOnes (w + c) = isOnes w"
    using b [of _ 1] b [of _ 0] d by (simp_all add: isFill_bit isOnes_bit)
  show "unat (fillCount (w + c)) = unat (fillCount w) + unat c"
    using assms by (simp only: f [of "w + c"] s) simp
qed

definition fill_group :: "bool \<Rightarrow> word_t" where
  "fill_group v = (if v then ALL_ONES else ALL_ZEROES)"

definition word_groups :: "word_t \<Rightarrow> word_t list" where
  "word_groups w = (if isFill w then replicate (unat (fillCount w)) (fill_group (isOnes w)) else [w])"

definition wah_groups :: "word_t list \<Rightarrow> word_t list" where
  "wah_groups ws = concat (map word_groups ws)"

text \<open>
  The words of a vector: a fill counts at least one group, a literal is neither null nor full.
\<close>

definition word_ok :: "word_t \<Rightarrow> bool" where
  "word_ok w \<longleftrightarrow> (if isFill w then fillCount w \<noteq> 0 else w \<noteq> ALL_ZEROES \<and> w \<noteq> ALL_ONES)"

definition words_ok :: "word_t list \<Rightarrow> bool" where
  "words_ok ws \<longleftrightarrow> list_all word_ok ws"

lemma wah_groups_simps [simp]:
  "wah_groups [] = []"
  "wah_groups (w # ws) = word_groups w @ wah_groups ws"
  "wah_groups (vs @ ws) = wah_groups vs @ wah_groups ws"
  by (simp_all add: wah_groups_def)

lemma words_ok_simps [simp]:
  "words_ok []"
  "words_ok (w # ws) \<longleftrightarrow> word_ok w \<and> words_ok ws"
  "words_ok (vs @ ws) \<longleftrightarrow> words_ok vs \<and> words_ok ws"
  by (simp_all add: words_ok_def)

lemma fill_ok:
  "0 < n \<Longrightarrow> n < 2 ^ 30 \<Longrightarrow> word_ok (fill (int n) v) \<and> word_groups (fill (int n) v) = replicate n (fill_group v)"
  using fill_bits [of n v] by (auto simp: word_ok_def word_groups_def)

lemma fill_one: "word_ok (fill 1 v)" "word_groups (fill 1 v) = [fill_group v]"
  using fill_ok [of 1 v] by simp_all

lemma lite_groups: "isLite w \<Longrightarrow> word_groups w = [w]"
  by (simp add: word_groups_def isLite_isFill)

lemma groups_lite: "g \<in> set (wah_groups ws) \<Longrightarrow> isLite g"
proof -
  have "isLite (fill_group v)" for v by (simp add: fill_group_def isFill_bit word_constants bit_mask_iff)
  then have "g \<in> set (word_groups w) \<Longrightarrow> isLite g" for w
    by (auto simp: word_groups_def isLite_isFill split: if_splits)
  then show "g \<in> set (wah_groups ws) \<Longrightarrow> isLite g" by (auto simp: wah_groups_def)
qed

lemma list_last_split: "ws \<noteq> [] \<Longrightarrow> \<exists>vs w. ws = vs @ [w] \<and> length ws - 1 = length vs \<and> ws ! (length ws - 1) = w"
  by (cases ws rule: rev_cases) auto

text \<open>The effect of pushing on the groups of a builder.\<close>

definition bld_ok :: "builder \<Rightarrow> word_t list \<Rightarrow> bool" where
  "bld_ok b G \<longleftrightarrow> words_ok (bld_words b) \<and> wah_groups (bld_words b) = G \<and>
     length (bld_words b) \<le> bld_cap b \<and> 0 < bld_cap b"

lemma builder_new_ok: "0 < c \<Longrightarrow> bld_ok (builder_new c) []"
  by (simp add: bld_ok_def builder_new_def)

lemma pushRaw_ok: "bld_ok b G \<Longrightarrow> word_ok w \<Longrightarrow> bld_ok (pushRaw b w) (G @ word_groups w)"
  by (auto simp: bld_ok_def pushRaw_def allocate_def Let_def)

lemma builder_copy_ok: "bld_ok b G \<Longrightarrow> word_ok w \<Longrightarrow> bld_ok (builder_copy b w) (G @ word_groups w)"
  by (auto simp: bld_ok_def builder_copy_def allocate_def Let_def)

lemma builder_copy_words_ok: "bld_ok b G \<Longrightarrow> words_ok ws \<Longrightarrow> bld_ok (builder_copy_words b ws) (G @ wah_groups ws)"
  by (auto simp: bld_ok_def builder_copy_words_def allocate_def Let_def)

lemma pushFill_word_ok:
  assumes b: "bld_ok b G" and w: "word_ok w" "isFill w" and len: "length G + unat (fillCount w) < 2 ^ 30"
  shows "bld_ok (pushFill b w) (G @ word_groups w)"
proof (cases "bld_words b \<noteq> [] \<and> w AND (FILL OR ONES) = bld_words b ! (length (bld_words b) - 1) AND (FILL OR ONES)")
  case True
  then obtain vs u where u: "bld_words b = vs @ [u]" "bld_words b ! (length (bld_words b) - 1) = u"
    "length (bld_words b) - 1 = length vs"
    using list_last_split [of "bld_words b"] by metis
  have k: "isFill u" "isOnes u = isOnes w" using True w(2) u(2) by (simp_all only: kind_eq)
  have G: "wah_groups vs @ word_groups u = G" "word_ok u" "words_ok vs" using b u(1) by (auto simp: bld_ok_def)
  have cu: "unat (fillCount u) + unat (fillCount w) < 2 ^ 30" using G(1) len k(1) by (auto simp: word_groups_def)
  note a = fill_add [OF cu]
  have "fillCount u \<noteq> 0" using G(2) k(1) by (simp add: word_ok_def)
  then have "fillCount (u + fillCount w) \<noteq> 0" using a(3) by (auto simp: word_pos_iff)
  then have o: "word_ok (u + fillCount w)" using a(1) k by (simp add: word_ok_def)
  have g: "word_groups (u + fillCount w) = word_groups u @ word_groups w"
    using a k w(2) by (simp add: word_groups_def replicate_add)
  have "pushFill b w = b\<lparr>bld_words := vs @ [u + fillCount w]\<rparr>"
    using True u by (simp add: pushFill_def Let_def)
  then show ?thesis using b u(1) G o g by (auto simp: bld_ok_def)
next
  case False
  then have "pushFill b w = pushRaw b w" by (auto simp: pushFill_def Let_def)
  then show ?thesis using pushRaw_ok [OF b w(1)] by simp
qed

lemma pushFill_ok:
  assumes "bld_ok b G" "0 < n" "length G + n < 2 ^ 30"
  shows "bld_ok (pushFill b (fill (int n) v)) (G @ replicate n (fill_group v))"
proof -
  have "n < 2 ^ 30" using assms(3) by simp
  note f = fill_ok [OF assms(2) this, of v] fill_bits [OF this, of v]
  show ?thesis using pushFill_word_ok [OF assms(1), of "fill (int n) v"] f assms(3) by simp
qed

lemma pushLite_ok:
  assumes "bld_ok b G" "isLite w" "length G + 1 < 2 ^ 30"
  shows "bld_ok (pushLite b w) (G @ [w])"
proof -
  have p: "bld_ok (pushFill b (fill 1 v)) (G @ [fill_group v])" for v
    using pushFill_ok [OF assms(1), of 1 v] assms(3) by simp
  consider "w = 0" | "w = ALL_ONES" "w \<noteq> 0" | "w \<noteq> 0" "w \<noteq> ALL_ONES" by blast
  then show ?thesis
  proof cases
    case 3
    then have "word_ok w" using assms(2) by (simp add: word_ok_def isLite_isFill word_constants)
    then show ?thesis using 3 pushRaw_ok [OF assms(1), of w] lite_groups [OF assms(2)] by (simp add: pushLite_def)
  qed (use p [of False] p [of True] in \<open>simp_all add: pushLite_def fill_group_def ALL_ZEROES_def\<close>)
qed

lemma builder_push_ok:
  assumes "bld_ok b G" "word_ok w" "length G + length (word_groups w) < 2 ^ 30"
  shows "bld_ok (builder_push b w) (G @ word_groups w)"
proof (cases "isFill w")
  case True
  then show ?thesis
    using pushFill_word_ok [OF assms(1,2)] assms(3) by (simp add: builder_push_def isFill_def [symmetric] word_groups_def)
next
  case False
  then show ?thesis
    using pushLite_ok [OF assms(1), of w] assms(3)
    by (simp add: builder_push_def isFill_def [symmetric] word_groups_def isLite_isFill)
qed

text \<open>The groups that an iterator still has to give.\<close>

definition it_groups :: "witer \<Rightarrow> word_t list" where
  "it_groups it =
     (if it_rest it = [] then [] else replicate (unat (it_cnt it)) (it_val it) @ wah_groups (tl (it_rest it)))"

definition it_ok :: "witer \<Rightarrow> bool" where
  "it_ok it \<longleftrightarrow> it_rest it \<noteq> [] \<longrightarrow>
     words_ok (it_rest it) \<and> it_cnt it \<noteq> 0 \<and>
     (if it_fill it then it_val it = ALL_ZEROES \<or> it_val it = ALL_ONES else it_cnt it = 1 \<and> isLite (it_val it))"

text \<open>An iterator at the start of a word, after \<^verbatim>\<open>k\<close> groups.\<close>

definition it_at :: "witer \<Rightarrow> nat \<Rightarrow> bool" where
  "it_at it k \<longleftrightarrow> it_rest it \<noteq> [] \<longrightarrow>
     it_fill it = isFill (hd (it_rest it)) \<and>
     replicate (unat (it_cnt it)) (it_val it) = word_groups (hd (it_rest it)) \<and>
     (it_fill it \<longrightarrow> it_val it = fill_group (isOnes (hd (it_rest it)))) \<and>
     it_i it = 31 * int k \<and> it_ii it = 31 * int (k + unat (it_cnt it))"

lemma times_31 [simp]: "times v = 31 * v"
  by (simp add: times_def push_bit_eq_mult)

lemma it_step_eq:
  "it_rest it = w # ws \<Longrightarrow> it_step it = it\<lparr>it_i := it_ii it, it_fill := isFill w,
     it_cnt := (if isFill w then fillCount w else 1), it_val := (if isFill w then fill_group (isOnes w) else w),
     it_ii := it_ii it + 31 * (if isFill w then uint (fillCount w) else 1)\<rparr>"
  by (simp add: it_step_def Let_def fill_group_def)

lemma it_step_ok:
  assumes "words_ok (it_rest it)" "it_rest it \<noteq> []"
  shows "it_ok (it_step it)" "it_groups (it_step it) = wah_groups (it_rest it)"
    "it_ii it = 31 * int k \<Longrightarrow> it_at (it_step it) k"
proof -
  obtain w ws where w: "it_rest it = w # ws" using assms(2) by (cases "it_rest it") auto
  have o: "word_ok w" "words_ok ws" using assms(1) w by auto
  show "it_ok (it_step it)"
    using o by (cases "isFill w") (simp_all add: it_ok_def it_step_eq [OF w] w word_ok_def isLite_isFill fill_group_def)
  show "it_groups (it_step it) = wah_groups (it_rest it)"
    by (cases "isFill w") (simp_all add: it_groups_def it_step_eq [OF w] w word_groups_def)
  assume i: "it_ii it = 31 * int k"
  show "it_at (it_step it) k"
    using i by (cases "isFill w") (simp_all add: it_at_def it_step_eq [OF w] w word_groups_def distrib_left)
qed

lemma it_new_ok:
  assumes "words_ok ws" "ws \<noteq> []"
  obtains it where "it_new ws = Inr it" "it_ok it" "it_groups it = wah_groups ws" "it_at it 0" "it_rest it = ws"
proof -
  define it where "it = \<lparr>it_fill = False, it_val = 0, it_cnt = 0, it_i = 0, it_ii = 0, it_rest = ws\<rparr>"
  have r: "it_rest it = ws" "it_ii it = 31 * int 0" by (simp_all add: it_def)
  show thesis
    by (rule that [of "it_step it"])
      (use assms r it_step_ok [of it] in \<open>simp_all add: it_new_def it_def [symmetric]\<close>)
qed

lemma it_next_ok:
  assumes "words_ok (tl (it_rest it))"
  shows "it_ok (it_next it)" "it_groups (it_next it) = wah_groups (tl (it_rest it))"
    "it_ii it = 31 * int k \<Longrightarrow> it_at (it_next it) k"
proof -
  define it1 where "it1 = it\<lparr>it_rest := tl (it_rest it)\<rparr>"
  have r: "it_rest it1 = tl (it_rest it)" "it_ii it1 = it_ii it" by (simp_all add: it1_def)
  have e: "it_next it = (if tl (it_rest it) = [] then it1 else it_step it1)"
    by (simp add: it_next_def Let_def it1_def)
  show "it_ok (it_next it)" "it_groups (it_next it) = wah_groups (tl (it_rest it))"
    "it_ii it = 31 * int k \<Longrightarrow> it_at (it_next it) k"
    using it_step_ok [of it1] assms
    by (cases "tl (it_rest it) = []"; simp add: e r it_ok_def it_groups_def it_at_def)+
qed

lemma it_ok_tl: "it_ok it \<Longrightarrow> it_rest it \<noteq> [] \<Longrightarrow> words_ok (tl (it_rest it))"
  by (cases "it_rest it") (auto simp: it_ok_def)

lemma it_groups_next: "it_ok it \<Longrightarrow> it_rest it \<noteq> [] \<Longrightarrow>
   it_groups it = replicate (unat (it_cnt it)) (it_val it) @ it_groups (it_next it)"
  by (simp add: it_next_ok it_ok_tl it_groups_def [of it])

lemma it_consume_ok:
  assumes "it_ok it" "it_rest it \<noteq> []" "c \<le> it_cnt it" "0 < c"
  obtains it' where "it_consume it c = Inr it'" "it_ok it'"
    "it_groups it = replicate (unat c) (it_val it) @ it_groups it'"
proof -
  define it1 where "it1 = it\<lparr>it_cnt := it_cnt it - c, it_i := it_i it + times (uint c)\<rparr>"
  have r: "it_rest it1 = it_rest it" "it_val it1 = it_val it" "it_fill it1 = it_fill it" "it_cnt it1 = it_cnt it - c"
    by (simp_all add: it1_def)
  have e: "it_consume it c = Inr (if it_cnt it - c = 0 then it_next it1 else it1)"
    using assms(3) by (simp add: it_consume_def Let_def it1_def)
  show thesis
  proof (cases "c = it_cnt it")
    case True
    then have "it_consume it c = Inr (it_next it1)" using e by simp
    moreover have "it_ok (it_next it1)" "it_groups (it_next it1) = wah_groups (tl (it_rest it))"
      using it_next_ok(1,2) [of it1] it_ok_tl [OF assms(1,2)] r(1) by simp_all
    ultimately show thesis using that [of "it_next it1"] True assms(2) by (simp add: it_groups_def [of it])
  next
    case False
    then have "it_consume it c = Inr it1" using e by simp
    moreover have u: "unat (it_cnt it) = unat c + unat (it_cnt it - c)"
      using assms(3) by (simp add: unat_sub word_le_nat_alt)
    have "it_groups it = replicate (unat c) (it_val it) @ it_groups it1"
      using assms(2) r by (simp add: it_groups_def u replicate_add)
    moreover have "it_fill it"
    proof (rule ccontr)
      assume "\<not> it_fill it"
      then have "it_cnt it = 1" using assms(1,2) by (simp add: it_ok_def)
      then have "unat c \<le> 1" "unat c \<noteq> 1" "0 < unat c"
        using assms(3,4) False word_unat_eq_iff [of c 1] by (auto simp: word_le_nat_alt word_less_nat_alt)
      then show False by linarith
    qed
    then have "it_ok it1" using assms(1,2) False r by (simp add: it_ok_def)
    ultimately show thesis using that [of it1] by blast
  qed
qed

text \<open>Two iterators consumed together.\<close>

lemma it_both_ok:
  assumes "it_ok i" "it_ok j" "it_rest i \<noteq> []" "it_rest j \<noteq> []"
    "c \<le> it_cnt i" "c \<le> it_cnt j" "0 < c"
  obtains i' j' where "it_both c i j = Inr (i', j')" "it_ok i'" "it_ok j'"
    "it_groups i = replicate (unat c) (it_val i) @ it_groups i'"
    "it_groups j = replicate (unat c) (it_val j) @ it_groups j'"
proof -
  obtain i' where i: "it_consume i c = Inr i'" "it_ok i'" "it_groups i = replicate (unat c) (it_val i) @ it_groups i'"
    using it_consume_ok [OF assms(1,3,5,7)] .
  obtain j' where j: "it_consume j c = Inr j'" "it_ok j'" "it_groups j = replicate (unat c) (it_val j) @ it_groups j'"
    using it_consume_ok [OF assms(2,4,6,7)] .
  show thesis by (rule that [of i' j']) (use i j in \<open>simp_all add: it_both_def\<close>)
qed

lemma it_cnt_pos: "it_ok it \<Longrightarrow> it_rest it \<noteq> [] \<Longrightarrow> 0 < it_cnt it \<and> 1 \<le> it_cnt it"
  by (simp add: it_ok_def word_gt_0) (metis word_gt_0 word_less_1 not_le)

lemma it_groups_empty: "it_ok it \<Longrightarrow> it_groups it = [] \<longleftrightarrow> it_rest it = []"
  by (auto simp: it_groups_def it_ok_def word_pos_iff)

lemma it_val_lite: "it_ok it \<Longrightarrow> it_rest it \<noteq> [] \<Longrightarrow> isLite (it_val it)"
  by (auto simp: it_ok_def isFill_bit word_constants bit_mask_iff split: if_splits)

text \<open>The operations on words that the loops are used with.\<close>

definition op_ok :: "(word_t \<Rightarrow> word_t \<Rightarrow> word_t) \<Rightarrow> bool" where
  "op_ok f \<longleftrightarrow> (\<forall>v w. isLite v \<longrightarrow> isLite w \<longrightarrow> isLite (f v w)) \<and>
     (\<forall>a b. \<exists>c. f (fill_group a) (fill_group b) = fill_group c)"

lemma op_ok_ops: "op_ok (\<lambda>a b. a AND b)" "op_ok (\<lambda>a b. a OR b)" "op_ok (\<lambda>a b. a AND NOT b)"
proof -
  have n: "mask 31 AND NOT (mask 31) = (0 :: word_t)" by (rule bit_word_eqI) (simp add: bit_and_iff bit_not_iff)
  have g: "fill_group True = mask 31" "fill_group False = 0" by (simp_all add: fill_group_def word_constants)
  have 1: "\<exists>c. fill_group a AND fill_group b = fill_group c" for a b
    by (rule exI [of _ "a \<and> b"]) (cases a; cases b; simp add: g n)
  have 2: "\<exists>c. fill_group a OR fill_group b = fill_group c" for a b
    by (rule exI [of _ "a \<or> b"]) (cases a; cases b; simp add: g n)
  have 3: "\<exists>c. fill_group a AND NOT (fill_group b) = fill_group c" for a b
    by (rule exI [of _ "a \<and> \<not> b"]) (cases a; cases b; simp add: g n)
  show "op_ok (\<lambda>a b. a AND b)" "op_ok (\<lambda>a b. a OR b)" "op_ok (\<lambda>a b. a AND NOT b)"
    by (simp_all add: op_ok_def isFill_bit bit_and_iff bit_or_iff 1 2 3)
qed

lemma fill_group_nonzero: "(fill_group v \<noteq> 0) = v"
  by (simp add: fill_group_def ALL_ONES_def ALL_ZEROES_def)

lemma op_fill:
  assumes "op_ok f" "it_ok i" "it_ok j" "it_rest i \<noteq> []" "it_rest j \<noteq> []" "it_fill i" "it_fill j"
  shows "fill_group (f (it_val i) (it_val j) \<noteq> 0) = f (it_val i) (it_val j)"
proof -
  have "it_val i = fill_group (it_val i \<noteq> 0)" "it_val j = fill_group (it_val j \<noteq> 0)"
    using assms by (auto simp: it_ok_def fill_group_def ALL_ONES_def ALL_ZEROES_def)
  then obtain c where "f (it_val i) (it_val j) = fill_group c" using assms(1) by (metis op_ok_def)
  then show ?thesis by (simp only: fill_group_nonzero)
qed


section \<open>The loops on the groups\<close>

text \<open>The division by 31 is exact up to this number of groups.\<close>

definition max_groups :: nat where
  "max_groups = 149619"

lemma wdiv_ok:
  assumes "0 \<le> v" "v < 31 * int max_groups"
  shows "wdiv v = v div 31" "wmod v = v mod 31"
proof -
  define n where "n = nat v"
  define q where "q = n div 31"
  define r where "r = n mod 31"
  have v: "v = int n" using assms(1) by (simp add: n_def)
  have n: "n = 31 * q + r" "r \<le> 30" by (simp_all add: q_def r_def)
  have q: "q \<le> 149618" using assms(2) n by (simp add: v max_groups_def)
  have c: "(0x100000000 div 31 + 30 :: 64 word) = word_of_nat 138547362" by simp
  have p: "138547362 * n = q * 2 ^ 32 + (926 * q + 138547362 * r)" by (simp add: n(1) algebra_simps)
  have s: "926 * q + 138547362 * r < 2 ^ 32"
  proof -
    have "926 * q \<le> 926 * 149618" "138547362 * r \<le> 138547362 * 30" using q n(2) by (intro mult_le_mono2; simp)+
    then show ?thesis by simp
  qed
  have d: "138547362 * n div 2 ^ 32 = q" unfolding p using s by simp
  have lt: "138547362 * n < 2 ^ 64" using q s by (simp add: p)
  have u: "unat ((0x100000000 div 31 + 30) * word_of_int v :: 64 word) = 138547362 * n"
    using lt by (simp only: c v of_int_of_nat_eq of_nat_mult [symmetric] unat_of_nat) simp
  have "unat (drop_bit 32 ((0x100000000 div 31 + 30) * word_of_int v :: 64 word)) = q"
    by (simp only: unat_drop_bit_word u d)
  then have w: "drop_bit 32 ((0x100000000 div 31 + 30) * word_of_int v :: 64 word) = word_of_nat q"
    using q by (simp only: word_unat_eq_iff unat_of_nat) simp
  have "wdiv v = sint (word_of_nat q :: 32 word)"
    unfolding wdiv_def w by (rule arg_cong [where f = sint], rule bit_word_eqI) (auto simp: bit_ucast_iff bit_of_nat_iff)
  also have "\<dots> = int q" using q by (simp add: signed_of_nat signed_take_bit_int_eq_self)
  finally show "wdiv v = v div 31" by (simp add: v q_def zdiv_int)
  then show "wmod v = v mod 31" by (simp add: wmod_def minus_mult_div_eq_mod)
qed

lemma list_all2_replicate: "list_all2 P (replicate n a) (replicate n b) \<longleftrightarrow> n = 0 \<or> P a b"
  by (auto simp: list_all2_conv_all_nth)

lemma do_loop_ok:
  assumes "op_ok f" "it_ok i" "it_ok j" "length (it_groups i) = length (it_groups j)" "bld_ok b G"
    "length G + length (it_groups i) < 2 ^ 30"
  shows "\<exists>b'. do_loop f i j b = Inr b' \<and> bld_ok b' (G @ map2 f (it_groups i) (it_groups j))"
  using assms
proof (induction f i j b arbitrary: G rule: do_loop.induct)
  case (1 f i j b)
  note p = 1(3,4,5,6,7,8)
  show ?case
  proof (cases "it_rest i = []")
    case True
    then show ?thesis using p(5) by (subst do_loop.simps) (simp add: it_ended_def it_groups_def)
  next
    case i: False
    then have j: "it_rest j \<noteq> []" using p(2-4) by (metis it_groups_empty length_0_conv)
    note ne = i j
    have en: "\<not> it_ended i" "\<not> it_ended j" using i j by (simp_all add: it_ended_def)
    note ci = it_cnt_pos [OF p(2) i] and cj = it_cnt_pos [OF p(3) j]
    show ?thesis
    proof (cases "it_fill i \<and> it_fill j")
      case True
      define n where "n = min (it_cnt i) (it_cnt j)"
      have n: "n \<le> it_cnt i" "n \<le> it_cnt j" "0 < n" using ci cj by (auto simp: n_def min_def)
      obtain i' j' where s: "it_both n i j = Inr (i', j')" "it_ok i'" "it_ok j'"
        "it_groups i = replicate (unat n) (it_val i) @ it_groups i'"
        "it_groups j = replicate (unat n) (it_val j) @ it_groups j'"
        using it_both_ok [OF p(2,3) ne n] .
      define b1 where "b1 = pushFill b (fill (uint n) (f (it_val i) (it_val j) \<noteq> 0))"
      have "unat n \<noteq> 0" using n(3) by (simp add: word_less_nat_alt)
      then have b1: "bld_ok b1 (G @ replicate (unat n) (f (it_val i) (it_val j)))"
        using pushFill_ok [OF p(5), of "unat n" "f (it_val i) (it_val j) \<noteq> 0"] p(6) s(4)
        by (simp add: b1_def op_fill [OF p(1-3) ne] True)
      have "\<exists>b'. do_loop f i' j' b1 = Inr b' \<and>
          bld_ok b' ((G @ replicate (unat n) (f (it_val i) (it_val j))) @ map2 f (it_groups i') (it_groups j'))"
      proof (rule 1(1) [OF en True n_def b1_def s(1) refl p(1) s(2,3) _ b1])
        show "length (it_groups i') = length (it_groups j')" using p(4) by (simp add: s(4,5))
        show "length (G @ replicate (unat n) (f (it_val i) (it_val j))) + length (it_groups i') < 2 ^ 30"
          using p(6) by (simp add: s(4))
      qed
      moreover have "do_loop f i j b = do_loop f i' j' b1"
        using en True by (subst do_loop.simps) (simp add: Let_def n_def [symmetric] b1_def [symmetric] s(1))
      ultimately show ?thesis by (simp add: s(4,5) zip_replicate)
    next
      case False
      have n: "1 \<le> it_cnt i" "1 \<le> it_cnt j" "(0 :: word_t) < 1" using ci cj by auto
      obtain i' j' where s: "it_both 1 i j = Inr (i', j')" "it_ok i'" "it_ok j'"
        "it_groups i = it_val i # it_groups i'" "it_groups j = it_val j # it_groups j'"
        using it_both_ok [OF p(2,3) ne n] by auto
      define b1 where "b1 = pushLite b (f (it_val i) (it_val j))"
      have "isLite (f (it_val i) (it_val j))" using p(1) it_val_lite [OF p(2) i] it_val_lite [OF p(3) j] by (simp add: op_ok_def)
      then have b1: "bld_ok b1 (G @ [f (it_val i) (it_val j)])"
        using pushLite_ok [OF p(5)] p(6) s(4) by (simp add: b1_def)
      have "\<exists>b'. do_loop f i' j' b1 = Inr b' \<and>
          bld_ok b' ((G @ [f (it_val i) (it_val j)]) @ map2 f (it_groups i') (it_groups j'))"
      proof (rule 1(2) [OF en False b1_def s(1) refl p(1) s(2,3) _ b1])
        show "length (it_groups i') = length (it_groups j')" using p(4) by (simp add: s(4,5))
        show "length (G @ [f (it_val i) (it_val j)]) + length (it_groups i') < 2 ^ 30"
          using p(6) by (simp add: s(4))
      qed
      moreover have "do_loop f i j b = do_loop f i' j' b1"
        using en False by (subst do_loop.simps) (simp only: if_False Let_def b1_def [symmetric] s(1) bind_res_simps prod.case)
      ultimately show ?thesis by (simp add: s(4,5))
    qed
  qed
qed

lemma wincludes_loop_ok:
  assumes "it_ok i" "it_ok j" "length (it_groups i) = length (it_groups j)"
  shows "wincludes_loop i j = Inr (list_all2 (\<lambda>a b. NOT a AND b = 0) (it_groups i) (it_groups j))"
  using assms
proof (induction i j rule: wincludes_loop.induct)
  case (1 i j)
  note p = 1(3,4,5)
  show ?case
  proof (cases "it_rest i = []")
    case True
    then have "it_rest j = []" using p by (metis it_groups_empty length_0_conv)
    with True show ?thesis by (subst wincludes_loop.simps) (simp add: it_ended_def it_groups_def)
  next
    case i: False
    then have j: "it_rest j \<noteq> []" using p by (metis it_groups_empty length_0_conv)
    note ci = it_cnt_pos [OF p(1) i] and cj = it_cnt_pos [OF p(2) j]
    have en: "\<not> it_ended i \<and> \<not> it_ended j" using i j by (simp add: it_ended_def)
    show ?thesis
    proof (cases "it_fill i \<and> it_fill j")
      case True
      define n where "n = min (it_cnt i) (it_cnt j)"
      have n: "n \<le> it_cnt i" "n \<le> it_cnt j" "0 < n" using ci cj by (auto simp: n_def min_def)
      obtain i' j' where s: "it_both n i j = Inr (i', j')" "it_ok i'" "it_ok j'"
        "it_groups i = replicate (unat n) (it_val i) @ it_groups i'"
        "it_groups j = replicate (unat n) (it_val j) @ it_groups j'"
        using it_both_ok [OF p(1,2) i j n] .
      have nz: "unat n \<noteq> 0" using n(3) by (simp add: word_less_nat_alt)
      have m: "NOT (mask 31) AND mask 31 = (0 :: word_t)" by (rule bit_word_eqI) (simp add: bit_and_iff bit_not_iff)
      have v: "NOT (it_val i) AND it_val j = 0 \<longleftrightarrow> \<not> (it_val i = 0 \<and> it_val j \<noteq> 0)"
        using p True i j by (auto simp: it_ok_def word_constants m)
      show ?thesis
      proof (cases "it_val i = 0 \<and> it_val j \<noteq> 0")
        case b: True
        then show ?thesis using en True s nz v
          by (subst wincludes_loop.simps) (simp add: list_all2_append list_all2_replicate)
      next
        case b: False
        have "wincludes_loop i' j' = Inr (list_all2 (\<lambda>a b. NOT a AND b = 0) (it_groups i') (it_groups j'))"
          using p s by (intro 1(1) [OF en True b s(1) [unfolded n_def] refl]) simp_all
        moreover have "list_all2 (\<lambda>a b. NOT a AND b = 0) (it_groups i) (it_groups j) =
            list_all2 (\<lambda>a b. NOT a AND b = 0) (it_groups i') (it_groups j')"
          using b v by (simp add: s list_all2_append list_all2_replicate)
        ultimately show ?thesis using en True b s(1)
          by (subst wincludes_loop.simps) (simp only: simp_thms if_True if_False n_def [symmetric] bind_res_simps prod.case)
      qed
    next
      case False
      have n: "1 \<le> it_cnt i" "1 \<le> it_cnt j" "(0 :: word_t) < 1" using ci cj by auto
      obtain i' j' where s: "it_both 1 i j = Inr (i', j')" "it_ok i'" "it_ok j'"
        "it_groups i = it_val i # it_groups i'" "it_groups j = it_val j # it_groups j'"
        using it_both_ok [OF p(1,2) i j n] by auto
      show ?thesis
      proof (cases "NOT (it_val i) AND it_val j = 0")
        case b: True
        have "wincludes_loop i' j' = Inr (list_all2 (\<lambda>a b. NOT a AND b = 0) (it_groups i') (it_groups j'))"
          using p s b by (intro 1(2) [OF en False _ s(1) refl]) simp_all
        then show ?thesis using en False b s
          by (subst wincludes_loop.simps) (simp only: simp_thms if_True if_False bind_res_simps prod.case list_all2_Cons)
      next
        case b: False
        then show ?thesis using en False s
          by (subst wincludes_loop.simps) (simp only: simp_thms if_True if_False list_all2_Cons)
      qed
    qed
  qed
qed

lemma bit_test: "w AND push_bit n 1 \<noteq> 0 \<longleftrightarrow> bit w n" for w :: word_t
  by (simp add: and_exp_eq_0_iff_not_bit)

lemma it_at_next:
  assumes "it_ok it" "it_at it k" "it_rest it \<noteq> []"
  shows "it_ok (it_next it)" "it_at (it_next it) (k + unat (it_cnt it))"
    "it_groups it = replicate (unat (it_cnt it)) (it_val it) @ it_groups (it_next it)"
    "it_i it = 31 * int k" "it_ii it = 31 * int (k + unat (it_cnt it))"
proof -
  show i: "it_i it = 31 * int k" "it_ii it = 31 * int (k + unat (it_cnt it))"
    using assms(2,3) unfolding it_at_def by blast+
  show "it_ok (it_next it)" "it_at (it_next it) (k + unat (it_cnt it))"
    by (rule it_next_ok [OF it_ok_tl [OF assms(1,3)]], rule it_next_ok(3) [OF it_ok_tl [OF assms(1,3)] i(2)])
  show "it_groups it = replicate (unat (it_cnt it)) (it_val it) @ it_groups (it_next it)"
    by (rule it_groups_next [OF assms(1,3)])
qed

lemma bit_loop_ok:
  assumes "it_ok it" "it_at it k" "31 * k \<le> n" "n < 31 * max_groups"
  shows "bit_loop it (int n) =
    (if n < 31 * (k + length (it_groups it)) then Inr (bit (it_groups it ! (n div 31 - k)) (n mod 31))
     else Inl Assertion_failed)"
  using assms
proof (induction it "int n" arbitrary: k rule: bit_loop.induct)
  case (1 it)
  show ?case
  proof (cases "it_rest it = []")
    case True
    then show ?thesis using 1(4) by (subst bit_loop.simps) (simp add: it_ended_def it_groups_def)
  next
    case False
    note a = it_at_next [OF 1(2,3) False]
    have m: "wmod (int n) = int (n mod 31)" using wdiv_ok(2) [of "int n"] 1(5) by (simp add: zmod_int)
    show ?thesis
    proof (cases "n < 31 * (k + unat (it_cnt it))")
      case True
      then have "n div 31 - k < unat (it_cnt it)" using 1(4) by (simp add: less_mult_imp_div_less mult.commute)
      then have "it_groups it ! (n div 31 - k) = it_val it" by (simp add: a(3) nth_append)
      moreover have "bit_loop it (int n) = Inr (bit (it_val it) (n mod 31))"
      proof -
        have "it_i it \<le> int n \<and> int n < it_ii it" using a(4,5) True 1(4) by linarith
        then show ?thesis
          using False by (subst bit_loop.simps) (simp only: it_ended_def m bit_test simp_thms if_True if_False nat_int)
      qed
      ultimately show ?thesis using True by (simp add: a(3))
    next
      case n: False
      then have "\<not> int n < it_ii it" using a(5) by linarith
      then have c: "\<not> it_ended it" "\<not> (it_i it \<le> int n \<and> int n < it_ii it)"
        using False by (simp_all add: it_ended_def)
      have "bit_loop it (int n) = bit_loop (it_next it) (int n)"
        by (subst bit_loop.simps) (simp only: c if_False)
      also have "\<dots> = (if n < 31 * (k + unat (it_cnt it) + length (it_groups (it_next it)))
          then Inr (bit (it_groups (it_next it) ! (n div 31 - (k + unat (it_cnt it)))) (n mod 31))
          else Inl Assertion_failed)"
        using n 1(5) by (intro 1(1) [OF c a(1,2)]) simp_all
      also have "it_groups (it_next it) ! (n div 31 - (k + unat (it_cnt it))) = it_groups it ! (n div 31 - k)"
        using n by (simp add: a(3) nth_append) linarith
      finally show ?thesis by (simp add: a(3) add.assoc)
    qed
  qed
qed

lemma lite_update_bits: "bit (lite_update v w k) j \<longleftrightarrow> (if j = k \<and> j < 32 then v else bit w j)"
  by (auto simp: lite_update_def bit_or_iff bit_and_iff bit_not_iff bit_exp_iff dest: bit_imp_le_length)

lemma lite_update_lite: "isLite w \<Longrightarrow> k < 31 \<Longrightarrow> isLite (lite_update v w k)"
  by (simp add: isFill_bit lite_update_bits)

lemma lite_update_same: "k < 31 \<Longrightarrow> lite_update v (fill_group v) k = fill_group v"
  by (rule bit_word_eqI) (auto simp: lite_update_bits fill_group_def word_constants bit_mask_iff)

lemma it_pushTail_ok:
  assumes "bld_ok b G" "words_ok (tl (it_rest it))" "length G + length (wah_groups (tl (it_rest it))) < 2 ^ 30"
  shows "bld_ok (it_pushTail it b) (G @ wah_groups (tl (it_rest it)))"
proof (cases "tl (it_rest it)")
  case Nil
  then show ?thesis using assms(1) by (simp add: it_pushTail_def)
next
  case (Cons w ws)
  have "bld_ok (builder_push b w) (G @ word_groups w)" using assms Cons by (intro builder_push_ok) auto
  then have "bld_ok (builder_copy_words (builder_push b w) ws) ((G @ word_groups w) @ wah_groups ws)"
    using assms Cons by (intro builder_copy_words_ok) auto
  then show ?thesis using Cons by (simp add: it_pushTail_def)
qed

lemma replicate_update: "j < n \<Longrightarrow> (replicate n x)[j := y] = replicate j x @ y # replicate (n - j - 1) x"
  by (simp add: upd_conv_take_nth_drop take_replicate min_def)

lemma pushRaw_fill_ok:
  assumes "bld_ok b G" "j < 2 ^ 30"
  shows "bld_ok (if j \<noteq> 0 then pushRaw b (fill (int j) v) else b) (G @ replicate j (fill_group v))"
proof (cases "j = 0")
  case False
  then have "word_ok (fill (int j) v)" "word_groups (fill (int j) v) = replicate j (fill_group v)"
    using fill_ok [of j v] assms(2) by simp_all
  then show ?thesis using pushRaw_ok [OF assms(1), of "fill (int j) v"] False by simp
qed (use assms in simp)

lemma update_word_ok:
  assumes it: "it_ok it" "it_at it k" "it_rest it \<noteq> []" and b: "bld_ok b G" "length G = k"
    and n: "31 * k \<le> n" "n < 31 * (k + unat (it_cnt it))" and max: "k + unat (it_cnt it) \<le> max_groups"
  shows "bld_ok (update_word v it b (int n))
    (G @ (replicate (unat (it_cnt it)) (it_val it))[n div 31 - k := lite_update v (it_val it) (n mod 31)])"
proof -
  define j where "j = n div 31 - k"
  define w where "w = lite_update v (it_val it) (n mod 31)"
  have j: "j < unat (it_cnt it)" using n by (simp add: j_def less_mult_imp_div_less mult.commute)
  have m: "wmod (int n) = int (n mod 31)" using wdiv_ok(2) [of "int n"] n max by (simp add: zmod_int)
  have lw: "isLite w" using it_val_lite [OF it(1,3)] by (simp add: w_def lite_update_lite)
  have small: "max_groups < 2 ^ 30" by (simp add: max_groups_def)
  have len: "length G + unat (it_cnt it) < 2 ^ 30" using b(2) max small by linarith
  have uw: "update_word v it b (int n) =
      (if \<not> it_fill it then pushLite b w
       else if (it_val it \<noteq> 0) = v then it_copy it b
       else (let n1 = wdiv (int n - it_i it); n2 = uint (it_cnt it) - n1 - 1;
               b = (if n1 \<noteq> 0 then pushRaw b (fill n1 (it_val it \<noteq> 0)) else b); b = pushLite b w in
             if n2 \<noteq> 0 then pushRaw b (fill n2 (it_val it \<noteq> 0)) else b))"
    by (simp only: update_word_def Let_def m nat_int w_def)
  have goal: "bld_ok (update_word v it b (int n)) (G @ (replicate (unat (it_cnt it)) (it_val it))[j := w])"
  proof (cases "it_fill it")
    case False
    then have c: "unat (it_cnt it) = 1" using it by (simp add: it_ok_def)
    then show ?thesis using False j pushLite_ok [OF b(1) lw] len by (simp add: uw)
  next
    case True
    have val: "it_val it = fill_group (it_val it \<noteq> 0)"
      using it(1,3) True by (auto simp: it_ok_def fill_group_def ALL_ONES_def ALL_ZEROES_def)
    show ?thesis
    proof (cases "(it_val it \<noteq> 0) = v")
      case eq: True
      have "w = it_val it" unfolding w_def by (subst (1 2) val) (simp only: eq lite_update_same [of "n mod 31"])
      moreover have "(replicate (unat (it_cnt it)) (it_val it))[j := it_val it] = replicate (unat (it_cnt it)) (it_val it)"
        by (metis j list_update_id nth_replicate)
      moreover have "replicate (unat (it_cnt it)) (it_val it) = word_groups (hd (it_rest it))"
        using it(2,3) unfolding it_at_def by blast
      ultimately have "(replicate (unat (it_cnt it)) (it_val it))[j := w] = word_groups (hd (it_rest it))" by simp
      moreover have "word_ok (hd (it_rest it))" using it(1,3) by (cases "it_rest it") (auto simp: it_ok_def)
      ultimately show ?thesis using True eq builder_copy_ok [OF b(1)] by (simp add: uw it_copy_def)
    next
      case ne: False
      define n2 where "n2 = unat (it_cnt it) - j - 1"
      have "int n - it_i it = int (n - 31 * k)" using it_at_next(4) [OF it] n(1) by simp
      moreover have "(n - 31 * k) div 31 = j" using n(1) by (simp add: j_def div_mult_self1 flip: le_div_geq)
      ultimately have n1: "wdiv (int n - it_i it) = int j"
        using wdiv_ok(1) [of "int (n - 31 * k)"] n max by (simp add: zdiv_int [symmetric])
      have n2: "uint (it_cnt it) - int j - 1 = int n2" using j by (simp add: n2_def)
      have small: "j < 2 ^ 30" "n2 < 2 ^ 30" using j len by (simp_all add: n2_def)
      define b1 where "b1 = (if j \<noteq> 0 then pushRaw b (fill (int j) (it_val it \<noteq> 0)) else b)"
      have b1: "bld_ok b1 (G @ replicate j (it_val it))"
        using pushRaw_fill_ok [OF b(1) small(1), of "it_val it \<noteq> 0"] unfolding b1_def val [symmetric] .
      have b2: "bld_ok (pushLite b1 w) ((G @ replicate j (it_val it)) @ [w])"
        using len j by (intro pushLite_ok [OF b1 lw]) simp
      have "bld_ok (if n2 \<noteq> 0 then pushRaw (pushLite b1 w) (fill (int n2) (it_val it \<noteq> 0)) else pushLite b1 w)
          (((G @ replicate j (it_val it)) @ [w]) @ replicate n2 (it_val it))"
        using pushRaw_fill_ok [OF b2 small(2), of "it_val it \<noteq> 0"] unfolding val [symmetric] .
      moreover have "(int j \<noteq> 0) = (j \<noteq> 0)" "(int n2 \<noteq> 0) = (n2 \<noteq> 0)" by simp_all
      then have "update_word v it b (int n) =
          (if n2 \<noteq> 0 then pushRaw (pushLite b1 w) (fill (int n2) (it_val it \<noteq> 0)) else pushLite b1 w)"
        unfolding uw Let_def n1 n2 b1_def by (simp only: True ne not_True_eq_False if_False)
      ultimately show ?thesis by (simp only: replicate_update [OF j] n2_def [symmetric] append_assoc append_Cons append_Nil)
    qed
  qed
  then show ?thesis by (simp only: j_def w_def)
qed

lemma update_loop_ok:
  assumes "it_ok it" "it_at it k" "bld_ok b G" "length G = k" "31 * k \<le> n" "n < 31 * (k + length (it_groups it))"
    "k + length (it_groups it) \<le> max_groups"
  shows "\<exists>b'. update_loop v it b (int n) = Inr b' \<and>
    bld_ok b' (G @ (it_groups it)[n div 31 - k := lite_update v (it_groups it ! (n div 31 - k)) (n mod 31)])"
  using assms
proof (induction v it b "int n" arbitrary: k G rule: update_loop.induct)
  case (1 v it b)
  note p = 1(2-8)
  have ne: "it_rest it \<noteq> []" using p(5,6) by (auto simp: it_groups_def)
  then have en: "\<not> it_ended it" by (simp add: it_ended_def)
  note a = it_at_next [OF p(1,2) ne]
  let ?c = "unat (it_cnt it)"
  have small: "max_groups < 2 ^ 30" by (simp add: max_groups_def)
  have tlg: "wah_groups (tl (it_rest it)) = it_groups (it_next it)"
    using it_next_ok(2) [OF it_ok_tl [OF p(1) ne]] by simp
  show ?case
  proof (cases "n < 31 * (k + ?c)")
    case True
    have c: "\<not> (int n < it_i it \<or> it_ii it \<le> int n)" using a(4,5) True p(5) by linarith
    have j: "n div 31 - k < ?c" using True p(5) by (simp add: less_mult_imp_div_less mult.commute)
    have "bld_ok (update_word v it b (int n))
        (G @ (replicate ?c (it_val it))[n div 31 - k := lite_update v (it_val it) (n mod 31)])"
      using p(7) by (intro update_word_ok [OF p(1,2) ne p(3,4,5) True]) (simp add: a(3))
    then have "bld_ok (it_pushTail it (update_word v it b (int n)))
        ((G @ (replicate ?c (it_val it))[n div 31 - k := lite_update v (it_val it) (n mod 31)]) @ wah_groups (tl (it_rest it)))"
      by (rule it_pushTail_ok) (use it_ok_tl [OF p(1) ne] p(4,7) small a(3) tlg in simp_all)
    moreover have "update_loop v it b (int n) = Inr (it_pushTail it (update_word v it b (int n)))"
      using en c by (subst update_loop.simps) simp
    ultimately show ?thesis using j by (simp add: tlg a(3) list_update_append nth_append)
  next
    case False
    have c: "int n < it_i it \<or> it_ii it \<le> int n" using a(5) False by linarith
    have b1: "bld_ok (it_copy it b) (G @ replicate ?c (it_val it))"
    proof -
      have "word_ok (hd (it_rest it))" using p(1) ne by (cases "it_rest it") (auto simp: it_ok_def)
      then show ?thesis using builder_copy_ok [OF p(3)] p(2) ne by (simp add: it_copy_def it_at_def)
    qed
    have nn: "n div 31 - (k + ?c) = n div 31 - k - ?c" "?c \<le> n div 31 - k"
      using False by (simp_all add: less_eq_div_iff_mult_less_eq mult.commute)
    have "\<exists>b'. update_loop v (it_next it) (it_copy it b) (int n) = Inr b' \<and>
      bld_ok b' ((G @ replicate ?c (it_val it)) @ (it_groups (it_next it))[n div 31 - (k + ?c) :=
        lite_update v (it_groups (it_next it) ! (n div 31 - (k + ?c))) (n mod 31)])"
      using False p by (intro 1(1) [OF en c a(1,2) b1]) (simp_all add: a(3) add.assoc)
    moreover have "update_loop v it b (int n) = update_loop v (it_next it) (it_copy it b) (int n)"
      using en c by (subst update_loop.simps) simp
    moreover have "(it_groups it)[n div 31 - k := x] =
        replicate ?c (it_val it) @ (it_groups (it_next it))[n div 31 - (k + ?c) := x]" for x
      unfolding a(3) list_update_append length_replicate nn(1) using nn(2) by (simp only: not_less [symmetric] if_False)
    moreover have "it_groups it ! (n div 31 - k) = it_groups (it_next it) ! (n div 31 - (k + ?c))"
      unfolding a(3) nth_append length_replicate nn(1) using nn(2) by (simp only: not_less [symmetric] if_False)
    ultimately show ?thesis by (simp only: append_assoc)
  qed
qed

lemma not_loop_ok:
  assumes "it_ok it" "bld_ok b G" "length G + length (it_groups it) < 2 ^ 30"
  shows "bld_ok (not_loop it b) (G @ map (\<lambda>g. NOT g AND mask 31) (it_groups it))"
  using assms
proof (induction it b arbitrary: G rule: not_loop.induct)
  case (1 it b)
  show ?case
  proof (cases "it_rest it = []")
    case True
    then show ?thesis using 1(3) by (subst not_loop.simps) (simp add: it_ended_def it_groups_def)
  next
    case False
    let ?c = "unat (it_cnt it)" and ?n = "NOT (it_val it) AND mask 31"
    have en: "\<not> it_ended it" using False by (simp add: it_ended_def)
    have o: "it_ok (it_next it)" by (rule it_next_ok [OF it_ok_tl [OF 1(2) False]])
    have g: "it_groups it = replicate ?c (it_val it) @ it_groups (it_next it)" by (rule it_groups_next [OF 1(2) False])
    have c: "?c \<noteq> 0" using it_cnt_pos [OF 1(2) False] by (simp add: word_less_nat_alt)
    define b1 where "b1 = (if it_fill it then pushFill b (fill (uint (it_cnt it)) (it_val it = 0))
      else pushLite b (NOT (it_val it) AND (push_bit 31 1 - 1)))"
    have b1: "bld_ok b1 (G @ replicate ?c ?n)"
    proof (cases "it_fill it")
      case True
      have z: "NOT (mask 31) AND mask 31 = (0 :: word_t)" by (rule bit_word_eqI) (simp add: bit_and_iff bit_not_iff)
      have "fill_group (it_val it = 0) = ?n"
        using 1(2) False True by (auto simp: it_ok_def fill_group_def word_constants z)
      then show ?thesis using pushFill_ok [OF 1(3), of ?c "it_val it = 0"] 1(4) c True by (simp add: b1_def g)
    next
      case lit: False
      then have "?c = 1" using 1(2) False by (simp add: it_ok_def)
      moreover have "push_bit 31 1 - 1 = (mask 31 :: word_t)" by (simp add: mask_numeral)
      moreover have "isLite ?n" by (simp add: isFill_bit bit_and_iff bit_mask_iff)
      ultimately show ?thesis using pushLite_ok [OF 1(3), of ?n] 1(4) lit by (simp only: b1_def if_False) (simp add: g)
    qed
    have "bld_ok (not_loop (it_next it) b1) ((G @ replicate ?c ?n) @ map (\<lambda>g. NOT g AND mask 31) (it_groups (it_next it)))"
      using 1(1) [OF en o b1 [unfolded b1_def], folded b1_def] 1(4) by (simp add: g)
    moreover have "not_loop it b = not_loop (it_next it) b1" using en by (subst not_loop.simps) (simp add: b1_def)
    ultimately show ?thesis by (simp add: g)
  qed
qed

lemma update_loop_out:
  assumes "it_ok it" "it_at it k" "31 * (k + length (it_groups it)) \<le> n"
  shows "update_loop v it b (int n) = Inl Assertion_failed"
  using assms
proof (induction v it b "int n" arbitrary: k rule: update_loop.induct)
  case (1 v it b)
  show ?case
  proof (cases "it_rest it = []")
    case True
    then show ?thesis by (subst update_loop.simps) (simp add: it_ended_def)
  next
    case False
    then have en: "\<not> it_ended it" by (simp add: it_ended_def)
    note a = it_at_next [OF 1(2,3) False]
    have "length (it_groups it) = unat (it_cnt it) + length (it_groups (it_next it))" by (simp add: a(3))
    then have "unat (it_cnt it) \<le> length (it_groups it)" by simp
    then have "31 * (k + unat (it_cnt it)) \<le> 31 * (k + length (it_groups it))" by simp
    then have "31 * (k + unat (it_cnt it)) \<le> n" using 1(4) by (rule le_trans)
    then have "int (31 * (k + unat (it_cnt it))) \<le> int n" by (simp only: of_nat_le_iff)
    then have "it_ii it \<le> int n" using a(5) by (simp only: of_nat_mult of_nat_numeral)
    then have c: "int n < it_i it \<or> it_ii it \<le> int n" by simp
    have "update_loop v (it_next it) (it_copy it b) (int n) = Inl Assertion_failed"
      using a(3) 1(4) by (intro 1(1) [OF en c a(1,2)]) simp
    then show ?thesis using en c by (subst update_loop.simps) (simp only: if_False if_True)
  qed
qed

lemma size_loop_ok: "it_ok it \<Longrightarrow> size_loop it r = r + int (length (it_groups it))"
proof (induction it r rule: size_loop.induct)
  case (1 it r)
  show ?case
  proof (cases "it_rest it = []")
    case True
    then show ?thesis by (subst size_loop.simps) (simp add: it_ended_def it_groups_def)
  next
    case False
    then have en: "\<not> it_ended it" by (simp add: it_ended_def)
    have "size_loop (it_next it) (r + uint (it_cnt it)) = r + uint (it_cnt it) + int (length (it_groups (it_next it)))"
      by (rule 1(1) [OF en]) (rule it_next_ok [OF it_ok_tl [OF 1(2) False]])
    then show ?thesis using en by (subst size_loop.simps) (simp add: it_groups_next [OF 1(2) False])
  qed
qed

text \<open>Counting ones in bits.\<close>

definition ones_in :: "bool list \<Rightarrow> nat" where
  "ones_in bs = length (filter id bs)"

lemma ones_in_append [simp]: "ones_in (as @ bs) = ones_in as + ones_in bs"
  by (simp add: ones_in_def)

lemma ones_in_replicate: "ones_in (replicate n b) = (if b then n else 0)"
  by (simp add: ones_in_def)

definition last_cut :: "nat \<Rightarrow> nat" where
  "last_cut rem = (if rem = 0 then 0 else 31 - rem)"

lemma map_bit_fill_group: "map (bit (fill_group v)) [0..<31] = replicate 31 v"
  by (rule nth_equalityI) (simp_all add: fill_group_def word_constants bit_mask_iff del: upt_Suc)

lemma chunk_bits_fill_group: "chunk_bits 31 (replicate c (fill_group v)) = replicate (31 * c) v"
  by (induction c) (simp_all only: replicate_Suc replicate_0 chunk_bits_simps map_bit_fill_group mult_0_right replicate_add [symmetric] mult_Suc_right)

lemma ones_lite:
  assumes "isLite w"
  shows "ones_u32 w = ones_in (map (bit w) [0..<31])"
    "rem < 31 \<Longrightarrow> ones_u32 (w AND wmask rem) = ones_in (take rem (map (bit w) [0..<31]))"
proof -
  have b: "\<not> bit w 31" using assms by (simp add: isFill_bit)
  have c: "ones_u32 u = ones_in (map (bit u) [0..<n])" if "n \<le> 32" "\<And>k. n \<le> k \<Longrightarrow> k < 32 \<Longrightarrow> \<not> bit u k" for u :: word_t and n
  proof -
    have "filter (bit u) [n..<32] = []" using that(2) by (auto simp: filter_empty_conv)
    moreover have "[0..<32] = [0..<n] @ [n..<32]" using that(1) by (metis le0 upt_add_eq_append le_add_diff_inverse add_0)
    ultimately have "filter (bit u) [0..<32] = filter (bit u) [0..<n]" by simp
    then show ?thesis by (simp add: ones_countOnes countOnes_def ones_in_def filter_map o_def del: upt_Suc)
  qed
  have "31 \<le> k \<Longrightarrow> k < 32 \<Longrightarrow> \<not> bit w k" for k using b by (cases "k = 31") auto
  then show "ones_u32 w = ones_in (map (bit w) [0..<31])" by (intro c) auto
  assume r: "rem < 31"
  have "ones_u32 (w AND wmask rem) = ones_in (map (bit (w AND wmask rem)) [0..<rem])"
    using r by (intro c) (auto simp: wmask_mask bit_and_iff bit_mask_iff)
  also have "map (bit (w AND wmask rem)) [0..<rem] = map (bit w) [0..<rem]"
    using r by (auto simp: wmask_mask bit_and_iff bit_mask_iff)
  also have "\<dots> = take rem (map (bit w) [0..<31])" using r by (simp add: take_map del: upt_Suc)
  finally show "ones_u32 (w AND wmask rem) = ones_in (take rem (map (bit w) [0..<31]))" .
qed

lemma it_word_bits:
  assumes "it_ok it" "it_rest it \<noteq> []"
  shows "if it_fill it then chunk_bits 31 (replicate (unat (it_cnt it)) (it_val it)) = replicate (31 * unat (it_cnt it)) (it_val it \<noteq> 0)
         else unat (it_cnt it) = 1 \<and> chunk_bits 31 (replicate (unat (it_cnt it)) (it_val it)) = map (bit (it_val it)) [0..<31]"
proof (cases "it_fill it")
  case True
  have "it_val it = fill_group (it_val it \<noteq> 0)"
    using assms True by (auto simp: it_ok_def fill_group_def ALL_ONES_def ALL_ZEROES_def)
  then show ?thesis using True chunk_bits_fill_group by (metis (full_types))
next
  case False
  then show ?thesis using assms by (simp add: it_ok_def del: upt_Suc)
qed

lemma ones_loop_ok:
  assumes "it_ok it" "rem < 31" "it_rest it \<noteq> []"
  shows "ones_loop rem it r =
    r + int (ones_in (take (31 * length (it_groups it) - last_cut rem) (chunk_bits 31 (it_groups it))))"
  using assms
proof (induction rem it r rule: ones_loop.induct)
  case (1 rem it r)
  have en: "\<not> it_ended it" using 1(4) by (simp add: it_ended_def)
  let ?c = "unat (it_cnt it)"
  define r1 where "r1 = (if it_fill it then
                   if it_val it \<noteq> 0
                   then (let r = r + times (uint (it_cnt it)) in
                         if rem \<noteq> 0 \<and> it_isLast it then r - (31 - int rem) else r)
                   else r
                 else r + int (ones_u32 (if rem \<noteq> 0 \<and> it_isLast it then it_val it AND wmask rem else it_val it)))"
  have step: "ones_loop rem it r = ones_loop rem (it_next it) r1"
    using en by (subst ones_loop.simps) (simp only: if_False Let_def [of _ "ones_loop rem (it_next it)"] r1_def)
  note w = it_word_bits [OF 1(2,4)]
  note g = it_groups_next [OF 1(2,4)]
  have c: "0 < ?c" using it_cnt_pos [OF 1(2,4)] by (simp add: word_less_nat_alt)
  have lv: "isLite (it_val it)" by (rule it_val_lite [OF 1(2,4)])
  show ?case
  proof (cases "tl (it_rest it) = []")
    case True
    then have last: "it_isLast it" and n: "it_rest (it_next it) = []" by (simp_all add: it_isLast_def)
    then have g1: "it_groups it = replicate ?c (it_val it)" using g by (simp add: it_groups_def)
    have "ones_loop rem (it_next it) r1 = r1" using n by (subst ones_loop.simps) (simp add: it_ended_def)
    moreover have "r1 = r + int (ones_in (take (31 * ?c - last_cut rem) (chunk_bits 31 (replicate ?c (it_val it)))))"
    proof (cases "it_fill it")
      case f: True
      have m: "min (31 * ?c - last_cut rem) (31 * ?c) = 31 * ?c - last_cut rem" by simp
      have k: "int (31 * ?c - (31 - rem)) = 31 * uint (it_cnt it) - (31 - int rem)" using c 1(3) by simp
      show ?thesis
        using f w last c k by (simp add: r1_def Let_def take_replicate m ones_in_replicate last_cut_def)
    next
      case f: False
      have "rem \<noteq> 0 \<Longrightarrow> 31 - (31 - rem) = rem" using 1(3) by simp
      then show ?thesis using f w last ones_lite(1) [OF lv] ones_lite(2) [OF lv 1(3)]
        by (simp add: r1_def last_cut_def del: upt_Suc)
    qed
    ultimately show ?thesis using step g1 by simp
  next
    case False
    then have notlast: "\<not> it_isLast it" and n: "it_rest (it_next it) \<noteq> []" by (simp_all add: it_isLast_def)
    have o: "it_ok (it_next it)" by (rule it_next_ok [OF it_ok_tl [OF 1(2,4)]])
    have "it_groups (it_next it) \<noteq> []" using it_groups_empty [OF o] n by simp
    then have "1 \<le> length (it_groups (it_next it))" by (cases "it_groups (it_next it)") auto
    then have cut: "last_cut rem \<le> 31 * length (it_groups (it_next it))" by (simp add: last_cut_def) linarith
    have r1: "r1 = r + int (ones_in (chunk_bits 31 (replicate ?c (it_val it))))"
      using notlast w ones_lite(1) [OF lv]
      by (cases "it_fill it") (simp_all add: r1_def Let_def ones_in_replicate del: upt_Suc)
    have "ones_loop rem (it_next it) r1 = r1 + int (ones_in (take (31 * length (it_groups (it_next it)) - last_cut rem)
        (chunk_bits 31 (it_groups (it_next it)))))"
      using 1(1) [OF en r1_def o 1(3) n] .
    moreover have "take (31 * length (it_groups it) - last_cut rem) (chunk_bits 31 (it_groups it)) =
        chunk_bits 31 (replicate ?c (it_val it)) @
        take (31 * length (it_groups (it_next it)) - last_cut rem) (chunk_bits 31 (it_groups (it_next it)))"
      using cut by (simp add: g chunk_bits_append)
    ultimately show ?thesis using step r1 by simp
  qed
qed


section \<open>Storing the result\<close>

text \<open>
  When the vector ends with an incomplete group, \<^verbatim>\<open>fix\<close> normalises it. It takes the word in
  front of the last one for a fill without testing it, and increments it when its bit 30 is the
  value of the last bits. It is right exactly when the last group is a fill already, when its bits in the vector
  are not all equal, when it is alone, when the group in front of it is one of a fill, or when the bit 30 of this
  group is not the value of the last bits.
\<close>

definition fix_safe :: "nat \<Rightarrow> word_t list \<Rightarrow> bool" where
  "fix_safe rem G \<longleftrightarrow> rem = 0 \<or> last G = ALL_ZEROES \<or> last G = ALL_ONES \<or>
     (last G AND wmask rem \<noteq> 0 \<and> last G AND wmask rem \<noteq> wmask rem) \<or> length G = 1 \<or>
     last (butlast G) = ALL_ZEROES \<or> last (butlast G) = ALL_ONES \<or>
     (bit (last (butlast G)) 30 \<longleftrightarrow> last G AND wmask rem = 0)"

text \<open>What \<^verbatim>\<open>fix\<close> leaves: the bits over the size are those of a fill, or null.\<close>

definition fix_norm :: "nat \<Rightarrow> word_t list \<Rightarrow> bool" where
  "fix_norm rem G \<longleftrightarrow> rem = 0 \<or> last G = ALL_ZEROES \<or> last G = ALL_ONES \<or>
     last G AND wmask rem = last G \<and> last G AND wmask rem \<noteq> wmask rem"

definition wah_len :: "nat \<Rightarrow> word_t list \<Rightarrow> nat" where
  "wah_len rem G = 31 * length G - last_cut rem"

definition group_bits :: "nat \<Rightarrow> word_t list \<Rightarrow> bool list" where
  "group_bits rem G = take (wah_len rem G) (chunk_bits 31 G)"

lemma wah_len_le: "rem < 31 \<Longrightarrow> G \<noteq> [] \<Longrightarrow> last_cut rem \<le> 31 * length G"
  by (cases G) (auto simp: last_cut_def)

lemma length_group_bits [simp]: "length (group_bits rem G) = wah_len rem G"
  by (simp add: group_bits_def wah_len_def)

lemma words_groups_ne: "words_ok ws \<Longrightarrow> ws \<noteq> [] \<Longrightarrow> wah_groups ws \<noteq> []"
  by (cases ws) (auto simp: word_ok_def word_groups_def word_pos_iff)

lemma masked_last_bits:
  assumes "rem \<noteq> 0" "rem < 31"
  shows "group_bits rem (G @ [w AND wmask rem]) = group_bits rem (G @ [w])"
proof -
  have "take rem (map (bit (w AND wmask rem)) [0..<31]) = take rem (map (bit w) [0..<31])"
    using assms by (intro nth_equalityI) (simp_all add: wmask_mask bit_and_iff bit_mask_iff del: upt_Suc)
  moreover have "31 * length G + 31 - (31 - rem) = 31 * length G + rem" using assms(2) by simp
  ultimately show ?thesis using assms(1)
    by (simp add: group_bits_def wah_len_def last_cut_def chunk_bits_append del: upt_Suc)
qed

lemma fill_group_mask: "fill_group v AND wmask rem = (if v then wmask rem else 0)" if "rem < 31"
  using that by (intro bit_word_eqI) (auto simp: fill_group_def word_constants wmask_mask bit_and_iff bit_mask_iff)

lemma constant_last_bits:
  assumes "rem \<noteq> 0" "rem < 31" "w AND wmask rem = (if v then wmask rem else 0)"
  shows "group_bits rem (G @ [fill_group v]) = group_bits rem (G @ [w])"
  using masked_last_bits [OF assms(1,2), of G w] masked_last_bits [OF assms(1,2), of G "fill_group v"] fill_group_mask [OF assms(2), of v] assms(3)
  by simp

lemma lite_plus_one: "isLite (u + 1)" if "isLite u" "u \<noteq> ALL_ONES"
proof -
  have u: "unat u < 2 ^ 31"
  proof (rule ccontr)
    assume "\<not> unat u < 2 ^ 31"
    then have "unat u div 2 ^ 31 = 1" using unat_ltp [of u] by (simp add: div_nat_eqI)
    then have "bit (unat u) 31" by (simp add: bit_iff_odd)
    then show False using that(1) by (simp add: isFill_bit bit_unsigned_iff)
  qed
  moreover have "unat u \<noteq> 2 ^ 31 - 1" using that(2) by (auto simp: ALL_ONES_def word_unat_eq_iff)
  ultimately have "unat (u + 1) = unat u + 1" "unat u + 1 < 2 ^ 31" by (auto simp: unat_word_ariths)
  then have "\<not> bit (unat (u + 1)) 31" by (simp add: bit_iff_odd)
  then show ?thesis by (simp add: isFill_bit bit_unsigned_iff)
qed

lemma wah_groups_last: "words_ok (us @ [u]) \<Longrightarrow> last (wah_groups (us @ [u])) = (if isFill u then fill_group (isOnes u) else u)"
  by (auto simp: word_groups_def word_ok_def word_pos_iff last_replicate)

text \<open>The word that \<^verbatim>\<open>fix\<close> makes of a last literal whose bits are all equal.\<close>

lemma builder_fix_constant:
  assumes w: "bld_words b = vs @ [w]" "isLite w" and rem: "rem \<noteq> 0" "rem < 31" "w AND wmask rem = (if z then wmask rem else 0)"
  shows "builder_fix b rem = Inr (if vs \<noteq> [] \<and> isOnes (last vs) = z then butlast vs @ [last vs + 1] else vs @ [fill 1 z])"
proof -
  have "bit (wmask rem) 0" using rem(1,2) by (simp add: wmask_mask bit_mask_iff)
  then have "wmask rem \<noteq> 0" by auto
  then show ?thesis using w rem by (cases vs rule: rev_cases) (auto simp: builder_fix_def Let_def isLite_isFill nth_append list_update_append)
qed

lemma builder_fix_exact:
  assumes b: "bld_ok b G" and ne: "G \<noteq> []" and rem: "rem < 31" and len: "length G + 1 < 2 ^ 30"
  obtains ws where "builder_fix b rem = Inr ws"
    "if fix_safe rem G then words_ok ws \<and> ws \<noteq> [] \<and> length (wah_groups ws) = length G \<and>
        group_bits rem (wah_groups ws) = group_bits rem G \<and> fix_norm rem (wah_groups ws)
     else length (wah_groups ws) < length G"
proof -
  have o: "words_ok (bld_words b)" "wah_groups (bld_words b) = G" using b by (simp_all add: bld_ok_def)
  then have nw: "bld_words b \<noteq> []" using ne by auto
  then obtain vs w where w: "bld_words b = vs @ [w]" by (metis rev_exhaust)
  have ow: "words_ok vs" "word_ok w" using o(1) w by simp_all
  have G: "G = wah_groups vs @ word_groups w" using o(2) w by simp
  show thesis
  proof (cases "rem \<noteq> 0 \<and> isLite w")
    case False
    then have f: "builder_fix b rem = Inr (bld_words b)"
      by (cases "rem = 0") (simp_all add: builder_fix_def Let_def w)
    have "last G = ALL_ZEROES \<or> last G = ALL_ONES" if "rem \<noteq> 0"
      using wah_groups_last [of vs w] o w that False by (auto simp: isLite_isFill fill_group_def)
    then have "fix_safe rem G" "fix_norm rem G" by (auto simp: fix_safe_def fix_norm_def)
    then show thesis using that [OF f] o nw by simp
  next
    case True
    let ?m = "w AND wmask rem"
    have g: "G = wah_groups vs @ [w]" using G True by (simp add: lite_groups)
    have nl: "w \<noteq> ALL_ZEROES" "w \<noteq> ALL_ONES" using ow(2) True by (simp_all add: word_ok_def isLite_isFill)
    show thesis
    proof (cases "?m \<noteq> 0 \<and> ?m \<noteq> wmask rem")
      case m: True
      then have f: "builder_fix b rem = Inr (vs @ [?m])" using True w by (simp add: builder_fix_def Let_def)
      have nb: "\<not> bit ?m 30" "isLite ?m" using rem by (simp_all add: wmask_mask bit_and_iff bit_mask_iff isFill_bit)
      then have "?m \<noteq> ALL_ONES" by (auto simp: word_constants bit_mask_iff)
      then have "word_ok ?m" using m nb(2) by (simp add: word_ok_def isLite_isFill word_constants)
      moreover have "fix_safe rem G" using m by (simp add: fix_safe_def g)
      moreover have "fix_norm rem (wah_groups (vs @ [?m]))" using m by (simp add: fix_norm_def lite_groups nb(2) and.assoc)
      ultimately show thesis using that [OF f] ow(1) g True rem nb(2) masked_last_bits by (simp add: lite_groups)
    next
      case m: False
      define z where "z = (?m \<noteq> 0)"
      have mz: "?m = (if z then wmask rem else 0)" using m by (auto simp: z_def)
      note f = builder_fix_constant [OF w conjunct2 [OF True] conjunct1 [OF True] rem mz]
      note c = constant_last_bits [OF conjunct1 [OF True] rem mz]
      have last: "last G = w" "last (butlast G) = last (wah_groups vs)" "length G = 1 \<longleftrightarrow> wah_groups vs = []" by (simp_all add: g)
      have norm: "fix_norm rem (H @ [fill_group z])" for H by (auto simp: fix_norm_def fill_group_def)
      show thesis
      proof (cases "vs \<noteq> [] \<and> isOnes (last vs) = z")
        case False
        have "fix_safe rem G"
        proof (cases vs rule: rev_cases)
          case (snoc us u)
          have "last (wah_groups vs) = (if isFill u then fill_group (isOnes u) else u)" using wah_groups_last [of us u] ow(1) snoc by simp
          then show ?thesis using False snoc unfolding fix_safe_def last by (auto simp: z_def isOnes_bit fill_group_def simp del: wah_groups_simps split: if_splits)
        qed (simp add: fix_safe_def g)
        then show thesis using that [OF f] False ow(1) g c norm fill_one by (simp del: wah_groups_simps(2) add: fill_one wah_groups_def)
      next
        case merged: True
        then obtain us u where u: "vs = us @ [u]" "isOnes u = z" by (metis append_butlast_last_id)
        have f': "builder_fix b rem = Inr (us @ [u + 1])" using f merged u by simp
        have ou: "words_ok us" "word_ok u" using ow(1) u(1) by simp_all
        have lu: "last (wah_groups vs) = (if isFill u then fill_group (isOnes u) else u)" using wah_groups_last [of us u] ow(1) u(1) by simp
        have nv: "wah_groups vs \<noteq> []" using words_groups_ne [OF ow(1)] u(1) by simp
        show thesis
        proof (cases "isFill u")
          case True
          have safe: "fix_safe rem G" using lu True unfolding fix_safe_def last by (auto simp: fill_group_def)
          have n: "unat (fillCount u) + unat (1 :: word_t) < 2 ^ 30" using len g u(1) True by (simp add: word_groups_def)
          note a = fill_add [OF n]
          have "fillCount (u + 1) \<noteq> 0" using a(3) by (auto simp: word_pos_iff)
          then have "word_ok (u + 1)" "word_groups (u + 1) = word_groups u @ [fill_group z]"
            using a True u(2) by (simp_all add: word_ok_def word_groups_def replicate_append_same)
          then show thesis using that [OF f'] safe ou(1) g u(1) c [of "wah_groups vs"] norm [of "wah_groups vs"] by simp
        next
          case False
          then have l: "isLite u" "u \<noteq> ALL_ZEROES" "u \<noteq> ALL_ONES" using ou(2) by (simp_all add: isLite_isFill word_ok_def)
          have "\<not> fix_safe rem G"
            using \<open>rem \<noteq> 0 \<and> isLite w\<close> nl m lu False l nv u(2) unfolding fix_safe_def last by (auto simp: z_def isOnes_bit)
          moreover have "length (wah_groups (us @ [u + 1])) < length G" using g u(1) l lite_plus_one [OF l(1,3)] by (simp add: lite_groups)
          ultimately show thesis using that [OF f'] by simp
        qed
      qed
    qed
  qed
qed

lemma builder_fix_ok:
  assumes "bld_ok b G" "G \<noteq> []" "rem < 31" "length G \<le> max_groups" "fix_safe rem G"
  obtains ws where "builder_fix b rem = Inr ws" "words_ok ws" "ws \<noteq> []" "length (wah_groups ws) = length G"
    "group_bits rem (wah_groups ws) = group_bits rem G" "fix_norm rem (wah_groups ws)"
  by (rule builder_fix_exact [OF assms(1-3)]) (use assms(4,5) that in \<open>auto simp: max_groups_def\<close>)


section \<open>Operations of the vector\<close>

definition wah_ok :: "wah \<Rightarrow> bool" where
  "wah_ok v \<longleftrightarrow> wah_words v \<noteq> [] \<and> words_ok (wah_words v) \<and> wah_rem v < 31 \<and>
     length (wah_groups (wah_words v)) \<le> max_groups"

text \<open>The groups of a vector, and its bits.\<close>

definition groups_of :: "wah \<Rightarrow> word_t list" where
  "groups_of v = wah_groups (wah_words v)"

definition wah_bits :: "wah \<Rightarrow> bool list" where
  "wah_bits v = group_bits (wah_rem v) (groups_of v)"

text \<open>The bits over the size of a normal vector are null or those of a fill.\<close>

definition wah_norm :: "wah \<Rightarrow> bool" where
  "wah_norm v \<longleftrightarrow> fix_norm (wah_rem v) (groups_of v)"

lemma wah_iter:
  assumes "wah_ok v"
  obtains it where "it_new (wah_words v) = Inr it" "it_ok it" "it_groups it = groups_of v" "it_at it 0" "it_rest it \<noteq> []"
proof -
  have w: "words_ok (wah_words v)" "wah_words v \<noteq> []" using assms by (simp_all add: wah_ok_def)
  obtain it where it: "it_new (wah_words v) = Inr it" "it_ok it" "it_groups it = wah_groups (wah_words v)" "it_at it 0"
    "it_rest it = wah_words v" using it_new_ok [OF w] .
  show thesis by (rule that [OF it(1,2) _ it(4)]) (simp_all only: it groups_of_def w not_False_eq_True)
qed

lemma wah_ok_facts:
  assumes "wah_ok v"
  shows "groups_of v \<noteq> []" "wah_rem v < 31" "length (groups_of v) \<le> max_groups" "length (groups_of v) < 2 ^ 30"
    "wah_words v \<noteq> []" "31 * length (groups_of v) = length (wah_bits v) + last_cut (wah_rem v)"
proof -
  show g: "groups_of v \<noteq> []" "wah_rem v < 31" "length (groups_of v) \<le> max_groups" "wah_words v \<noteq> []"
    using assms words_groups_ne by (auto simp: wah_ok_def groups_of_def)
  then show "length (groups_of v) < 2 ^ 30" by (simp add: max_groups_def)
  show "31 * length (groups_of v) = length (wah_bits v) + last_cut (wah_rem v)"
    using wah_len_le [OF g(2,1)] by (simp add: wah_bits_def wah_len_def)
qed

lemma wah_store_ok:
  assumes b: "bld_ok b G" "G \<noteq> []" "length G \<le> max_groups" and rem: "rem < 31" "fix_safe rem G"
  obtains ws where "wah_store r b rem = Inr (r\<lparr>wah_words := ws\<rparr>)" "wah_ok \<lparr>wah_rem = rem, wah_words = ws\<rparr>"
    "group_bits rem (wah_groups ws) = group_bits rem G" "length (wah_groups ws) = length G" "fix_norm rem (wah_groups ws)"
proof -
  obtain ws where ws: "builder_fix b rem = Inr ws" "words_ok ws" "ws \<noteq> []" "length (wah_groups ws) = length G"
    "group_bits rem (wah_groups ws) = group_bits rem G" "fix_norm rem (wah_groups ws)"
    using builder_fix_ok [OF b(1,2) rem(1) b(3) rem(2)] by blast
  show thesis by (rule that [of ws]) (use ws b rem in \<open>simp_all add: wah_store_def wah_ok_def\<close>)
qed

lemma nth_group_bits:
  "n < wah_len rem G \<Longrightarrow> group_bits rem G ! n = bit (G ! (n div 31)) (n mod 31)"
  by (simp add: group_bits_def nth_chunk_bits wah_len_def)

lemma group_bits_update:
  assumes "n < wah_len rem G"
  shows "group_bits rem (G[n div 31 := lite_update x (G ! (n div 31)) (n mod 31)]) = (group_bits rem G)[n := x]"
proof -
  have k: "n div 31 < length G" using assms by (simp add: wah_len_def less_mult_imp_div_less mult.commute)
  have "chunk_bits 31 (G[n div 31 := lite_update x (G ! (n div 31)) (n mod 31)]) = (chunk_bits 31 G)[31 * (n div 31) + n mod 31 := x]"
    by (rule chunk_bits_update [OF k]) (auto simp: lite_update_bits)
  then show ?thesis by (simp add: group_bits_def wah_len_def take_update_swap)
qed

lemma wah_set_value_eq:
  "WAHVector_set_value v n x =
     bind_res (it_new (wah_words v)) (\<lambda>it.
     bind_res (update_loop x it (builder_new (length (wah_words v) + 2)) n) (\<lambda>b. wah_store v b (wah_rem v)))"
  by (simp add: WAHVector_set_value_def WAHVector_set_def WAHVector_clear_def)

lemma wah_update_ok:
  assumes v: "wah_ok v" and n: "n < length (wah_bits v)"
    and safe: "fix_safe (wah_rem v) ((groups_of v)[n div 31 := lite_update x (groups_of v ! (n div 31)) (n mod 31)])"
  shows "\<exists>r. WAHVector_set_value v (int n) x = Inr r \<and> wah_ok r \<and> wah_norm r \<and> wah_rem r = wah_rem v \<and> wah_bits r = (wah_bits v)[n := x]"
proof -
  note f = wah_ok_facts [OF v]
  obtain it where it: "it_new (wah_words v) = Inr it" "it_ok it" "it_groups it = groups_of v" "it_at it 0"
    using wah_iter [OF v] by blast
  let ?G = "(groups_of v)[n div 31 := lite_update x (groups_of v ! (n div 31)) (n mod 31)]"
  have b0: "bld_ok (builder_new (length (wah_words v) + 2)) []" by (rule builder_new_ok) simp
  obtain b where b: "update_loop x it (builder_new (length (wah_words v) + 2)) (int n) = Inr b" "bld_ok b ?G"
    using update_loop_ok [OF it(2,4) b0, of n x] n f by (auto simp: it(3))
  obtain ws where ws: "wah_store v b (wah_rem v) = Inr (v\<lparr>wah_words := ws\<rparr>)"
    "wah_ok \<lparr>wah_rem = wah_rem v, wah_words = ws\<rparr>" "group_bits (wah_rem v) (wah_groups ws) = group_bits (wah_rem v) ?G"
    "fix_norm (wah_rem v) (wah_groups ws)"
    using wah_store_ok [OF b(2) _ _ f(2) safe, of v] f by auto
  have "wah_bits (v\<lparr>wah_words := ws\<rparr>) = (wah_bits v)[n := x]"
    using ws(3) n by (simp add: wah_bits_def groups_of_def group_bits_update)
  then show ?thesis using ws b it(1) by (simp add: wah_set_value_eq wah_ok_def wah_norm_def groups_of_def)
qed

lemma group_bits_map2:
  assumes "\<And>a b k. k < 31 \<Longrightarrow> bit (f a b) k = g (bit a k) (bit b k)" "length G = length H"
  shows "group_bits rem (map2 f G H) = map2 g (group_bits rem G) (group_bits rem H)"
  using assms chunk_bits_map2 [of 31 f g G H]
  by (simp add: group_bits_def wah_len_def take_map take_zip)

lemma do_op_store:
  assumes f: "op_ok f" and vw: "wah_ok v" "wah_ok w" "length (groups_of v) = length (groups_of w)"
  obtains b where "\<And>r. do_op f r v w = wah_store r b (wah_rem v)" "bld_ok b (map2 f (groups_of v) (groups_of w))"
proof -
  note fv = wah_ok_facts [OF vw(1)]
  obtain i where i: "it_new (wah_words v) = Inr i" "it_ok i" "it_groups i = groups_of v" using wah_iter [OF vw(1)] by blast
  obtain j where j: "it_new (wah_words w) = Inr j" "it_ok j" "it_groups j = groups_of w" using wah_iter [OF vw(2)] by blast
  have b0: "bld_ok (builder_new (max (length (wah_words v)) (length (wah_words w)))) []"
    using fv(5) by (intro builder_new_ok) (simp add: less_max_iff_disj)
  obtain b where "do_loop f i j (builder_new (max (length (wah_words v)) (length (wah_words w)))) = Inr b"
    "bld_ok b (map2 f (groups_of v) (groups_of w))"
    using do_loop_ok [OF f i(2) j(2) _ b0] vw(3) fv(4) by (auto simp: i j)
  then show thesis using that i j by (simp add: do_op_def)
qed


section \<open>Properties\<close>

text \<open>
  C18. Bits of a compressed vector of at most 149619 groups: reading gives the bit and asserts
  past the last group; setting or clearing a bit changes exactly this bit and leaves a normal vector under the
  condition \<^verbatim>\<open>fix_safe\<close> on the groups that result; \<^verbatim>\<open>size\<close> and \<^verbatim>\<open>countOnes\<close> give the number of bits and
  of ones. The division by 31 is wrong at 4638219.
\<close>

theorem wah_bit_operations:
  assumes v: "wah_ok v" and n: "n < 31 * max_groups"
  shows "(if n < length (wah_bits v) then WAHVector_bit v (int n) = Inr (wah_bits v ! n)
          else 31 * length (groups_of v) \<le> n \<longrightarrow>
            WAHVector_bit v (int n) = Inl Assertion_failed \<and> WAHVector_set_value v (int n) x = Inl Assertion_failed) \<and>
    (n < length (wah_bits v) \<and>
     fix_safe (wah_rem v) ((groups_of v)[n div 31 := lite_update x (groups_of v ! (n div 31)) (n mod 31)]) \<longrightarrow>
      (\<exists>r. WAHVector_set_value v (int n) x = Inr r \<and> wah_ok r \<and> wah_norm r \<and> wah_rem r = wah_rem v \<and>
        wah_bits r = (wah_bits v)[n := x])) \<and>
    WAHVector_size v = Inr (int (length (wah_bits v))) \<and>
    WAHVector_countOnes v = Inr (int (length (filter id (wah_bits v)))) \<and>
    wdiv 4638219 = 4638219 div 31 + 1" (is "?R \<and> ?U \<and> ?S \<and> ?C \<and> ?D")
proof (intro conjI)
  note f = wah_ok_facts [OF v]
  obtain it where it: "it_new (wah_words v) = Inr it" "it_ok it" "it_groups it = groups_of v" "it_at it 0" "it_rest it \<noteq> []"
    using wah_iter [OF v] by blast
  have bit: "WAHVector_bit v (int n) = (if n < 31 * length (groups_of v)
      then Inr (bit (groups_of v ! (n div 31)) (n mod 31)) else Inl Assertion_failed)"
    using bit_loop_ok [OF it(2,4) _ n] by (simp add: WAHVector_bit_def it(1,3))
  have "31 * length (groups_of v) \<le> n \<Longrightarrow> WAHVector_set_value v (int n) x = Inl Assertion_failed"
    using update_loop_out [OF it(2,4)] by (simp add: wah_set_value_eq it(1,3))
  then show ?R using bit f(6) by (simp add: wah_bits_def nth_group_bits)
  show ?U using wah_update_ok [OF v] by blast
  show ?S using f(2,6) size_loop_ok [OF it(2), of 0] it(1,3)
    by (auto simp: WAHVector_size_def Let_def last_cut_def)
  show ?C using ones_loop_ok [OF it(2) f(2) it(5), of 0]
    by (simp add: WAHVector_countOnes_def it(1,3) wah_bits_def group_bits_def wah_len_def ones_in_def)
qed (simp add: wdiv_def)

theorem wah_bit_operations_witness:
  "WAHVector_bit \<lparr>wah_rem = 2, wah_words = [0x40000000, 0x80000001]\<rparr> 30 = Inr True"
proof -
  let ?v = "\<lparr>wah_rem = 2, wah_words = [0x40000000, 0x80000001 :: word_t]\<rparr>"
  have g: "wah_groups (wah_words ?v) = [0x40000000, 0]"
    by (simp add: word_groups_def isFill_def fillCount_def isOnes_def FILL_def ONES_def fill_group_def ALL_ZEROES_def)
  have "wah_ok ?v"
    unfolding wah_ok_def g
    by (simp add: word_ok_def isFill_def fillCount_def FILL_def ONES_def ALL_ZEROES_def ALL_ONES_def max_groups_def)
  then have "if 30 < length (wah_bits ?v) then WAHVector_bit ?v (int 30) = Inr (wah_bits ?v ! 30)
      else 31 * length (groups_of ?v) \<le> 30 \<longrightarrow>
        WAHVector_bit ?v (int 30) = Inl Assertion_failed \<and> WAHVector_set_value ?v (int 30) True = Inl Assertion_failed"
    by (rule wah_bit_operations [THEN conjunct1]) (simp add: max_groups_def)
  moreover have "wah_bits ?v = group_bits 2 [0x40000000, 0]" by (simp only: wah_bits_def groups_of_def g) simp
  moreover have "group_bits 2 [0x40000000 :: word_t, 0] ! 30" "wah_len 2 [0x40000000 :: word_t, 0] = 33"
    by (simp_all add: nth_group_bits wah_len_def last_cut_def)
  ultimately show ?thesis by simp
qed

lemma WAHVector_new_ok:
  assumes "0 < n" "n \<le> 31 * (max_groups - 1)"
  shows "wah_ok (WAHVector_new (int n) b)" "wah_bits (WAHVector_new (int n) b) = replicate n b" "wah_norm (WAHVector_new (int n) b)"
proof -
  define c where "c = n div 31 + (if n mod 31 \<noteq> 0 then 1 else 0)"
  have lt: "n < 31 * max_groups" using assms(2) by (simp add: max_groups_def)
  have w: "wdiv (int n) = int (n div 31)" "wmod (int n) = int (n mod 31)"
    using wdiv_ok [of "int n"] lt by (simp_all add: zdiv_int zmod_int)
  have c: "0 < c" using assms(1) by (auto simp: c_def)
  have cm: "c \<le> max_groups" using assms(2) by (auto simp: c_def max_groups_def)
  then have cb: "c < 2 ^ 30" by (simp add: max_groups_def)
  have e: "WAHVector_new (int n) b = \<lparr>wah_rem = n mod 31, wah_words = [fill (int c) b]\<rparr>"
    by (simp add: WAHVector_new_def Let_def w c_def)
  note f = fill_ok [OF c cb, of b]
  show "wah_ok (WAHVector_new (int n) b)" using f cm by (simp add: e wah_ok_def)
  show "wah_norm (WAHVector_new (int n) b)" using f c by (auto simp: e wah_norm_def groups_of_def fix_norm_def fill_group_def last_replicate)
  have "31 * c - last_cut (n mod 31) = n"
  proof (cases "n mod 31 = 0")
    case False
    have "31 * (n div 31) + n mod 31 = n" "n mod 31 < 31" by simp_all
    then show ?thesis using False unfolding c_def last_cut_def by simp
  next
    case True
    then have "31 * (n div 31) = n" using div_mult_mod_eq [of n 31] by simp
    then show ?thesis using True by (simp add: c_def last_cut_def)
  qed
  moreover from this have "n \<le> 31 * c" by simp
  ultimately show "wah_bits (WAHVector_new (int n) b) = replicate n b"
    using f by (simp add: e wah_bits_def groups_of_def group_bits_def wah_len_def chunk_bits_fill_group take_replicate min_def)
qed

text \<open>
  The outcome of an operation, in place on \<^verbatim>\<open>v\<close> and into a new vector.
\<close>

definition op_result :: "wah \<Rightarrow> wah res \<Rightarrow> wah res \<Rightarrow> bool list \<Rightarrow> bool" where
  "op_result v a m bs \<longleftrightarrow> (\<exists>ws. a = Inr (v\<lparr>wah_words := ws\<rparr>) \<and> m = Inr \<lparr>wah_rem = 0, wah_words = ws\<rparr> \<and>
     wah_ok (v\<lparr>wah_words := ws\<rparr>) \<and> wah_norm (v\<lparr>wah_words := ws\<rparr>) \<and> wah_bits (v\<lparr>wah_words := ws\<rparr>) = bs)"

lemma op_result_store:
  assumes b: "bld_ok b G" "G \<noteq> []" "length G \<le> max_groups" and rem: "wah_rem v < 31"
  shows "op_result v (wah_store v b (wah_rem v)) (wah_store WAHVector_null b (wah_rem v)) (group_bits (wah_rem v) G) \<longleftrightarrow> fix_safe (wah_rem v) G"
proof -
  have "length G + 1 < 2 ^ 30" using b(3) by (simp add: max_groups_def)
  then obtain ws where ws: "builder_fix b (wah_rem v) = Inr ws"
    "if fix_safe (wah_rem v) G then words_ok ws \<and> ws \<noteq> [] \<and> length (wah_groups ws) = length G \<and>
        group_bits (wah_rem v) (wah_groups ws) = group_bits (wah_rem v) G \<and> fix_norm (wah_rem v) (wah_groups ws)
     else length (wah_groups ws) < length G"
    using builder_fix_exact [OF b(1,2) rem] by blast
  show ?thesis
  proof (cases "fix_safe (wah_rem v) G")
    case True
    then show ?thesis using ws b(3) rem
      by (simp add: op_result_def wah_store_def WAHVector_null_def wah_ok_def wah_norm_def wah_bits_def groups_of_def)
  next
    case False
    then have l: "length (wah_groups ws) < length G" using ws(2) by simp
    have "wah_len (wah_rem v) (wah_groups ws) < wah_len (wah_rem v) G"
    proof -
      have "31 * length (wah_groups ws) + 31 \<le> 31 * length G" using l by simp
      moreover have "last_cut (wah_rem v) < 31" by (simp add: last_cut_def)
      ultimately show ?thesis unfolding wah_len_def by linarith
    qed
    then have "group_bits (wah_rem v) (wah_groups ws) \<noteq> group_bits (wah_rem v) G"
      using length_group_bits [of "wah_rem v" "wah_groups ws"] length_group_bits [of "wah_rem v" G] by force
    then show ?thesis using False ws(1)
      by (simp add: op_result_def wah_store_def WAHVector_null_def wah_bits_def groups_of_def)
  qed
qed

lemma do_op_result:
  assumes "op_ok f" "wah_ok v" "wah_ok w" "wah_rem v = wah_rem w" "length (groups_of v) = length (groups_of w)"
    "\<And>a b k. k < 31 \<Longrightarrow> bit (f a b) k = g (bit a k) (bit b k)"
  shows "op_result v (do_op f v v w) (do_op f WAHVector_null v w) (map2 g (wah_bits v) (wah_bits w)) \<longleftrightarrow>
    fix_safe (wah_rem v) (map2 f (groups_of v) (groups_of w))"
proof -
  note fv = wah_ok_facts [OF assms(2)] and fw = wah_ok_facts [OF assms(3)]
  obtain b where b: "\<And>r. do_op f r v w = wah_store r b (wah_rem v)" "bld_ok b (map2 f (groups_of v) (groups_of w))"
    using do_op_store [OF assms(1-3,5)] by blast
  have "map2 f (groups_of v) (groups_of w) \<noteq> []" "length (map2 f (groups_of v) (groups_of w)) \<le> max_groups" using fv fw by auto
  from op_result_store [OF b(2) this fv(2)] show ?thesis
    using group_bits_map2 [where f = f and g = g, OF assms(6,5), of "wah_rem v"] assms(4) by (simp add: b(1) wah_bits_def)
qed

lemma doNot_result:
  assumes "wah_ok v"
  shows "op_result v (WAHVector_applyNot v) (WAHVector_makeNot v) (map Not (wah_bits v)) \<longleftrightarrow>
    fix_safe (wah_rem v) (map (\<lambda>g. NOT g AND mask 31) (groups_of v))"
proof -
  note f = wah_ok_facts [OF assms(1)]
  obtain i where i: "it_new (wah_words v) = Inr i" "it_ok i" "it_groups i = groups_of v" using wah_iter [OF assms(1)] by blast
  have b0: "bld_ok (builder_new (length (wah_words v))) []" using f(5) by (intro builder_new_ok) simp
  let ?G = "map (\<lambda>g. NOT g AND mask 31) (groups_of v)"
  have b: "bld_ok (not_loop i (builder_new (length (wah_words v)))) ?G"
    using not_loop_ok [OF i(2) b0] f(4) by (simp add: i)
  have "group_bits (wah_rem v) ?G = map Not (wah_bits v)"
    using chunk_bits_map [of 31 "\<lambda>g. NOT g AND mask 31" Not "groups_of v"]
    by (simp add: wah_bits_def group_bits_def wah_len_def take_map bit_and_iff bit_not_iff bit_mask_iff)
  then show ?thesis using op_result_store [OF b _ _ f(2)] f(1,3)
    by (simp add: WAHVector_applyNot_def WAHVector_makeNot_def WAHVector_doNot_def i(1))
qed

text \<open>For normal vectors the inclusion of the last groups is that of their bits in the vectors.\<close>

lemma last_group_included:
  assumes rem: "rem \<noteq> 0" "rem < 31" and gh: "fix_norm rem (G @ [g])" "fix_norm rem (H @ [h])"
    and k: "\<forall>k < rem. bit h k \<longrightarrow> bit g k"
  shows "\<forall>k < 31. bit h k \<longrightarrow> bit g k"
proof (intro allI impI)
  fix k :: nat assume k31: "k < 31" and hk: "bit h k"
  have m: "bit (wmask rem) l = (l < rem \<and> l < 32)" for l by (simp add: wmask_mask bit_mask_iff) auto
  show "bit g k"
  proof (cases "k < rem")
    case False
    then have "\<not> bit (h AND wmask rem) k" by (simp add: bit_and_iff m)
    then have "h AND wmask rem \<noteq> h" using hk by metis
    then have "h = ALL_ONES" using gh(2) rem(1) hk by (auto simp: fix_norm_def ALL_ZEROES_def)
    then have all: "\<forall>l < rem. bit g l" using assms(5) rem(2) by (auto simp: word_constants bit_mask_iff)
    then have "bit g 0" using rem(1) by simp
    then have "g \<noteq> ALL_ZEROES" by (auto simp: ALL_ZEROES_def)
    moreover have "g AND wmask rem = wmask rem" using all rem(2) by (intro bit_word_eqI) (auto simp: bit_and_iff m)
    ultimately have "g = ALL_ONES" using gh(1) rem(1) by (auto simp: fix_norm_def)
    then show ?thesis using k31 by (simp add: word_constants bit_mask_iff)
  qed (use k hk in blast)
qed

lemma norm_included:
  assumes v: "wah_ok v" "wah_ok w" "wah_rem v = wah_rem w" "length (groups_of v) = length (groups_of w)" and n: "wah_norm v" "wah_norm w"
  shows "list_all2 (\<lambda>x y. y \<longrightarrow> x) (chunk_bits 31 (groups_of v)) (chunk_bits 31 (groups_of w)) \<longleftrightarrow> list_all2 (\<lambda>x y. y \<longrightarrow> x) (wah_bits v) (wah_bits w)"
proof (cases "wah_rem v = 0")
  case True
  then show ?thesis using v(3,4) by (simp add: wah_bits_def group_bits_def wah_len_def last_cut_def)
next
  case False
  have f: "groups_of v \<noteq> []" "wah_rem v < 31" "groups_of w \<noteq> []" using wah_ok_facts [OF v(1)] wah_ok_facts [OF v(2)] by simp_all
  obtain G g where G: "groups_of v = G @ [g]" using f(1) by (metis rev_exhaust)
  obtain H h where H: "groups_of w = H @ [h]" using f(3) by (metis rev_exhaust)
  have l: "length G = length H" "31 - last_cut (wah_rem v) = wah_rem v" "last_cut (wah_rem v) \<le> 31" using v(4) f(2) False by (simp_all add: G H last_cut_def)
  have norm: "fix_norm (wah_rem v) (G @ [g])" "fix_norm (wah_rem v) (H @ [h])" using n v(3) by (simp_all add: wah_norm_def G H)
  have last: "list_all2 (\<lambda>x y. y \<longrightarrow> x) (map (bit g) [0..<31]) (map (bit h) [0..<31]) \<longleftrightarrow>
      list_all2 (\<lambda>x y. y \<longrightarrow> x) (take (wah_rem v) (map (bit g) [0..<31])) (take (wah_rem v) (map (bit h) [0..<31]))"
    using last_group_included [OF False f(2) norm] f(2) by (auto simp: list_all2_conv_all_nth simp del: upt_Suc)
  have "wah_bits v = chunk_bits 31 G @ take (wah_rem v) (map (bit g) [0..<31])" "wah_bits w = chunk_bits 31 H @ take (wah_rem v) (map (bit h) [0..<31])"
    using l v(3) [symmetric] by (simp_all add: wah_bits_def group_bits_def wah_len_def G H chunk_bits_append del: upt_Suc)
  then show ?thesis using last l(1) by (simp add: G H chunk_bits_append list_all2_append del: upt_Suc)
qed

lemma includes_bits:
  assumes "length G = length H" "\<And>h. h \<in> set H \<Longrightarrow> isLite h"
  shows "list_all2 (\<lambda>a b. NOT a AND b = 0) G H \<longleftrightarrow> list_all2 (\<lambda>x y. y \<longrightarrow> x) (chunk_bits 31 G) (chunk_bits 31 H)"
  using assms
proof (induction G H rule: list_induct2)
  case (Cons g G h H)
  have l: "\<not> bit h 31" using Cons.prems by (simp add: isFill_bit)
  have "NOT g AND h = 0 \<longleftrightarrow> (\<forall>k < 31. bit h k \<longrightarrow> bit g k)"
  proof
    assume "NOT g AND h = 0"
    then have "\<not> bit (NOT g AND h) k" for k by simp
    then have "k < 32 \<Longrightarrow> bit h k \<Longrightarrow> bit g k" for k by (simp add: bit_and_iff bit_not_iff) blast
    then show "\<forall>k < 31. bit h k \<longrightarrow> bit g k" by auto
  next
    assume k: "\<forall>k < 31. bit h k \<longrightarrow> bit g k"
    have "\<not> bit (NOT g AND h) k" if "k < 32" for k
      using that k l by (cases "k = 31") (auto simp: bit_and_iff bit_not_iff)
    then show "NOT g AND h = 0" by (intro bit_word_eqI) simp
  qed
  then have "NOT g AND h = 0 \<longleftrightarrow> list_all2 (\<lambda>x y. y \<longrightarrow> x) (map (bit g) [0..<31]) (map (bit h) [0..<31])"
    by (simp add: list_all2_conv_all_nth del: upt_Suc)
  then show ?case using Cons by (simp add: list_all2_append del: upt_Suc)
qed simp

text \<open>
  C19. The operations between two compressed vectors of the same size, intersection, union, difference
  and complement, in place, are those on their lists of bits exactly under the condition \<^verbatim>\<open>fix_safe\<close> on the groups of the
  result; otherwise a group is lost. The same operations into a new vector produce the same
  words but forget the number of bits of the last group. Their results are normal, as new vectors, and for
  normal vectors the inclusion is that of their bits; in general it also compares the
  bits of the last group that are over the size.
\<close>

theorem wah_logic_operations:
  assumes "wah_ok v" "wah_ok w" "wah_rem v = wah_rem w" "length (groups_of v) = length (groups_of w)"
  shows "(op_result v (WAHVector_applyAnd v w) (WAHVector_makeAnd v w) (map2 (\<and>) (wah_bits v) (wah_bits w)) \<longleftrightarrow>
      fix_safe (wah_rem v) (map2 (\<lambda>a b. a AND b) (groups_of v) (groups_of w))) \<and>
    (op_result v (WAHVector_applyOr v w) (WAHVector_makeOr v w) (map2 (\<or>) (wah_bits v) (wah_bits w)) \<longleftrightarrow>
      fix_safe (wah_rem v) (map2 (\<lambda>a b. a OR b) (groups_of v) (groups_of w))) \<and>
    (op_result v (WAHVector_applyReset v w) (WAHVector_makeReset v w) (map2 (\<lambda>x y. x \<and> \<not> y) (wah_bits v) (wah_bits w)) \<longleftrightarrow>
      fix_safe (wah_rem v) (map2 (\<lambda>a b. a AND NOT b) (groups_of v) (groups_of w))) \<and>
    (op_result v (WAHVector_applyNot v) (WAHVector_makeNot v) (map Not (wah_bits v)) \<longleftrightarrow>
      fix_safe (wah_rem v) (map (\<lambda>g. NOT g AND mask 31) (groups_of v))) \<and>
    WAHVector_includes v w =
      Inr (list_all2 (\<lambda>x y. y \<longrightarrow> x) (chunk_bits 31 (groups_of v)) (chunk_bits 31 (groups_of w))) \<and>
    (wah_norm v \<and> wah_norm w \<longrightarrow> WAHVector_includes v w = Inr (list_all2 (\<lambda>x y. y \<longrightarrow> x) (wah_bits v) (wah_bits w))) \<and>
    (0 < n \<and> n \<le> 31 * (max_groups - 1) \<longrightarrow>
      wah_ok (WAHVector_new (int n) b) \<and> wah_norm (WAHVector_new (int n) b) \<and> wah_bits (WAHVector_new (int n) b) = replicate n b)"
    (is "?A \<and> ?O \<and> ?R \<and> ?N \<and> ?I \<and> ?J \<and> ?C")
proof -
  obtain i where i: "it_new (wah_words v) = Inr i" "it_ok i" "it_groups i = groups_of v" using wah_iter [OF assms(1)] by blast
  obtain j where j: "it_new (wah_words w) = Inr j" "it_ok j" "it_groups j = groups_of w" using wah_iter [OF assms(2)] by blast
  have I: ?I using wincludes_loop_ok [OF i(2) j(2)] assms(4) includes_bits [OF assms(4)] groups_lite
    by (simp add: WAHVector_includes_def i j groups_of_def)
  moreover have ?J using I norm_included [OF assms] by simp
  moreover have ?A unfolding WAHVector_applyAnd_def WAHVector_makeAnd_def WAHVector_doAnd_def
    by (rule do_op_result [OF op_ok_ops(1) assms]) (simp_all add: bit_and_iff)
  moreover have ?O unfolding WAHVector_applyOr_def WAHVector_makeOr_def WAHVector_doOr_def
    by (rule do_op_result [OF op_ok_ops(2) assms]) (simp_all add: bit_or_iff)
  moreover have ?R unfolding WAHVector_applyReset_def WAHVector_makeReset_def WAHVector_doReset_def
    by (rule do_op_result [OF op_ok_ops(3) assms]) (simp_all add: bit_and_iff bit_not_iff)
  moreover have ?N by (rule doNot_result [OF assms(1)])
  moreover have ?C using WAHVector_new_ok [of n b] by simp
  ultimately show ?thesis by (intro conjI)
qed

theorem wah_logic_operations_witness:
  "WAHVector_includes (WAHVector_new 62 True) (WAHVector_new 62 False) = Inr True"
proof -
  have f: "wah_ok (WAHVector_new (int 62) b)" for b by (rule WAHVector_new_ok) (simp_all add: max_groups_def)
  have g: "wah_rem (WAHVector_new 62 b) = 0" "groups_of (WAHVector_new 62 b) = replicate 2 (fill_group b)" for b
    using wdiv_ok [of 62] fill_ok [of 2 b] by (simp_all add: WAHVector_new_def max_groups_def groups_of_def Let_def)
  have "WAHVector_includes (WAHVector_new 62 True) (WAHVector_new 62 False) =
      Inr (list_all2 (\<lambda>x y. y \<longrightarrow> x) (chunk_bits 31 (groups_of (WAHVector_new 62 True)))
        (chunk_bits 31 (groups_of (WAHVector_new 62 False))))"
    using wah_logic_operations [of "WAHVector_new 62 True" "WAHVector_new 62 False"] f [of True] f [of False] g by simp
  then show ?thesis by (simp only: g chunk_bits_fill_group) (simp add: list_all2_conv_all_nth)
qed


text \<open>
  Defects of the compressed vector on small cases: setting the bits 30, 31 and 32 of a
  vector of 33 null bits makes \<^verbatim>\<open>fix\<close> increment a literal as if it was a fill, and the bit 31
  no longer exists; a vector of 31 bits with one bit set is said empty; the complement of a
  vector of 33 bits has 62 bits; setting all the bits of a vector of 310 bits leaves none.
\<close>

lemma wah_defects:
  "bind_res (WAHVector_set (WAHVector_new 33 False) 30) (\<lambda>v. bind_res (WAHVector_set v 31) (\<lambda>v.
     bind_res (WAHVector_set v 32) (\<lambda>v. WAHVector_bit v 31))) = Inl Assertion_failed \<and>
   bind_res (WAHVector_set (WAHVector_new 31 False) 3) WAHVector_isEmpty = Inr True \<and>
   bind_res (WAHVector_makeNot (WAHVector_new 33 False)) WAHVector_size = Inr 62 \<and>
   bind_res (WAHVector_set_all (WAHVector_new 310 False)) WAHVector_size = Inr 0"
  by (intro conjI; code_simp)

end
