(* ===== verification/Elm_Io.thy ===== *)
theory Elm_Io
  imports Elm_Int
begin

unbundle bit_operations_syntax

text \<open>
  Formatted output and input of \<^verbatim>\<open>src/io_Output.cpp\<close> and \<^verbatim>\<open>src/io_Input.cpp\<close>: printing of
  integers, characters, booleans and strings with their formats, and scanning of the same values
  from a stream with one character of lookahead. The streams are a text to which characters are
  appended, that may refuse them, and a text to read that ends or fails.
\<close>

section \<open>State and exceptions\<close>

text \<open>
  A function on a stream returns its result or an exception, with the state that it leaves.
\<close>

type_synonym ('s, 'a) io = "'s \<Rightarrow> 'a res \<times> 's"

definition io_bind :: "('s, 'a) io \<Rightarrow> ('a \<Rightarrow> ('s, 'b) io) \<Rightarrow> ('s, 'b) io" where
  "io_bind m f s = (case m s of (Inl e, s') \<Rightarrow> (Inl e, s') | (Inr x, s') \<Rightarrow> f x s')"

definition io_return :: "'a \<Rightarrow> ('s, 'a) io" where
  "io_return x s = (Inr x, s)"

definition io_fail :: "error \<Rightarrow> ('s, 'a) io" where
  "io_fail e s = (Inl e, s)"

lemma io_bind_cong [fundef_cong]:
  "m s = m' s' \<Longrightarrow> (\<And>x t. m' s' = (Inr x, t) \<Longrightarrow> f x t = f' x t) \<Longrightarrow> io_bind m f s = io_bind m' f' s'"
  by (auto simp: io_bind_def split: prod.splits sum.splits)

lemma io_bind_simps [simp]:
  "m s = (Inr x, t) \<Longrightarrow> io_bind m f s = f x t"
  "m s = (Inl e, t) \<Longrightarrow> io_bind m f s = (Inl e, t)"
  by (simp_all add: io_bind_def)

lemma io_return_simp [simp]: "io_return x s = (Inr x, s)"
  by (simp add: io_return_def)


section \<open>Output\<close>

record ostate =
  out_text :: string
  out_refuses :: bool

text \<open>\<^verbatim>\<open>OutStream::write\<close>: negative when the stream refuses the characters.\<close>

definition strm_write :: "string \<Rightarrow> ostate \<Rightarrow> int \<times> ostate" where
  "strm_write t o1 = (if out_refuses o1 then (- 1, o1) else (int (length t), o1\<lparr>out_text := out_text o1 @ t\<rparr>))"

definition io_exception :: error where
  "io_exception = Exception ''IOException''"

definition checked_write :: "string \<Rightarrow> (ostate, unit) io" where
  "checked_write t o1 = (let (r, o2) = strm_write t o1 in (if r < 0 then Inl io_exception else Inr (), o2))"

definition unchecked_write :: "string \<Rightarrow> (ostate, unit) io" where
  "unchecked_write t o1 = (Inr (), snd (strm_write t o1))"

definition io_lift :: "'a res \<Rightarrow> ('s, 'a) io" where
  "io_lift r s = (r, s)"

text \<open>
  \<^verbatim>\<open>Output::horner\<close> writes the digits of \<^verbatim>\<open>val\<close> down from the end of a buffer; \<^verbatim>\<open>n\<close> is the
  room left in the buffer in front of \<^verbatim>\<open>p\<close>, the characters already written.
\<close>

definition digit_char :: "char \<Rightarrow> nat \<Rightarrow> char" where
  "digit_char enc d = (if d < 10 then char_of (of_char CHR ''0'' + d :: nat) else char_of (of_char enc + d - 10 :: nat))"

definition put_front :: "char \<Rightarrow> nat \<times> string \<Rightarrow> (nat \<times> string) res" where
  "put_front c b = (case b of (n, p) \<Rightarrow> if n = 0 then Inl Out_of_bounds else Inr (n - 1, c # p))"

function horner_loop :: "nat \<Rightarrow> char \<Rightarrow> 64 word \<Rightarrow> nat \<times> string \<Rightarrow> (nat \<times> string) res" where
  "horner_loop base enc val b =
     (if val = 0 then Inr b
      else if base = 0 then Inl (Exception ''division by zero'')
      else if base = 1 then Inl Out_of_fuel
      else bind_res (put_front (digit_char enc (unat val mod base)) b) (\<lambda>b.
             horner_loop base enc (word_of_nat (unat val div base)) b))"
  by pat_completeness auto
termination
proof (relation "measure (\<lambda>(base, enc, val, b). unat val)")
  fix base :: nat and val :: "64 word" assume "val \<noteq> 0" "base \<noteq> 0" "base \<noteq> 1"
  then have "unat val div base < unat val" "1 < base" by (simp_all add: word_pos_iff)
  then show "((base, enc, word_of_nat (unat val div base), b2), base, enc, val, b) \<in> measure (\<lambda>(base, enc, val, b). unat val)"
    for enc b b2 by (simp add: unat_of_nat)
qed simp

declare horner_loop.simps [simp del]

definition horner :: "nat \<times> string \<Rightarrow> 64 word \<Rightarrow> nat \<Rightarrow> char \<Rightarrow> (nat \<times> string) res" where
  "horner b val base enc = (if val = 0 then put_front CHR ''0'' b else horner_loop base enc val b)"

definition buffer :: "nat \<Rightarrow> nat \<times> string" where
  "buffer n = (n, [])"

definition print_bool :: "bool \<Rightarrow> (ostate, unit) io" where
  "print_bool b = checked_write (if b then ''true'' else ''false'')"

definition print_char :: "char \<Rightarrow> (ostate, unit) io" where
  "print_char c = checked_write [c]"

definition print_string :: "string \<Rightarrow> (ostate, unit) io" where
  "print_string s = checked_write s"

definition print_int32 :: "32 word \<Rightarrow> (ostate, unit) io" where
  "print_int32 v =
     (let neg = sint v < 0;
          uval = (if neg then - v else v) in
      io_bind (io_lift (bind_res (horner (buffer 16) (ucast uval) 10 CHR ''a'') (\<lambda>b.
                 if neg then put_front CHR ''-'' b else Inr b)))
        (\<lambda>(n, p). checked_write p))"

definition print_int64 :: "64 word \<Rightarrow> (ostate, unit) io" where
  "print_int64 v =
     (let neg = sint v < 0;
          uval = (if neg then - v else v) in
      io_bind (io_lift (bind_res (horner (buffer 64) uval 10 CHR ''a'') (\<lambda>b.
                 if neg then put_front CHR ''-'' b else Inr b)))
        (\<lambda>(n, p). checked_write p))"

definition print_uint32 :: "32 word \<Rightarrow> (ostate, unit) io" where
  "print_uint32 v =
     io_bind (io_lift (horner (buffer 16) (ucast v) 10 CHR ''a'')) (\<lambda>(n, p). checked_write p)"

definition print_uint64 :: "64 word \<Rightarrow> (ostate, unit) io" where
  "print_uint64 v =
     io_bind (io_lift (horner (buffer 32) v 10 CHR ''a'')) (\<lambda>(n, p). checked_write p)"

definition print_pointer :: "64 word \<Rightarrow> (ostate, unit) io" where
  "print_pointer v =
     (if v = 0 then print_string ''<null>''
      else io_bind (io_lift (horner (buffer 16) v 16 CHR ''a''))
        (\<lambda>(n, p). checked_write (replicate n CHR ''0'' @ p)))"


section \<open>Formats\<close>

datatype alignment_t = NONE | LEFT | CENTER | RIGHT

record int_format =
  fmt_val :: "64 word"
  fmt_base :: nat
  fmt_width :: nat
  fmt_align :: alignment_t
  fmt_upper :: bool
  fmt_sign :: bool
  fmt_displaySign :: bool
  fmt_pad :: char
  fmt_size :: nat

definition IntFormat_init :: "64 word \<Rightarrow> bool \<Rightarrow> nat \<Rightarrow> int_format" where
  "IntFormat_init v s size1 =
     \<lparr>fmt_val = v, fmt_base = 10, fmt_width = 0, fmt_align = LEFT, fmt_upper = False, fmt_sign = s,
      fmt_displaySign = False, fmt_pad = CHR '' '', fmt_size = size1\<rparr>"

definition IntFormat_int32 :: "32 word \<Rightarrow> int_format" where
  "IntFormat_int32 v = IntFormat_init (scast v) True 4"

definition IntFormat_uint32 :: "32 word \<Rightarrow> int_format" where
  "IntFormat_uint32 v = IntFormat_init (ucast v) False 4"

definition IntFormat_uint8 :: "8 word \<Rightarrow> int_format" where
  "IntFormat_uint8 v = IntFormat_init (ucast v) False 1"

definition IntFormat_int64 :: "64 word \<Rightarrow> int_format" where
  "IntFormat_int64 v = IntFormat_init v True 8"

definition IntFormat_uint64 :: "64 word \<Rightarrow> int_format" where
  "IntFormat_uint64 v = IntFormat_init v False 8"

definition IntFormat_bin :: "int_format \<Rightarrow> int_format" where
  "IntFormat_bin f = f\<lparr>fmt_base := 2, fmt_sign := False\<rparr>"

definition IntFormat_oct :: "int_format \<Rightarrow> int_format" where
  "IntFormat_oct f = f\<lparr>fmt_base := 8, fmt_sign := False\<rparr>"

definition IntFormat_hex :: "int_format \<Rightarrow> int_format" where
  "IntFormat_hex f = f\<lparr>fmt_base := 16, fmt_sign := False\<rparr>"

definition IntFormat_width :: "nat \<Rightarrow> int_format \<Rightarrow> int_format" where
  "IntFormat_width w f = f\<lparr>fmt_width := w mod 256\<rparr>"

definition IntFormat_right :: "int_format \<Rightarrow> int_format" where
  "IntFormat_right f = f\<lparr>fmt_align := RIGHT\<rparr>"

definition IntFormat_pad :: "char \<Rightarrow> int_format \<Rightarrow> int_format" where
  "IntFormat_pad c f = f\<lparr>fmt_pad := c\<rparr>"

definition int_format_value :: "int_format \<Rightarrow> 64 word" where
  "int_format_value f =
     (let uval = (if fmt_sign f \<and> sint (fmt_val f) < 0 then - fmt_val f else fmt_val f) in
      if \<not> fmt_sign f \<and> fmt_size f \<noteq> 8 then uval AND (push_bit (fmt_size f * 8) 1 - 1) else uval)"

text \<open>The number is written in a buffer of 33 characters, from its position 32 down.\<close>

definition int_format_text :: "int_format \<Rightarrow> string res" where
  "int_format_text f =
     bind_res (horner (buffer 32) (int_format_value f) (fmt_base f) (if fmt_upper f then CHR ''A'' else CHR ''a'')) (\<lambda>b.
     bind_res (if fmt_sign f \<and> sint (fmt_val f) < 0 then put_front CHR ''-'' b else Inr b) (\<lambda>b.
     bind_res (if fmt_displaySign f \<and> 0 < sint (fmt_val f) then put_front CHR ''+'' b else Inr b) (\<lambda>b.
       Inr (snd b))))"

text \<open>The left and right paddings; a text wider than the field has none.\<close>

definition pads :: "alignment_t \<Rightarrow> nat \<Rightarrow> nat \<Rightarrow> nat \<times> nat" where
  "pads a width size1 =
     (if width = 0 then (0, 0)
      else case a of
          NONE \<Rightarrow> (0, width - size1)
        | LEFT \<Rightarrow> (0, width - size1)
        | RIGHT \<Rightarrow> (width - size1, 0)
        | CENTER \<Rightarrow> ((width - size1) div 2, width - size1 - (width - size1) div 2))"

fun write_pads :: "nat \<Rightarrow> char \<Rightarrow> (ostate, unit) io" where
  "write_pads 0 c = io_return ()"
| "write_pads (Suc n) c = io_bind (unchecked_write [c]) (\<lambda>_. write_pads n c)"

definition print_int_format :: "int_format \<Rightarrow> (ostate, unit) io" where
  "print_int_format f =
     io_bind (io_lift (int_format_text f)) (\<lambda>res.
       let (lpad, rpad) = pads (fmt_align f) (fmt_width f) (length res) in
       io_bind (write_pads lpad (fmt_pad f)) (\<lambda>_.
       io_bind (unchecked_write res) (\<lambda>_. write_pads rpad (fmt_pad f))))"

definition fmt_byte :: "8 word \<Rightarrow> int_format" where
  "fmt_byte b = IntFormat_right (IntFormat_pad CHR ''0'' (IntFormat_width 2 (IntFormat_hex (IntFormat_uint8 b))))"

definition fmt_pointer :: "64 word \<Rightarrow> int_format" where
  "fmt_pointer p = IntFormat_pad CHR ''0'' (IntFormat_width 16 (IntFormat_hex (IntFormat_int64 p)))"

record string_format =
  sfmt_s :: string
  sfmt_width :: nat
  sfmt_align :: alignment_t
  sfmt_pad :: char

definition StringFormat_new :: "string \<Rightarrow> string_format" where
  "StringFormat_new s = \<lparr>sfmt_s = s, sfmt_width = 0, sfmt_align = LEFT, sfmt_pad = CHR '' ''\<rparr>"

fun print_chars :: "nat \<Rightarrow> char \<Rightarrow> (ostate, unit) io" where
  "print_chars 0 c = io_return ()"
| "print_chars (Suc n) c = io_bind (print_char c) (\<lambda>_. print_chars n c)"

definition print_string_format :: "string_format \<Rightarrow> (ostate, unit) io" where
  "print_string_format f =
     (let n = length (sfmt_s f); w = sfmt_width f in
      if w = 0 then print_string (sfmt_s f)
      else if w \<le> n then print_string (take w (sfmt_s f))
      else case sfmt_align f of
          NONE \<Rightarrow> io_fail Assertion_failed
        | LEFT \<Rightarrow> io_bind (print_string (sfmt_s f)) (\<lambda>_. print_chars (w - n) (sfmt_pad f))
        | CENTER \<Rightarrow>
            (let b = (w - n) div 2; a = w - b - n in
             io_bind (print_chars b (sfmt_pad f)) (\<lambda>_.
             io_bind (print_string (sfmt_s f)) (\<lambda>_. print_chars a (sfmt_pad f))))
        | RIGHT \<Rightarrow> io_bind (print_chars (w - n) (sfmt_pad f)) (\<lambda>_. print_string (sfmt_s f)))"


section \<open>Input\<close>

record istate =
  in_data :: string
  in_broken :: bool
  in_buf :: int
  in_state :: "16 word"

definition IN_ENDED :: "16 word" where "IN_ENDED = 1"
definition IN_FAILED :: "16 word" where "IN_FAILED = 2"
definition IN_IO_ERROR :: "16 word" where "IN_IO_ERROR = 4"

text \<open>The results of \<^verbatim>\<open>InStream::read\<close> that are not a byte.\<close>

definition STREAM_FAILED :: int where "STREAM_FAILED = - 1"
definition STREAM_ENDED :: int where "STREAM_ENDED = - 2"

definition strm_read :: "istate \<Rightarrow> int \<times> istate" where
  "strm_read s =
     (case in_data s of
        c # cs \<Rightarrow> (of_char c, s\<lparr>in_data := cs\<rparr>)
      | [] \<Rightarrow> (if in_broken s then STREAM_FAILED else STREAM_ENDED, s))"

definition Input_new :: "string \<Rightarrow> bool \<Rightarrow> istate" where
  "Input_new t broken = \<lparr>in_data = t, in_broken = broken, in_buf = - 1, in_state = 0\<rparr>"

definition add_state :: "16 word \<Rightarrow> istate \<Rightarrow> istate" where
  "add_state f s = s\<lparr>in_state := in_state s OR f\<rparr>"

definition set_failed :: "'a \<Rightarrow> (istate, 'a) io" where
  "set_failed x s = (Inr x, add_state IN_FAILED s)"

definition Input_get :: "(istate, int) io" where
  "Input_get s =
     (if 0 \<le> in_buf s then (Inr (in_buf s), s\<lparr>in_buf := - 1\<rparr>)
      else let (res, s) = strm_read s in
        if res < 0 then
          if res = STREAM_FAILED then (Inl io_exception, add_state (IN_IO_ERROR OR IN_FAILED) s)
          else if res = STREAM_ENDED then (Inr res, add_state IN_ENDED s)
          else (Inl Assertion_failed, s)
        else (Inr res, s))"

definition isspace :: "int \<Rightarrow> bool" where
  "isspace c \<longleftrightarrow> 9 \<le> c \<and> c \<le> 13 \<or> c = 32"

definition Input_back :: "int \<Rightarrow> (istate, unit) io" where
  "Input_back c s = (if in_buf s < 0 then (Inr (), s\<lparr>in_buf := c\<rparr>) else (Inl Assertion_failed, s))"

text \<open>The characters that an input can still give: the measure of its loops.\<close>

definition remaining :: "istate \<Rightarrow> nat" where
  "remaining s = length (in_data s) + (if 0 \<le> in_buf s then 1 else 0)"

lemma Input_get_remaining:
  assumes "Input_get s = (Inr c, t)"
  shows "(if 0 \<le> c then remaining t < remaining s else remaining t \<le> remaining s)"
  using assms
  by (auto simp: Input_get_def strm_read_def remaining_def add_state_def Let_def STREAM_FAILED_def STREAM_ENDED_def
      split: list.splits if_splits)

text \<open>The loops of the scanners end since every character read shortens the input.\<close>

definition loop_measure :: "int \<Rightarrow> istate \<Rightarrow> nat" where
  "loop_measure c s = remaining s + (if 0 \<le> c then 1 else 0)"

lemma loop_measure_less: "Input_get s = (Inr c', t) \<Longrightarrow> 0 \<le> c \<Longrightarrow> loop_measure c' t < loop_measure c s"
  using Input_get_remaining [of s c' t] by (simp add: loop_measure_def split: if_splits)

function skip_loop :: "int \<Rightarrow> istate \<Rightarrow> int res \<times> istate" where
  "skip_loop c s = (if isspace c then io_bind Input_get skip_loop s else io_return c s)"
  by pat_completeness auto
termination
  by (relation "measure (\<lambda>(c, s). loop_measure c s)") (auto intro!: loop_measure_less simp: isspace_def)

declare skip_loop.simps [simp del]

definition Input_skip :: "(istate, int) io" where
  "Input_skip = io_bind Input_get skip_loop"

definition test_base :: "int \<Rightarrow> int \<Rightarrow> int" where
  "test_base chr base =
     (if base < 10 then (if 48 \<le> chr \<and> chr < 48 + base then chr - 48 else - 1)
      else if 48 \<le> chr \<and> chr \<le> 57 then chr - 48
      else if 97 \<le> chr \<and> chr < 97 + base - 10 then chr - 97 + 10
      else if 65 \<le> chr \<and> chr < 65 + base - 10 then chr - 65 + 10
      else - 1)"

lemma test_base_pos: "0 \<le> test_base chr base \<Longrightarrow> 0 \<le> chr"
  by (auto simp: test_base_def split: if_splits)

text \<open>Reading the prefix of the base: the base, whether a digit was read, the next character.\<close>

definition read_base :: "int \<Rightarrow> int \<Rightarrow> (istate, int \<times> bool \<times> int) io" where
  "read_base base chr =
     (if base = 0 then
        if chr = 48 then
          io_bind Input_get (\<lambda>chr.
            if chr = 120 \<or> chr = 88 then io_bind Input_get (\<lambda>chr. io_return (16, False, chr))
            else if chr = 98 \<or> chr = 66 then io_bind Input_get (\<lambda>chr. io_return (2, False, chr))
            else io_return (8, True, chr))
        else io_return (10, False, chr)
      else io_return (base, False, chr))"

text \<open>The digits on 32 bits: \<^verbatim>\<open>None\<close> when the overflow test fails.\<close>

function ulong_loop :: "int \<Rightarrow> 32 word \<Rightarrow> bool \<Rightarrow> int \<Rightarrow> istate \<Rightarrow> (32 word \<times> bool \<times> int) option res \<times> istate" where
  "ulong_loop base val one chr s =
     (let digit = test_base chr base in
      if 0 \<le> digit then
        let val' = val * word_of_int base + word_of_int digit in
        if val' < val then (Inr None, add_state IN_FAILED s)
        else io_bind Input_get (ulong_loop base val' True) s
      else (Inr (Some (val, one, chr)), s))"
  by pat_completeness auto
termination
  by (relation "measure (\<lambda>(base, val, one, chr, s). loop_measure chr s)")
    (auto intro!: loop_measure_less dest: test_base_pos)

declare ulong_loop.simps [simp del]

definition scanULong :: "int \<Rightarrow> (istate, 32 word) io" where
  "scanULong base =
     io_bind Input_skip (\<lambda>chr.
     io_bind (read_base base chr) (\<lambda>(base, one, chr).
     io_bind (ulong_loop base 0 one chr) (\<lambda>r.
       case r of
         None \<Rightarrow> io_return 0
       | Some (val, one, chr) \<Rightarrow>
           io_bind (if 0 \<le> chr then Input_back chr else io_return ()) (\<lambda>_.
             if one then io_return val else set_failed val))))"

definition scanLong :: "int \<Rightarrow> (istate, 32 word) io" where
  "scanLong base =
     io_bind Input_skip (\<lambda>chr.
       if chr \<noteq> 45 \<and> chr \<noteq> 43 \<and> chr < 0 then set_failed 0
       else io_bind (if chr \<noteq> 45 \<and> chr \<noteq> 43 then Input_back chr else io_return ()) (\<lambda>_.
         io_bind (scanULong base) (\<lambda>val.
           if 2 ^ 31 \<le> val then set_failed 0
           else io_return (if chr = 45 then - val else val))))"

text \<open>On 64 bits the previous value is kept in a 32-bit variable.\<close>

function ullong_loop :: "int \<Rightarrow> 64 word \<Rightarrow> bool \<Rightarrow> int \<Rightarrow> istate \<Rightarrow> (64 word \<times> bool \<times> int) option res \<times> istate" where
  "ullong_loop base val one chr s =
     (let digit = test_base chr base in
      if 0 \<le> digit then
        let old = ucast val :: 32 word; val' = val * word_of_int base + word_of_int digit in
        if val' < ucast old then (Inr None, add_state IN_FAILED s)
        else io_bind Input_get (ullong_loop base val' True) s
      else (Inr (Some (val, one, chr)), s))"
  by pat_completeness auto
termination
  by (relation "measure (\<lambda>(base, val, one, chr, s). loop_measure chr s)")
    (auto intro!: loop_measure_less dest: test_base_pos)

declare ullong_loop.simps [simp del]

definition scanULLong :: "int \<Rightarrow> (istate, 64 word) io" where
  "scanULLong base =
     io_bind Input_skip (\<lambda>chr.
     io_bind (read_base base chr) (\<lambda>(base, one, chr).
     io_bind (ullong_loop base 0 one chr) (\<lambda>r.
       case r of
         None \<Rightarrow> io_return 0
       | Some (val, one, chr) \<Rightarrow>
           io_bind (if 0 \<le> chr then Input_back chr else io_return ()) (\<lambda>_.
             if one then io_return val else set_failed 0))))"

definition scanLLong :: "int \<Rightarrow> (istate, 64 word) io" where
  "scanLLong base =
     io_bind Input_skip (\<lambda>chr.
       if chr \<noteq> 45 \<and> chr \<noteq> 43 \<and> chr < 0 then set_failed 0
       else io_bind (if chr \<noteq> 45 \<and> chr \<noteq> 43 then Input_back chr else io_return ()) (\<lambda>_.
         io_bind (scanULLong base) (\<lambda>val.
           if 2 ^ 63 \<le> val then set_failed 0
           else io_return (if chr = 45 then - val else val))))"

text \<open>
  The remaining characters of a pattern against the characters read; a mismatch overwrites the
  whole state with \<^verbatim>\<open>InStream::FAILED\<close>. On the empty pattern a null character read makes
  the loop run after the end of the literal.
\<close>

fun pattern_loop :: "string \<Rightarrow> bool \<Rightarrow> int \<Rightarrow> istate \<Rightarrow> bool res \<times> istate" where
  "pattern_loop [] res chr s =
     (if chr = 0 then (Inl Out_of_bounds, s) else (Inr False, s\<lparr>in_state := word_of_int STREAM_FAILED\<rparr>))"
| "pattern_loop (p # ps) res chr s =
     (if of_char p = chr then if ps = [] then (Inr res, s) else io_bind Input_get (pattern_loop ps res) s
      else (Inr False, s\<lparr>in_state := word_of_int STREAM_FAILED\<rparr>))"

definition scanBool :: "(istate, bool) io" where
  "scanBool =
     io_bind Input_get (\<lambda>chr.
       let (pattern, res) =
         (if chr = 49 then (''1'', True) else if chr = 48 then (''0'', False)
          else if chr = 116 then (''true'', True) else if chr = 102 then (''false'', False)
          else ([], False)) in
       pattern_loop pattern res chr)"

definition scanChar :: "(istate, char) io" where
  "scanChar = io_bind Input_get (\<lambda>res. if res < 0 then io_fail io_exception else io_return (char_of res))"

function word_loop :: "string \<Rightarrow> int \<Rightarrow> istate \<Rightarrow> (string \<times> int) res \<times> istate" where
  "word_loop buf chr s =
     (if 0 \<le> chr \<and> \<not> isspace chr then io_bind Input_get (word_loop (buf @ [char_of chr])) s
      else (Inr (buf, chr), s))"
  by pat_completeness auto
termination
  by (relation "measure (\<lambda>(buf, chr, s). loop_measure chr s)") (auto intro!: loop_measure_less)

declare word_loop.simps [simp del]

definition scanWord :: "(istate, string) io" where
  "scanWord =
     io_bind Input_skip (\<lambda>chr.
     io_bind (word_loop [] chr) (\<lambda>(buf, chr).
     io_bind (if 0 \<le> chr then Input_back chr else io_return ()) (\<lambda>_.
       if buf = [] then set_failed buf else io_return buf)))"

function line_loop :: "string \<Rightarrow> int \<Rightarrow> istate \<Rightarrow> (string \<times> int) res \<times> istate" where
  "line_loop buf chr s =
     (if 0 \<le> chr then
        if chr = 10 then (Inr (buf @ [char_of chr], chr), s)
        else io_bind Input_get (line_loop (buf @ [char_of chr])) s
      else (Inr (buf, chr), s))"
  by pat_completeness auto
termination
  by (relation "measure (\<lambda>(buf, chr, s). loop_measure chr s)") (auto intro!: loop_measure_less)

declare line_loop.simps [simp del]

definition scanLine :: "(istate, string) io" where
  "scanLine =
     io_bind Input_get (\<lambda>chr.
     io_bind (line_loop [] chr) (\<lambda>(buf, chr) s.
       if chr = STREAM_FAILED then (Inr [], add_state IN_IO_ERROR s) else (Inr buf, s)))"

text \<open>The conversion of a signed \<^verbatim>\<open>char\<close> to an \<^verbatim>\<open>int\<close>.\<close>

definition char_int :: "char \<Rightarrow> int" where
  "char_int c = sint (of_char c :: 8 word)"

definition swallow_char :: "char \<Rightarrow> (istate, unit) io" where
  "swallow_char c =
     io_bind Input_get (\<lambda>r.
       if of_char c = r then io_return ()
       else io_bind (Input_back (char_int c)) (\<lambda>_. io_fail io_exception))"

fun swallow_string :: "string \<Rightarrow> (istate, unit) io" where
  "swallow_string [] = io_return ()"
| "swallow_string (c # cs) = io_bind (swallow_char c) (\<lambda>_. swallow_string cs)"

function blank_loop :: "int \<Rightarrow> istate \<Rightarrow> unit res \<times> istate" where
  "blank_loop chr s = (if isspace chr \<and> 0 \<le> chr then io_bind Input_get blank_loop s else Input_back chr s)"
  by pat_completeness auto
termination
  by (relation "measure (\<lambda>(chr, s). loop_measure chr s)") (auto intro!: loop_measure_less)

declare blank_loop.simps [simp del]

definition swallowBlank :: "(istate, unit) io" where
  "swallowBlank = io_bind Input_get blank_loop"

text \<open>
  Scanning a floating-point number, over the operations of the \<^verbatim>\<open>double\<close> type, parameters of
  the model: the integers, the constant 0.1, sum, product, quotient, opposite and power.
\<close>

record 'd fops =
  f_int :: "int \<Rightarrow> 'd"
  f_tenth :: 'd
  f_add :: "'d \<Rightarrow> 'd \<Rightarrow> 'd"
  f_mult :: "'d \<Rightarrow> 'd \<Rightarrow> 'd"
  f_div :: "'d \<Rightarrow> 'd \<Rightarrow> 'd"
  f_neg :: "'d \<Rightarrow> 'd"
  f_pow :: "'d \<Rightarrow> int \<Rightarrow> 'd"

definition isdigit :: "int \<Rightarrow> bool" where
  "isdigit c \<longleftrightarrow> 48 \<le> c \<and> c \<le> 57"

text \<open>A loop over decimal digits that updates a value with each of them.\<close>

function digits_loop :: "('v \<Rightarrow> int \<Rightarrow> 'v) \<Rightarrow> 'v \<Rightarrow> bool \<Rightarrow> int \<Rightarrow> istate \<Rightarrow> ('v \<times> bool \<times> int) res \<times> istate" where
  "digits_loop f v one chr s =
     (if isdigit chr then io_bind Input_get (digits_loop f (f v (chr - 48)) True) s
      else (Inr (v, one, chr), s))"
  by pat_completeness auto
termination
  by (relation "measure (\<lambda>(f, v, one, chr, s). loop_measure chr s)") (auto intro!: loop_measure_less simp: isdigit_def)

declare digits_loop.simps [simp del]

definition scanDouble :: "'d fops \<Rightarrow> (istate, 'd) io" where
  "scanDouble F =
     io_bind Input_skip (\<lambda>chr0.
     io_bind (if chr0 = 45 \<or> chr0 = 43 then Input_get else io_return chr0) (\<lambda>chr.
     io_bind (digits_loop (\<lambda>v d. f_add F (f_mult F v (f_int F 10)) (f_int F d)) (f_int F 0) False chr) (\<lambda>(v, one, chr).
     io_bind (if chr = 46
              then io_bind Input_get (\<lambda>chr.
                   io_bind (digits_loop (\<lambda>(v, dec) d. (f_add F v (f_mult F (f_int F d) dec), f_div F dec (f_int F 10)))
                      (v, f_tenth F) one chr) (\<lambda>((v, dec), one, chr). io_return (v, one, chr)))
              else io_return (v, one, chr)) (\<lambda>(v, one, chr).
       if \<not> one then set_failed (f_int F 0)
       else io_bind (if chr = 101 \<or> chr = 69
              then io_bind Input_get (\<lambda>chr.
                   io_bind (if chr = 45 \<or> chr = 43 then Input_get else io_return chr) (\<lambda>chr.
                   io_bind (digits_loop (\<lambda>e d. e * 10 + d) (0 :: int) False chr) (\<lambda>(e, one, chr).
                     io_return (f_mult F v (f_pow F (f_int F 10) e), one, chr))))
              else io_return (v, True, chr)) (\<lambda>(v, one, chr).
         if \<not> one then set_failed (f_int F 0)
         else io_bind (if 0 \<le> chr then Input_back chr else io_return ()) (\<lambda>_.
           io_return (if chr0 = 45 then f_neg F v else v)))))))"


section \<open>Digits\<close>

function base_text :: "nat \<Rightarrow> char \<Rightarrow> nat \<Rightarrow> string" where
  "base_text b enc n = (if b < 2 \<or> n = 0 then [] else base_text b enc (n div b) @ [digit_char enc (n mod b)])"
  by pat_completeness auto
termination by (relation "measure (\<lambda>(b, enc, n). n)") auto

declare base_text.simps [simp del]

lemma base_text_0 [simp]: "base_text b enc 0 = []"
  by (subst base_text.simps) simp

lemma base_text_pos: "2 \<le> b \<Longrightarrow> 0 < n \<Longrightarrow> base_text b enc n = base_text b enc (n div b) @ [digit_char enc (n mod b)]"
  by (subst base_text.simps) simp

lemma length_base_text: "2 \<le> b \<Longrightarrow> n < b ^ k \<Longrightarrow> length (base_text b enc n) \<le> k"
proof (induction k arbitrary: n)
  case (Suc k)
  show ?case
  proof (cases "n = 0")
    case False
    have "n div b < b ^ k" using Suc.prems by (simp add: less_mult_imp_div_less mult.commute)
    then have "length (base_text b enc (n div b)) \<le> k" using Suc by blast
    then show ?thesis using False Suc.prems(1) by (simp add: base_text_pos)
  qed simp
qed simp

lemma base_text_eq_Nil: "2 \<le> b \<Longrightarrow> base_text b enc n = [] \<longleftrightarrow> n = 0"
  by (cases "n = 0") (simp_all add: base_text_pos)

lemma horner_loop_ok:
  assumes "2 \<le> b"
  shows "horner_loop b enc val (k, p) =
    (if length (base_text b enc (unat val)) \<le> k
     then Inr (k - length (base_text b enc (unat val)), base_text b enc (unat val) @ p) else Inl Out_of_bounds)"
  using assms
proof (induction b enc val "(k, p)" arbitrary: k p rule: horner_loop.induct)
  case (1 b enc val)
  show ?case
  proof (cases "val = 0")
    case True
    then show ?thesis by (subst horner_loop.simps) simp
  next
    case False
    then have n: "0 < unat val" by (simp add: word_pos_iff)
    have "unat val div b < 2 ^ LENGTH(64)"
      using unat_ltp [of val] div_le_dividend [of "unat val" b] by (rule le_less_trans [rotated])
    then have d: "unat (word_of_nat (unat val div b) :: 64 word) = unat val div b" by (simp add: unat_of_nat)
    have b: "b \<noteq> 0" "b \<noteq> 1" using 1(2) by auto
    let ?t = "base_text b enc (unat val div b)" and ?c = "digit_char enc (unat val mod b)"
    note t = base_text_pos [OF 1(2) n, of enc]
    show ?thesis
    proof (cases "k = 0")
      case True
      then show ?thesis using False b t by (subst horner_loop.simps) (simp add: put_front_def)
    next
      case k: False
      then have pf: "put_front ?c (k, p) = Inr (k - 1, ?c # p)" by (simp add: put_front_def)
      have "horner_loop b enc (word_of_nat (unat val div b)) (k - 1, ?c # p) =
          (if length ?t \<le> k - 1 then Inr (k - 1 - length ?t, ?t @ ?c # p) else Inl Out_of_bounds)"
        using 1(1) [OF False b pf 1(2)] by (simp only: d)
      moreover have "horner_loop b enc val (k, p) = horner_loop b enc (word_of_nat (unat val div b)) (k - 1, ?c # p)"
        using False b pf by (subst horner_loop.simps) simp
      moreover have "length (?t @ [?c]) \<le> k \<longleftrightarrow> length ?t \<le> k - 1" "k - length (?t @ [?c]) = k - 1 - length ?t"
        using k by auto
      ultimately show ?thesis by (simp only: t append_assoc append_Cons append_Nil)
    qed
  qed
qed

definition number_text :: "nat \<Rightarrow> char \<Rightarrow> nat \<Rightarrow> string" where
  "number_text b enc n = (if n = 0 then ''0'' else base_text b enc n)"

lemma horner_ok:
  assumes "2 \<le> b"
  shows "horner (buffer k) val b enc =
    (if length (number_text b enc (unat val)) \<le> k
     then Inr (k - length (number_text b enc (unat val)), number_text b enc (unat val)) else Inl Out_of_bounds)"
proof (cases "val = 0")
  case True
  then show ?thesis by (auto simp: horner_def buffer_def put_front_def number_text_def)
next
  case False
  then have "0 < unat val" by (simp add: word_pos_iff)
  then show ?thesis using False by (simp add: horner_def buffer_def horner_loop_ok [OF assms] number_text_def)
qed

lemma length_number_text: "2 \<le> b \<Longrightarrow> n < b ^ k \<Longrightarrow> 0 < k \<Longrightarrow> length (number_text b enc n) \<le> k"
  using length_base_text [of b n k enc] by (simp add: number_text_def)


section \<open>Scanning what has been printed\<close>

text \<open>The character at the front of the text to read, and the state after having read it.\<close>

definition chr_at :: "string \<Rightarrow> int" where
  "chr_at xs = (case xs of [] \<Rightarrow> STREAM_ENDED | c # cs \<Rightarrow> of_char c)"

definition st_at :: "istate \<Rightarrow> string \<Rightarrow> istate" where
  "st_at s xs = (case xs of [] \<Rightarrow> add_state IN_ENDED (s\<lparr>in_data := []\<rparr>) | c # cs \<Rightarrow> s\<lparr>in_data := cs\<rparr>)"

text \<open>The state that a scanner leaves: the first character that it has not used is put back.\<close>

definition st_after :: "istate \<Rightarrow> string \<Rightarrow> istate" where
  "st_after s rest = (case rest of [] \<Rightarrow> st_at s [] | c # cs \<Rightarrow> s\<lparr>in_data := cs, in_buf := of_char c\<rparr>)"

definition fresh :: "istate \<Rightarrow> bool" where
  "fresh s \<longleftrightarrow> in_buf s = - 1 \<and> \<not> in_broken s"

lemma of_char_int: "(of_char c :: int) = int (of_char c)"
  by (cases c) (simp add: of_char_def)

lemma of_char_int_pos [simp]: "(0 :: int) \<le> of_char c"
  by (simp add: of_char_int)

lemma of_char_int_not_neg [simp]: "\<not> of_char c < (0 :: int)"
  by (simp add: of_char_int)

lemma of_char_int_neg [simp]: "of_char c \<noteq> - (numeral k :: int)"
  by (metis not_zero_le_neg_numeral of_char_int_pos)

lemma Input_get_at [simp]:
  "fresh s \<Longrightarrow> Input_get (s\<lparr>in_data := xs\<rparr>) = (Inr (chr_at xs), st_at s xs)"
  by (auto simp: fresh_def Input_get_def strm_read_def chr_at_def st_at_def STREAM_FAILED_def STREAM_ENDED_def Let_def
      split: list.splits)

lemma chr_at_Cons [simp]: "chr_at (c # cs) = of_char c"
  by (simp add: chr_at_def)

lemma st_at_Cons [simp]: "st_at s (c # cs) = s\<lparr>in_data := cs\<rparr>"
  by (simp add: st_at_def)

lemma st_after_Cons_data: "s\<lparr>in_data := cs, in_buf := of_char c\<rparr> = st_after s (c # cs)"
  by (simp add: st_after_def)

lemma back_at: "fresh s \<Longrightarrow> (if 0 \<le> chr_at xs then Input_back (chr_at xs) else io_return ()) (st_at s xs) = (Inr (), st_after s xs)"
  by (cases xs) (auto simp: chr_at_def st_at_def st_after_def STREAM_ENDED_def Input_back_def fresh_def)

lemma get_after: "fresh s \<Longrightarrow> xs \<noteq> [] \<Longrightarrow> Input_get (st_after s xs) = (Inr (chr_at xs), st_at s xs)"
  by (cases xs) (auto simp: st_after_def Input_get_def fresh_def)

definition digit_text :: "string \<Rightarrow> bool" where
  "digit_text xs \<longleftrightarrow> (\<forall>c \<in> set xs. isdigit (of_char c))"

definition text_value :: "nat \<Rightarrow> string \<Rightarrow> nat" where
  "text_value v xs = foldl (\<lambda>v c. v * 10 + (of_char c - 48)) v xs"

lemma text_value_mono: "v \<le> text_value v xs"
proof (induction xs arbitrary: v)
  case (Cons c xs)
  have "v \<le> v * 10 + (of_char c - 48)" by simp
  also have "\<dots> \<le> text_value v (c # xs)" using Cons [of "v * 10 + (of_char c - 48)"] by (simp add: text_value_def)
  finally show ?case .
qed (simp add: text_value_def)

lemma text_value_Cons: "text_value v (c # xs) = text_value (v * 10 + (of_char c - 48)) xs"
  by (simp add: text_value_def)

lemma test_base_10: "test_base c 10 = (if isdigit c then c - 48 else - 1)"
  by (auto simp: test_base_def isdigit_def)

lemma digit_step:
  fixes w :: "'a :: len word"
  assumes "isdigit (of_char c)" "unat w * 10 + (of_char c - 48) < 2 ^ LENGTH('a)"
  shows "unat (w * word_of_int 10 + word_of_int (of_char c - 48)) = unat w * 10 + (of_char c - 48)"
proof -
  have g: "48 \<le> (of_char c :: nat)" using assms(1) by (simp add: isdigit_def of_char_int)
  have "w * word_of_int 10 + word_of_int (of_char c - 48) = word_of_nat (unat w * 10 + (of_char c - 48))"
    using g by (simp add: of_nat_diff of_char_int)
  then show ?thesis using assms(2) by (simp only: unat_of_nat) (simp add: take_bit_nat_eq_self)
qed

text \<open>A text that ends the digits of a number: it is empty or begins with a blank.\<close>

definition number_end :: "string \<Rightarrow> bool" where
  "number_end rest \<longleftrightarrow> rest = [] \<or> isspace (of_char (hd rest))"

lemma number_end_chr:
  assumes "number_end rest"
  shows "chr_at rest < 48" "chr_at rest \<noteq> 48" "\<not> isdigit (chr_at rest)" "test_base (chr_at rest) 8 = - 1" "test_base (chr_at rest) 10 = - 1"
    "chr_at rest \<noteq> 120" "chr_at rest \<noteq> 88" "chr_at rest \<noteq> 98" "chr_at rest \<noteq> 66"
  using assms by (auto simp: number_end_def chr_at_def STREAM_ENDED_def isspace_def isdigit_def test_base_def split: list.splits)

lemma ulong_loop_digits:
  assumes "fresh s" "number_end rest" "digit_text xs" "text_value (unat val) xs < 2 ^ 32"
  shows "ulong_loop 10 val one (chr_at (xs @ rest)) (st_at s (xs @ rest)) =
    (Inr (Some (word_of_nat (text_value (unat val) xs), one \<or> xs \<noteq> [], chr_at rest)), st_at s rest)"
  using assms(3,4)
proof (induction xs arbitrary: val one)
  case Nil
  then show ?case by (subst ulong_loop.simps) (simp add: number_end_chr [OF assms(2)] text_value_def)
next
  case (Cons c xs)
  let ?val' = "val * word_of_int 10 + word_of_int (of_char c - 48)"
  have d: "isdigit (of_char c)" "digit_text xs" using Cons.prems(1) by (simp_all add: digit_text_def)
  have lt: "unat val * 10 + (of_char c - 48) < 2 ^ LENGTH(32)"
    using Cons.prems(2) text_value_mono [of "unat val * 10 + (of_char c - 48)" xs] by (simp add: text_value_Cons)
  note v = digit_step [OF d(1) lt]
  have ge: "\<not> ?val' < val" by (simp only: word_less_nat_alt v)
  have "0 \<le> of_char c - (48 :: int)" using d(1) by (simp add: isdigit_def)
  then have "ulong_loop 10 val one (of_char c) (s\<lparr>in_data := xs @ rest\<rparr>) =
      ulong_loop 10 ?val' True (chr_at (xs @ rest)) (st_at s (xs @ rest))"
    using d(1) ge by (subst ulong_loop.simps) (simp add: test_base_10 Let_def assms(1))
  moreover have "text_value (unat ?val') xs < 2 ^ 32" using Cons.prems(2) by (simp only: v) (simp add: text_value_Cons)
  ultimately show ?case using Cons.IH [OF d(2), of ?val' True] by (simp only: v) (simp add: text_value_Cons)
qed

lemma ullong_loop_digits:
  assumes "fresh s" "number_end rest" "digit_text xs" "text_value (unat val) xs < 2 ^ 64"
  shows "ullong_loop 10 val one (chr_at (xs @ rest)) (st_at s (xs @ rest)) =
    (Inr (Some (word_of_nat (text_value (unat val) xs), one \<or> xs \<noteq> [], chr_at rest)), st_at s rest)"
  using assms(3,4)
proof (induction xs arbitrary: val one)
  case Nil
  then show ?case by (subst ullong_loop.simps) (simp add: number_end_chr [OF assms(2)] text_value_def)
next
  case (Cons c xs)
  let ?val' = "val * word_of_int 10 + word_of_int (of_char c - 48)"
  have d: "isdigit (of_char c)" "digit_text xs" using Cons.prems(1) by (simp_all add: digit_text_def)
  have lt: "unat val * 10 + (of_char c - 48) < 2 ^ LENGTH(64)"
    using Cons.prems(2) text_value_mono [of "unat val * 10 + (of_char c - 48)" xs] by (simp add: text_value_Cons)
  note v = digit_step [OF d(1) lt]
  have "unat (ucast (ucast val :: 32 word) :: 64 word) \<le> unat val"
    by (simp add: unsigned_ucast_eq unsigned_take_bit_eq take_bit_nat_less_eq_self)
  then have ge: "\<not> ?val' < ucast (ucast val :: 32 word)" by (simp only: word_less_nat_alt v)
  have "0 \<le> of_char c - (48 :: int)" using d(1) by (simp add: isdigit_def)
  then have "ullong_loop 10 val one (of_char c) (s\<lparr>in_data := xs @ rest\<rparr>) =
      ullong_loop 10 ?val' True (chr_at (xs @ rest)) (st_at s (xs @ rest))"
    using d(1) ge by (subst ullong_loop.simps) (simp add: test_base_10 Let_def assms(1))
  moreover have "text_value (unat ?val') xs < 2 ^ 64" using Cons.prems(2) by (simp only: v) (simp add: text_value_Cons)
  ultimately show ?case using Cons.IH [OF d(2), of ?val' True] by (simp only: v) (simp add: text_value_Cons)
qed

lemma isdigit_digit_char: "d < 10 \<Longrightarrow> isdigit (of_char (digit_char enc d))"
  by (simp add: isdigit_def digit_char_def of_char_int del: of_char_of) simp

lemma of_char_digit_char: "d < 10 \<Longrightarrow> (of_char (digit_char enc d) :: nat) = 48 + d"
  by (simp add: digit_char_def)

lemma base_text_10: "digit_text (base_text 10 enc n) \<and> text_value 0 (base_text 10 enc n) = n"
proof (induction n rule: less_induct)
  case (less n)
  show ?case
  proof (cases "n = 0")
    case False
    then have "n div 10 < n" by simp
    then show ?thesis using less [of "n div 10"] False
      by (simp add: base_text_pos digit_text_def text_value_def isdigit_digit_char of_char_digit_char)
  qed (simp add: digit_text_def text_value_def)
qed

lemma hd_base_text_10: "0 < n \<Longrightarrow> of_char (hd (base_text 10 enc n)) \<noteq> (48 :: int)"
proof (induction n rule: less_induct)
  case (less n)
  show ?case
  proof (cases "n < 10")
    case True
    then show ?thesis using less.prems by (simp add: base_text_pos of_char_int of_char_digit_char)
  next
    case False
    then have "0 < n div 10" "n div 10 < n" by simp_all
    moreover from this have "base_text 10 enc (n div 10) \<noteq> []" by (simp add: base_text_eq_Nil)
    ultimately show ?thesis using less.IH [of "n div 10"] less.prems by (simp add: base_text_pos [of 10 n enc])
  qed
qed

text \<open>The text of a number for the scanners: no leading zero, so that the base is 10, or zero alone, read in base 8.\<close>

lemma digit_not_blank: "isdigit c \<Longrightarrow> \<not> isspace c" "isdigit c \<Longrightarrow> 0 \<le> c"
  by (auto simp: isdigit_def isspace_def)

lemma number_text_10:
  "0 < n \<Longrightarrow> \<exists>c cs. base_text 10 enc n = c # cs \<and> isdigit (of_char c) \<and> of_char c \<noteq> (48 :: int)"
  using base_text_10 [of enc n] hd_base_text_10 [of n enc]
  by (cases "base_text 10 enc n") (simp_all add: base_text_eq_Nil digit_text_def)

lemma skip_loop_stop: "\<not> isspace c \<Longrightarrow> skip_loop c s = (Inr c, s)"
  by (subst skip_loop.simps) simp

lemma Input_skip_get: "Input_get s = (Inr c, t) \<Longrightarrow> \<not> isspace c \<Longrightarrow> Input_skip s = (Inr c, t)"
  by (simp add: Input_skip_def skip_loop_stop)

text \<open>The state before a number: its text follows, or its first character has been put back.\<close>

definition at_number :: "istate \<Rightarrow> string \<Rightarrow> istate \<Rightarrow> bool" where
  "at_number s xs t \<longleftrightarrow> t = s\<lparr>in_data := xs\<rparr> \<or> xs \<noteq> [] \<and> t = st_after s xs"

lemma at_number_get: "fresh s \<Longrightarrow> at_number s xs t \<Longrightarrow> Input_get t = (Inr (chr_at xs), st_at s xs)"
  by (auto simp: at_number_def get_after)

lemma scanULong_number:
  assumes "fresh s" "number_end rest" "n < 2 ^ 32" "at_number s (number_text 10 enc n @ rest) t"
  shows "scanULong 0 t = (Inr (word_of_nat n), st_after s rest)"
proof (cases "n = 0")
  case True
  have "Input_skip t = (Inr 48, s\<lparr>in_data := rest\<rparr>)"
    using at_number_get [OF assms(1,4)] True by (intro Input_skip_get) (auto simp: number_text_def isspace_def)
  then show ?thesis using number_end_chr [OF assms(2)] True
    by (simp add: scanULong_def read_base_def assms(1) ulong_loop.simps [of 8] io_bind_def [where s = "st_at s rest"] back_at)
next
  case False
  let ?t = "base_text 10 enc n"
  obtain c cs where c: "?t = c # cs" "isdigit (of_char c)" "of_char c \<noteq> (48 :: int)"
    using number_text_10 [of n enc] False by auto
  have "Input_skip t = (Inr (of_char c), st_at s (?t @ rest))"
    using at_number_get [OF assms(1,4)] False c digit_not_blank [OF c(2)] by (intro Input_skip_get) (auto simp: number_text_def)
  moreover have "ulong_loop 10 0 False (of_char c) (st_at s (?t @ rest)) = (Inr (Some (word_of_nat n, True, chr_at rest)), st_at s rest)"
    using ulong_loop_digits [OF assms(1,2), of ?t 0 False] base_text_10 [of enc n] assms(3) c(1) by simp
  ultimately show ?thesis using c(3)
    by (simp add: scanULong_def read_base_def io_bind_def [where s = "st_at s rest"] back_at assms(1))
qed

lemma scanULLong_number:
  assumes "fresh s" "number_end rest" "n < 2 ^ 64" "at_number s (number_text 10 enc n @ rest) t"
  shows "scanULLong 0 t = (Inr (word_of_nat n), st_after s rest)"
proof (cases "n = 0")
  case True
  have "Input_skip t = (Inr 48, s\<lparr>in_data := rest\<rparr>)"
    using at_number_get [OF assms(1,4)] True by (intro Input_skip_get) (auto simp: number_text_def isspace_def)
  then show ?thesis using number_end_chr [OF assms(2)] True
    by (simp add: scanULLong_def read_base_def assms(1) ullong_loop.simps [of 8] io_bind_def [where s = "st_at s rest"] back_at)
next
  case False
  let ?t = "base_text 10 enc n"
  obtain c cs where c: "?t = c # cs" "isdigit (of_char c)" "of_char c \<noteq> (48 :: int)"
    using number_text_10 [of n enc] False by auto
  have "Input_skip t = (Inr (of_char c), st_at s (?t @ rest))"
    using at_number_get [OF assms(1,4)] False c digit_not_blank [OF c(2)] by (intro Input_skip_get) (auto simp: number_text_def)
  moreover have "ullong_loop 10 0 False (of_char c) (st_at s (?t @ rest)) = (Inr (Some (word_of_nat n, True, chr_at rest)), st_at s rest)"
    using ullong_loop_digits [OF assms(1,2), of ?t 0 False] base_text_10 [of enc n] assms(3) c(1) by simp
  ultimately show ?thesis using c(3)
    by (simp add: scanULLong_def read_base_def io_bind_def [where s = "st_at s rest"] back_at assms(1))
qed

lemma number_text_hd:
  obtains c cs where "number_text 10 enc n = c # cs" "isdigit (of_char c)"
  using number_text_10 [of n enc] by (cases "n = 0") (auto simp: number_text_def isdigit_def)

lemma scanLong_number:
  assumes "fresh s" "number_end rest" "n < 2 ^ 31"
  shows "scanLong 0 (s\<lparr>in_data := number_text 10 enc n @ rest\<rparr>) = (Inr (word_of_nat n), st_after s rest)"
    and "scanLong 0 (s\<lparr>in_data := CHR ''-'' # number_text 10 enc n @ rest\<rparr>) = (Inr (- word_of_nat n), st_after s rest)"
proof -
  let ?t = "number_text 10 enc n"
  obtain c cs where c: "?t = c # cs" "isdigit (of_char c)" by (rule number_text_hd)
  have n: "\<not> 2147483648 \<le> (word_of_nat n :: 32 word)" using assms(3) by (simp add: word_le_nat_alt unat_of_nat take_bit_nat_eq_self)
  have sc: "at_number s (?t @ rest) t \<Longrightarrow> scanULong 0 t = (Inr (word_of_nat n), st_after s rest)" for t
    using scanULong_number [OF assms(1,2)] assms(3) by simp
  have k: "Input_skip (s\<lparr>in_data := ?t @ rest\<rparr>) = (Inr (of_char c), s\<lparr>in_data := cs @ rest\<rparr>)"
    using c digit_not_blank [OF c(2)] assms(1) by (intro Input_skip_get) simp_all
  have b: "Input_back (of_char c) (s\<lparr>in_data := cs @ rest\<rparr>) = (Inr (), st_after s (?t @ rest))"
    using assms(1) c(1) by (simp add: Input_back_def fresh_def st_after_def)
  have ne: "at_number s (?t @ rest) (st_after s (?t @ rest))" using c(1) by (simp add: at_number_def)
  have d: "of_char c \<noteq> (45 :: int)" "of_char c \<noteq> (43 :: int)" using c(2) by (auto simp: isdigit_def)
  show "scanLong 0 (s\<lparr>in_data := ?t @ rest\<rparr>) = (Inr (word_of_nat n), st_after s rest)"
    using sc [of "st_after s (?t @ rest)", OF ne] d assms(3)
    by (simp add: scanLong_def io_bind_def k b n)
  have m: "Input_skip (s\<lparr>in_data := CHR ''-'' # ?t @ rest\<rparr>) = (Inr 45, s\<lparr>in_data := ?t @ rest\<rparr>)"
    using assms(1) by (intro Input_skip_get) (simp_all add: isspace_def)
  show "scanLong 0 (s\<lparr>in_data := CHR ''-'' # ?t @ rest\<rparr>) = (Inr (- word_of_nat n), st_after s rest)"
    using sc [of "s\<lparr>in_data := ?t @ rest\<rparr>"] assms(3)
    by (simp add: scanLong_def io_bind_def m n at_number_def)
qed

lemma scanLLong_number:
  assumes "fresh s" "number_end rest" "n < 2 ^ 63"
  shows "scanLLong 0 (s\<lparr>in_data := number_text 10 enc n @ rest\<rparr>) = (Inr (word_of_nat n), st_after s rest)"
    and "scanLLong 0 (s\<lparr>in_data := CHR ''-'' # number_text 10 enc n @ rest\<rparr>) = (Inr (- word_of_nat n), st_after s rest)"
proof -
  let ?t = "number_text 10 enc n"
  obtain c cs where c: "?t = c # cs" "isdigit (of_char c)" by (rule number_text_hd)
  have n: "\<not> 9223372036854775808 \<le> (word_of_nat n :: 64 word)" using assms(3) by (simp add: word_le_nat_alt unat_of_nat take_bit_nat_eq_self)
  have sc: "at_number s (?t @ rest) t \<Longrightarrow> scanULLong 0 t = (Inr (word_of_nat n), st_after s rest)" for t
    using scanULLong_number [OF assms(1,2)] assms(3) by simp
  have k: "Input_skip (s\<lparr>in_data := ?t @ rest\<rparr>) = (Inr (of_char c), s\<lparr>in_data := cs @ rest\<rparr>)"
    using c digit_not_blank [OF c(2)] assms(1) by (intro Input_skip_get) simp_all
  have b: "Input_back (of_char c) (s\<lparr>in_data := cs @ rest\<rparr>) = (Inr (), st_after s (?t @ rest))"
    using assms(1) c(1) by (simp add: Input_back_def fresh_def st_after_def)
  have ne: "at_number s (?t @ rest) (st_after s (?t @ rest))" using c(1) by (simp add: at_number_def)
  have d: "of_char c \<noteq> (45 :: int)" "of_char c \<noteq> (43 :: int)" using c(2) by (auto simp: isdigit_def)
  show "scanLLong 0 (s\<lparr>in_data := ?t @ rest\<rparr>) = (Inr (word_of_nat n), st_after s rest)"
    using sc [of "st_after s (?t @ rest)", OF ne] d assms(3)
    by (simp add: scanLLong_def io_bind_def k b n)
  have m: "Input_skip (s\<lparr>in_data := CHR ''-'' # ?t @ rest\<rparr>) = (Inr 45, s\<lparr>in_data := ?t @ rest\<rparr>)"
    using assms(1) by (intro Input_skip_get) (simp_all add: isspace_def)
  show "scanLLong 0 (s\<lparr>in_data := CHR ''-'' # ?t @ rest\<rparr>) = (Inr (- word_of_nat n), st_after s rest)"
    using sc [of "s\<lparr>in_data := ?t @ rest\<rparr>"] assms(3)
    by (simp add: scanLLong_def io_bind_def m n at_number_def)
qed

section \<open>The printed texts\<close>

definition sign_text :: "bool \<Rightarrow> nat \<Rightarrow> string" where
  "sign_text neg n = (if neg then CHR ''-'' # number_text 10 CHR ''a'' n else number_text 10 CHR ''a'' n)"

lemma unat_neg_sint:
  fixes v :: "'a :: len word"
  assumes "sint v < 0"
  shows "unat (- v) = nat (- sint v)" "unat (- v) \<le> 2 ^ (LENGTH('a) - 1)"
proof -
  have r: "- (2 ^ (LENGTH('a) - 1)) \<le> sint v" using sint_greater_eq [of v] by simp
  have p: "(2 :: int) ^ (LENGTH('a) - 1) < 2 ^ LENGTH('a)" by simp
  have "- v = word_of_int (- sint v)" by simp
  then have "uint (- v) = take_bit LENGTH('a) (- sint v)" by (simp only: uint_word_of_int_eq)
  also have "\<dots> = - sint v" using assms r p by (intro take_bit_int_eq_self) linarith+
  finally have u: "uint (- v) = - sint v" .
  then show "unat (- v) = nat (- sint v)" by (metis unat_eq_nat_uint)
  then show "unat (- v) \<le> 2 ^ (LENGTH('a) - 1)" using r by (simp add: nat_le_iff)
qed

lemma unat_pos_sint:
  fixes v :: "'a :: len word"
  assumes "\<not> sint v < 0"
  shows "unat v = nat (sint v)" "unat v < 2 ^ (LENGTH('a) - 1)"
proof -
  have "(2 :: int) ^ (LENGTH('a) - 1) < 2 ^ LENGTH('a)" by simp
  with sint_lt have "sint v < 2 ^ LENGTH('a)" by (rule less_trans)
  then have "take_bit LENGTH('a) (sint v) = sint v" using assms by (simp add: take_bit_int_eq_self)
  then have "uint v = sint v" by (simp only: uint_sint)
  then show "unat v = nat (sint v)" by (metis unat_eq_nat_uint)
  then show "unat v < 2 ^ (LENGTH('a) - 1)" using sint_less [of v] by (simp add: nat_less_iff)
qed

definition out_new :: ostate where
  "out_new = \<lparr>out_text = [], out_refuses = False\<rparr>"

lemma checked_write_new: "checked_write t out_new = (Inr (), \<lparr>out_text = t, out_refuses = False\<rparr>)"
  by (simp add: checked_write_def strm_write_def out_new_def)

lemma put_front_room: "0 < n \<Longrightarrow> put_front c (n, p) = Inr (n - 1, c # p)"
  by (simp add: put_front_def)

lemma print_int32_text:
  "print_int32 v out_new = (Inr (), \<lparr>out_text = sign_text (sint v < 0) (nat \<bar>sint v\<bar>), out_refuses = False\<rparr>)"
proof -
  define n where "n = nat \<bar>sint v\<bar>"
  have n: "n \<le> 2 ^ 31" using sint_greater_eq [of v] sint_less [of v] by (simp add: n_def nat_le_iff)
  then have l: "length (number_text 10 CHR ''a'' n) \<le> 10" by (intro length_number_text) simp_all
  have w: "unat (if sint v < 0 then - v else v) = n"
    using unat_neg_sint(1) [of v] unat_pos_sint(1) [of v] by (simp add: n_def)
  have u: "unat (ucast (if sint v < 0 then - v else v) :: 64 word) = n"
    using n by (simp only: unsigned_ucast_eq w) (simp add: take_bit_nat_eq_self)
  show ?thesis
    using l by (simp add: print_int32_def horner_ok Let_def u n_def [symmetric] put_front_room sign_text_def io_lift_def
        checked_write_new io_bind_def)
qed

lemma print_int64_text:
  "print_int64 v out_new = (Inr (), \<lparr>out_text = sign_text (sint v < 0) (nat \<bar>sint v\<bar>), out_refuses = False\<rparr>)"
proof -
  define n where "n = nat \<bar>sint v\<bar>"
  have n: "n \<le> 2 ^ 63" using sint_greater_eq [of v] sint_less [of v] by (simp add: n_def nat_le_iff)
  then have l: "length (number_text 10 CHR ''a'' n) \<le> 19" by (intro length_number_text) simp_all
  have u: "unat (if sint v < 0 then - v else v) = n"
    using unat_neg_sint(1) [of v] unat_pos_sint(1) [of v] by (simp add: n_def)
  show ?thesis
    using l by (simp add: print_int64_def horner_ok Let_def u n_def [symmetric] put_front_room sign_text_def io_lift_def
        checked_write_new io_bind_def)
qed

lemma print_uint32_text:
  "print_uint32 v out_new = (Inr (), \<lparr>out_text = sign_text False (unat v), out_refuses = False\<rparr>)"
proof -
  have "length (number_text 10 CHR ''a'' (unat v)) \<le> 10" using unat_ltp [of v] by (intro length_number_text) simp_all
  moreover have "unat (ucast v :: 64 word) = unat v"
    using unat_ltp [of v] by (simp add: unsigned_ucast_eq take_bit_nat_eq_self)
  ultimately show ?thesis
    by (simp add: print_uint32_def horner_ok sign_text_def io_lift_def checked_write_new io_bind_def)
qed

lemma print_uint64_text:
  "print_uint64 v out_new = (Inr (), \<lparr>out_text = sign_text False (unat v), out_refuses = False\<rparr>)"
proof -
  have "length (number_text 10 CHR ''a'' (unat v)) \<le> 20" using unat_ltp [of v] by (intro length_number_text) simp_all
  then show ?thesis
    by (simp add: print_uint64_def horner_ok sign_text_def io_lift_def checked_write_new io_bind_def)
qed

lemma sint_of_abs:
  fixes v :: "'a :: len word"
  shows "(if sint v < 0 then - word_of_nat (nat \<bar>sint v\<bar>) else word_of_nat (nat \<bar>sint v\<bar>)) = v"
  by simp

lemma scanLong_sign:
  assumes "fresh s" "number_end rest" "n < 2 ^ 31"
  shows "scanLong 0 (s\<lparr>in_data := sign_text neg n @ rest\<rparr>) = (Inr (if neg then - word_of_nat n else word_of_nat n), st_after s rest)"
  by (cases neg) (simp_all add: sign_text_def scanLong_number [OF assms])

lemma scanLLong_sign:
  assumes "fresh s" "number_end rest" "n < 2 ^ 63"
  shows "scanLLong 0 (s\<lparr>in_data := sign_text neg n @ rest\<rparr>) = (Inr (if neg then - word_of_nat n else word_of_nat n), st_after s rest)"
  by (cases neg) (simp_all add: sign_text_def scanLLong_number [OF assms])

text \<open>The text of the lowest integer of a type, with a sign, is over its range.\<close>

lemma scanLong_over:
  assumes "fresh s" "number_end rest" "2 ^ 31 \<le> n" "n < 2 ^ 32"
  shows "scanLong 0 (s\<lparr>in_data := sign_text True n @ rest\<rparr>) = set_failed 0 (st_after s rest)"
proof -
  have n: "2147483648 \<le> (word_of_nat n :: 32 word)" using assms(3,4) by (simp add: word_le_nat_alt unat_of_nat take_bit_nat_eq_self)
  have k: "Input_skip (s\<lparr>in_data := CHR ''-'' # number_text 10 CHR ''a'' n @ rest\<rparr>) = (Inr 45, s\<lparr>in_data := number_text 10 CHR ''a'' n @ rest\<rparr>)"
    using assms(1) by (intro Input_skip_get) (simp_all add: isspace_def)
  have "scanULong 0 (s\<lparr>in_data := number_text 10 CHR ''a'' n @ rest\<rparr>) = (Inr (word_of_nat n), st_after s rest)"
    by (rule scanULong_number [OF assms(1,2,4), where enc = "CHR ''a''"]) (simp add: at_number_def)
  then show ?thesis using n by (simp add: scanLong_def io_bind_def sign_text_def k)
qed

lemma scanLLong_over:
  assumes "fresh s" "number_end rest" "2 ^ 63 \<le> n" "n < 2 ^ 64"
  shows "scanLLong 0 (s\<lparr>in_data := sign_text True n @ rest\<rparr>) = set_failed 0 (st_after s rest)"
proof -
  have n: "9223372036854775808 \<le> (word_of_nat n :: 64 word)" using assms(3,4) by (simp add: word_le_nat_alt unat_of_nat take_bit_nat_eq_self)
  have k: "Input_skip (s\<lparr>in_data := CHR ''-'' # number_text 10 CHR ''a'' n @ rest\<rparr>) = (Inr 45, s\<lparr>in_data := number_text 10 CHR ''a'' n @ rest\<rparr>)"
    using assms(1) by (intro Input_skip_get) (simp_all add: isspace_def)
  have "scanULLong 0 (s\<lparr>in_data := number_text 10 CHR ''a'' n @ rest\<rparr>) = (Inr (word_of_nat n), st_after s rest)"
    by (rule scanULLong_number [OF assms(1,2,4), where enc = "CHR ''a''"]) (simp add: at_number_def)
  then show ?thesis using n by (simp add: scanLLong_def io_bind_def sign_text_def k)
qed

text \<open>
  C20. Scanning and printed numbers: the text that \<^verbatim>\<open>Output\<close> prints for an unsigned 32-bit or
  64-bit integer, followed by nothing or by a blank, is read by
  \<^verbatim>\<open>scanULong\<close> and \<^verbatim>\<open>scanULLong\<close>, with the base detected from
  the text, as the same integer, without any failure, and what follows is left to read. \<^verbatim>\<open>scanLong\<close> and
  \<^verbatim>\<open>scanLLong\<close> do it for every signed integer but the lowest of its type, on which they
  fail and return 0.
\<close>

theorem print_scan_roundtrip:
  fixes v :: "32 word" and w :: "64 word"
  assumes "rest = [] \<or> isspace (of_char (hd rest))"
  defines "txt \<equiv> (\<lambda>p. out_text (snd (p \<lparr>out_text = [], out_refuses = False\<rparr>)))"
  shows "scanLong 0 (Input_new (txt (print_int32 v) @ rest) False) =
      (if sint v = - (2 ^ 31) then set_failed 0 (st_after (Input_new [] False) rest) else (Inr v, st_after (Input_new [] False) rest)) \<and>
    scanLLong 0 (Input_new (txt (print_int64 w) @ rest) False) =
      (if sint w = - (2 ^ 63) then set_failed 0 (st_after (Input_new [] False) rest) else (Inr w, st_after (Input_new [] False) rest)) \<and>
    scanULong 0 (Input_new (txt (print_uint32 v) @ rest) False) = (Inr v, st_after (Input_new [] False) rest) \<and>
    scanULLong 0 (Input_new (txt (print_uint64 w) @ rest) False) = (Inr w, st_after (Input_new [] False) rest)"
proof -
  let ?s = "Input_new [] False"
  have s: "fresh ?s" "Input_new t False = ?s\<lparr>in_data := t\<rparr>" for t by (simp_all add: fresh_def Input_new_def)
  have e: "number_end rest" using assms(1) by (simp add: number_end_def)
  have t: "txt (print_int32 v) = sign_text (sint v < 0) (nat \<bar>sint v\<bar>)" "txt (print_int64 w) = sign_text (sint w < 0) (nat \<bar>sint w\<bar>)"
    "txt (print_uint32 v) = number_text 10 CHR ''a'' (unat v)" "txt (print_uint64 w) = number_text 10 CHR ''a'' (unat w)"
    by (simp_all add: txt_def out_new_def [symmetric] print_int32_text print_int64_text print_uint32_text print_uint64_text sign_text_def)
  have a: "at_number ?s xs (?s\<lparr>in_data := xs\<rparr>)" for xs by (simp add: at_number_def)
  have i32: "scanLong 0 (?s\<lparr>in_data := sign_text (sint v < 0) (nat \<bar>sint v\<bar>) @ rest\<rparr>) =
      (if sint v = - (2 ^ 31) then set_failed 0 (st_after ?s rest) else (Inr v, st_after ?s rest))"
  proof (cases "sint v = - (2 ^ 31)")
    case True
    then show ?thesis using scanLong_over [OF s(1) e, of "2 ^ 31"] by simp
  next
    case False
    then have "nat \<bar>sint v\<bar> < 2 ^ 31" using sint_greater_eq [of v] sint_less [of v] by (simp add: nat_less_iff)
    then show ?thesis using False scanLong_sign [OF s(1) e, of "nat \<bar>sint v\<bar>" "sint v < 0", unfolded sint_of_abs] by simp
  qed
  have i64: "scanLLong 0 (?s\<lparr>in_data := sign_text (sint w < 0) (nat \<bar>sint w\<bar>) @ rest\<rparr>) =
      (if sint w = - (2 ^ 63) then set_failed 0 (st_after ?s rest) else (Inr w, st_after ?s rest))"
  proof (cases "sint w = - (2 ^ 63)")
    case True
    then show ?thesis using scanLLong_over [OF s(1) e, of "2 ^ 63"] by simp
  next
    case False
    then have "nat \<bar>sint w\<bar> < 2 ^ 63" using sint_greater_eq [of w] sint_less [of w] by (simp add: nat_less_iff)
    then show ?thesis using False scanLLong_sign [OF s(1) e, of "nat \<bar>sint w\<bar>" "sint w < 0", unfolded sint_of_abs] by simp
  qed
  have u32: "scanULong 0 (?s\<lparr>in_data := number_text 10 CHR ''a'' (unat v) @ rest\<rparr>) = (Inr v, st_after ?s rest)"
    using scanULong_number [OF s(1) e _ a, of "unat v" "CHR ''a''"] unat_ltp [of v] by simp
  have u64: "scanULLong 0 (?s\<lparr>in_data := number_text 10 CHR ''a'' (unat w) @ rest\<rparr>) = (Inr w, st_after ?s rest)"
    using scanULLong_number [OF s(1) e _ a, of "unat w" "CHR ''a''"] unat_ltp [of w] by simp
  show ?thesis by (intro conjI) (simp_all only: t s(2) [of "_ @ _"] i32 i64 u32 u64)
qed

theorem print_scan_roundtrip_witness:
  "scanLong 0 (Input_new (out_text (snd (print_int32 (- 42) \<lparr>out_text = [], out_refuses = False\<rparr>)) @ '' 7'') False) =
    (Inr (- 42), st_after (Input_new [] False) '' 7'')"
  using print_scan_roundtrip [of "'' 7''" "- 42" "5"] by (simp add: isspace_def)


section \<open>Formatted numbers\<close>

definition emit :: "string \<Rightarrow> ostate \<Rightarrow> ostate" where
  "emit t o1 = (if out_refuses o1 then o1 else o1\<lparr>out_text := out_text o1 @ t\<rparr>)"

lemma unchecked_write_emit: "unchecked_write t o1 = (Inr (), emit t o1)"
  by (simp add: unchecked_write_def strm_write_def emit_def)

lemma emit_emit: "emit u (emit t o1) = emit (t @ u) o1"
  by (simp add: emit_def)

lemma emit_Nil: "emit [] o1 = o1"
  by (simp add: emit_def)

lemma write_pads_emit: "write_pads n c o1 = (Inr (), emit (replicate n c) o1)"
  by (induction n arbitrary: o1) (simp_all add: emit_Nil unchecked_write_emit emit_emit io_bind_def)

definition format_sign :: "int_format \<Rightarrow> string" where
  "format_sign f =
     (if fmt_displaySign f \<and> 0 < sint (fmt_val f) then ''+'' else []) @ (if fmt_sign f \<and> sint (fmt_val f) < 0 then ''-'' else [])"

definition format_text :: "int_format \<Rightarrow> string" where
  "format_text f = format_sign f @ number_text (fmt_base f) (if fmt_upper f then CHR ''A'' else CHR ''a'') (unat (int_format_value f))"

lemma int_format_text_ok:
  assumes "2 \<le> fmt_base f"
  shows "int_format_text f = (if length (format_text f) \<le> 32 then Inr (format_text f) else Inl Out_of_bounds)"
  using horner_ok [OF assms, of 32 "int_format_value f"]
  by (auto simp: int_format_text_def format_text_def format_sign_def put_front_def Let_def)

text \<open>
  C21. A formatted integer is printed as its sign and digits in the requested base, between the left
  and right paddings that complete the text to the width of the format and are placed according to
  the alignment; a text of more than 32 characters overruns the buffer of the digits, and a
  stream that refuses the characters is not reported. A minus is printed for a negative value when \<^verbatim>\<open>_sign\<close> is set, and nothing when it
  is not, whereas its comment in \<^verbatim>\<open>io_Output.cpp\<close> announces any sign and the negative one; a
  plus is printed in front of a positive value when \<^verbatim>\<open>_displaySign\<close> is set.
\<close>

theorem print_int_format_correct:
  assumes "2 \<le> fmt_base f"
  shows "print_int_format f o1 =
      (let t = format_text f; (l, r) = pads (fmt_align f) (fmt_width f) (length t) in
       if 32 < length t then (Inl Out_of_bounds, o1)
       else if out_refuses o1 then (Inr (), o1)
       else (Inr (), o1\<lparr>out_text := out_text o1 @ replicate l (fmt_pad f) @ t @ replicate r (fmt_pad f)\<rparr>)) \<and>
    (\<forall>n. case pads (fmt_align f) (fmt_width f) n of (l, r) \<Rightarrow> l + n + r = max n (fmt_width f))"
proof (intro conjI allI)
  fix n
  show "case pads (fmt_align f) (fmt_width f) n of (l, r) \<Rightarrow> l + n + r = max n (fmt_width f)"
    by (cases "fmt_align f") (auto simp: pads_def)
next
  show "print_int_format f o1 =
      (let t = format_text f; (l, r) = pads (fmt_align f) (fmt_width f) (length t) in
       if 32 < length t then (Inl Out_of_bounds, o1)
       else if out_refuses o1 then (Inr (), o1)
       else (Inr (), o1\<lparr>out_text := out_text o1 @ replicate l (fmt_pad f) @ t @ replicate r (fmt_pad f)\<rparr>))"
    by (cases "pads (fmt_align f) (fmt_width f) (length (format_text f))")
      (simp add: print_int_format_def int_format_text_ok [OF assms] io_lift_def io_bind_def write_pads_emit unchecked_write_emit
        emit_emit Let_def, simp add: emit_def)
qed

theorem print_int_format_correct_witness:
  "print_int_format (fmt_byte 10) \<lparr>out_text = ''x'', out_refuses = False\<rparr> = (Inr (), \<lparr>out_text = ''x0a'', out_refuses = False\<rparr>)"
proof -
  have "2 \<le> fmt_base (fmt_byte 10)" by code_simp
  moreover have "format_text (fmt_byte 10) = ''a''" "fmt_align (fmt_byte 10) = RIGHT" "fmt_width (fmt_byte 10) = 2" "fmt_pad (fmt_byte 10) = CHR ''0''"
    by code_simp+
  ultimately show ?thesis using print_int_format_correct [of "fmt_byte 10" "\<lparr>out_text = ''x'', out_refuses = False\<rparr>"]
    by (simp add: pads_def numeral_2_eq_2)
qed

text \<open>
  Inputs that the scanners and formats mistreat: an overflow of ten decimal digits that
  \<^verbatim>\<open>scanULong\<close> returns modulo 2 to the 32 without failure, the lowest 32-bit integer refused by
  \<^verbatim>\<open>scanLong\<close>, an end of input reported by \<^verbatim>\<open>scanBool\<close> as a state without the ended flag, a
  refused character replaced by the expected one, the sign of an exponent without effect whatever
  the operations on floating-point numbers, a pointer with its zeros after its digits, and a
  binary format of more than 32 digits.
\<close>

lemma io_defects:
  "scanULong 10 (Input_new ''10000000000'' False) = (Inr 1410065408, st_after (Input_new [] False) []) \<and>
   fst (scanLong 0 (Input_new ''-2147483648'' False)) = Inr 0 \<and>
   in_state (snd (scanLong 0 (Input_new ''-2147483648'' False))) = IN_ENDED OR IN_FAILED \<and>
   (let (r, s) = scanBool (Input_new [] False) in r = Inr False \<and> in_state s = - 1) \<and>
   (let (r, s) = swallow_char CHR ''a'' (Input_new ''b'' False) in r = Inl io_exception \<and> fst (Input_get s) = Inr 97) \<and>
   (\<forall>F. fst (scanDouble F (Input_new ''1e-2'' False)) = fst (scanDouble F (Input_new ''1e2'' False))) \<and>
   print_int_format (fmt_pointer 255) out_new = (Inr (), \<lparr>out_text = ''ff00000000000000'', out_refuses = False\<rparr>) \<and>
   fst (print_int_format (IntFormat_bin (IntFormat_uint64 (push_bit 32 1))) out_new) = Inl Out_of_bounds"
proof (intro conjI allI)
  show "scanULong 10 (Input_new ''10000000000'' False) = (Inr 1410065408, st_after (Input_new [] False) [])" by code_simp
  show "fst (scanLong 0 (Input_new ''-2147483648'' False)) = Inr 0" by code_simp
  show "in_state (snd (scanLong 0 (Input_new ''-2147483648'' False))) = IN_ENDED OR IN_FAILED" by code_simp
  show "let (r, s) = scanBool (Input_new [] False) in r = Inr False \<and> in_state s = - 1" by code_simp
  show "let (r, s) = swallow_char CHR ''a'' (Input_new ''b'' False) in r = Inl io_exception \<and> fst (Input_get s) = Inr 97" by code_simp
  have f: "char_of (102 :: nat) = CHR ''f''" by code_simp
  have "format_text (fmt_pointer 255) = ''ff''" "2 \<le> fmt_base (fmt_pointer 255)"
    by (simp_all add: fmt_pointer_def IntFormat_pad_def IntFormat_width_def IntFormat_hex_def IntFormat_int64_def IntFormat_init_def
        format_text_def format_sign_def int_format_value_def number_text_def base_text_pos digit_char_def f)
  moreover have "fmt_align (fmt_pointer 255) = LEFT" "fmt_width (fmt_pointer 255) = 16" "fmt_pad (fmt_pointer 255) = CHR ''0''"
    by (simp_all add: fmt_pointer_def IntFormat_pad_def IntFormat_width_def IntFormat_hex_def IntFormat_int64_def IntFormat_init_def)
  moreover have "replicate 14 CHR ''0'' = ''00000000000000''" by (simp add: numeral_eq_Suc)
  ultimately show "print_int_format (fmt_pointer 255) out_new = (Inr (), \<lparr>out_text = ''ff00000000000000'', out_refuses = False\<rparr>)"
    by (simp add: print_int_format_def int_format_text_ok io_lift_def io_bind_def write_pads_emit unchecked_write_emit emit_emit pads_def
        emit_def out_new_def)
  have "length (format_text (IntFormat_bin (IntFormat_uint64 (push_bit 32 1)))) = 33"
    "2 \<le> fmt_base (IntFormat_bin (IntFormat_uint64 (push_bit 32 1)))"
    by (simp_all add: IntFormat_bin_def IntFormat_uint64_def IntFormat_init_def
        format_text_def format_sign_def int_format_value_def number_text_def base_text_pos)
  then show "fst (print_int_format (IntFormat_bin (IntFormat_uint64 (push_bit 32 1))) out_new) = Inl Out_of_bounds"
    by (simp add: print_int_format_def int_format_text_ok io_lift_def io_bind_def)
  fix F :: "'a fops"
  show "fst (scanDouble F (Input_new ''1e-2'' False)) = fst (scanDouble F (Input_new ''1e2'' False))"
    by (simp add: scanDouble_def Input_skip_def Input_new_def io_bind_def Input_get_def strm_read_def skip_loop.simps digits_loop.simps isdigit_def isspace_def
        STREAM_FAILED_def STREAM_ENDED_def add_state_def Input_back_def Let_def)
qed

end
