(* ===== verification/Io_Streams.thy ===== *)
theory Io_Streams
  imports Elm_Io
begin

text \<open>
  The streams of \<^verbatim>\<open>src/io_*.cpp\<close> that hold characters in memory: the growing block behind
  \<^verbatim>\<open>BlockOutStream\<close> and \<^verbatim>\<open>StringBuffer\<close>, the buffered output and input over another stream, the
  input from a block, and the expander of variables, a state machine over another output.
  The contract of a stream is a locale; the buffered streams are proved once over any
  stream that meets it, and are interpreted on the block streams.
\<close>

section \<open>Growing blocks\<close>

text \<open>
  \<^verbatim>\<open>db_buf\<close> is the allocated array, or nothing after it has been detached. The contents of a
  fresh array are unknown: they are given as a parameter \<^verbatim>\<open>junk\<close>.
\<close>

record dynblock =
  db_size :: nat
  db_cap :: nat
  db_inc :: nat
  db_buf :: "string option"

definition DynBlock_new :: "char \<Rightarrow> nat \<Rightarrow> nat \<Rightarrow> dynblock" where
  "DynBlock_new junk capacity increment =
     \<lparr>db_size = 0, db_cap = capacity, db_inc = increment, db_buf = Some (replicate capacity junk)\<rparr>"

text \<open>A copy of characters into an array at an offset.\<close>

definition block_copy :: "nat \<Rightarrow> string \<Rightarrow> string \<Rightarrow> string res" where
  "block_copy off src dst =
     (if off + length src \<le> length dst then Inr (take off dst @ src @ drop (off + length src) dst) else Inl Out_of_bounds)"

text \<open>\<^verbatim>\<open>grow\<close> leaves the capacity as it is.\<close>

definition DynBlock_grow :: "char \<Rightarrow> nat \<Rightarrow> dynblock \<Rightarrow> dynblock res" where
  "DynBlock_grow junk min1 b =
     (let new_size = db_cap b + (if db_inc b < min1 then min1 else db_inc b) in
      case db_buf b of
        None \<Rightarrow> if db_size b = 0 then Inr (b\<lparr>db_buf := Some (replicate new_size junk)\<rparr>) else Inl Null_dereference
      | Some buf \<Rightarrow>
          if length buf < db_size b then Inl Out_of_bounds
          else bind_res (block_copy 0 (take (db_size b) buf) (replicate new_size junk)) (\<lambda>buf'. Inr (b\<lparr>db_buf := Some buf'\<rparr>)))"

definition DynBlock_reserve :: "char \<Rightarrow> nat \<Rightarrow> dynblock \<Rightarrow> dynblock res" where
  "DynBlock_reserve junk size1 b =
     (if db_cap b < db_size b + size1 then DynBlock_grow junk (db_size b + size1 - db_cap b) b else Inr b)"

definition DynBlock_put :: "char \<Rightarrow> string \<Rightarrow> dynblock \<Rightarrow> dynblock res" where
  "DynBlock_put junk block b =
     bind_res (DynBlock_reserve junk (length block) b) (\<lambda>b.
       case db_buf b of
         None \<Rightarrow> if block = [] then Inr b else Inl Null_dereference
       | Some buf \<Rightarrow>
           bind_res (block_copy (db_size b) block buf) (\<lambda>buf'.
             Inr (b\<lparr>db_buf := Some buf', db_size := db_size b + length block\<rparr>)))"

definition DynBlock_get :: "nat \<Rightarrow> nat \<Rightarrow> dynblock \<Rightarrow> string res" where
  "DynBlock_get size1 pos b =
     bind_res (assert_res (pos < db_size b)) (\<lambda>_.
     bind_res (assert_res (pos + size1 \<le> db_size b)) (\<lambda>_.
       case db_buf b of
         None \<Rightarrow> Inl Null_dereference
       | Some buf \<Rightarrow> if length buf < pos + size1 then Inl Out_of_bounds else Inr (take size1 (drop pos buf))))"

text \<open>\<^verbatim>\<open>alloc\<close> returns the offset of the allocated characters.\<close>

definition DynBlock_alloc :: "char \<Rightarrow> nat \<Rightarrow> dynblock \<Rightarrow> (nat \<times> dynblock) res" where
  "DynBlock_alloc junk size1 b =
     bind_res (DynBlock_reserve junk size1 b) (\<lambda>b. Inr (db_size b, b\<lparr>db_size := db_size b + size1\<rparr>))"

definition DynBlock_reset :: "char \<Rightarrow> dynblock \<Rightarrow> dynblock" where
  "DynBlock_reset junk b =
     b\<lparr>db_size := 0, db_buf := (case db_buf b of None \<Rightarrow> Some (replicate (db_cap b) junk) | Some buf \<Rightarrow> Some buf)\<rparr>"

definition DynBlock_detach :: "dynblock \<Rightarrow> string option \<times> dynblock" where
  "DynBlock_detach b = (db_buf b, b\<lparr>db_buf := None\<rparr>)"

text \<open>The invariant: an array is there, of at least the capacity, and the size fits in it.\<close>

definition dynblock_inv :: "dynblock \<Rightarrow> bool" where
  "dynblock_inv b \<longleftrightarrow> (case db_buf b of None \<Rightarrow> False | Some buf \<Rightarrow> db_size b \<le> length buf \<and> db_cap b \<le> length buf)"

definition contents :: "dynblock \<Rightarrow> string" where
  "contents b = (case db_buf b of None \<Rightarrow> [] | Some buf \<Rightarrow> take (db_size b) buf)"

lemma dynblock_inv_new: "dynblock_inv (DynBlock_new junk c i)" "contents (DynBlock_new junk c i) = []"
  by (simp_all add: dynblock_inv_def DynBlock_new_def contents_def)

lemma dynblock_invE:
  assumes "dynblock_inv b"
  obtains buf where "db_buf b = Some buf" "db_size b \<le> length buf" "db_cap b \<le> length buf"
  using assms by (cases "db_buf b") (auto simp: dynblock_inv_def)

lemma DynBlock_reserve_ok:
  assumes "dynblock_inv b"
  shows "\<exists>b'. DynBlock_reserve junk n b = Inr b' \<and> dynblock_inv b' \<and> contents b' = contents b \<and> db_size b' = db_size b \<and>
    db_cap b' = db_cap b \<and> (\<forall>buf. db_buf b' = Some buf \<longrightarrow> db_size b + n \<le> length buf)"
  by (rule dynblock_invE [OF assms])
    (auto simp: DynBlock_reserve_def DynBlock_grow_def block_copy_def dynblock_inv_def contents_def Let_def min_def)

lemma DynBlock_put_ok:
  assumes "dynblock_inv b"
  shows "\<exists>b'. DynBlock_put junk t b = Inr b' \<and> dynblock_inv b' \<and> contents b' = contents b @ t"
proof -
  obtain b1 where b1: "DynBlock_reserve junk (length t) b = Inr b1" "dynblock_inv b1" "contents b1 = contents b"
    "\<forall>buf. db_buf b1 = Some buf \<longrightarrow> db_size b1 + length t \<le> length buf"
    using DynBlock_reserve_ok [OF assms, of junk "length t"] by auto
  obtain buf where buf: "db_buf b1 = Some buf" "db_size b1 \<le> length buf" "db_cap b1 \<le> length buf" by (rule dynblock_invE [OF b1(2)])
  then show ?thesis using b1(1,2,4) unfolding b1(3) [symmetric]
    by (auto simp: DynBlock_put_def block_copy_def dynblock_inv_def contents_def)
qed


section \<open>Output streams\<close>

text \<open>
  The contract of an output stream: writing keeps the invariant and returns the number of
  characters, all added to those sent, or is refused with a negative result. A total stream
  refuses nothing.
\<close>

locale out_stream =
  fixes swrite :: "string \<Rightarrow> ('s, int) io" and sinv :: "'s \<Rightarrow> bool" and sent :: "'s \<Rightarrow> string"
  assumes write_result: "sinv s \<Longrightarrow> \<exists>r s'. swrite t s = (Inr r, s') \<and> sinv s' \<and>
    (if 0 \<le> r then r = int (length t) \<and> sent s' = sent s @ t else True)"

locale total_out_stream = out_stream +
  assumes write_accepted: "sinv s \<Longrightarrow> swrite t s = (Inr r, s') \<Longrightarrow> 0 \<le> r"
begin

lemma write_ok: "sinv s \<Longrightarrow> \<exists>s'. swrite t s = (Inr (int (length t)), s') \<and> sinv s' \<and> sent s' = sent s @ t"
  using write_result [of s t] write_accepted [of s t] by (auto split: if_splits)

end

text \<open>\<^verbatim>\<open>BlockOutStream\<close> writes in a growing block.\<close>

definition BlockOutStream_write :: "char \<Rightarrow> string \<Rightarrow> (dynblock, int) io" where
  "BlockOutStream_write junk t b =
     (case DynBlock_put junk t b of Inl e \<Rightarrow> (Inl e, b) | Inr b' \<Rightarrow> (Inr (int (length t)), b'))"

definition BlockOutStream_write_char :: "char \<Rightarrow> char \<Rightarrow> (dynblock, int) io" where
  "BlockOutStream_write_char junk c b =
     (case DynBlock_put junk [c] b of Inl e \<Rightarrow> (Inl e, b) | Inr b' \<Rightarrow> (Inr 1, b'))"

definition BlockOutStream_flush :: "(dynblock, int) io" where
  "BlockOutStream_flush = io_return 0"

definition BlockOutStream_toString :: "dynblock \<Rightarrow> string res" where
  "BlockOutStream_toString b =
     (case db_buf b of
        None \<Rightarrow> if db_size b = 0 then Inr [] else Inl Null_dereference
      | Some buf \<Rightarrow> if length buf < db_size b then Inl Out_of_bounds else Inr (take (db_size b) buf))"

text \<open>\<^verbatim>\<open>toCString\<close> ends the characters with a null one and gives the array away.\<close>

definition BlockOutStream_toCString :: "char \<Rightarrow> dynblock \<Rightarrow> (string option \<times> dynblock) res" where
  "BlockOutStream_toCString junk b =
     (case BlockOutStream_write_char junk (char_of (0 :: nat)) b of
        (Inl e, b) \<Rightarrow> Inl e
      | (Inr _, b) \<Rightarrow> Inr (DynBlock_detach b))"

interpretation block: total_out_stream "BlockOutStream_write junk" dynblock_inv contents for junk
proof
  fix s t assume "dynblock_inv s"
  then obtain b' where b': "DynBlock_put junk t s = Inr b'" "dynblock_inv b'" "contents b' = contents s @ t"
    using DynBlock_put_ok [of s junk t] by blast
  show "\<exists>r s'. BlockOutStream_write junk t s = (Inr r, s') \<and> dynblock_inv s' \<and>
      (if 0 \<le> r then r = int (length t) \<and> contents s' = contents s @ t else True)"
    by (rule exI [of _ "int (length t)"], rule exI [of _ b']) (simp add: BlockOutStream_write_def b')
next
  fix s t r s' assume "BlockOutStream_write junk t s = (Inr r, s')"
  then show "0 \<le> r" by (auto simp: BlockOutStream_write_def split: sum.splits)
qed

text \<open>The stream of \<^verbatim>\<open>Output\<close> in the previous theory meets the contract, and may refuse.\<close>

definition Stream_write :: "string \<Rightarrow> (ostate, int) io" where
  "Stream_write t o1 = (case strm_write t o1 of (r, o2) \<Rightarrow> (Inr r, o2))"

interpretation plain: out_stream Stream_write "\<lambda>_. True" out_text
  by unfold_locales (simp add: Stream_write_def strm_write_def)


section \<open>Buffered output\<close>

text \<open>
  \<^verbatim>\<open>bo_buf\<close> holds the first \<^verbatim>\<open>top\<close> characters of the buffer, not yet written to the stream
  \<^verbatim>\<open>bo_out\<close>; the write function of that stream is a parameter.
\<close>

record 'o bout =
  bo_out :: 'o
  bo_buf :: string
  bo_size :: nat

definition BufferedOutStream_new :: "'o \<Rightarrow> nat \<Rightarrow> 'o bout res" where
  "BufferedOutStream_new out1 size1 =
     bind_res (assert_res (size1 \<noteq> 0)) (\<lambda>_. Inr \<lparr>bo_out = out1, bo_buf = [], bo_size = size1\<rparr>)"

definition out_call :: "(string \<Rightarrow> ('o, int) io) \<Rightarrow> string \<Rightarrow> ('o bout, int) io" where
  "out_call w t s = (case w t (bo_out s) of (r, o') \<Rightarrow> (r, s\<lparr>bo_out := o'\<rparr>))"

definition set_buf :: "string \<Rightarrow> ('o bout, unit) io" where
  "set_buf t s = (Inr (), s\<lparr>bo_buf := t\<rparr>)"

definition BufferedOutStream_flush :: "(string \<Rightarrow> ('o, int) io) \<Rightarrow> ('o bout, int) io" where
  "BufferedOutStream_flush w s =
     (if bo_buf s = [] then (Inr 0, s)
      else io_bind (out_call w (bo_buf s)) (\<lambda>r. io_bind (set_buf []) (\<lambda>_. io_return r)) s)"

text \<open>The blocks written straight to the stream; \<^verbatim>\<open>None\<close> when one is refused.\<close>

function block_loop :: "(string \<Rightarrow> ('o, int) io) \<Rightarrow> nat \<Rightarrow> string \<Rightarrow> 'o bout \<Rightarrow> string option res \<times> 'o bout" where
  "block_loop w n t s =
     (if length t \<le> n then (Inr (Some t), s)
      else if n = 0 then (Inl Out_of_fuel, s)
      else io_bind (out_call w (take n t)) (\<lambda>r. if r < 0 then io_return None else block_loop w n (drop n t)) s)"
  by pat_completeness auto
termination by (relation "measure (\<lambda>(w, n, t, s). length t)") auto

declare block_loop.simps [simp del]

definition buf_append :: "string \<Rightarrow> ('o bout, unit) io" where
  "buf_append t s =
     (if length (bo_buf s) + length t \<le> bo_size s then (Inr (), s\<lparr>bo_buf := bo_buf s @ t\<rparr>) else (Inl Out_of_bounds, s))"

definition BufferedOutStream_write :: "(string \<Rightarrow> ('o, int) io) \<Rightarrow> string \<Rightarrow> ('o bout, int) io" where
  "BufferedOutStream_write w t s =
     io_bind
       (if bo_size s - length (bo_buf s) < length t
        then io_bind (if bo_buf s \<noteq> [] then BufferedOutStream_flush w else io_return 0) (\<lambda>_. block_loop w (bo_size s) t)
        else io_return (Some t))
       (\<lambda>rest. case rest of
            None \<Rightarrow> io_return (- 1)
          | Some u \<Rightarrow> io_bind (buf_append u) (\<lambda>_. io_return (int (length t)))) s"

definition BufferedOutStream_write_char :: "(string \<Rightarrow> ('o, int) io) \<Rightarrow> char \<Rightarrow> ('o bout, int) io" where
  "BufferedOutStream_write_char w c s =
     io_bind (if length (bo_buf s) = bo_size s then BufferedOutStream_flush w else io_return 0) (\<lambda>rc.
       if rc < 0 then io_return rc else io_bind (buf_append [c]) (\<lambda>_. io_return 0)) s"

definition BufferedOutStream_reset :: "'o bout \<Rightarrow> 'o bout" where
  "BufferedOutStream_reset s = s\<lparr>bo_buf := []\<rparr>"

definition BufferedOutStream_setStream :: "(string \<Rightarrow> ('o, int) io) \<Rightarrow> 'o \<Rightarrow> ('o bout, unit) io" where
  "BufferedOutStream_setStream w o1 =
     io_bind (BufferedOutStream_flush w) (\<lambda>_ s. (Inr (), s\<lparr>bo_out := o1\<rparr>))"

text \<open>The characters written to the buffered stream: those sent to the stream and those of the buffer.\<close>

definition bout_inv :: "('o \<Rightarrow> bool) \<Rightarrow> 'o bout \<Rightarrow> bool" where
  "bout_inv iv s \<longleftrightarrow> iv (bo_out s) \<and> length (bo_buf s) \<le> bo_size s \<and> 0 < bo_size s"

definition bout_text :: "('o \<Rightarrow> string) \<Rightarrow> 'o bout \<Rightarrow> string" where
  "bout_text snt s = snt (bo_out s) @ bo_buf s"

context total_out_stream
begin

lemma out_call_ok:
  "sinv (bo_out s) \<Longrightarrow> \<exists>o'. out_call swrite t s = (Inr (int (length t)), s\<lparr>bo_out := o'\<rparr>) \<and> sinv o' \<and> sent o' = sent (bo_out s) @ t"
  using write_ok [of "bo_out s" t] by (auto simp: out_call_def)

lemma bout_flush_ok:
  assumes "bout_inv sinv s"
  shows "\<exists>r s'. BufferedOutStream_flush swrite s = (Inr r, s') \<and> 0 \<le> r \<and> bout_inv sinv s' \<and> bo_buf s' = [] \<and>
    bo_size s' = bo_size s \<and> sent (bo_out s') = bout_text sent s"
proof (cases "bo_buf s = []")
  case True
  then show ?thesis using assms by (auto simp: BufferedOutStream_flush_def bout_text_def)
next
  case False
  have "sinv (bo_out s)" using assms by (simp add: bout_inv_def)
  from out_call_ok [OF this, of "bo_buf s"] obtain o' where
    "out_call swrite (bo_buf s) s = (Inr (int (length (bo_buf s))), s\<lparr>bo_out := o'\<rparr>)" "sinv o'" "sent o' = sent (bo_out s) @ bo_buf s"
    by blast
  then show ?thesis using False assms
    by (auto simp: BufferedOutStream_flush_def bout_text_def bout_inv_def set_buf_def io_bind_def)
qed

lemma block_loop_ok:
  assumes "sinv (bo_out s)" "0 < n"
  shows "\<exists>u s'. block_loop swrite n t s = (Inr (Some u), s') \<and> length u \<le> n \<and> sinv (bo_out s') \<and> bo_buf s' = bo_buf s \<and>
    bo_size s' = bo_size s \<and> sent (bo_out s') @ u = sent (bo_out s) @ t"
  using assms
proof (induction t arbitrary: s rule: measure_induct_rule [of length])
  case (less t)
  show ?case
  proof (cases "length t \<le> n")
    case True
    then show ?thesis using less.prems by (subst block_loop.simps) auto
  next
    case False
    obtain o' where o': "out_call swrite (take n t) s = (Inr (int (length (take n t))), s\<lparr>bo_out := o'\<rparr>)" "sinv o'"
      "sent o' = sent (bo_out s) @ take n t"
      using out_call_ok [OF less.prems(1), of "take n t"] by blast
    have "length (drop n t) < length t" using False less.prems(2) by simp
    from less.IH [OF this, of "s\<lparr>bo_out := o'\<rparr>"] obtain u s' where
      "block_loop swrite n (drop n t) (s\<lparr>bo_out := o'\<rparr>) = (Inr (Some u), s')" "length u \<le> n" "sinv (bo_out s')"
      "bo_buf s' = bo_buf s" "bo_size s' = bo_size s" "sent (bo_out s') @ u = sent o' @ drop n t"
      using o'(2) less.prems(2) by auto
    moreover have "block_loop swrite n t s = block_loop swrite n (drop n t) (s\<lparr>bo_out := o'\<rparr>)"
      using False less.prems(2) o'(1) by (subst block_loop.simps) (simp add: io_bind_def)
    ultimately show ?thesis using o'(3) by auto
  qed
qed

lemma bout_write_ok:
  assumes "bout_inv sinv s"
  shows "\<exists>s'. BufferedOutStream_write swrite t s = (Inr (int (length t)), s') \<and> bout_inv sinv s' \<and> bout_text sent s' = bout_text sent s @ t"
proof (cases "bo_size s - length (bo_buf s) < length t")
  case False
  then show ?thesis using assms
    by (auto simp: BufferedOutStream_write_def buf_append_def bout_inv_def bout_text_def io_bind_def)
next
  case True
  have "\<exists>r s1. (if bo_buf s \<noteq> [] then BufferedOutStream_flush swrite else io_return 0) s = (Inr r, s1) \<and> bout_inv sinv s1 \<and>
      bo_buf s1 = [] \<and> bo_size s1 = bo_size s \<and> sent (bo_out s1) = bout_text sent s"
    using bout_flush_ok [OF assms] assms by (auto simp: bout_text_def)
  then obtain r s1 where s1: "(if bo_buf s \<noteq> [] then BufferedOutStream_flush swrite else io_return 0) s = (Inr r, s1)"
    "bout_inv sinv s1" "bo_buf s1 = []" "bo_size s1 = bo_size s" "sent (bo_out s1) = bout_text sent s" by blast
  obtain u s2 where s2: "block_loop swrite (bo_size s) t s1 = (Inr (Some u), s2)" "length u \<le> bo_size s" "sinv (bo_out s2)"
    "bo_buf s2 = []" "bo_size s2 = bo_size s" "sent (bo_out s2) @ u = bout_text sent s @ t"
    using block_loop_ok [of s1 "bo_size s" t] s1 assms by (auto simp: bout_inv_def)
  show ?thesis using True s1(1) s2 assms
    by (auto simp: BufferedOutStream_write_def buf_append_def bout_inv_def bout_text_def io_bind_def)
qed

lemma bout_write_char_ok:
  assumes "bout_inv sinv s"
  shows "\<exists>s'. BufferedOutStream_write_char swrite c s = (Inr 0, s') \<and> bout_inv sinv s' \<and> bout_text sent s' = bout_text sent s @ [c]"
proof (cases "length (bo_buf s) = bo_size s")
  case False
  then show ?thesis using assms
    by (auto simp: BufferedOutStream_write_char_def buf_append_def bout_inv_def bout_text_def io_bind_def)
next
  case True
  obtain r s1 where "BufferedOutStream_flush swrite s = (Inr r, s1)" "0 \<le> r" "bout_inv sinv s1" "bo_buf s1 = []"
    "bo_size s1 = bo_size s" "sent (bo_out s1) = bout_text sent s"
    using bout_flush_ok [OF assms] by blast
  then show ?thesis using True
    by (auto simp: BufferedOutStream_write_char_def buf_append_def bout_inv_def bout_text_def io_bind_def)
qed

end

text \<open>A buffered stream over a total stream is itself a total stream.\<close>

locale buffered_out_stream = total_out_stream

sublocale buffered_out_stream \<subseteq> outer: total_out_stream "BufferedOutStream_write swrite" "bout_inv sinv" "bout_text sent"
proof
  fix s t assume "bout_inv sinv s"
  then obtain s' where "BufferedOutStream_write swrite t s = (Inr (int (length t)), s')" "bout_inv sinv s'"
    "bout_text sent s' = bout_text sent s @ t" using bout_write_ok by blast
  then show "\<exists>r s'. BufferedOutStream_write swrite t s = (Inr r, s') \<and> bout_inv sinv s' \<and>
      (if 0 \<le> r then r = int (length t) \<and> bout_text sent s' = bout_text sent s @ t else True)"
    by (intro exI [of _ "int (length t)"] exI [of _ s']) simp
next
  fix s t r s' assume "bout_inv sinv s" "BufferedOutStream_write swrite t s = (Inr r, s')"
  then show "0 \<le> r" using bout_write_ok [of s t] by auto
qed

interpretation buffered_block: buffered_out_stream "BlockOutStream_write junk" dynblock_inv contents for junk
  by unfold_locales

text \<open>Sequences of operations on a buffered stream over a block.\<close>

datatype out_op = Write string | Write_char char | Flush

fun out_step :: "char \<Rightarrow> out_op \<Rightarrow> (dynblock bout, int) io" where
  "out_step junk (Write t) = BufferedOutStream_write (BlockOutStream_write junk) t"
| "out_step junk (Write_char c) = BufferedOutStream_write_char (BlockOutStream_write junk) c"
| "out_step junk Flush = BufferedOutStream_flush (BlockOutStream_write junk)"

fun out_run :: "char \<Rightarrow> out_op list \<Rightarrow> (dynblock bout, unit) io" where
  "out_run junk [] = io_return ()"
| "out_run junk (p # ps) = io_bind (out_step junk p) (\<lambda>_. out_run junk ps)"

fun op_text :: "out_op \<Rightarrow> string" where
  "op_text (Write t) = t"
| "op_text (Write_char c) = [c]"
| "op_text Flush = []"

lemma out_step_ok:
  assumes "bout_inv dynblock_inv s"
  shows "\<exists>r s'. out_step junk p s = (Inr r, s') \<and> 0 \<le> r \<and> bout_inv dynblock_inv s' \<and> bout_text contents s' = bout_text contents s @ op_text p \<and>
    (if p = Flush then bo_buf s' = [] else True)"
proof (cases p)
  case (Write t)
  then show ?thesis using block.bout_write_ok [OF assms, of junk t] by auto
next
  case (Write_char c)
  then show ?thesis using block.bout_write_char_ok [OF assms, of junk c] by auto
next
  case Flush
  obtain r s' where "BufferedOutStream_flush (BlockOutStream_write junk) s = (Inr r, s')" "0 \<le> r" "bout_inv dynblock_inv s'"
    "bo_buf s' = []" "contents (bo_out s') = bout_text contents s"
    using block.bout_flush_ok [OF assms, of junk] by blast
  then show ?thesis using Flush by (auto simp: bout_text_def)
qed

lemma out_run_ok:
  assumes "bout_inv dynblock_inv s"
  shows "\<exists>s'. out_run junk ps s = (Inr (), s') \<and> bout_inv dynblock_inv s' \<and> bout_text contents s' = bout_text contents s @ concat (map op_text ps)"
  using assms
proof (induction ps arbitrary: s)
  case (Cons p ps)
  obtain r s1 where s1: "out_step junk p s = (Inr r, s1)" "bout_inv dynblock_inv s1" "bout_text contents s1 = bout_text contents s @ op_text p"
    using out_step_ok [OF Cons.prems, of junk p] by blast
  show ?case using Cons.IH [OF s1(2)] s1 by (auto simp: io_bind_def)
qed simp

text \<open>
  C22. Buffered output over a memory block: starting from an empty stream with a buffer of any
  positive size, no sequence of writes of texts, writes of characters and flushes fails or
  leaves the buffer or the block in a bad state, and after a last flush the block
  holds exactly the characters written, in their order.
\<close>

theorem buffered_output_correct:
  assumes "0 < n"
  shows "\<exists>b s. BufferedOutStream_new (DynBlock_new junk cap inc) n = Inr b \<and> out_run junk (ps @ [Flush]) b = (Inr (), s) \<and>
    dynblock_inv (bo_out s) \<and> length (bo_buf s) \<le> bo_size s \<and> BlockOutStream_toString (bo_out s) = Inr (concat (map op_text ps))"
proof -
  let ?b = "\<lparr>bo_out = DynBlock_new junk cap inc, bo_buf = [], bo_size = n\<rparr>"
  have b: "bout_inv dynblock_inv ?b" "bout_text contents ?b = []"
    using assms by (simp_all add: bout_inv_def bout_text_def dynblock_inv_new)
  obtain s1 where s1: "out_run junk ps ?b = (Inr (), s1)" "bout_inv dynblock_inv s1" "bout_text contents s1 = concat (map op_text ps)"
    using out_run_ok [OF b(1), of junk ps] b(2) by auto
  obtain r s where s: "out_step junk Flush s1 = (Inr r, s)" "bout_inv dynblock_inv s" "bout_text contents s = bout_text contents s1" "bo_buf s = []"
    using out_step_ok [OF s1(2), of junk Flush] by auto
  have run: "out_run junk (qs @ [Flush]) t = io_bind (out_run junk qs) (\<lambda>_. out_run junk [Flush]) t" for qs t
    by (induction qs arbitrary: t) (auto simp: io_bind_def split: prod.splits sum.splits)
  have "out_run junk (ps @ [Flush]) ?b = (Inr (), s)" using s1(1) s(1) by (simp add: run io_bind_def)
  moreover have "BlockOutStream_toString (bo_out s) = Inr (concat (map op_text ps))"
    using s s1(3) by (auto simp: BlockOutStream_toString_def bout_inv_def dynblock_inv_def bout_text_def contents_def split: option.splits)
  ultimately show ?thesis using s(2) assms by (auto simp: BufferedOutStream_new_def bout_inv_def)
qed

theorem buffered_output_correct_witness:
  "\<exists>b s. BufferedOutStream_new (DynBlock_new CHR ''x'' 4 2) 3 = Inr b \<and>
    out_run CHR ''x'' ([Write ''hello'', Write_char CHR ''!''] @ [Flush]) b = (Inr (), s) \<and> BlockOutStream_toString (bo_out s) = Inr ''hello!''"
  using buffered_output_correct [of 3 "CHR ''x''" 4 2 "[Write ''hello'', Write_char CHR ''!'']"] by auto


section \<open>Input streams\<close>

text \<open>
  The contract of an input stream on the text left to read: a read of at most \<^verbatim>\<open>n\<close> characters
  returns the first ones of it, and none only at the end of the text.
\<close>

locale in_stream =
  fixes sread :: "nat \<Rightarrow> ('s, int \<times> string) io" and sinv :: "'s \<Rightarrow> bool" and left_text :: "'s \<Rightarrow> string"
  assumes read_result: "sinv s \<Longrightarrow> 0 < n \<Longrightarrow> \<exists>bs s'. sread n s = (Inr (int (length bs), bs), s') \<and> sinv s' \<and>
    left_text s = bs @ left_text s' \<and> length bs \<le> n \<and> (bs = [] \<longrightarrow> left_text s = [])"

text \<open>\<^verbatim>\<open>BlockInStream\<close>: reads from a block and its positioning.\<close>

record block_in =
  bk_block :: string
  bk_off :: int

definition BlockInStream_new :: "string \<Rightarrow> block_in" where
  "BlockInStream_new t = \<lparr>bk_block = t, bk_off = 0\<rparr>"

text \<open>The copy takes \<^verbatim>\<open>size\<close> characters at the offset; a negative size or offset is out of the block.\<close>

definition BlockInStream_read :: "nat \<Rightarrow> (block_in, int \<times> string) io" where
  "BlockInStream_read n s =
     (let len = int (length (bk_block s));
          size1 = (if len < bk_off s + int n then len - bk_off s else int n) in
      if size1 < 0 \<or> bk_off s < 0 then (Inl Out_of_bounds, s)
      else (Inr (size1, take (nat size1) (drop (nat (bk_off s)) (bk_block s))), s\<lparr>bk_off := bk_off s + size1\<rparr>))"

definition BlockInStream_read_char :: "(block_in, int) io" where
  "BlockInStream_read_char s =
     (if int (length (bk_block s)) \<le> bk_off s then (Inr STREAM_ENDED, s)
      else if bk_off s < 0 then (Inl Out_of_bounds, s)
      else (Inr (of_char (bk_block s ! nat (bk_off s))), s\<lparr>bk_off := bk_off s + 1\<rparr>))"

definition BlockInStream_move :: "int \<Rightarrow> block_in \<Rightarrow> block_in" where
  "BlockInStream_move mark s = s\<lparr>bk_off := mark\<rparr>"

definition BlockInStream_moveForward :: "int \<Rightarrow> block_in \<Rightarrow> block_in" where
  "BlockInStream_moveForward n s = s\<lparr>bk_off := bk_off s + n\<rparr>"

definition BlockInStream_moveBackward :: "int \<Rightarrow> block_in \<Rightarrow> block_in" where
  "BlockInStream_moveBackward n s = s\<lparr>bk_off := bk_off s - n\<rparr>"

definition BlockInStream_reset :: "block_in \<Rightarrow> block_in" where
  "BlockInStream_reset s = s\<lparr>bk_off := 0\<rparr>"

definition block_in_inv :: "block_in \<Rightarrow> bool" where
  "block_in_inv s \<longleftrightarrow> 0 \<le> bk_off s \<and> bk_off s \<le> int (length (bk_block s))"

definition block_left :: "block_in \<Rightarrow> string" where
  "block_left s = drop (nat (bk_off s)) (bk_block s)"

interpretation block_input: in_stream BlockInStream_read block_in_inv block_left
proof
  fix s :: block_in and n :: nat assume i: "block_in_inv s" and n: "0 < n"
  let ?bs = "take n (block_left s)"
  have l: "length (block_left s) = length (bk_block s) - nat (bk_off s)" by (simp add: block_left_def)
  have "BlockInStream_read n s = (Inr (int (length ?bs), ?bs), s\<lparr>bk_off := bk_off s + int (length ?bs)\<rparr>)"
    using i by (auto simp: BlockInStream_read_def block_in_inv_def block_left_def Let_def min_def nat_diff_distrib)
  moreover have "block_left (s\<lparr>bk_off := bk_off s + int (length ?bs)\<rparr>) = drop n (block_left s)"
    using i by (auto simp: block_left_def block_in_inv_def nat_add_distrib min_def add.commute)
  moreover have "block_in_inv (s\<lparr>bk_off := bk_off s + int (length ?bs)\<rparr>)" using i l by (auto simp: block_in_inv_def min_def)
  ultimately show "\<exists>bs s'. BlockInStream_read n s = (Inr (int (length bs), bs), s') \<and> block_in_inv s' \<and>
      block_left s = bs @ block_left s' \<and> length bs \<le> n \<and> (bs = [] \<longrightarrow> block_left s = [])"
    using n by (intro exI [of _ ?bs] exI) auto
qed


section \<open>Buffered input\<close>

record 'i binp =
  bi_in :: 'i
  bi_buf :: string
  bi_pos :: nat
  bi_top :: nat
  bi_size :: nat

definition BufferedInStream_new :: "char \<Rightarrow> 'i \<Rightarrow> nat \<Rightarrow> 'i binp res" where
  "BufferedInStream_new junk in1 size1 =
     bind_res (assert_res (0 < size1)) (\<lambda>_.
       Inr \<lparr>bi_in = in1, bi_buf = replicate size1 junk, bi_pos = 0, bi_top = 0, bi_size = size1\<rparr>)"

definition BufferedInStream_reset :: "'i binp \<Rightarrow> 'i binp" where
  "BufferedInStream_reset s = s\<lparr>bi_pos := 0, bi_top := 0\<rparr>"

definition BufferedInStream_setStream :: "'i \<Rightarrow> 'i binp \<Rightarrow> 'i binp" where
  "BufferedInStream_setStream in1 s = (BufferedInStream_reset s)\<lparr>bi_in := in1\<rparr>"

text \<open>The stream writes what it reads at the start of the buffer.\<close>

definition BufferedInStream_refill :: "(nat \<Rightarrow> ('i, int \<times> string) io) \<Rightarrow> ('i binp, int) io" where
  "BufferedInStream_refill r s =
     (if \<not> bi_top s \<le> bi_pos s then (Inl Assertion_failed, s)
      else case r (bi_size s) (bi_in s) of
          (Inl e, i') \<Rightarrow> (Inl e, s\<lparr>bi_in := i'\<rparr>)
        | (Inr (size1, bs), i') \<Rightarrow>
            (case block_copy 0 bs (bi_buf s) of
               Inl e \<Rightarrow> (Inl e, s\<lparr>bi_in := i'\<rparr>)
             | Inr buf' \<Rightarrow>
                 (Inr size1, if 0 < size1 then s\<lparr>bi_in := i', bi_buf := buf', bi_pos := 0, bi_top := nat size1\<rparr>
                             else s\<lparr>bi_in := i', bi_buf := buf'\<rparr>)))"

definition BufferedInStream_read :: "(nat \<Rightarrow> ('i, int \<times> string) io) \<Rightarrow> nat \<Rightarrow> ('i binp, int \<times> string) io" where
  "BufferedInStream_read r n s =
     io_bind (if bi_top s \<le> bi_pos s then BufferedInStream_refill r else io_return 1) (\<lambda>nsize s.
       if nsize \<le> 0 then (Inr (nsize, []), s)
       else let size1 = (if bi_top s < bi_pos s + n then bi_top s - bi_pos s else n) in
         if length (bi_buf s) < bi_pos s + size1 then (Inl Out_of_bounds, s)
         else (Inr (int size1, take size1 (drop (bi_pos s) (bi_buf s))), s\<lparr>bi_pos := bi_pos s + size1\<rparr>)) s"

definition BufferedInStream_read_char :: "(nat \<Rightarrow> ('i, int \<times> string) io) \<Rightarrow> ('i binp, int) io" where
  "BufferedInStream_read_char r s =
     io_bind (if bi_top s \<le> bi_pos s then BufferedInStream_refill r else io_return 1) (\<lambda>nsize s.
       if nsize \<le> 0 then (Inr (if nsize = 0 then STREAM_ENDED else STREAM_FAILED), s)
       else if length (bi_buf s) \<le> bi_pos s then (Inl Out_of_bounds, s)
       else (Inr (of_char (bi_buf s ! bi_pos s)), s\<lparr>bi_pos := bi_pos s + 1\<rparr>)) s"

definition binp_inv :: "('i \<Rightarrow> bool) \<Rightarrow> 'i binp \<Rightarrow> bool" where
  "binp_inv iv s \<longleftrightarrow> iv (bi_in s) \<and> bi_pos s \<le> bi_top s \<and> bi_top s \<le> length (bi_buf s) \<and> length (bi_buf s) = bi_size s \<and> 0 < bi_size s"

definition binp_left :: "('i \<Rightarrow> string) \<Rightarrow> 'i binp \<Rightarrow> string" where
  "binp_left lt s = take (bi_top s - bi_pos s) (drop (bi_pos s) (bi_buf s)) @ lt (bi_in s)"

context in_stream
begin

text \<open>After the refill of an empty buffer: some characters are there, or the text is at its end.\<close>

lemma refill_ok:
  assumes "binp_inv sinv s"
  shows "\<exists>k s'. (if bi_top s \<le> bi_pos s then BufferedInStream_refill sread else io_return 1) s = (Inr k, s') \<and> binp_inv sinv s' \<and>
    binp_left left_text s' = binp_left left_text s \<and> 0 \<le> k \<and>
    (if k = 0 then binp_left left_text s = [] else bi_pos s' < bi_top s')"
proof (cases "bi_top s \<le> bi_pos s")
  case True
  have i: "sinv (bi_in s)" "0 < bi_size s" using assms by (simp_all add: binp_inv_def)
  obtain bs i' where r: "sread (bi_size s) (bi_in s) = (Inr (int (length bs), bs), i')" "sinv i'" "left_text (bi_in s) = bs @ left_text i'"
    "length bs \<le> bi_size s" "bs = [] \<longrightarrow> left_text (bi_in s) = []"
    using read_result [OF i] by blast
  then show ?thesis using True assms
    by (cases "bs = []") (auto simp: BufferedInStream_refill_def block_copy_def binp_inv_def binp_left_def)
next
  case False
  then show ?thesis using assms by auto
qed

lemma binp_read_ok:
  assumes "binp_inv sinv s" "0 < n"
  shows "\<exists>bs s'. BufferedInStream_read sread n s = (Inr (int (length bs), bs), s') \<and> binp_inv sinv s' \<and>
    binp_left left_text s = bs @ binp_left left_text s' \<and> length bs \<le> n \<and> (bs = [] \<longrightarrow> binp_left left_text s = [])"
proof -
  obtain k s1 where s1: "(if bi_top s \<le> bi_pos s then BufferedInStream_refill sread else io_return 1) s = (Inr k, s1)" "binp_inv sinv s1"
    "binp_left left_text s1 = binp_left left_text s" "0 \<le> k" "if k = 0 then binp_left left_text s = [] else bi_pos s1 < bi_top s1"
    using refill_ok [OF assms(1)] by blast
  show ?thesis
  proof (cases "k = 0")
    case True
    then show ?thesis using s1 by (auto simp: BufferedInStream_read_def io_bind_def)
  next
    case False
    let ?m = "min n (bi_top s1 - bi_pos s1)" and ?t = "drop (bi_pos s1) (bi_buf s1)"
    have m: "(if bi_top s1 < bi_pos s1 + n then bi_top s1 - bi_pos s1 else n) = ?m" by auto
    have len: "bi_pos s1 + ?m \<le> length (bi_buf s1)" "length (take ?m ?t) = ?m" using s1(2) by (auto simp: binp_inv_def)
    let ?s' = "s1\<lparr>bi_pos := bi_pos s1 + ?m\<rparr>"
    have r: "BufferedInStream_read sread n s = (Inr (int ?m, take ?m ?t), ?s')"
      using s1(1,4) False len(1) by (simp add: BufferedInStream_read_def io_bind_def Let_def m)
    have e: "binp_left left_text s = take ?m ?t @ binp_left left_text ?s'"
    proof -
      have "?m + (bi_top s1 - (bi_pos s1 + ?m)) = bi_top s1 - bi_pos s1" by simp
      then have "take (bi_top s1 - bi_pos s1) ?t = take ?m ?t @ take (bi_top s1 - (bi_pos s1 + ?m)) (drop (bi_pos s1 + ?m) (bi_buf s1))"
        using take_add [of ?m "bi_top s1 - (bi_pos s1 + ?m)" ?t] by (simp only:) (simp add: add.commute)
      then show ?thesis unfolding s1(3) [symmetric] by (simp add: binp_left_def)
    qed
    have p: "?m \<le> n" "0 < ?m" using s1(5) False assms(2) by auto
    show ?thesis
    proof (intro exI conjI impI)
      show "BufferedInStream_read sread n s = (Inr (int (length (take ?m ?t)), take ?m ?t), ?s')" by (simp only: r len(2))
      show "binp_left left_text s = take ?m ?t @ binp_left left_text ?s'" by (rule e)
      show "binp_inv sinv ?s'" using s1(2) by (auto simp: binp_inv_def)
      show "length (take ?m ?t) \<le> n" using p(1) by (simp only: len(2))
      show "binp_left left_text s = []" if "take ?m ?t = []" using that p(2) len(2) by (metis length_0_conv less_not_refl)
    qed
  qed
qed

lemma binp_read_char_ok:
  assumes "binp_inv sinv s"
  shows "\<exists>s'. BufferedInStream_read_char sread s = (Inr (chr_at (binp_left left_text s)), s') \<and> binp_inv sinv s' \<and>
    binp_left left_text s' = tl (binp_left left_text s)"
proof -
  obtain k s1 where s1: "(if bi_top s \<le> bi_pos s then BufferedInStream_refill sread else io_return 1) s = (Inr k, s1)" "binp_inv sinv s1"
    "binp_left left_text s1 = binp_left left_text s" "0 \<le> k" "if k = 0 then binp_left left_text s = [] else bi_pos s1 < bi_top s1"
    using refill_ok [OF assms] by blast
  show ?thesis
  proof (cases "k = 0")
    case True
    then show ?thesis using s1 by (auto simp: BufferedInStream_read_char_def io_bind_def chr_at_def)
  next
    case False
    then have lt: "bi_pos s1 < bi_top s1" "bi_pos s1 < length (bi_buf s1)" using s1(2,5) by (auto simp: binp_inv_def)
    have "binp_left left_text s1 = bi_buf s1 ! bi_pos s1 # binp_left left_text (s1\<lparr>bi_pos := bi_pos s1 + 1\<rparr>)"
      using lt by (simp add: binp_left_def Cons_nth_drop_Suc [symmetric] take_Cons' Suc_diff_Suc diff_Suc_1' flip: Suc_diff_Suc)
    then show ?thesis using s1 lt False
      by (auto simp: BufferedInStream_read_char_def io_bind_def binp_inv_def)
  qed
qed

end

locale buffered_in_stream = in_stream

sublocale buffered_in_stream \<subseteq> outer: in_stream "BufferedInStream_read sread" "binp_inv sinv" "binp_left left_text"
  by unfold_locales (rule binp_read_ok)

interpretation buffered_input: buffered_in_stream BlockInStream_read block_in_inv block_left
  by unfold_locales

text \<open>Sequences of reads on a buffered stream over a block: the characters that each of them delivers.\<close>

datatype in_op = Read nat | Read_char

fun in_step :: "in_op \<Rightarrow> (block_in binp, string) io" where
  "in_step (Read n) = io_bind (BufferedInStream_read BlockInStream_read n) (\<lambda>(r, bs). io_return bs)"
| "in_step Read_char = io_bind (BufferedInStream_read_char BlockInStream_read) (\<lambda>c. io_return (if c < 0 then [] else [char_of c]))"

fun in_run :: "in_op list \<Rightarrow> (block_in binp, string list) io" where
  "in_run [] = io_return []"
| "in_run (p # ps) = io_bind (in_step p) (\<lambda>bs. io_bind (in_run ps) (\<lambda>bss. io_return (bs # bss)))"

fun op_max :: "in_op \<Rightarrow> nat" where
  "op_max (Read n) = n"
| "op_max Read_char = 1"

lemma in_step_ok:
  assumes "binp_inv block_in_inv s" "0 < op_max p"
  shows "\<exists>bs s'. in_step p s = (Inr bs, s') \<and> binp_inv block_in_inv s' \<and> binp_left block_left s = bs @ binp_left block_left s' \<and>
    length bs \<le> op_max p \<and> (bs = [] \<longrightarrow> binp_left block_left s = [])"
proof (cases p)
  case (Read n)
  then show ?thesis using block_input.binp_read_ok [OF assms(1), of n] assms(2) by (auto simp: io_bind_def)
next
  case Read_char
  obtain s' where "BufferedInStream_read_char BlockInStream_read s = (Inr (chr_at (binp_left block_left s)), s')" "binp_inv block_in_inv s'"
    "binp_left block_left s' = tl (binp_left block_left s)" using block_input.binp_read_char_ok [OF assms(1)] by blast
  then show ?thesis using Read_char
    by (cases "binp_left block_left s") (auto simp: io_bind_def chr_at_def STREAM_ENDED_def)
qed

text \<open>Each read delivers the next characters, at most as many as asked, and none only when all have been delivered.\<close>

fun deliver :: "in_op list \<Rightarrow> string list \<Rightarrow> string \<Rightarrow> bool" where
  "deliver [] bss t = (bss = [])"
| "deliver (p # ps) bss t =
     (case bss of
        [] \<Rightarrow> False
      | bs # bss \<Rightarrow> bs = take (length bs) t \<and> length bs \<le> op_max p \<and> (t = [] \<or> bs \<noteq> []) \<and> deliver ps bss (drop (length bs) t))"

lemma in_run_ok:
  assumes "binp_inv block_in_inv s" "list_all (\<lambda>p. 0 < op_max p) ps"
  shows "\<exists>bss s'. in_run ps s = (Inr bss, s') \<and> binp_inv block_in_inv s' \<and> deliver ps bss (binp_left block_left s)"
  using assms
proof (induction ps arbitrary: s)
  case (Cons p ps)
  obtain bs s1 where s1: "in_step p s = (Inr bs, s1)" "binp_inv block_in_inv s1" "binp_left block_left s = bs @ binp_left block_left s1"
    "length bs \<le> op_max p" "bs = [] \<longrightarrow> binp_left block_left s = []"
    using in_step_ok [OF Cons.prems(1), of p] Cons.prems(2) by auto
  obtain bss s2 where s2: "in_run ps s1 = (Inr bss, s2)" "binp_inv block_in_inv s2" "deliver ps bss (binp_left block_left s1)"
    using Cons.IH [OF s1(2)] Cons.prems(2) by auto
  show ?case using s1 s2 by (auto simp: io_bind_def)
qed simp

lemma deliver_concat: "deliver ps bss t \<Longrightarrow> concat bss @ drop (length (concat bss)) t = t"
proof (induction ps bss t rule: deliver.induct)
  case (2 p ps bss t)
  then show ?case
  proof (cases bss)
    case (Cons bs bss')
    then have d: "concat bss' @ drop (length (concat bss')) (drop (length bs) t) = drop (length bs) t" "bs = take (length bs) t"
      using 2 by auto
    have "concat bss @ drop (length (concat bss)) t = bs @ concat bss' @ drop (length (concat bss')) (drop (length bs) t)"
      using Cons by (simp add: add.commute)
    also have "\<dots> = t" using d append_take_drop_id [of "length bs" t] by metis
    finally show ?thesis .
  qed simp
qed simp

text \<open>
  C23. Buffered input over a memory block: whatever the positive size of the buffer, any sequence of
  reads of blocks and of characters succeeds and delivers the characters of the block in
  their order and once, each read giving at most what it is asked and nothing only at the end,
  with the positions of the buffer always inside it.
\<close>

theorem buffered_input_correct:
  assumes "0 < n" "list_all (\<lambda>p. 0 < op_max p) ps"
  shows "\<exists>b bss s. BufferedInStream_new junk (BlockInStream_new t) n = Inr b \<and> in_run ps b = (Inr bss, s) \<and>
    deliver ps bss t \<and> concat bss @ drop (length (concat bss)) t = t \<and>
    bi_pos s \<le> bi_top s \<and> bi_top s \<le> length (bi_buf s)"
proof -
  let ?b = "\<lparr>bi_in = BlockInStream_new t, bi_buf = replicate n junk, bi_pos = 0, bi_top = 0, bi_size = n\<rparr>"
  have b: "binp_inv block_in_inv ?b" "binp_left block_left ?b = t"
    using assms(1) by (simp_all add: binp_inv_def binp_left_def block_in_inv_def block_left_def BlockInStream_new_def)
  obtain bss s where s: "in_run ps ?b = (Inr bss, s)" "binp_inv block_in_inv s" "deliver ps bss t"
    using in_run_ok [OF b(1) assms(2)] b(2) by auto
  then show ?thesis using assms(1) deliver_concat [OF s(3)] by (auto simp: BufferedInStream_new_def binp_inv_def)
qed

theorem buffered_input_correct_witness:
  "\<exists>b bss s. BufferedInStream_new CHR ''x'' (BlockInStream_new ''hello'') 2 = Inr b \<and> in_run [Read 4, Read_char] b = (Inr bss, s) \<and>
    deliver [Read 4, Read_char] bss ''hello''"
  using buffered_input_correct [of 2 "[Read 4, Read_char]" "CHR ''x''" "''hello''"] by auto


section \<open>String buffers\<close>

text \<open>\<^verbatim>\<open>StringBuffer\<close>: a block that begins with the two bytes of a string header.\<close>

definition nul :: char where
  "nul = char_of (0 :: nat)"

definition StringBuffer_init :: "char \<Rightarrow> dynblock \<Rightarrow> dynblock res" where
  "StringBuffer_init junk b = DynBlock_put junk [nul, nul] b"

definition StringBuffer_new :: "char \<Rightarrow> dynblock res" where
  "StringBuffer_new junk = StringBuffer_init junk (DynBlock_new junk 64 32)"

definition StringBuffer_reset :: "char \<Rightarrow> dynblock \<Rightarrow> dynblock res" where
  "StringBuffer_reset junk b = StringBuffer_init junk (DynBlock_reset junk b)"

definition StringBuffer_length :: "dynblock \<Rightarrow> nat" where
  "StringBuffer_length b = db_size b - 2"

text \<open>
  \<^verbatim>\<open>toString\<close> gives the block away: the characters between the header and the null one, as many as
  the 16-bit length of a string can tell.
\<close>

definition StringBuffer_toString :: "char \<Rightarrow> dynblock \<Rightarrow> (string \<times> dynblock) res" where
  "StringBuffer_toString junk b =
     (case BlockOutStream_write_char junk nul b of
        (Inl e, _) \<Rightarrow> Inl e
      | (Inr _, b') \<Rightarrow>
          (case DynBlock_detach b' of
             (None, _) \<Rightarrow> Inl Null_dereference
           | (Some buf, b'') \<Rightarrow> Inr (take (StringBuffer_length b mod 2 ^ 16) (drop 2 buf), b'')))"

definition strbuf_inv :: "dynblock \<Rightarrow> bool" where
  "strbuf_inv b \<longleftrightarrow> dynblock_inv b \<and> 2 \<le> db_size b"

definition strbuf_text :: "dynblock \<Rightarrow> string" where
  "strbuf_text b = drop 2 (contents b)"

lemma length_contents: "dynblock_inv b \<Longrightarrow> length (contents b) = db_size b"
  by (auto simp: dynblock_inv_def contents_def split: option.splits)

lemma StringBuffer_reset_ok: "\<exists>b'. StringBuffer_reset junk b = Inr b' \<and> strbuf_inv b' \<and> strbuf_text b' = []"
  if "dynblock_inv b \<or> db_buf b = None"
proof -
  have "dynblock_inv (DynBlock_reset junk b)" "contents (DynBlock_reset junk b) = []"
    using that by (auto simp: dynblock_inv_def contents_def DynBlock_reset_def split: option.splits)
  then obtain b' where b': "DynBlock_put junk [nul, nul] (DynBlock_reset junk b) = Inr b'" "dynblock_inv b'" "contents b' = [nul, nul]"
    using DynBlock_put_ok [of "DynBlock_reset junk b" junk "[nul, nul]"] by auto
  then show ?thesis using length_contents [OF b'(2)]
    by (auto simp: StringBuffer_reset_def StringBuffer_init_def strbuf_inv_def strbuf_text_def)
qed

lemma StringBuffer_new_ok: "\<exists>b. StringBuffer_new junk = Inr b \<and> strbuf_inv b \<and> strbuf_text b = []"
  using StringBuffer_reset_ok [of "DynBlock_new junk 64 32" junk] dynblock_inv_new
  by (simp add: StringBuffer_new_def StringBuffer_reset_def DynBlock_reset_def DynBlock_new_def)

lemma strbuf_put_ok:
  assumes "strbuf_inv b"
  shows "\<exists>b'. DynBlock_put junk t b = Inr b' \<and> strbuf_inv b' \<and> strbuf_text b' = strbuf_text b @ t"
proof -
  obtain b' where b': "DynBlock_put junk t b = Inr b'" "dynblock_inv b'" "contents b' = contents b @ t"
    using DynBlock_put_ok [of b junk t] assms by (auto simp: strbuf_inv_def)
  then show ?thesis using assms length_contents [of b] length_contents [OF b'(2)]
    by (auto simp: strbuf_inv_def strbuf_text_def)
qed

lemma StringBuffer_toString_ok:
  assumes "strbuf_inv b" "length (strbuf_text b) < 2 ^ 16"
  shows "\<exists>b'. StringBuffer_toString junk b = Inr (strbuf_text b, b') \<and> db_buf b' = None"
proof -
  obtain b' where b': "DynBlock_put junk [nul] b = Inr b'" "strbuf_inv b'" "contents b' = contents b @ [nul]"
    using DynBlock_put_ok [of b junk "[nul]"] strbuf_put_ok [OF assms(1), of junk "[nul]"] assms(1) by (auto simp: strbuf_inv_def)
  obtain buf where buf: "db_buf b' = Some buf" "db_size b' \<le> length buf"
    using b'(2) by (auto simp: strbuf_inv_def elim: dynblock_invE)
  have i: "dynblock_inv b" "dynblock_inv b'" "2 \<le> db_size b" using assms(1) b'(2) by (simp_all add: strbuf_inv_def)
  have "db_size b' = db_size b + 1" using b'(3) length_contents [OF i(1)] length_contents [OF i(2)] by simp
  moreover have "take (db_size b') buf = contents b @ [nul]" using b'(3) buf(1) by (simp add: contents_def)
  ultimately have "take (db_size b) buf = contents b"
    using length_contents [OF i(1)] by (metis append_eq_conv_conj le_add1 min.absorb1 take_take)
  then have "take (db_size b - 2) (drop 2 buf) = strbuf_text b" by (simp add: strbuf_text_def flip: drop_take)
  moreover have "(db_size b - 2) mod 2 ^ 16 = db_size b - 2" using assms(2) length_contents [OF i(1)] by (simp add: strbuf_text_def)
  ultimately show ?thesis using b'(1) buf(1)
    by (simp add: StringBuffer_toString_def BlockOutStream_write_char_def DynBlock_detach_def StringBuffer_length_def)
qed


section \<open>The expander of variables\<close>

datatype vstate = COPY | ESC | OPEN

text \<open>
  \<^verbatim>\<open>VarExpander\<close> without its output, which is a separate state: the writers of one character and
  of a text to it, and the virtual function \<^verbatim>\<open>resolve\<close>, that returns a value and whether to record it,
  are parameters. The cache, an \<^verbatim>\<open>avl::Map\<close>, is a map.
\<close>

record vexp =
  ve_esc :: char
  ve_open :: string
  ve_close :: string
  ve_map :: "string \<rightharpoonup> string"
  ve_state :: vstate
  ve_expected :: char
  ve_name :: dynblock

definition VarExpander_new :: "char \<Rightarrow> vexp res" where
  "VarExpander_new junk =
     bind_res (StringBuffer_new junk) (\<lambda>b.
       Inr \<lparr>ve_esc = CHR ''$'', ve_open = ''{('', ve_close = ''})'', ve_map = Map.empty, ve_state = COPY, ve_expected = nul, ve_name = b\<rparr>)"

definition VarExpander_brace :: "char \<Rightarrow> char \<Rightarrow> vexp \<Rightarrow> vexp" where
  "VarExpander_brace o1 c v = v\<lparr>ve_open := ve_open v @ [o1], ve_close := ve_close v @ [c]\<rparr>"

definition VarExpander_resetBrace :: "vexp \<Rightarrow> vexp" where
  "VarExpander_resetBrace v = v\<lparr>ve_open := [], ve_close := []\<rparr>"

fun index_of :: "char \<Rightarrow> string \<Rightarrow> int" where
  "index_of c [] = - 1"
| "index_of c (x # xs) = (if x = c then 0 else let p = index_of c xs in if p < 0 then - 1 else p + 1)"

definition default_resolve :: "string \<Rightarrow> string \<times> bool" where
  "default_resolve name = ([], True)"

definition on_out :: "('o, int) io \<Rightarrow> (vexp \<times> 'o, int) io" where
  "on_out m s = (case m (snd s) of (r, o') \<Rightarrow> (r, (fst s, o')))"

text \<open>The value of a variable, recorded or resolved, and the cache after it.\<close>

definition find_value :: "(string \<Rightarrow> string \<times> bool) \<Rightarrow> (string \<rightharpoonup> string) \<Rightarrow> string \<Rightarrow> string \<times> (string \<rightharpoonup> string)" where
  "find_value resolve m n =
     (case m n of
        Some x \<Rightarrow> (x, m)
      | None \<Rightarrow> (case resolve n of (x, rec) \<Rightarrow> (x, if rec then m(n \<mapsto> x) else m)))"

definition VarExpander_write_char ::
  "char \<Rightarrow> (char \<Rightarrow> ('o, int) io) \<Rightarrow> (string \<Rightarrow> ('o, int) io) \<Rightarrow> (string \<Rightarrow> string \<times> bool) \<Rightarrow> char \<Rightarrow> (vexp \<times> 'o, int) io" where
  "VarExpander_write_char junk wc ws resolve byte s = (case s of (v, o1) \<Rightarrow>
     case ve_state v of
       COPY \<Rightarrow> (if byte = ve_esc v then (Inr 1, (v\<lparr>ve_state := ESC\<rparr>, o1)) else on_out (wc byte) (v, o1))
     | ESC \<Rightarrow>
         (if byte = ve_esc v then on_out (wc (ve_esc v)) (v, o1)
          else let p = index_of byte (ve_open v) in
            if p < 0 then on_out (wc byte) (v\<lparr>ve_state := COPY\<rparr>, o1)
            else case StringBuffer_reset junk (ve_name v) of
                Inl e \<Rightarrow> (Inl e, (v\<lparr>ve_state := OPEN\<rparr>, o1))
              | Inr b \<Rightarrow>
                  if nat p < length (ve_close v)
                  then (Inr 1, (v\<lparr>ve_state := OPEN, ve_name := b, ve_expected := ve_close v ! nat p\<rparr>, o1))
                  else (Inl Out_of_bounds, (v\<lparr>ve_state := OPEN, ve_name := b\<rparr>, o1)))
     | OPEN \<Rightarrow>
         (if byte \<noteq> ve_expected v then
            case DynBlock_put junk [byte] (ve_name v) of
              Inl e \<Rightarrow> (Inl e, (v, o1))
            | Inr b \<Rightarrow> (Inr 1, (v\<lparr>ve_name := b\<rparr>, o1))
          else case StringBuffer_toString junk (ve_name v) of
              Inl e \<Rightarrow> (Inl e, (v, o1))
            | Inr (n, b) \<Rightarrow>
                let (x, m) = find_value resolve (ve_map v) n
                in io_bind (on_out (ws x)) (\<lambda>r. io_return (if r = int (length x) then 1 else - 1))
                     (v\<lparr>ve_name := b, ve_map := m, ve_state := COPY\<rparr>, o1)))"

fun VarExpander_write_from ::
  "char \<Rightarrow> (char \<Rightarrow> ('o, int) io) \<Rightarrow> (string \<Rightarrow> ('o, int) io) \<Rightarrow> (string \<Rightarrow> string \<times> bool) \<Rightarrow> int \<Rightarrow> string \<Rightarrow> (vexp \<times> 'o, int) io" where
  "VarExpander_write_from junk wc ws resolve i [] = io_return i"
| "VarExpander_write_from junk wc ws resolve i (c # cs) =
     io_bind (VarExpander_write_char junk wc ws resolve c) (\<lambda>r.
       if r \<noteq> 1 then io_return i else VarExpander_write_from junk wc ws resolve (i + 1) cs)"

definition VarExpander_write ::
  "char \<Rightarrow> (char \<Rightarrow> ('o, int) io) \<Rightarrow> (string \<Rightarrow> ('o, int) io) \<Rightarrow> (string \<Rightarrow> string \<times> bool) \<Rightarrow> string \<Rightarrow> (vexp \<times> 'o, int) io" where
  "VarExpander_write junk wc ws resolve t = VarExpander_write_from junk wc ws resolve 0 t"

text \<open>\<^verbatim>\<open>expand\<close> writes the text with a string buffer for output and returns its string.\<close>

definition VarExpander_expand :: "char \<Rightarrow> (string \<Rightarrow> string \<times> bool) \<Rightarrow> string \<Rightarrow> (vexp, string) io" where
  "VarExpander_expand junk resolve t v =
     (case StringBuffer_new junk of
        Inl e \<Rightarrow> (Inl e, v)
      | Inr b \<Rightarrow>
          (case VarExpander_write junk (BlockOutStream_write_char junk) (BlockOutStream_write junk) resolve t (v, b) of
             (Inl e, (v', _)) \<Rightarrow> (Inl e, v')
           | (Inr _, (v', b')) \<Rightarrow>
               (case StringBuffer_toString junk b' of Inl e \<Rightarrow> (Inl e, v') | Inr (x, _) \<Rightarrow> (Inr x, v'))))"

section \<open>Expansion of well-formed texts\<close>

text \<open>The pieces of a text: characters copied as they are, and invocations of a variable between two braces.\<close>

datatype piece = Text string | Var nat string

fun piece_text :: "vexp \<Rightarrow> piece \<Rightarrow> string" where
  "piece_text v (Text t) = t"
| "piece_text v (Var p n) = ve_esc v # ve_open v ! p # n @ [ve_close v ! p]"

definition value_of :: "(string \<Rightarrow> string \<times> bool) \<Rightarrow> vexp \<Rightarrow> string \<Rightarrow> string" where
  "value_of resolve v n = (case ve_map v n of Some x \<Rightarrow> x | None \<Rightarrow> fst (resolve n))"

fun piece_value :: "(string \<Rightarrow> string \<times> bool) \<Rightarrow> vexp \<Rightarrow> piece \<Rightarrow> string" where
  "piece_value resolve v (Text t) = t"
| "piece_value resolve v (Var p n) = value_of resolve v n"

fun piece_ok :: "vexp \<Rightarrow> piece \<Rightarrow> bool" where
  "piece_ok v (Text t) \<longleftrightarrow> ve_esc v \<notin> set t"
| "piece_ok v (Var p n) \<longleftrightarrow> p < length (ve_open v) \<and> ve_close v ! p \<notin> set n \<and> length n < 2 ^ 16"

definition vexp_inv :: "vexp \<Rightarrow> bool" where
  "vexp_inv v \<longleftrightarrow> distinct (ve_open v) \<and> ve_esc v \<notin> set (ve_open v) \<and> length (ve_close v) = length (ve_open v) \<and>
     (dynblock_inv (ve_name v) \<or> db_buf (ve_name v) = None)"

lemma index_of_nth: "distinct xs \<Longrightarrow> p < length xs \<Longrightarrow> index_of (xs ! p) xs = int p"
proof (induction xs arbitrary: p)
  case (Cons x xs)
  then show ?case by (cases p) auto
qed simp

text \<open>Two expanders agree on what expansion uses.\<close>

definition same_vars :: "(string \<Rightarrow> string \<times> bool) \<Rightarrow> vexp \<Rightarrow> vexp \<Rightarrow> bool" where
  "same_vars resolve v w \<longleftrightarrow> ve_esc w = ve_esc v \<and> ve_open w = ve_open v \<and> ve_close w = ve_close v \<and> value_of resolve w = value_of resolve v"

lemma same_vars_pieces:
  "same_vars resolve v w \<Longrightarrow> piece_text w = piece_text v \<and> piece_value resolve w = piece_value resolve v \<and> piece_ok w = piece_ok v"
proof (intro conjI ext)
  fix p assume "same_vars resolve v w"
  then show "piece_text w p = piece_text v p" "piece_value resolve w p = piece_value resolve v p" "piece_ok w p = piece_ok v p"
    by (cases p; simp add: same_vars_def)+
qed

lemma same_vars_trans: "same_vars resolve u v \<Longrightarrow> same_vars resolve v w \<Longrightarrow> same_vars resolve u w"
  by (simp add: same_vars_def)

abbreviation sb_char :: "char \<Rightarrow> (string \<Rightarrow> string \<times> bool) \<Rightarrow> char \<Rightarrow> (vexp \<times> dynblock, int) io" where
  "sb_char junk resolve \<equiv> VarExpander_write_char junk (BlockOutStream_write_char junk) (BlockOutStream_write junk) resolve"

abbreviation sb_from :: "char \<Rightarrow> (string \<Rightarrow> string \<times> bool) \<Rightarrow> int \<Rightarrow> string \<Rightarrow> (vexp \<times> dynblock, int) io" where
  "sb_from junk resolve \<equiv> VarExpander_write_from junk (BlockOutStream_write_char junk) (BlockOutStream_write junk) resolve"

lemma copy_char:
  assumes "strbuf_inv b" "ve_state v = COPY" "c \<noteq> ve_esc v"
  shows "\<exists>b'. sb_char junk resolve c (v, b) = (Inr 1, (v, b')) \<and> strbuf_inv b' \<and> strbuf_text b' = strbuf_text b @ [c]"
  using strbuf_put_ok [OF assms(1), of junk "[c]"] assms(2,3)
  by (auto simp: VarExpander_write_char_def on_out_def BlockOutStream_write_char_def)

lemma copy_text:
  assumes "strbuf_inv b" "ve_state v = COPY" "ve_esc v \<notin> set t"
  shows "\<exists>b'. sb_from junk resolve i (t @ u) (v, b) = sb_from junk resolve (i + int (length t)) u (v, b') \<and> strbuf_inv b' \<and>
    strbuf_text b' = strbuf_text b @ t"
  using assms
proof (induction t arbitrary: b i)
  case (Cons c t)
  obtain b1 where b1: "sb_char junk resolve c (v, b) = (Inr 1, (v, b1))" "strbuf_inv b1" "strbuf_text b1 = strbuf_text b @ [c]"
    using copy_char [OF Cons.prems(1,2), of c junk resolve] Cons.prems(3) by auto
  show ?case using Cons.IH [OF b1(2) Cons.prems(2), of "i + 1"] Cons.prems(3) b1 by (auto simp: io_bind_def ac_simps)
qed auto

lemma name_text:
  assumes "strbuf_inv (ve_name v)" "ve_state v = OPEN" "ve_expected v \<notin> set n"
  shows "\<exists>nb. sb_from junk resolve i (n @ u) (v, b) = sb_from junk resolve (i + int (length n)) u (v\<lparr>ve_name := nb\<rparr>, b) \<and> strbuf_inv nb \<and>
    strbuf_text nb = strbuf_text (ve_name v) @ n"
  using assms
proof (induction n arbitrary: v i)
  case Nil
  then show ?case by (intro exI [of _ "ve_name v"]) simp
next
  case (Cons c n)
  obtain nb where nb: "DynBlock_put junk [c] (ve_name v) = Inr nb" "strbuf_inv nb" "strbuf_text nb = strbuf_text (ve_name v) @ [c]"
    using strbuf_put_ok [OF Cons.prems(1), of junk "[c]"] by blast
  have "sb_char junk resolve c (v, b) = (Inr 1, (v\<lparr>ve_name := nb\<rparr>, b))"
    using Cons.prems nb(1) by (auto simp: VarExpander_write_char_def)
  then show ?case using Cons.IH [of "v\<lparr>ve_name := nb\<rparr>" "i + 1"] Cons.prems nb by (auto simp: io_bind_def ac_simps)
qed

lemma var_text:
  assumes "strbuf_inv b" "vexp_inv v" "ve_state v = COPY" "piece_ok v (Var p n)"
  shows "\<exists>w b'. sb_from junk resolve i (piece_text v (Var p n) @ u) (v, b) = sb_from junk resolve (i + int (length n) + 3) u (w, b') \<and>
    strbuf_inv b' \<and> strbuf_text b' = strbuf_text b @ value_of resolve v n \<and> vexp_inv w \<and> ve_state w = COPY \<and> same_vars resolve v w"
proof -
  have n: "ve_close v ! p \<notin> set n" "length n < 2 ^ 16" and o: "p < length (ve_open v)" "ve_esc v \<notin> set (ve_open v)"
    using assms(2,4) by (auto simp: vexp_inv_def)
  have p: "p < length (ve_close v)" "ve_open v ! p \<noteq> ve_esc v" "index_of (ve_open v ! p) (ve_open v) = int p"
    using assms(2) o nth_mem [OF o(1)] by (auto simp: vexp_inv_def index_of_nth simp del: nth_mem)
  obtain b1 where b1: "StringBuffer_reset junk (ve_name v) = Inr b1" "strbuf_inv b1" "strbuf_text b1 = []"
    using StringBuffer_reset_ok [of "ve_name v" junk] assms(2) by (auto simp: vexp_inv_def)
  define v1 where "v1 = v\<lparr>ve_state := ESC\<rparr>"
  define v2 where "v2 = v1\<lparr>ve_state := OPEN, ve_name := b1, ve_expected := ve_close v ! p\<rparr>"
  have s1: "sb_char junk resolve (ve_esc v) (v, b) = (Inr 1, (v1, b))" using assms(3) by (simp add: VarExpander_write_char_def v1_def)
  have s2: "sb_char junk resolve (ve_open v ! p) (v1, b) = (Inr 1, (v2, b))"
    using p b1(1) by (simp add: VarExpander_write_char_def v1_def v2_def Let_def)
  obtain nb where nb: "sb_from junk resolve (i + 2) (n @ [ve_close v ! p] @ u) (v2, b) =
      sb_from junk resolve (i + 2 + int (length n)) ([ve_close v ! p] @ u) (v2\<lparr>ve_name := nb\<rparr>, b)" "strbuf_inv nb" "strbuf_text nb = n"
    using name_text [of v2 n junk resolve "i + 2" "[ve_close v ! p] @ u" b] b1 n(1) by (auto simp: v2_def)
  obtain nb' where nb': "StringBuffer_toString junk nb = Inr (n, nb')" "db_buf nb' = None"
    using StringBuffer_toString_ok [OF nb(2), of junk] nb(3) n(2) by auto
  define m where "m = (case ve_map v n of Some x \<Rightarrow> ve_map v | None \<Rightarrow> if snd (resolve n) then (ve_map v)(n \<mapsto> fst (resolve n)) else ve_map v)"
  define w where "w = v2\<lparr>ve_name := nb', ve_map := m, ve_state := COPY\<rparr>"
  obtain b' where b': "DynBlock_put junk (value_of resolve v n) b = Inr b'" "strbuf_inv b'" "strbuf_text b' = strbuf_text b @ value_of resolve v n"
    using strbuf_put_ok [OF assms(1)] by blast
  have "find_value resolve (ve_map v) n = (value_of resolve v n, m)"
    by (simp add: find_value_def value_of_def m_def split: option.splits prod.splits)
  then have s3: "sb_char junk resolve (ve_close v ! p) (v2\<lparr>ve_name := nb\<rparr>, b) = (Inr 1, (w, b'))"
    using nb'(1) b'(1) by (simp add: VarExpander_write_char_def v1_def v2_def w_def on_out_def BlockOutStream_write_def io_bind_def)
  have "value_of resolve w = value_of resolve v"
    by (rule ext) (auto simp: value_of_def w_def m_def v2_def v1_def split: option.splits)
  then have "same_vars resolve v w" "vexp_inv w" "ve_state w = COPY"
    using assms(2) nb'(2) by (simp_all add: same_vars_def vexp_inv_def w_def v2_def v1_def)
  moreover have "sb_from junk resolve i (piece_text v (Var p n) @ u) (v, b) = sb_from junk resolve (i + int (length n) + 3) u (w, b')"
    using s1 s2 s3 nb(1) by (simp add: io_bind_def ac_simps)
  ultimately show ?thesis using b' by blast
qed

lemma double_escape:
  assumes "strbuf_inv b" "ve_state v = COPY"
  shows "\<exists>b'. sb_from junk resolve i (ve_esc v # ve_esc v # t) (v, b) = sb_from junk resolve (i + 1) (ve_esc v # t) (v, b') \<and>
    strbuf_inv b' \<and> strbuf_text b' = strbuf_text b @ [ve_esc v]"
proof -
  obtain b' where b': "DynBlock_put junk [ve_esc v] b = Inr b'" "strbuf_inv b'" "strbuf_text b' = strbuf_text b @ [ve_esc v]"
    using strbuf_put_ok [OF assms(1)] by blast
  let ?v = "v\<lparr>ve_state := ESC\<rparr>"
  have "sb_char junk resolve (ve_esc v) (v, a) = (Inr 1, (?v, a))" for a using assms(2) by (simp add: VarExpander_write_char_def)
  moreover have "sb_char junk resolve (ve_esc v) (?v, b) = (Inr 1, (?v, b'))"
    using b'(1) by (simp add: VarExpander_write_char_def on_out_def BlockOutStream_write_char_def)
  ultimately show ?thesis using b'(2,3) by (auto simp: io_bind_def)
qed

lemma expand_pieces:
  assumes "strbuf_inv b" "vexp_inv v" "ve_state v = COPY" "list_all (piece_ok v) ps"
  shows "\<exists>r w b'. sb_from junk resolve i (concat (map (piece_text v) ps)) (v, b) = (Inr r, (w, b')) \<and> strbuf_inv b' \<and>
    strbuf_text b' = strbuf_text b @ concat (map (piece_value resolve v) ps) \<and> vexp_inv w \<and> ve_state w = COPY \<and> same_vars resolve v w"
  using assms
proof (induction ps arbitrary: b v i)
  case Nil
  then show ?case by (auto simp: same_vars_def)
next
  case (Cons p ps)
  let ?u = "concat (map (piece_text v) ps)"
  have "\<exists>k w b'. sb_from junk resolve i (piece_text v p @ ?u) (v, b) = sb_from junk resolve k ?u (w, b') \<and> strbuf_inv b' \<and>
      strbuf_text b' = strbuf_text b @ piece_value resolve v p \<and> vexp_inv w \<and> ve_state w = COPY \<and> same_vars resolve v w"
  proof (cases p)
    case (Text t)
    then show ?thesis using copy_text [OF Cons.prems(1,3), of t junk resolve i ?u] Cons.prems by (fastforce simp: same_vars_def)
  next
    case (Var k n)
    then show ?thesis using var_text [OF Cons.prems(1,2,3), of k n junk resolve i ?u] Cons.prems(4) by fastforce
  qed
  then obtain k w b' where w: "sb_from junk resolve i (piece_text v p @ ?u) (v, b) = sb_from junk resolve k ?u (w, b')" "strbuf_inv b'"
    "strbuf_text b' = strbuf_text b @ piece_value resolve v p" "vexp_inv w" "ve_state w = COPY" "same_vars resolve v w" by blast
  note e = same_vars_pieces [OF w(6)]
  obtain r w' b'' where "sb_from junk resolve k ?u (w, b') = (Inr r, (w', b''))" "strbuf_inv b''"
    "strbuf_text b'' = strbuf_text b' @ concat (map (piece_value resolve v) ps)" "vexp_inv w'" "ve_state w' = COPY" "same_vars resolve w w'"
    using Cons.IH [OF w(2,4,5), of k] Cons.prems(4) e by auto
  then show ?case using w same_vars_trans [OF w(6)] by auto
qed

text \<open>
  C24. The expander replaces variables: a text made of copied parts, without the escape character,
  and of invocations of variables, the escape character, an opening brace, a name
  without the closing brace that matches, and that brace, is expanded to the copied
  parts and the values of the variables in order, the value being the recorded one or the
  one that \<^verbatim>\<open>resolve\<close> gives; the expander is ready for another text, for which the
  variables have the same values.
\<close>

theorem var_expander_correct:
  assumes "vexp_inv v" "ve_state v = COPY" "list_all (piece_ok v) ps"
    and "length (concat (map (piece_value resolve v) ps)) < 2 ^ 16"
  shows "\<exists>w. VarExpander_expand junk resolve (concat (map (piece_text v) ps)) v = (Inr (concat (map (piece_value resolve v) ps)), w) \<and>
    vexp_inv w \<and> ve_state w = COPY \<and> same_vars resolve v w"
proof -
  obtain b where b: "StringBuffer_new junk = Inr b" "strbuf_inv b" "strbuf_text b = []" using StringBuffer_new_ok by blast
  obtain r w b' where w: "sb_from junk resolve 0 (concat (map (piece_text v) ps)) (v, b) = (Inr r, (w, b'))" "strbuf_inv b'"
    "strbuf_text b' = concat (map (piece_value resolve v) ps)" "vexp_inv w" "ve_state w = COPY" "same_vars resolve v w"
    using expand_pieces [OF b(2) assms(1,2,3), of junk resolve 0] b(3) by auto
  obtain b'' where "StringBuffer_toString junk b' = Inr (concat (map (piece_value resolve v) ps), b'')"
    using StringBuffer_toString_ok [OF w(2), of junk] w(3) assms(4) by auto
  then show ?thesis using b w by (auto simp: VarExpander_expand_def VarExpander_write_def)
qed

lemma VarExpander_new_ok:
  "\<exists>v. VarExpander_new junk = Inr v \<and> vexp_inv v \<and> ve_state v = COPY \<and> ve_esc v = CHR ''$'' \<and> ve_open v = ''{('' \<and> ve_close v = ''})'' \<and> ve_map v = Map.empty"
  using StringBuffer_new_ok [of junk] by (auto simp: VarExpander_new_def vexp_inv_def strbuf_inv_def)

theorem var_expander_correct_witness:
  "\<exists>v w. VarExpander_new CHR ''x'' = Inr v \<and>
    VarExpander_expand CHR ''x'' (\<lambda>n. (n @ n, True)) ''a${bc}d$(e)'' v = (Inr ''abcbcdee'', w) \<and> ve_state w = COPY"
proof -
  obtain v where v: "VarExpander_new CHR ''x'' = Inr v" "vexp_inv v" "ve_state v = COPY" "ve_esc v = CHR ''$''" "ve_open v = ''{(''"
    "ve_close v = ''})''" "ve_map v = Map.empty" using VarExpander_new_ok by blast
  have "list_all (piece_ok v) [Text ''a'', Var 0 ''bc'', Text ''d'', Var 1 ''e'']" using v by simp
  from var_expander_correct [OF v(2,3) this, of "\<lambda>n. (n @ n, True)" "CHR ''x''"]
  show ?thesis using v by (auto simp: value_of_def)
qed

text \<open>
  Where the expander and the buffered output go wrong: a doubled escape character leaves the
  expander in its escape state, so that the brace that follows opens a variable; writing a
  character on a buffered output returns 0 instead of 1, which makes an expander on top of it
  drop every character of a text after its first one; and a buffered output over a stream that
  refuses the characters of the buffer reports success and loses them.
\<close>

lemma stream_defects:
  "(\<exists>v w. VarExpander_new CHR ''x'' = Inr v \<and> VarExpander_expand CHR ''x'' (\<lambda>n. (''!'', True)) ''$${a}'' v = (Inr ''$!'', w)) \<and>
   (\<exists>v w b s. VarExpander_new CHR ''x'' = Inr v \<and> BufferedOutStream_new (DynBlock_new CHR ''x'' 4 4) 8 = Inr b \<and>
     VarExpander_write CHR ''x'' (BufferedOutStream_write_char (BlockOutStream_write CHR ''x''))
       (BufferedOutStream_write (BlockOutStream_write CHR ''x'')) default_resolve ''abc'' (v, b) = (Inr 0, (w, s)) \<and>
     bout_text contents s = ''a'') \<and>
   (\<exists>s. BufferedOutStream_write Stream_write ''def'' \<lparr>bo_out = \<lparr>out_text = [], out_refuses = True\<rparr>, bo_buf = ''abc'', bo_size = 4\<rparr> =
       (Inr 3, s) \<and> out_text (bo_out s) = [] \<and> bo_buf s = ''def'')"
proof (intro conjI)
  obtain v where v: "VarExpander_new CHR ''x'' = Inr v" "vexp_inv v" "ve_state v = COPY" "ve_esc v = CHR ''$''" "ve_open v = ''{(''"
    "ve_close v = ''})''" "ve_map v = Map.empty" using VarExpander_new_ok by blast
  have b: "bout_inv dynblock_inv \<lparr>bo_out = DynBlock_new CHR ''x'' 4 4, bo_buf = [], bo_size = 8\<rparr>" by (simp add: bout_inv_def dynblock_inv_new)
  obtain s where s: "BufferedOutStream_write_char (BlockOutStream_write CHR ''x'') CHR ''a'' \<lparr>bo_out = DynBlock_new CHR ''x'' 4 4, bo_buf = [], bo_size = 8\<rparr>
      = (Inr 0, s)" "bout_text contents s = ''a''"
    using block.bout_write_char_ok [OF b, of "CHR ''x''" "CHR ''a''"] by (auto simp: bout_text_def dynblock_inv_new)
  then show "\<exists>v w b s. VarExpander_new CHR ''x'' = Inr v \<and> BufferedOutStream_new (DynBlock_new CHR ''x'' 4 4) 8 = Inr b \<and>
     VarExpander_write CHR ''x'' (BufferedOutStream_write_char (BlockOutStream_write CHR ''x''))
       (BufferedOutStream_write (BlockOutStream_write CHR ''x'')) default_resolve ''abc'' (v, b) = (Inr 0, (w, s)) \<and>
     bout_text contents s = ''a''"
    using v by (auto simp: BufferedOutStream_new_def VarExpander_write_def VarExpander_write_char_def on_out_def io_bind_def)
  show "\<exists>s. BufferedOutStream_write Stream_write ''def'' \<lparr>bo_out = \<lparr>out_text = [], out_refuses = True\<rparr>, bo_buf = ''abc'', bo_size = 4\<rparr> =
       (Inr 3, s) \<and> out_text (bo_out s) = [] \<and> bo_buf s = ''def''"
    by (simp add: BufferedOutStream_write_def BufferedOutStream_flush_def Stream_write_def strm_write_def out_call_def set_buf_def buf_append_def
        io_bind_def block_loop.simps)
  obtain b where b: "StringBuffer_new CHR ''x'' = Inr b" "strbuf_inv b" "strbuf_text b = []" using StringBuffer_new_ok by blast
  let ?f = "\<lambda>n :: string. (''!'', True)"
  obtain b1 where b1: "sb_from CHR ''x'' ?f 0 (ve_esc v # ve_esc v # ''{a}'') (v, b) = sb_from CHR ''x'' ?f 1 (ve_esc v # ''{a}'') (v, b1)"
    "strbuf_inv b1" "strbuf_text b1 = ''$''"
    using double_escape [OF b(2) v(3), of "CHR ''x''" ?f 0 "''{a}''"] b(3) v(4) by auto
  have "list_all (piece_ok v) [Var 0 ''a'']" using v by simp
  from expand_pieces [OF b1(2) v(2,3) this, of "CHR ''x''" ?f 1] obtain r w b2 where
    w: "sb_from CHR ''x'' ?f 1 (ve_esc v # ''{a}'') (v, b1) = (Inr r, (w, b2))" "strbuf_inv b2" "strbuf_text b2 = ''$!''"
    using v b1(3) by (auto simp: value_of_def)
  obtain b3 where "StringBuffer_toString CHR ''x'' b2 = Inr (''$!'', b3)"
    using StringBuffer_toString_ok [OF w(2), of "CHR ''x''"] w(3) by auto
  then show "\<exists>v w. VarExpander_new CHR ''x'' = Inr v \<and> VarExpander_expand CHR ''x'' ?f ''$${a}'' v = (Inr ''$!'', w)"
    using v(1,4) b(1) b1(1) w(1) by (auto simp: VarExpander_expand_def VarExpander_write_def)
qed

end
