(* ===== verification/Elm_Path.thy ===== *)
theory Elm_Path
  imports Elm_Prelude "HOL-Library.Sublist"
begin

text \<open>
  File paths, \<^verbatim>\<open>src/system_Path.cpp\<close> and \<^verbatim>\<open>sys/Path.h\<close> (Unix flavour): a path is its string.
  Canonical form, relative paths, decomposition in directory, name and extension, and splitting of a
  list of paths. The current directory and the home directory are parameters.
\<close>

type_synonym path = string

section \<open>Operations\<close>

definition SEPARATOR :: char where "SEPARATOR = CHR ''/''"
definition PATH_SEPARATOR :: char where "PATH_SEPARATOR = CHR '':''"

definition isSeparator :: "char \<Rightarrow> bool" where
  "isSeparator c \<longleftrightarrow> c = SEPARATOR"

text \<open>The least index from a bound with a property: the loops of \<^verbatim>\<open>nextSeparator\<close> and \<^verbatim>\<open>String::indexOf\<close>.\<close>

function next_index :: "(char \<Rightarrow> bool) \<Rightarrow> string \<Rightarrow> nat \<Rightarrow> int" where
  "next_index f p i = (if i < length p then if f (p ! i) then int i else next_index f p (i + 1) else - 1)"
  by pat_completeness auto
termination by (relation "measure (\<lambda>(f, p, i). length p - i)") auto

declare next_index.simps [simp del]

definition nextSeparator :: "path \<Rightarrow> nat \<Rightarrow> int" where
  "nextSeparator p start = next_index isSeparator p start"

definition indexOf :: "char \<Rightarrow> nat \<Rightarrow> string \<Rightarrow> int" where
  "indexOf c pos s = next_index (\<lambda>x. x = c) s pos"

text \<open>The greatest index below a bound with a property: the loops of \<^verbatim>\<open>lastSeparator\<close> and \<^verbatim>\<open>String::lastIndexOf\<close>.\<close>

fun last_index :: "(char \<Rightarrow> bool) \<Rightarrow> string \<Rightarrow> nat \<Rightarrow> int" where
  "last_index f p 0 = - 1"
| "last_index f p (Suc i) = (if f (p ! i) then int i else last_index f p i)"

definition lastSeparator :: "path \<Rightarrow> int" where
  "lastSeparator p = last_index isSeparator p (length p)"

definition lastIndexOf :: "char \<Rightarrow> string \<Rightarrow> int" where
  "lastIndexOf c p = last_index (\<lambda>x. x = c) p (length p)"

definition isAbsolute :: "path \<Rightarrow> bool" where
  "isAbsolute p \<longleftrightarrow> 0 < length p \<and> p ! 0 = SEPARATOR"

definition isRelative :: "path \<Rightarrow> bool" where
  "isRelative p \<longleftrightarrow> \<not> isAbsolute p"

definition isHomeRelative :: "path \<Rightarrow> bool" where
  "isHomeRelative p \<longleftrightarrow> 0 < length p \<and> p ! 0 = CHR ''~''"

definition Path_append :: "path \<Rightarrow> path \<Rightarrow> path" where
  "Path_append p q = (if p = [] then q else if q = [] then p else p @ [SEPARATOR] @ q)"

definition Path_absolute :: "path \<Rightarrow> path \<Rightarrow> path \<Rightarrow> path" where
  "Path_absolute home current p =
     (if isAbsolute p then p
      else if isHomeRelative p then Path_append home (drop 1 p)
      else Path_append current p)"

text \<open>One component of a path, added to those kept so far.\<close>

definition keep_comp :: "string list \<Rightarrow> string \<Rightarrow> string list" where
  "keep_comp comps c =
     (if c = ''..'' then (if 0 < length comps then take (length comps - 1) comps else comps)
      else if c \<noteq> [] \<and> c \<noteq> ''.'' then comps @ [c]
      else comps)"

lemma next_index_eq:
  "next_index f p i = (let k = length (takeWhile (\<lambda>x. \<not> f x) (drop i p)) in if i + k < length p then int (i + k) else - 1)"
proof (induction f p i rule: next_index.induct)
  case (1 f p i)
  show ?case
  proof (cases "i < length p")
    case True
    then have "drop i p = p ! i # drop (i + 1) p" by (simp add: Cons_nth_drop_Suc)
    then show ?thesis using 1 True by (subst next_index.simps) (auto simp: Let_def)
  qed (subst next_index.simps, simp)
qed

lemma nextSeparator_bound: "0 \<le> nextSeparator p i \<Longrightarrow> int i \<le> nextSeparator p i \<and> nextSeparator p i < int (length p)"
  by (auto simp: nextSeparator_def next_index_eq Let_def split: if_splits)

function canonical_loop :: "path \<Rightarrow> nat \<Rightarrow> string list \<Rightarrow> string list" where
  "canonical_loop p start comps =
     (let stop = nextSeparator p start in
      if 0 \<le> stop then canonical_loop p (nat stop + 1) (keep_comp comps (take (nat stop - start) (drop start p)))
      else comps @ [drop start p])"
  by pat_completeness auto
termination
proof (relation "measure (\<lambda>(p, start, comps). length p - start)")
  fix p start and x :: int assume "x = nextSeparator p start" "0 \<le> x"
  then have "int start \<le> x" "x < int (length p)" using nextSeparator_bound by auto
  then show "((p, nat x + 1, keep_comp comps (take (nat x - start) (drop start p))), p, start, comps)
      \<in> measure (\<lambda>(p, start, comps). length p - start)" for comps by auto
qed simp

declare canonical_loop.simps [simp del]

definition Path_canonical :: "path \<Rightarrow> path \<Rightarrow> path \<Rightarrow> path" where
  "Path_canonical home current p =
     (let path = (if isRelative p then Path_absolute home current p else p) in
      concat (map (\<lambda>c. SEPARATOR # c) (canonical_loop path 0 [])))"

definition Path_parent :: "path \<Rightarrow> path" where
  "Path_parent p = (let pos = lastSeparator p in if pos < 0 then ''.'' else take (nat pos) p)"

definition namePart :: "path \<Rightarrow> string" where
  "namePart p = (let pos = lastSeparator p in if pos < 0 then p else drop (nat pos + 1) p)"

definition dirPart :: "path \<Rightarrow> path" where
  "dirPart p = (let pos = lastSeparator p in if pos < 0 then [] else take (nat pos) p)"

definition basePart :: "path \<Rightarrow> path" where
  "basePart p = (let lsep = lastSeparator p; pos = lastIndexOf CHR ''.'' p in if pos \<le> lsep then p else take (nat pos) p)"

definition Path_extension :: "path \<Rightarrow> string" where
  "Path_extension p = (let lsep = lastSeparator p; pos = lastIndexOf CHR ''.'' p in if pos \<le> lsep then [] else drop (nat pos + 1) p)"

definition setExtension :: "string \<Rightarrow> path \<Rightarrow> path" where
  "setExtension e p =
     (let lsep = lastSeparator p; pos = lastIndexOf CHR ''.'' p in
      (if pos \<le> lsep then p else take (nat pos) p) @ ''.'' @ e)"

definition withoutExt :: "path \<Rightarrow> path" where
  "withoutExt p = (let lsep = lastSeparator p; pos = lastIndexOf CHR ''.'' p in if pos \<le> lsep then p else take (nat pos) p)"

definition startsWith :: "string \<Rightarrow> string \<Rightarrow> bool" where
  "startsWith p q \<longleftrightarrow> length q \<le> length p \<and> take (length q) p = q"

definition isPrefixOf :: "path \<Rightarrow> path \<Rightarrow> bool" where
  "isPrefixOf p q \<longleftrightarrow> startsWith q p \<and> (length q = length p \<or> q ! length p = SEPARATOR)"

definition BACK_PATH :: path where "BACK_PATH = ''..''"

text \<open>The loop of \<^verbatim>\<open>relativeTo\<close> may not end: no result then.\<close>

partial_function (option) relative_loop :: "path \<Rightarrow> path \<Rightarrow> path \<Rightarrow> (path \<times> path) option" where
  "relative_loop this base r =
     (if base \<noteq> [] \<and> \<not> isPrefixOf base this then relative_loop this (Path_parent base) (Path_append r BACK_PATH)
      else Some (base, r))"

declare relative_loop.simps [code]

definition relativeTo :: "path \<Rightarrow> path \<Rightarrow> path option" where
  "relativeTo this base =
     (if base = this then Some ''.''
      else case relative_loop this base [] of
          None \<Rightarrow> None
        | Some (base, r) \<Rightarrow> Some (if base = this then r else Path_append r (drop (length base + 1) this)))"

text \<open>The iterator over a list of paths: the string, the position of the current path and that of its end.\<close>

record path_iter =
  pi_s :: string
  pi_p :: nat
  pi_n :: int

definition PathIter_look :: "path_iter \<Rightarrow> path_iter" where
  "PathIter_look i =
     (if length (pi_s i) \<le> pi_p i then i
      else let n = indexOf PATH_SEPARATOR (nat (pi_n i + 1)) (pi_s i) in
        i\<lparr>pi_n := (if n < 0 then int (length (pi_s i)) else n)\<rparr>)"

definition PathIter_new :: "string \<Rightarrow> path_iter" where
  "PathIter_new s = PathIter_look \<lparr>pi_s = s, pi_p = 0, pi_n = - 1\<rparr>"

definition PathIter_ended :: "path_iter \<Rightarrow> bool" where
  "PathIter_ended i \<longleftrightarrow> length (pi_s i) \<le> pi_p i"

definition PathIter_item :: "path_iter \<Rightarrow> path" where
  "PathIter_item i = take (nat (pi_n i) - pi_p i) (drop (pi_p i) (pi_s i))"

definition PathIter_next :: "path_iter \<Rightarrow> path_iter" where
  "PathIter_next i =
     (let i = i\<lparr>pi_p := nat (pi_n i)\<rparr> in
      if pi_p i < length (pi_s i) then PathIter_look (i\<lparr>pi_p := pi_p i + 1\<rparr>) else i)"


section \<open>Components\<close>

fun split_on :: "char \<Rightarrow> string \<Rightarrow> string list" where
  "split_on s [] = [[]]"
| "split_on s (x # xs) = (if x = s then [] # split_on s xs else (x # hd (split_on s xs)) # tl (split_on s xs))"

fun join_on :: "char \<Rightarrow> string list \<Rightarrow> string" where
  "join_on s [] = []"
| "join_on s [c] = c"
| "join_on s (c # cs) = c @ [s] @ join_on s cs"

lemma split_on_not_Nil [simp]: "split_on s xs \<noteq> []"
  by (cases xs) simp_all

lemma split_on_none: "s \<notin> set xs \<Longrightarrow> split_on s xs = [xs]"
  by (induction xs) auto

lemma split_on_first: "s \<notin> set c \<Longrightarrow> split_on s (c @ s # xs) = c # split_on s xs"
  by (induction c) auto

lemma join_split: "join_on s (split_on s xs) = xs"
proof (induction xs)
  case (Cons x xs)
  then show ?case by (cases "split_on s xs" rule: remdups_adj.cases) (auto simp: neq_Nil_conv)
qed simp

text \<open>The text of an absolute path from its components.\<close>

definition abs_text :: "string list \<Rightarrow> path" where
  "abs_text cs = concat (map (\<lambda>c. SEPARATOR # c) cs)"

lemma abs_text_simps [simp]: "abs_text [] = []" "abs_text (c # cs) = SEPARATOR # c @ abs_text cs" "abs_text (as @ bs) = abs_text as @ abs_text bs"
  by (simp_all add: abs_text_def)

definition comp_ok :: "string \<Rightarrow> bool" where
  "comp_ok c \<longleftrightarrow> c \<noteq> [] \<and> c \<noteq> ''.'' \<and> c \<noteq> ''..'' \<and> SEPARATOR \<notin> set c"

lemma split_abs_text: "list_all (\<lambda>c. SEPARATOR \<notin> set c) cs \<Longrightarrow> split_on SEPARATOR (abs_text cs) = [] # cs"
proof (induction cs)
  case (Cons c cs)
  then show ?case
    by (cases cs) (auto simp: split_on_none split_on_first)
qed simp

lemma not_separator: "(\<lambda>x. \<not> isSeparator x) = (\<lambda>x. x \<noteq> SEPARATOR)"
  by (simp add: isSeparator_def)

lemma takeWhile_split:
  "(length (takeWhile (\<lambda>x. x \<noteq> s) xs) < length xs \<longleftrightarrow> s \<in> set xs) \<and>
   (s \<in> set xs \<longrightarrow> split_on s xs = takeWhile (\<lambda>x. x \<noteq> s) xs # split_on s (drop (length (takeWhile (\<lambda>x. x \<noteq> s) xs) + 1) xs))"
  by (induction xs) auto

text \<open>The loop keeps the components of the path but the last one, that it adds as it is.\<close>

lemma canonical_loop_split:
  "start \<le> length p \<Longrightarrow> canonical_loop p start comps =
    (let cs = split_on SEPARATOR (drop start p) in foldl keep_comp comps (butlast cs) @ [last cs])"
proof (induction p start comps rule: canonical_loop.induct)
  case (1 p start comps)
  let ?k = "length (takeWhile (\<lambda>x. x \<noteq> SEPARATOR) (drop start p))"
  note t = takeWhile_split [of SEPARATOR "drop start p"]
  show ?case
  proof (cases "SEPARATOR \<in> set (drop start p)")
    case True
    then have lt: "?k < length (drop start p)" using t by simp
    then have n: "nextSeparator p start = int (start + ?k)"
      by (simp add: nextSeparator_def next_index_eq not_separator Let_def)
    have tk: "take ?k (drop start p) = takeWhile (\<lambda>x. x \<noteq> SEPARATOR) (drop start p)" by (rule takeWhile_eq_take [symmetric])
    have sp: "split_on SEPARATOR (drop start p) = takeWhile (\<lambda>x. x \<noteq> SEPARATOR) (drop start p) # split_on SEPARATOR (drop (start + ?k + 1) p)"
      using t True by (simp add: add.commute add.left_commute)
    have "canonical_loop p start comps = canonical_loop p (start + ?k + 1) (keep_comp comps (take ?k (drop start p)))"
      by (subst canonical_loop.simps) (simp add: n nat_add_distrib)
    also have "\<dots> = (let cs = split_on SEPARATOR (drop (start + ?k + 1) p) in
        foldl keep_comp (keep_comp comps (take ?k (drop start p))) (butlast cs) @ [last cs])"
      using 1(1) [OF refl] lt by (simp add: n nat_add_distrib)
    finally show ?thesis by (simp add: sp tk Let_def)
  next
    case False
    then have "nextSeparator p start = - 1" using t by (auto simp: nextSeparator_def next_index_eq not_separator Let_def)
    then show ?thesis using False by (subst canonical_loop.simps) (simp add: split_on_none)
  qed
qed

text \<open>The place of a path in the tree of files without links: its components from the root.\<close>

definition walk :: "string list \<Rightarrow> string \<Rightarrow> string list" where
  "walk here c = (if c = ''..'' then butlast here else if c = [] \<or> c = ''.'' then here else here @ [c])"

definition place :: "path \<Rightarrow> string list" where
  "place p = foldl walk [] (split_on SEPARATOR p)"

lemma keep_comp_walk: "keep_comp = walk"
  by (rule ext)+ (auto simp: keep_comp_def walk_def butlast_conv_take)

lemma split_on_no_sep: "list_all (\<lambda>c. s \<notin> set c) (split_on s xs)"
proof (induction xs)
  case (Cons x xs)
  then show ?case by (cases "split_on s xs") auto
qed simp

lemma walk_ok: "list_all comp_ok here \<Longrightarrow> SEPARATOR \<notin> set c \<Longrightarrow> list_all comp_ok (walk here c)"
  by (auto simp: walk_def comp_ok_def list_all_iff dest: in_set_butlastD)

lemma foldl_walk_ok: "list_all comp_ok here \<Longrightarrow> list_all (\<lambda>c. SEPARATOR \<notin> set c) cs \<Longrightarrow> list_all comp_ok (foldl walk here cs)"
  by (induction cs arbitrary: here) (auto simp: walk_ok)

lemma foldl_walk_same: "list_all comp_ok cs \<Longrightarrow> foldl walk here cs = here @ cs"
  by (induction cs arbitrary: here) (auto simp: walk_def comp_ok_def)

lemma foldl_walk_append: "foldl walk here (as @ bs) = foldl walk (foldl walk here as) bs"
  by simp

lemma isAbsolute_split: "isAbsolute p \<Longrightarrow> \<exists>cs. split_on SEPARATOR p = [] # cs"
  by (cases p) (auto simp: isAbsolute_def)

lemma isAbsolute_abs_text: "isAbsolute (abs_text cs) \<longleftrightarrow> cs \<noteq> []"
  by (cases cs) (auto simp: isAbsolute_def)

lemma canonical_text:
  assumes "isAbsolute p"
  shows "Path_canonical home current p = abs_text (foldl walk [] (butlast (split_on SEPARATOR p)) @ [last (split_on SEPARATOR p)])"
  using assms canonical_loop_split [of 0 p "[]"]
  by (simp add: Path_canonical_def isRelative_def abs_text_def Let_def keep_comp_walk)

lemma canonical_absolute:
  "isAbsolute (Path_absolute home current p) \<Longrightarrow> Path_canonical home current p = Path_canonical home current (Path_absolute home current p)"
  by (auto simp: Path_canonical_def isRelative_def Path_absolute_def Let_def)

text \<open>
  C25. The canonical form of a path, made absolute with the current or the home directory: it is
  an absolute path that leads to the same place, all its components but the last one are
  names (neither empty nor \<^verbatim>\<open>.\<close> nor \<^verbatim>\<open>..\<close>), and it is its own canonical form. When the last
  component is a name, it is the components of that place.
\<close>

theorem path_canonical:
  assumes "isAbsolute (Path_absolute home current p)"
  defines "q \<equiv> Path_absolute home current p" and "r \<equiv> Path_canonical home current p"
  shows "isAbsolute r \<and> place r = place q \<and> (\<exists>ks l. r = abs_text (ks @ [l]) \<and> list_all comp_ok ks \<and> SEPARATOR \<notin> set l \<and> l = last (split_on SEPARATOR q)) \<and>
    Path_canonical home current r = r \<and> (comp_ok (last (split_on SEPARATOR q)) \<longrightarrow> r = abs_text (place q))"
proof -
  define ks l where "ks = foldl walk [] (butlast (split_on SEPARATOR q))" and "l = last (split_on SEPARATOR q)"
  have a: "isAbsolute q" using assms(1) by (simp add: q_def)
  have r: "r = abs_text (ks @ [l])"
    using canonical_text [OF a, of home current] canonical_absolute [OF assms(1)] by (simp only: r_def q_def ks_def l_def)
  have n: "list_all (\<lambda>c. SEPARATOR \<notin> set c) (butlast (split_on SEPARATOR q))" "SEPARATOR \<notin> set l"
    using split_on_no_sep [of SEPARATOR q] by (auto simp: list_all_iff l_def dest: in_set_butlastD)
  have k: "list_all comp_ok ks" unfolding ks_def by (rule foldl_walk_ok) (use n(1) in simp_all)
  have s: "split_on SEPARATOR r = [] # ks @ [l]"
    unfolding r using k n(2) by (intro split_abs_text) (auto simp: list_all_iff comp_ok_def)
  have w: "foldl walk [] ([] # ks) = ks" using foldl_walk_same [OF k, of "[]"] by (simp add: walk_def)
  have p: "place q = walk ks l"
    using foldl_walk_append [of "[]" "butlast (split_on SEPARATOR q)" "[last (split_on SEPARATOR q)]"] by (simp add: place_def ks_def l_def)
  have "place r = walk ks l" using w by (simp add: place_def s)
  moreover have ra: "isAbsolute r" by (simp add: r isAbsolute_abs_text del: abs_text_simps)
  moreover have "Path_canonical home current r = r"
  proof -
    have "butlast ([] # ks @ [l]) = [] # ks" "last ([] # ks @ [l]) = l" by (simp_all add: butlast_append)
    then show ?thesis using canonical_text [OF ra, of home current] by (simp only: s w r [symmetric])
  qed
  moreover have "comp_ok l \<longrightarrow> r = abs_text (place q)" unfolding p r by (auto simp: walk_def comp_ok_def)
  ultimately show ?thesis using p r k n(2) by (auto simp: l_def)
qed

theorem path_canonical_witness:
  "Path_canonical ''/h'' ''/w'' ''/a/./b//../c'' = ''/a/c'' \<and> Path_canonical ''/h'' ''/w'' ''/a/c'' = ''/a/c''"
proof -
  have "isAbsolute (Path_absolute ''/h'' ''/w'' ''/a/./b//../c'')" "Path_absolute ''/h'' ''/w'' ''/a/./b//../c'' = ''/a/./b//../c''"
    by code_simp+
  moreover have "abs_text (place ''/a/./b//../c'') = ''/a/c''" "comp_ok (last (split_on SEPARATOR ''/a/./b//../c''))" by code_simp+
  ultimately show ?thesis using path_canonical [of "''/h''" "''/w''" "''/a/./b//../c''"] by metis
qed

section \<open>Relative paths\<close>

lemma last_index_spec:
  "n \<le> length p \<Longrightarrow>
    (last_index f p n = - 1 \<and> (\<forall>i < n. \<not> f (p ! i))) \<or>
    (\<exists>k < n. last_index f p n = int k \<and> f (p ! k) \<and> (\<forall>i < n. k < i \<longrightarrow> \<not> f (p ! i)))"
proof (induction n)
  case (Suc n)
  then show ?case by (cases "f (p ! n)") (auto simp: less_Suc_eq)
qed simp

lemma last_index_none: "\<forall>x \<in> set p. \<not> f x \<Longrightarrow> last_index f p (length p) = - 1"
  using last_index_spec [of "length p" p f] by auto

lemma last_index_snoc:
  assumes "f s" "\<forall>x \<in> set b. \<not> f x"
  shows "last_index f (a @ s # b) (length (a @ s # b)) = int (length a)"
proof -
  let ?p = "a @ s # b"
  obtain k where k: "k < length ?p" "last_index f ?p (length ?p) = int k" "f (?p ! k)" "\<forall>i < length ?p. k < i \<longrightarrow> \<not> f (?p ! i)"
    using last_index_spec [of "length ?p" ?p f] assms(1) by (metis in_set_conv_nth in_set_conv_decomp order_refl)
  have "\<not> k < length a" using k(4) assms(1) by (auto dest: spec [of _ "length a"])
  moreover have "\<not> length a < k"
  proof
    assume "length a < k"
    then have "?p ! k = b ! (k - length a - 1)" "k - length a - 1 < length b" using k(1) by (auto simp: nth_append nth_Cons')
    then show False using k(3) assms(2) by auto
  qed
  ultimately show ?thesis using k(2) by simp
qed

lemma lastSeparator_snoc: "SEPARATOR \<notin> set b \<Longrightarrow> lastSeparator (a @ SEPARATOR # b) = int (length a)"
  unfolding lastSeparator_def by (rule last_index_snoc) (auto simp: isSeparator_def)

lemma lastSeparator_none: "SEPARATOR \<notin> set p \<Longrightarrow> lastSeparator p = - 1"
  unfolding lastSeparator_def by (rule last_index_none) (auto simp: isSeparator_def)

lemma parent_abs_text: "SEPARATOR \<notin> set b \<Longrightarrow> Path_parent (abs_text (bs @ [b])) = abs_text bs"
  by (simp add: Path_parent_def lastSeparator_snoc)

lemma abs_text_cut:
  assumes "a @ x = b @ y" "SEPARATOR \<notin> set a" "SEPARATOR \<notin> set b" "x = [] \<or> hd x = SEPARATOR" "y = [] \<or> hd y = SEPARATOR"
  shows "a = b \<and> x = y"
  using assms
proof (induction a arbitrary: b)
  case Nil
  then show ?case by (cases b) auto
next
  case (Cons c a)
  then show ?case by (cases b) auto
qed

lemma abs_text_hd: "abs_text cs = [] \<or> hd (abs_text cs) = SEPARATOR"
  by (cases cs) simp_all

lemma abs_text_prefix:
  assumes "list_all (\<lambda>c. SEPARATOR \<notin> set c) bs" "list_all (\<lambda>c. SEPARATOR \<notin> set c) cs" "rest = [] \<or> hd rest = SEPARATOR"
    "abs_text cs = abs_text bs @ rest"
  shows "prefix bs cs"
  using assms
proof (induction bs arbitrary: cs)
  case (Cons b bs)
  obtain c cs' where cs: "cs = c # cs'" using Cons.prems(4) by (cases cs) auto
  have "(c @ abs_text cs') = (b @ abs_text bs @ rest)" using Cons.prems(4) cs by simp
  moreover have "abs_text bs @ rest = [] \<or> hd (abs_text bs @ rest) = SEPARATOR" using abs_text_hd [of bs] Cons.prems(3) by (cases "abs_text bs") auto
  ultimately have "c = b \<and> abs_text cs' = abs_text bs @ rest"
    using Cons.prems(1,2) cs abs_text_hd [of cs'] by (intro abs_text_cut) auto
  then show ?case using Cons.IH [of cs'] Cons.prems cs by simp
qed simp

lemma isPrefixOf_abs_text:
  assumes "list_all (\<lambda>c. SEPARATOR \<notin> set c) bs" "list_all (\<lambda>c. SEPARATOR \<notin> set c) cs"
  shows "isPrefixOf (abs_text bs) (abs_text cs) \<longleftrightarrow> prefix bs cs"
proof
  assume "isPrefixOf (abs_text bs) (abs_text cs)"
  then have p: "length (abs_text bs) \<le> length (abs_text cs)" "take (length (abs_text bs)) (abs_text cs) = abs_text bs"
    "length (abs_text cs) = length (abs_text bs) \<or> abs_text cs ! length (abs_text bs) = SEPARATOR"
    by (auto simp: isPrefixOf_def startsWith_def)
  let ?rest = "drop (length (abs_text bs)) (abs_text cs)"
  have "?rest = [] \<or> hd ?rest = SEPARATOR" using p(1,3) by (cases "length (abs_text bs) < length (abs_text cs)") (auto simp: hd_drop_conv_nth)
  moreover have "abs_text cs = abs_text bs @ ?rest" using p(2) append_take_drop_id [of "length (abs_text bs)" "abs_text cs"] by simp
  ultimately show "prefix bs cs" by (rule abs_text_prefix [OF assms])
next
  assume "prefix bs cs"
  then obtain ds where "cs = bs @ ds" by (auto simp: prefix_def)
  then show "isPrefixOf (abs_text bs) (abs_text cs)" by (cases ds) (auto simp: isPrefixOf_def startsWith_def)
qed

lemma abs_text_inject:
  "list_all (\<lambda>c. SEPARATOR \<notin> set c) bs \<Longrightarrow> list_all (\<lambda>c. SEPARATOR \<notin> set c) cs \<Longrightarrow> abs_text bs = abs_text cs \<longleftrightarrow> bs = cs"
  using abs_text_prefix [of bs cs "[]"] abs_text_prefix [of cs bs "[]"] by (auto intro: prefix_order.antisym)

definition back_text :: "nat \<Rightarrow> path" where
  "back_text n = join_on SEPARATOR (replicate n BACK_PATH)"

lemma join_on_append: "as \<noteq> [] \<Longrightarrow> bs \<noteq> [] \<Longrightarrow> join_on s (as @ bs) = join_on s as @ [s] @ join_on s bs"
proof (induction as rule: join_on.induct)
  case (3 s c d cs)
  then show ?case by simp
qed (auto simp: neq_Nil_conv)

lemma join_on_eq_Nil: "list_all (\<lambda>c. c \<noteq> []) cs \<Longrightarrow> join_on s cs = [] \<longleftrightarrow> cs = []"
  by (induction s cs rule: join_on.induct) auto

lemma append_join:
  "list_all (\<lambda>c. c \<noteq> []) as \<Longrightarrow> list_all (\<lambda>c. c \<noteq> []) bs \<Longrightarrow>
    Path_append (join_on SEPARATOR as) (join_on SEPARATOR bs) = join_on SEPARATOR (as @ bs)"
  by (cases "as = [] \<or> bs = []") (auto simp: Path_append_def join_on_eq_Nil join_on_append)

lemma back_text_Suc: "Path_append (back_text n) BACK_PATH = back_text (n + 1)"
  using append_join [of "replicate n BACK_PATH" "[BACK_PATH]"] by (simp add: back_text_def BACK_PATH_def list_all_iff replicate_append_same)

lemma abs_text_join: "cs \<noteq> [] \<Longrightarrow> abs_text cs = SEPARATOR # join_on SEPARATOR cs"
  by (induction SEPARATOR cs rule: join_on.induct) auto

lemma split_join: "cs \<noteq> [] \<Longrightarrow> list_all (\<lambda>c. s \<notin> set c) cs \<Longrightarrow> split_on s (join_on s cs) = cs"
  by (induction s cs rule: join_on.induct) (auto simp: split_on_none split_on_first)

lemma longest_common_prefix_snoc:
  assumes "\<not> prefix (bs @ [b]) cs"
  shows "longest_common_prefix (bs @ [b]) cs = longest_common_prefix bs cs"
proof (rule prefix_order.antisym)
  let ?k = "longest_common_prefix (bs @ [b]) cs"
  have p: "prefix ?k (bs @ [b])" "prefix ?k cs" by (rule longest_common_prefix_prefix1, rule longest_common_prefix_prefix2)
  then have "prefix ?k bs" using assms by (auto simp: prefix_snoc)
  then show "prefix ?k (longest_common_prefix bs cs)" using p(2) by (rule longest_common_prefix_max_prefix)
  show "prefix (longest_common_prefix bs cs) ?k"
    by (rule longest_common_prefix_max_prefix) (auto intro: longest_common_prefix_prefix1 longest_common_prefix_prefix2 prefix_prefix)
qed

lemma longest_common_prefix_self: "prefix bs cs \<Longrightarrow> longest_common_prefix bs cs = bs"
  by (rule prefix_order.antisym) (auto intro: longest_common_prefix_prefix1 longest_common_prefix_max_prefix)

lemma relative_loop_abs_text:
  assumes "list_all comp_ok bs" "list_all comp_ok cs"
  shows "relative_loop (abs_text cs) (abs_text bs) (back_text n) =
    (let k = longest_common_prefix bs cs in Some (abs_text k, back_text (n + length bs - length k)))"
  using assms(1)
proof (induction bs arbitrary: n rule: rev_induct)
  case Nil
  then show ?case by (subst relative_loop.simps) simp
next
  case (snoc b bs)
  have s: "list_all (\<lambda>c. SEPARATOR \<notin> set c) cs" "list_all (\<lambda>c. SEPARATOR \<notin> set c) (bs @ [b])"
    using assms(2) snoc.prems by (auto simp: list_all_iff comp_ok_def)
  note pre = isPrefixOf_abs_text [OF s(2,1)]
  have ne: "abs_text (bs @ [b]) \<noteq> []" by simp
  show ?case
  proof (cases "prefix (bs @ [b]) cs")
    case True
    then show ?thesis using pre by (subst relative_loop.simps) (simp add: longest_common_prefix_self del: abs_text_simps)
  next
    case False
    have "relative_loop (abs_text cs) (abs_text (bs @ [b])) (back_text n) = relative_loop (abs_text cs) (abs_text bs) (back_text (n + 1))"
      using False pre ne s(2) parent_abs_text [of b bs]
      by (subst relative_loop.simps) (simp add: back_text_Suc del: abs_text_simps)
    also have "\<dots> = (let k = longest_common_prefix bs cs in Some (abs_text k, back_text (n + 1 + length bs - length k)))"
      using snoc by simp
    finally show ?thesis using longest_common_prefix_snoc [OF False] by (simp add: Let_def)
  qed
qed

lemma foldl_walk_back: "m \<le> length bs \<Longrightarrow> foldl walk bs (replicate m BACK_PATH) = take (length bs - m) bs"
proof (induction m arbitrary: bs)
  case (Suc m)
  have "walk bs BACK_PATH = butlast bs" by (simp add: walk_def BACK_PATH_def)
  then have "foldl walk bs (replicate (Suc m) BACK_PATH) = take (length (butlast bs) - m) (butlast bs)"
    using Suc by simp
  also have "\<dots> = take (length bs - Suc m) bs" by (simp add: butlast_conv_take)
  finally show ?case .
qed simp

text \<open>
  C26. The path relative to a base: for two absolute paths made of names, the loop of \<^verbatim>\<open>relativeTo\<close> ends
  and gives as many steps back as the base has components after the longest common prefix, followed
  by the remaining components of the path; walking along it from the base leads to the path.
\<close>

theorem path_relative:
  assumes "list_all comp_ok bs" "list_all comp_ok cs" "bs \<noteq> []" "cs \<noteq> []"
  defines "k \<equiv> length (longest_common_prefix bs cs)"
  shows "\<exists>r. relativeTo (abs_text cs) (abs_text bs) = Some r \<and>
    r = (if bs = cs then ''.'' else join_on SEPARATOR (replicate (length bs - k) BACK_PATH @ drop k cs)) \<and>
    foldl walk bs (split_on SEPARATOR r) = cs"
proof (cases "bs = cs")
  case True
  then show ?thesis by (simp add: relativeTo_def walk_def SEPARATOR_def)
next
  case False
  let ?l = "longest_common_prefix bs cs" and ?m = "length bs - k"
  have p: "prefix ?l bs" "prefix ?l cs" by (rule longest_common_prefix_prefix1, rule longest_common_prefix_prefix2)
  then obtain xs ys where "bs = ?l @ xs" "cs = ?l @ ys" by (auto simp: prefix_def)
  then have kb: "k \<le> length bs" "take k bs = ?l" and cs: "cs = ?l @ drop k cs"
    unfolding k_def by (metis append_eq_conv_conj le_add1 length_append)+
  have s: "list_all (\<lambda>c. SEPARATOR \<notin> set c) bs" "list_all (\<lambda>c. SEPARATOR \<notin> set c) cs"
    using assms(1,2) by (auto simp: list_all_iff comp_ok_def)
  have sl: "list_all (\<lambda>c. SEPARATOR \<notin> set c) ?l" using s(2) cs by (metis list_all_append)
  let ?cs = "replicate ?m BACK_PATH @ drop k cs"
  have ok: "list_all comp_ok (drop k cs)" using assms(2) by (auto simp: list_all_iff dest: in_set_dropD)
  have okr: "list_all (\<lambda>c. c \<noteq> []) (replicate ?m BACK_PATH)" "list_all (\<lambda>c. c \<noteq> []) (drop k cs)"
    using ok by (auto simp: BACK_PATH_def list_all_iff comp_ok_def)
  have ne: "?cs \<noteq> []"
  proof
    assume "?cs = []"
    then have "length bs \<le> k" "length cs \<le> k" by simp_all
    then have "bs = ?l" "cs = ?l" using kb cs by auto
    then show False using False by simp
  qed
  have "relative_loop (abs_text cs) (abs_text bs) [] = Some (abs_text ?l, back_text ?m)"
    using relative_loop_abs_text [OF assms(1,2), of 0] by (simp add: back_text_def k_def Let_def)
  moreover have "(if abs_text ?l = abs_text cs then back_text ?m else Path_append (back_text ?m) (drop (length (abs_text ?l) + 1) (abs_text cs))) = join_on SEPARATOR ?cs"
  proof (cases "drop k cs = []")
    case True
    then have "?l = cs" using cs by simp
    then show ?thesis using True by (simp add: back_text_def)
  next
    case d: False
    have "abs_text cs = abs_text ?l @ SEPARATOR # join_on SEPARATOR (drop k cs)"
      using cs abs_text_join [OF d] by (metis abs_text_simps(3))
    then show ?thesis using append_join [OF okr] by (simp add: back_text_def)
  qed
  ultimately have r: "relativeTo (abs_text cs) (abs_text bs) = Some (join_on SEPARATOR ?cs)"
    using False abs_text_inject [OF s] by (simp add: relativeTo_def)
  have "SEPARATOR \<notin> set BACK_PATH" by (simp add: SEPARATOR_def BACK_PATH_def)
  then have "list_all (\<lambda>c. SEPARATOR \<notin> set c) (replicate ?m BACK_PATH)" by (simp add: list_all_iff)
  moreover have "list_all (\<lambda>c. SEPARATOR \<notin> set c) (drop k cs)" using s(2) by (auto simp: list_all_iff dest: in_set_dropD)
  ultimately have "split_on SEPARATOR (join_on SEPARATOR ?cs) = ?cs"
    using split_join [OF ne, of SEPARATOR] by (simp only: list_all_append)
  moreover have "foldl walk bs ?cs = cs"
  proof -
    have "foldl walk bs ?cs = take (length bs - ?m) bs @ drop k cs"
      using foldl_walk_back [of ?m bs] foldl_walk_same [OF ok] by simp
    also have "\<dots> = ?l @ drop k cs" using kb by simp
    finally show ?thesis using cs by simp
  qed
  ultimately show ?thesis using False r by simp
qed

theorem path_relative_witness:
  "relativeTo ''/a/x/y'' ''/a/b/c'' = Some ''../../x/y''"
proof -
  have "abs_text [''a'', ''x'', ''y''] = ''/a/x/y''" "abs_text [''a'', ''b'', ''c''] = ''/a/b/c''"
    "join_on SEPARATOR (replicate (length [''a'', ''b'', ''c''] - length (longest_common_prefix [''a'', ''b'', ''c''] [''a'', ''x'', ''y''])) BACK_PATH @
       drop (length (longest_common_prefix [''a'', ''b'', ''c''] [''a'', ''x'', ''y''])) [''a'', ''x'', ''y'']) = ''../../x/y''"
    by code_simp+
  moreover have "list_all comp_ok [''a'', ''b'', ''c'']" "list_all comp_ok [''a'', ''x'', ''y'']" by code_simp+
  ultimately show ?thesis using path_relative [of "[''a'', ''b'', ''c'']" "[''a'', ''x'', ''y'']"] by simp
qed


section \<open>Directory, name and extension\<close>

lemma last_index_cases:
  obtains "last_index f p (length p) = - 1" "\<forall>x \<in> set p. \<not> f x"
  | a s b where "p = a @ s # b" "f s" "\<forall>x \<in> set b. \<not> f x" "last_index f p (length p) = int (length a)"
proof (cases "\<exists>x \<in> set p. f x")
  case True
  then obtain a s b where "p = a @ s # b" "f s" "\<forall>x \<in> set b. \<not> f x" using split_list_last_prop [OF True] by blast
  then show ?thesis using last_index_snoc [of f s b a] that(2) by blast
next
  case False
  then show ?thesis using last_index_none [of p f] that(1) by blast
qed

lemma lastSeparator_cases:
  obtains "SEPARATOR \<notin> set p" "lastSeparator p = - 1"
  | a b where "p = a @ SEPARATOR # b" "SEPARATOR \<notin> set b" "lastSeparator p = int (length a)"
  using last_index_cases [of isSeparator p] unfolding lastSeparator_def isSeparator_def by metis

lemma lastIndexOf_cases:
  obtains "c \<notin> set p" "lastIndexOf c p = - 1"
  | a b where "p = a @ c # b" "c \<notin> set b" "lastIndexOf c p = int (length a)"
  using last_index_cases [of "\<lambda>x. x = c" p] unfolding lastIndexOf_def by metis

lemma lastIndexOf_snoc: "c \<notin> set b \<Longrightarrow> lastIndexOf c (a @ c # b) = int (length a)"
  unfolding lastIndexOf_def by (rule last_index_snoc) auto

lemma name_no_separator: "SEPARATOR \<notin> set (namePart p)"
  by (rule lastSeparator_cases [of p]) (auto simp: namePart_def)

text \<open>A path has an extension when its name has a dot.\<close>

lemma extension_iff: "lastIndexOf CHR ''.'' p \<le> lastSeparator p \<longleftrightarrow> CHR ''.'' \<notin> set (namePart p)"
proof (rule lastSeparator_cases [of p])
  assume s: "SEPARATOR \<notin> set p" "lastSeparator p = - 1"
  then have n: "namePart p = p" by (simp add: namePart_def)
  show ?thesis by (rule lastIndexOf_cases [of "CHR ''.''" p]) (use s n in auto)
next
  fix a b assume s: "p = a @ SEPARATOR # b" "SEPARATOR \<notin> set b" "lastSeparator p = int (length a)"
  then have n: "namePart p = b" by (simp add: namePart_def)
  show ?thesis
  proof (rule lastIndexOf_cases [of "CHR ''.''" p])
    assume "CHR ''.'' \<notin> set p" "lastIndexOf CHR ''.'' p = - 1"
    then show ?thesis using s n by simp
  next
    fix c d assume d: "p = c @ CHR ''.'' # d" "CHR ''.'' \<notin> set d" "lastIndexOf CHR ''.'' p = int (length c)"
    show ?thesis
    proof (cases "CHR ''.'' \<in> set b")
      case True
      then obtain e f where "b = e @ CHR ''.'' # f" "CHR ''.'' \<notin> set f" using split_list_last [OF True] by blast
      then have "p = (a @ SEPARATOR # e) @ CHR ''.'' # f" using s(1) by simp
      then have "lastIndexOf CHR ''.'' p = int (length (a @ SEPARATOR # e))"
        using lastIndexOf_snoc [OF \<open>CHR ''.'' \<notin> set f\<close>] by (simp only:)
      then show ?thesis using True s n by simp
    next
      case False
      have "length c < length a"
      proof (rule ccontr)
        assume l: "\<not> length c < length a"
        have c: "p ! length c = CHR ''.''" "length c < length p" using d(1) by simp_all
        then have "length c \<noteq> length a" using s(1) by (auto simp: SEPARATOR_def)
        then have "p ! length c = b ! (length c - length a - 1)" "length c - length a - 1 < length b"
          using l c(2) s(1) by (auto simp: nth_append nth_Cons')
        then show False using False c(1) nth_mem by metis
      qed
      then show ?thesis using False s d n by simp
    qed
  qed
qed

text \<open>
  C27. Decomposition of a path: the name has no separator and, when the path has one, the directory,
  a separator and the name make the path again. When the name has a dot, the base, a dot and
  the extension make the path again, else the base is the path; setting an extension
  without dot or separator is read back by \<^verbatim>\<open>extension\<close> and removed by \<^verbatim>\<open>basePart\<close> and \<^verbatim>\<open>withoutExt\<close>.
\<close>

theorem path_parts:
  assumes "CHR ''.'' \<notin> set e" "SEPARATOR \<notin> set e"
  shows "SEPARATOR \<notin> set (namePart p) \<and>
    (if SEPARATOR \<in> set p then p = dirPart p @ [SEPARATOR] @ namePart p \<and> Path_parent p = dirPart p else namePart p = p \<and> dirPart p = []) \<and>
    (if CHR ''.'' \<in> set (namePart p) then p = basePart p @ ''.'' @ Path_extension p else basePart p = p \<and> Path_extension p = []) \<and>
    Path_extension (setExtension e p) = e \<and> basePart (setExtension e p) = basePart p \<and> withoutExt (setExtension e p) = basePart p"
proof (intro conjI)
  show "SEPARATOR \<notin> set (namePart p)" by (rule name_no_separator)
  show "if SEPARATOR \<in> set p then p = dirPart p @ [SEPARATOR] @ namePart p \<and> Path_parent p = dirPart p else namePart p = p \<and> dirPart p = []"
    by (rule lastSeparator_cases [of p]) (auto simp: dirPart_def namePart_def Path_parent_def)
  show "if CHR ''.'' \<in> set (namePart p) then p = basePart p @ ''.'' @ Path_extension p else basePart p = p \<and> Path_extension p = []"
  proof (rule lastIndexOf_cases [of "CHR ''.''" p])
    assume "CHR ''.'' \<notin> set p" "lastIndexOf CHR ''.'' p = - 1"
    moreover have "- 1 \<le> lastSeparator p" by (rule lastSeparator_cases [of p]) simp_all
    ultimately show ?thesis using extension_iff [of p] by (auto simp: basePart_def Path_extension_def Let_def)
  next
    fix a b assume "p = a @ CHR ''.'' # b" "CHR ''.'' \<notin> set b" "lastIndexOf CHR ''.'' p = int (length a)"
    then show ?thesis using extension_iff [of p] by (auto simp: basePart_def Path_extension_def Let_def)
  qed
  have set: "setExtension e p = basePart p @ ''.'' @ e" by (simp add: setExtension_def basePart_def Let_def)
  let ?q = "basePart p @ CHR ''.'' # e"
  have i: "lastIndexOf CHR ''.'' ?q = int (length (basePart p))"
    by (rule lastIndexOf_snoc [OF assms(1)])
  have l: "lastSeparator ?q < int (length (basePart p))"
    by (rule lastSeparator_cases [of ?q]) (use assms(2) in \<open>auto simp: append_eq_append_conv2 append_eq_Cons_conv Cons_eq_append_conv SEPARATOR_def\<close>)
  show "Path_extension (setExtension e p) = e" using i l unfolding set by (simp add: Path_extension_def)
  show "basePart (setExtension e p) = basePart p" using i l unfolding set by (simp add: basePart_def [of ?q])
  show "withoutExt (setExtension e p) = basePart p" using i l unfolding set by (simp add: withoutExt_def)
qed

theorem path_parts_witness:
  "Path_extension (setExtension ''o'' ''/a.b/c.cpp'') = ''o'' \<and> basePart ''/a.b/c.cpp'' = basePart (setExtension ''o'' ''/a.b/c.cpp'')"
  using path_parts [of "''o''" "''/a.b/c.cpp''"] by (simp add: SEPARATOR_def)

section \<open>Lists of paths\<close>

text \<open>The paths that the iterator goes through; each step moves it forward in the string.\<close>

function PathIter_items :: "path_iter \<Rightarrow> path list" where
  "PathIter_items i =
     (if PathIter_ended i \<or> pi_n i < int (pi_p i) then [] else PathIter_item i # PathIter_items (PathIter_next i))"
  by pat_completeness auto
termination
proof (relation "measure (\<lambda>i. length (pi_s i) + 1 - pi_p i + (if pi_n i = int (length (pi_s i)) then 0 else 1))", goal_cases)
  case (2 i)
  then show ?case
    by (auto simp: PathIter_ended_def PathIter_next_def PathIter_look_def Let_def)
qed simp

lemma PathIter_items_Nil: "PathIter_ended i \<Longrightarrow> PathIter_items i = []"
  by (subst PathIter_items.simps) simp

text \<open>The paths of a list: the parts between the separators, without a last empty one.\<close>

definition path_list :: "string \<Rightarrow> path list" where
  "path_list s = (let ps = split_on PATH_SEPARATOR s in if last ps = [] then butlast ps else ps)"

lemma PathIter_items_from:
  "p < length s \<Longrightarrow> PathIter_items (PathIter_look \<lparr>pi_s = s, pi_p = p, pi_n = int p - 1\<rparr>) = path_list (drop p s)"
proof (induction "length s - p" arbitrary: p rule: less_induct)
  case less
  let ?c = "PATH_SEPARATOR"
  let ?w = "takeWhile (\<lambda>x. x \<noteq> ?c) (drop p s)"
  let ?k = "length ?w"
  have idx: "indexOf ?c p s = (if ?c \<in> set (drop p s) then int (p + ?k) else - 1)"
    using takeWhile_split [of ?c "drop p s"] less.prems by (auto simp: indexOf_def next_index_eq Let_def)
  have tk: "take ?k (drop p s) = ?w" by (rule takeWhile_eq_take [symmetric])
  show ?case
  proof (cases "?c \<in> set (drop p s)")
    case False
    let ?i = "\<lparr>pi_s = s, pi_p = p, pi_n = int (length s)\<rparr>"
    have l: "PathIter_look \<lparr>pi_s = s, pi_p = p, pi_n = int p - 1\<rparr> = ?i"
      using False less.prems idx by (simp add: PathIter_look_def Let_def)
    have "PathIter_items ?i = [drop p s]"
      using less.prems by (subst PathIter_items.simps) (simp add: PathIter_ended_def PathIter_item_def PathIter_next_def PathIter_items_Nil)
    then show ?thesis using False l less.prems by (simp add: path_list_def split_on_none)
  next
    case True
    then have lt: "p + ?k < length s" using takeWhile_split [of ?c "drop p s"] by auto
    let ?i = "\<lparr>pi_s = s, pi_p = p, pi_n = int (p + ?k)\<rparr>" and ?j = "\<lparr>pi_s = s, pi_p = p + ?k + 1, pi_n = int (p + ?k)\<rparr>"
    have l: "PathIter_look \<lparr>pi_s = s, pi_p = p, pi_n = int p - 1\<rparr> = ?i"
      using True less.prems idx by (simp add: PathIter_look_def Let_def)
    have "PathIter_next ?i = PathIter_look ?j" using lt by (simp add: PathIter_next_def nat_add_distrib)
    then have it: "PathIter_items ?i = ?w # PathIter_items (PathIter_look ?j)"
      using less.prems by (subst PathIter_items.simps) (simp add: PathIter_ended_def PathIter_item_def tk nat_add_distrib)
    have sp: "split_on ?c (drop p s) = ?w # split_on ?c (drop (p + ?k + 1) s)"
      using takeWhile_split [of ?c "drop p s"] True by (simp add: add.commute add.left_commute)
    have rest: "PathIter_items (PathIter_look ?j) = path_list (drop (p + ?k + 1) s)"
    proof (cases "p + ?k + 1 < length s")
      case True
      then show ?thesis using less.hyps [of "p + ?k + 1"] less.prems by simp
    next
      case False
      then show ?thesis by (simp add: PathIter_look_def PathIter_items_Nil PathIter_ended_def path_list_def)
    qed
    show ?thesis using it rest l by (simp add: path_list_def sp Let_def)
  qed
qed

text \<open>
  Splitting a list of paths: the iterator goes through the parts of the string between the
  separators, in order, and ends; a last empty part is left out.
\<close>

lemma path_split: "PathIter_items (PathIter_new s) = path_list s"
proof (cases "s = []")
  case True
  then show ?thesis by (simp add: PathIter_new_def PathIter_look_def PathIter_items_Nil PathIter_ended_def path_list_def)
next
  case False
  then show ?thesis using PathIter_items_from [of 0 s] by (simp add: PathIter_new_def)
qed

section \<open>Defects\<close>

lemma relative_loop_stuck: "relative_loop ''b'' ''.'' r = None"
proof (rule ccontr)
  assume "relative_loop ''b'' ''.'' r \<noteq> None"
  then obtain y where "relative_loop ''b'' ''.'' r = Some y" by auto
  then have "\<not> (''b'' = ''b'' \<and> ''.'' = ''.'')"
  proof (rule relative_loop.raw_induct [where P = "\<lambda>this base r y. \<not> (this = ''b'' \<and> base = ''.'')", rotated])
    fix rel :: "path \<Rightarrow> path \<Rightarrow> path \<Rightarrow> (path \<times> path) option" and this base r y
    assume ih: "\<And>this base r y. rel this base r = Some y \<Longrightarrow> \<not> (this = ''b'' \<and> base = ''.'')"
      and e: "(if base \<noteq> [] \<and> \<not> isPrefixOf base this then rel this (Path_parent base) (Path_append r BACK_PATH) else Some (base, r)) = Some y"
    have "\<not> isPrefixOf ''.'' ''b''" "Path_parent ''.'' = ''.''" by code_simp+
    note n = this
    show "\<not> (this = ''b'' \<and> base = ''.'')"
    proof
      assume "this = ''b'' \<and> base = ''.''"
      then have "rel ''b'' ''.'' (Path_append r BACK_PATH) = Some y" using e n by simp
      from ih [OF this] show False by simp
    qed
  qed
  then show False by simp
qed

text \<open>
  Where the operations on paths go wrong: the canonical form keeps a last component \<^verbatim>\<open>..\<close> or
  \<^verbatim>\<open>.\<close>, a path relative to the root gets a step back too many, and \<^verbatim>\<open>relativeTo\<close> never returns on
  two relative paths of which none is a prefix of the other.
\<close>

lemma path_defects:
  "Path_canonical home current ''/a/..'' = ''/a/..'' \<and> Path_canonical home current ''/a/.'' = ''/a/.'' \<and>
   relativeTo ''/a'' ''/'' = Some ''../a'' \<and> relativeTo ''b'' ''a'' = None"
proof (intro conjI)
  have "isAbsolute ''/a/..''" "isAbsolute ''/a/.''" by code_simp+
  then show "Path_canonical home current ''/a/..'' = ''/a/..''" "Path_canonical home current ''/a/.'' = ''/a/.''"
    by (simp_all add: canonical_text) (simp_all add: walk_def SEPARATOR_def)
  have l: "relative_loop ''/a'' ''/'' [] = Some ([], ''..'')"
  proof -
    have "\<not> isPrefixOf ''/'' ''/a''" "Path_parent ''/'' = []" "Path_append [] BACK_PATH = ''..''" by code_simp+
    then show ?thesis by (subst relative_loop.simps) (simp add: relative_loop.simps)
  qed
  have "Path_append ''..'' ''a'' = ''../a''" by code_simp
  then show "relativeTo ''/a'' ''/'' = Some ''../a''" using l by (simp add: relativeTo_def)
  have "\<not> isPrefixOf ''a'' ''b''" "Path_parent ''a'' = ''.''" by code_simp+
  then have "relative_loop ''b'' ''a'' [] = relative_loop ''b'' ''.'' (Path_append [] BACK_PATH)" by (subst relative_loop.simps) simp
  then show "relativeTo ''b'' ''a'' = None" by (simp add: relativeTo_def relative_loop_stuck)
qed

end
