(* ===== verification/Elm_Json.thy ===== *)
theory Elm_Json
  imports Io_Streams Elm_Path
begin

unbundle bit_operations_syntax

text \<open>
  JSON, \<^verbatim>\<open>src/json.cpp\<close> and \<^verbatim>\<open>src/json_Parser.cpp\<close>, with the UTF-8 and UTF-16 characters of
  \<^verbatim>\<open>src/string_utf8.cpp\<close> and \<^verbatim>\<open>src/string_utf16.cpp\<close>: the writer, a state machine with a stack, and the
  parser, that sends events to a maker. What the writer writes for an object, the parser reads back.
\<close>

section \<open>Characters\<close>

definition utf8_exception :: error where
  "utf8_exception = Exception ''utf8::Exception''"

text \<open>The number of bytes that follow the first one: the leading ones of the byte.\<close>

function utf8_length :: "8 word \<Rightarrow> nat \<Rightarrow> nat" where
  "utf8_length cc l = (if l \<le> 3 \<and> cc AND push_bit (6 - l) 1 \<noteq> 0 then utf8_length cc (l + 1) else l)"
  by pat_completeness auto
termination by (relation "measure (\<lambda>(cc, l). 4 - l)") auto

declare utf8_length.simps [simp del]

fun utf8_rest :: "nat \<Rightarrow> 32 word \<Rightarrow> string \<Rightarrow> (32 word \<times> string) res" where
  "utf8_rest 0 c p = Inr (c, p)"
| "utf8_rest (Suc k) c [] = Inl utf8_exception"
| "utf8_rest (Suc k) c (x # p) =
     (let cc = of_char x :: 8 word in
      if cc AND 0b11000000 \<noteq> 0b10000000 then Inl utf8_exception
      else utf8_rest k (push_bit 6 c OR (ucast cc AND 0b00111111)) p)"

text \<open>\<^verbatim>\<open>utf8::Iter::parse\<close>: the character, 0 at the end, and the bytes after it.\<close>

definition utf8_parse :: "string \<Rightarrow> (32 word \<times> string) res" where
  "utf8_parse p =
     (case p of
        [] \<Rightarrow> Inr (0, [])
      | ic # p \<Rightarrow>
          let cc = of_char ic :: 8 word in
          if cc AND 0b10000000 = 0 then Inr (ucast cc, p)
          else if cc AND 0b01000000 = 0 then Inl utf8_exception
          else let l = utf8_length cc 1 in
            if l = 4 then Inl utf8_exception
            else utf8_rest l (ucast cc AND (push_bit (6 - l) 1 - 1)) p)"

definition utf16_toUTF8 :: "16 word \<Rightarrow> string" where
  "utf16_toUTF8 c =
     (let byte = (\<lambda>w :: 16 word. char_of (unat w)) in
      if c \<le> 0x7F then [byte c]
      else if c \<le> 0x7FF then [byte (0b11000000 OR drop_bit 6 c), byte (0b10000000 OR (c AND 0x3f))]
      else [byte (0b11100000 OR drop_bit 12 c), byte (0b10000000 OR (drop_bit 6 c AND 0x3f)), byte (0b10000000 OR (c AND 0x3f))])"

lemma utf8_rest_length: "utf8_rest k c p = Inr (d, q) \<Longrightarrow> length q \<le> length p"
  by (induction k c p rule: utf8_rest.induct) (auto simp: Let_def split: if_splits)

lemma utf8_parse_length: "utf8_parse p = Inr (c, q) \<Longrightarrow> c \<noteq> 0 \<Longrightarrow> length q < length p"
  by (cases p) (auto simp: utf8_parse_def Let_def split: if_splits dest!: utf8_rest_length)


section \<open>The writer\<close>

datatype sstate = BEGIN | OBJECT | IN_OBJECT | FIELD | ARRAY | IN_ARRAY | END

text \<open>The stack has its top first; the output is that of a string buffer.\<close>

record saver =
  sv_state :: sstate
  sv_stack :: "sstate list"
  sv_out :: string
  sv_readable :: bool
  sv_indent :: string

definition Saver_new :: saver where
  "Saver_new = \<lparr>sv_state = BEGIN, sv_stack = [], sv_out = [], sv_readable = False, sv_indent = [char_of (9 :: nat)]\<rparr>"

definition sv_emit :: "string \<Rightarrow> (saver, unit) io" where
  "sv_emit t s = (Inr (), s\<lparr>sv_out := sv_out s @ t\<rparr>)"

definition sv_emit_format :: "int_format \<Rightarrow> (saver, unit) io" where
  "sv_emit_format f s =
     (case print_int_format f \<lparr>out_text = sv_out s, out_refuses = False\<rparr> of (r, o1) \<Rightarrow> (r, s\<lparr>sv_out := out_text o1\<rparr>))"

definition sv_assert :: "(saver \<Rightarrow> bool) \<Rightarrow> (saver, unit) io" where
  "sv_assert p s = (if p s then Inr () else Inl Assertion_failed, s)"

definition sv_set :: "sstate \<Rightarrow> (saver, unit) io" where
  "sv_set st s = (Inr (), s\<lparr>sv_state := st\<rparr>)"

definition sv_push :: "sstate \<Rightarrow> (saver, unit) io" where
  "sv_push st s = (Inr (), s\<lparr>sv_stack := st # sv_stack s\<rparr>)"

definition sv_pop :: "(saver, sstate) io" where
  "sv_pop s = (case sv_stack s of [] \<Rightarrow> (Inl Assertion_failed, s) | st # ss \<Rightarrow> (Inr st, s\<lparr>sv_stack := ss\<rparr>))"

definition Saver_next :: "sstate \<Rightarrow> sstate" where
  "Saver_next st = (if st = OBJECT then IN_OBJECT else if st = ARRAY then IN_ARRAY else st)"

definition isObject :: "sstate \<Rightarrow> bool" where
  "isObject st \<longleftrightarrow> st = OBJECT \<or> st = IN_OBJECT"

definition isArray :: "sstate \<Rightarrow> bool" where
  "isArray st \<longleftrightarrow> st = ARRAY \<or> st = IN_ARRAY"

definition nextByValue :: "(saver, unit) io" where
  "nextByValue s =
     (case sv_state s of
        BEGIN \<Rightarrow> sv_set END s
      | OBJECT \<Rightarrow> (Inl Assertion_failed, s)
      | IN_OBJECT \<Rightarrow> (Inl Assertion_failed, s)
      | FIELD \<Rightarrow> io_bind sv_pop (\<lambda>_. sv_set IN_OBJECT) s
      | ARRAY \<Rightarrow> sv_set IN_ARRAY s
      | IN_ARRAY \<Rightarrow> (Inr (), s)
      | END \<Rightarrow> (Inl Assertion_failed, s))"

definition doIndent :: "bool \<Rightarrow> (saver, unit) io" where
  "doIndent close1 s =
     io_bind (if \<not> close1 \<and> (sv_state s = IN_ARRAY \<or> sv_state s = IN_OBJECT) then sv_emit '','' else io_return ()) (\<lambda>_.
       if sv_readable s \<and> sv_state s \<noteq> FIELD
       then sv_emit (char_of (10 :: nat) # concat (replicate (length (sv_stack s)) (sv_indent s)))
       else io_return ()) s"

definition beginMap :: "(saver, unit) io" where
  "beginMap s =
     io_bind (sv_assert (\<lambda>s. sv_state s \<noteq> END)) (\<lambda>_.
     io_bind (sv_assert (\<lambda>s. \<not> isObject (sv_state s))) (\<lambda>_.
     io_bind (doIndent False) (\<lambda>_.
     io_bind (sv_emit ''{'') (\<lambda>_.
     io_bind (if isArray (sv_state s) then sv_push (sv_state s) else io_return ()) (\<lambda>_.
       sv_set OBJECT))))) s"

definition endMap :: "(saver, unit) io" where
  "endMap s =
     io_bind (sv_assert (\<lambda>s. isObject (sv_state s))) (\<lambda>_.
     io_bind (if sv_stack s = [] then sv_set END else io_bind sv_pop (\<lambda>st. sv_set (Saver_next st))) (\<lambda>_.
     io_bind (doIndent True) (\<lambda>_. sv_emit ''}''))) s"

definition beginList :: "(saver, unit) io" where
  "beginList s =
     io_bind (sv_assert (\<lambda>s. sv_state s \<noteq> END)) (\<lambda>_.
     io_bind (sv_assert (\<lambda>s. sv_state s = FIELD \<or> isArray (sv_state s))) (\<lambda>_.
     io_bind (doIndent False) (\<lambda>_.
     io_bind (sv_emit ''['') (\<lambda>_.
     io_bind (if sv_state s \<noteq> FIELD then sv_push (sv_state s) else io_return ()) (\<lambda>_.
       sv_set ARRAY))))) s"

definition endList :: "(saver, unit) io" where
  "endList =
     io_bind (sv_assert (\<lambda>s. isArray (sv_state s))) (\<lambda>_.
     io_bind sv_pop (\<lambda>st.
     io_bind (sv_set ARRAY) (\<lambda>_.
     io_bind (doIndent True) (\<lambda>_.
     io_bind (sv_emit '']'') (\<lambda>_. sv_set (Saver_next st))))))"

text \<open>A character of a string; the codes are those of C.\<close>

definition fmt_u4 :: "32 word \<Rightarrow> int_format" where
  "fmt_u4 c = IntFormat_right (IntFormat_pad CHR ''0'' (IntFormat_width 4 (IntFormat_hex (IntFormat_uint32 c))))"

definition Saver_escape :: "32 word \<Rightarrow> (saver, unit) io" where
  "Saver_escape c =
     (let bs = char_of (92 :: nat) in
      if c = 34 then sv_emit [bs, char_of (34 :: nat)]
      else if c = 92 then sv_emit [bs, bs]
      else if c = 8 then sv_emit [bs, CHR ''b'']
      else if c = 12 then sv_emit [bs, CHR ''f'']
      else if c = 10 then sv_emit [bs, CHR ''n'']
      else if c = 13 then sv_emit [bs, CHR ''r'']
      else if c = 9 then sv_emit [bs, CHR ''t'']
      else if 32 \<le> c \<and> c < 128 then sv_emit [char_of (unat c)]
      else io_bind (sv_emit [bs, CHR ''u'']) (\<lambda>_. sv_emit_format (fmt_u4 c)))"

function escape_loop :: "string \<Rightarrow> saver \<Rightarrow> unit res \<times> saver" where
  "escape_loop p s =
     (case utf8_parse p of
        Inl e \<Rightarrow> (Inl e, s)
      | Inr (c, q) \<Rightarrow> if c = 0 then (Inr (), s) else io_bind (Saver_escape c) (\<lambda>_. escape_loop q) s)"
  by pat_completeness auto
termination
  by (relation "measure (\<lambda>(p, s). length p)") (auto dest: utf8_parse_length)

declare escape_loop.simps [simp del]

definition quote :: string where
  "quote = [char_of (34 :: nat)]"

text \<open>A key; an ill-formed string fails an assertion.\<close>

definition Saver_key :: "string \<Rightarrow> (saver, unit) io" where
  "Saver_key id1 s =
     io_bind (sv_assert (\<lambda>s. isObject (sv_state s))) (\<lambda>_.
     io_bind (doIndent False) (\<lambda>_.
     io_bind (sv_emit quote) (\<lambda>_.
     io_bind (\<lambda>s. case escape_loop id1 s of
                (Inl e, s') \<Rightarrow> (Inl (if e = utf8_exception then Assertion_failed else e), s')
              | (Inr u, s') \<Rightarrow> (Inr u, s')) (\<lambda>_.
     io_bind (sv_emit quote) (\<lambda>_.
     io_bind (sv_emit (if sv_readable s then '': '' else '':'')) (\<lambda>_.
     io_bind (sv_push (sv_state s)) (\<lambda>_. sv_set FIELD))))))) s"

text \<open>The state after a value of a field or of an array.\<close>

definition after_value :: "(saver, unit) io" where
  "after_value s =
     io_bind (if sv_state s = FIELD then sv_pop else io_return (sv_state s)) (\<lambda>st. sv_set (Saver_next st)) s"

definition put_value :: "(saver, unit) io \<Rightarrow> (saver, unit) io" where
  "put_value m =
     io_bind (sv_assert (\<lambda>s. sv_state s = FIELD \<or> isArray (sv_state s))) (\<lambda>_.
     io_bind (doIndent False) (\<lambda>_.
     io_bind m (\<lambda>_. after_value)))"

definition put_null :: "(saver, unit) io" where
  "put_null = put_value (sv_emit ''null'')"

definition write_bool :: "bool \<Rightarrow> (saver, unit) io" where
  "write_bool b = put_value (if b then sv_emit ''true'' else sv_emit ''false'')"

definition write_char :: "char \<Rightarrow> (saver, unit) io" where
  "write_char c =
     put_value (io_bind (sv_emit quote) (\<lambda>_. io_bind (Saver_escape (word_of_int (char_int c))) (\<lambda>_. sv_emit quote)))"

definition write_string :: "string \<Rightarrow> (saver, unit) io" where
  "write_string t =
     put_value (io_bind (sv_emit quote) (\<lambda>_. io_bind (escape_loop t) (\<lambda>_. sv_emit quote)))"

definition write_number :: "int_format \<Rightarrow> (saver, unit) io" where
  "write_number f = io_bind (doIndent False) (\<lambda>_. io_bind nextByValue (\<lambda>_. sv_emit_format f))"

definition write_int :: "32 word \<Rightarrow> (saver, unit) io" where
  "write_int x = write_number (IntFormat_int32 x)"

definition write_uint :: "32 word \<Rightarrow> (saver, unit) io" where
  "write_uint x = write_number (IntFormat_uint32 x)"

definition write_long :: "64 word \<Rightarrow> (saver, unit) io" where
  "write_long x = write_number (IntFormat_int64 x)"

definition write_ulong :: "64 word \<Rightarrow> (saver, unit) io" where
  "write_ulong x = write_number (IntFormat_uint64 x)"


section \<open>The parser\<close>

text \<open>The tokens that \<^verbatim>\<open>next\<close> returns; the message of an exception is left out.\<close>

datatype token_t =
  LBRACE | RBRACE | LBRACK | RBRACK | NULL_TOKEN | TRUE | FALSE | INT_TOKEN | FLOAT | STRING | COMMA | COLON

definition json_exception :: error where
  "json_exception = Exception ''json::Exception''"

text \<open>The calls to the maker, and those of the class itself, that refuses all but the two ends.\<close>

datatype 'd event =
  Begin_object | End_object | Begin_array | End_array | On_field string | On_null
  | On_bool bool | On_int "32 word" | On_double 'd | On_string string

fun Maker_call :: "'d event \<Rightarrow> ('m, unit) io" where
  "Maker_call End_object m = (Inr (), m)"
| "Maker_call End_array m = (Inr (), m)"
| "Maker_call _ m = (Inl json_exception, m)"

record ('i, 'm) jstate =
  js_in :: 'i
  js_line :: int
  js_col :: int
  js_text :: string
  js_prev :: char
  js_maker :: 'm

definition Parser_new :: "'i \<Rightarrow> 'm \<Rightarrow> ('i, 'm) jstate" where
  "Parser_new i m = \<lparr>js_in = i, js_line = 0, js_col = 0, js_text = [], js_prev = nul, js_maker = m\<rparr>"

definition js_call :: "('d event \<Rightarrow> ('m, unit) io) \<Rightarrow> 'd event \<Rightarrow> (('i, 'm) jstate, unit) io" where
  "js_call mk e s = (case mk e (js_maker s) of (r, m) \<Rightarrow> (r, s\<lparr>js_maker := m\<rparr>))"

definition set_text :: "string \<Rightarrow> (('i, 'm) jstate, unit) io" where
  "set_text t s = (Inr (), s\<lparr>js_text := t\<rparr>)"

definition pushBack :: "char \<Rightarrow> (('i, 'm) jstate, unit) io" where
  "pushBack c s = (if js_prev s \<noteq> nul then (Inl Assertion_failed, s) else (Inr (), s\<lparr>js_prev := c\<rparr>))"

definition isNumber :: "char \<Rightarrow> bool" where
  "isNumber c \<longleftrightarrow> 48 \<le> (of_char c :: nat) \<and> (of_char c :: nat) \<le> 57 \<or> c = CHR ''.'' \<or> c = CHR ''e'' \<or> c = CHR ''E''"

text \<open>\<^verbatim>\<open>nextChar\<close>, on a stream that \<^verbatim>\<open>rd\<close> reads: the end of the stream is a null character.\<close>

definition nextChar :: "('i, int) io \<Rightarrow> (('i, 'm) jstate, char) io" where
  "nextChar rd s =
     (if js_prev s \<noteq> nul then (Inr (js_prev s), s\<lparr>js_prev := nul\<rparr>)
      else case rd (js_in s) of
          (Inl e, i) \<Rightarrow> (Inl e, s\<lparr>js_in := i\<rparr>)
        | (Inr c, i) \<Rightarrow>
            if c = STREAM_FAILED then (Inl json_exception, s\<lparr>js_in := i\<rparr>)
            else if c = STREAM_ENDED then (Inr nul, s\<lparr>js_in := i\<rparr>)
            else (Inr (char_of c), if c = 10 then s\<lparr>js_in := i, js_line := js_line s + 1, js_col := 0\<rparr> else s\<lparr>js_in := i\<rparr>))"

definition dec_base :: string where "dec_base = ''0123456789+-.eE''"
definition hex_base :: string where "hex_base = ''0123456789abcdefABCEDEF''"
definition bin_base :: string where "bin_base = ''01''"
definition float_chars :: string where "float_chars = ''.eE''"

text \<open>The loops read characters until one ends them; the first argument bounds their turns.\<close>

fun number_loop :: "('i, int) io \<Rightarrow> nat \<Rightarrow> string \<Rightarrow> token_t \<Rightarrow> string \<Rightarrow> char \<Rightarrow> (('i, 'm) jstate, token_t \<times> string \<times> char) io" where
  "number_loop rd 0 chars t buf c s = (Inl Out_of_fuel, s)"
| "number_loop rd (Suc n) chars t buf c s =
     (if 0 \<le> index_of c chars
      then io_bind (nextChar rd) (number_loop rd n chars (if 0 \<le> index_of c float_chars then FLOAT else t) (buf @ [c])) (s\<lparr>js_col := js_col s + 1\<rparr>)
      else (Inr (t, buf, c), s))"

definition parseNumber :: "('i, int) io \<Rightarrow> nat \<Rightarrow> char \<Rightarrow> int \<Rightarrow> (('i, 'm) jstate, token_t) io" where
  "parseNumber rd n c base =
     (let (chars, buf) =
        (if base = 10 then (dec_base, [])
         else if base = 2 then (bin_base, ''0b'')
         else (hex_base, ''0x'')) in
      io_bind (number_loop rd n chars INT_TOKEN buf c) (\<lambda>(t, buf, c).
      io_bind (pushBack c) (\<lambda>_.
      io_bind (set_text buf) (\<lambda>_. io_return t))))"

definition asHex :: "char \<Rightarrow> int" where
  "asHex ch =
     (let c = char_int ch in
      if 48 \<le> c \<and> c \<le> 57 then c - 48
      else if 97 \<le> c \<and> c \<le> 102 then c - 97 + 10
      else if 65 \<le> c \<and> c \<le> 70 then c - 65 + 10
      else - 1)"

text \<open>The four digits of a character; its UTF-8 form is added after each of them.\<close>

fun hex_loop :: "('i, int) io \<Rightarrow> nat \<Rightarrow> 16 word \<Rightarrow> string \<Rightarrow> (('i, 'm) jstate, string) io" where
  "hex_loop rd 0 wc buf = io_return buf"
| "hex_loop rd (Suc k) wc buf =
     io_bind (nextChar rd) (\<lambda>c.
       let d = asHex c; wc = push_bit 4 wc OR word_of_int d in
       if d < 0 then io_fail json_exception else hex_loop rd k wc (buf @ utf16_toUTF8 wc))"

definition escapes :: string where
  "escapes = [char_of (34 :: nat), char_of (39 :: nat), char_of (92 :: nat)] @ ''/bfnrt''"

text \<open>An escaped character is sent to a temporary copy of \<^verbatim>\<open>text\<close>: nothing of it remains.\<close>

definition parse_escape :: "('i, int) io \<Rightarrow> string \<Rightarrow> (('i, 'm) jstate, string) io" where
  "parse_escape rd buf =
     io_bind (nextChar rd) (\<lambda>c.
       if 0 \<le> index_of c escapes then io_return buf
       else if c \<noteq> CHR ''u'' then io_fail json_exception
       else hex_loop rd 4 0 buf)"

fun string_loop :: "('i, int) io \<Rightarrow> nat \<Rightarrow> char \<Rightarrow> string \<Rightarrow> char \<Rightarrow> (('i, 'm) jstate, string) io" where
  "string_loop rd 0 q buf c = io_fail Out_of_fuel"
| "string_loop rd (Suc n) q buf c =
     (if c = q then io_return buf
      else io_bind (if c \<noteq> char_of (92 :: nat) then io_return (buf @ [c]) else parse_escape rd buf) (\<lambda>buf.
           io_bind (nextChar rd) (string_loop rd n q buf)))"

definition parseString :: "('i, int) io \<Rightarrow> nat \<Rightarrow> char \<Rightarrow> (('i, 'm) jstate, unit) io" where
  "parseString rd n q = io_bind (nextChar rd) (\<lambda>c. io_bind (string_loop rd n q [] c) set_text)"

fun parseLitt :: "('i, int) io \<Rightarrow> string \<Rightarrow> (('i, 'm) jstate, unit) io" where
  "parseLitt rd [] = io_return ()"
| "parseLitt rd (l # ls) = io_bind (nextChar rd) (\<lambda>c. if c \<noteq> l then io_fail json_exception else parseLitt rd ls)"

fun line_comment :: "('i, int) io \<Rightarrow> nat \<Rightarrow> char \<Rightarrow> (('i, 'm) jstate, unit) io" where
  "line_comment rd 0 c = io_fail Out_of_fuel"
| "line_comment rd (Suc n) c = (if c \<noteq> char_of (10 :: nat) then io_bind (nextChar rd) (line_comment rd n) else io_return ())"

fun block_comment :: "('i, int) io \<Rightarrow> nat \<Rightarrow> (('i, 'm) jstate, unit) io" where
  "block_comment rd 0 = io_fail Out_of_fuel"
| "block_comment rd (Suc n) =
     io_bind (nextChar rd) (\<lambda>c.
       if c \<noteq> CHR ''*'' then block_comment rd n
       else io_bind (nextChar rd) (\<lambda>c. if c = CHR ''/'' then io_return () else block_comment rd n))"

definition parseComment :: "('i, int) io \<Rightarrow> nat \<Rightarrow> (('i, 'm) jstate, unit) io" where
  "parseComment rd n =
     io_bind (nextChar rd) (\<lambda>c.
       if c = CHR ''/'' then line_comment rd n c
       else if c = CHR ''*'' then block_comment rd n
       else io_fail json_exception)"

definition parseBasedNumber :: "('i, int) io \<Rightarrow> nat \<Rightarrow> (('i, 'm) jstate, token_t) io" where
  "parseBasedNumber rd n =
     io_bind (nextChar rd) (\<lambda>c.
       if c = CHR ''x'' \<or> c = CHR ''X'' then io_bind (nextChar rd) (\<lambda>c. parseNumber rd n c 16)
       else if c = CHR ''b'' \<or> c = CHR ''B'' then io_bind (nextChar rd) (\<lambda>c. parseNumber rd n c 2)
       else if isNumber c then parseNumber rd n c 10
       else io_bind (pushBack c) (\<lambda>_. io_bind (set_text ''0'') (\<lambda>_. io_return INT_TOKEN)))"

definition blank :: "char \<Rightarrow> bool" where
  "blank c \<longleftrightarrow> c = char_of (10 :: nat) \<or> c = char_of (9 :: nat) \<or> c = char_of (13 :: nat) \<or> c = CHR '' ''"

text \<open>\<^verbatim>\<open>next\<close>: its switch, where blanks and comments go to the next turn of the loop.\<close>

definition token_switch :: "('i, int) io \<Rightarrow> nat \<Rightarrow> (('i, 'm) jstate, token_t) io \<Rightarrow> char \<Rightarrow> (('i, 'm) jstate, token_t) io" where
  "token_switch rd n again c =
      (if c = CHR ''{'' then io_return LBRACE
       else if c = CHR ''}'' then io_return RBRACE
       else if c = CHR ''['' then io_return LBRACK
       else if c = CHR '']'' then io_return RBRACK
       else if c = char_of (39 :: nat) \<or> c = char_of (34 :: nat) then io_bind (parseString rd n c) (\<lambda>_. io_return STRING)
       else if c = CHR '':'' then io_return COLON
       else if c = CHR '','' then io_return COMMA
       else if blank c then again
       else if c = CHR ''+'' \<or> c = CHR ''-'' then parseNumber rd n c 10
       else if c = CHR ''n'' then io_bind (parseLitt rd ''ull'') (\<lambda>_. io_return NULL_TOKEN)
       else if c = CHR ''t'' then io_bind (parseLitt rd ''rue'') (\<lambda>_. io_return TRUE)
       else if c = CHR ''f'' then io_bind (parseLitt rd ''alse'') (\<lambda>_. io_return FALSE)
       else if c = CHR ''/'' then io_bind (parseComment rd n) (\<lambda>_. again)
       else if c = CHR ''0'' then parseBasedNumber rd n
       else if isNumber c then parseNumber rd n c 10
       else io_fail json_exception)"

fun next_token :: "('i, int) io \<Rightarrow> nat \<Rightarrow> (('i, 'm) jstate, token_t) io" where
  "next_token rd 0 = io_fail Out_of_fuel"
| "next_token rd (Suc n) = io_bind (nextChar rd) (token_switch rd n (next_token rd n))"

text \<open>The number of a text, by \<^verbatim>\<open>operator>>\<close>; floating-point operations are those of \<^verbatim>\<open>F\<close>.\<close>

definition text_int :: "string \<Rightarrow> 32 word res" where
  "text_int t = fst (scanLong 0 (Input_new t False))"

definition text_double :: "'d fops \<Rightarrow> string \<Rightarrow> 'd res" where
  "text_double F t = fst (scanDouble F (Input_new t False))"

fun parseValue :: "'d fops \<Rightarrow> ('i, int) io \<Rightarrow> ('d event \<Rightarrow> ('m, unit) io) \<Rightarrow> nat \<Rightarrow> token_t \<Rightarrow> ('i, 'm) jstate \<Rightarrow> unit res \<times> ('i, 'm) jstate"
  and array_loop :: "'d fops \<Rightarrow> ('i, int) io \<Rightarrow> ('d event \<Rightarrow> ('m, unit) io) \<Rightarrow> nat \<Rightarrow> token_t \<Rightarrow> ('i, 'm) jstate \<Rightarrow> unit res \<times> ('i, 'm) jstate"
  and object_loop :: "'d fops \<Rightarrow> ('i, int) io \<Rightarrow> ('d event \<Rightarrow> ('m, unit) io) \<Rightarrow> nat \<Rightarrow> token_t \<Rightarrow> ('i, 'm) jstate \<Rightarrow> unit res \<times> ('i, 'm) jstate" where
  "parseValue F rd mk 0 t s = (Inl Out_of_fuel, s)"
| "parseValue F rd mk (Suc n) t s =
     (if t = LBRACE then io_bind (js_call mk Begin_object) (\<lambda>_. io_bind (next_token rd n) (object_loop F rd mk n)) s
      else if t = LBRACK then io_bind (js_call mk Begin_array) (\<lambda>_. io_bind (next_token rd n) (array_loop F rd mk n)) s
      else if t = NULL_TOKEN then js_call mk On_null s
      else if t = TRUE then js_call mk (On_bool True) s
      else if t = FALSE then js_call mk (On_bool False) s
      else if t = INT_TOKEN then io_bind (io_lift (text_int (js_text s))) (\<lambda>i. js_call mk (On_int i)) s
      else if t = FLOAT then io_bind (io_lift (text_double F (js_text s))) (\<lambda>d. js_call mk (On_double d)) s
      else if t = STRING then js_call mk (On_string (js_text s)) s
      else (Inl json_exception, s))"
| "array_loop F rd mk 0 t s = (Inl Out_of_fuel, s)"
| "array_loop F rd mk (Suc n) t s =
     (if t = RBRACK then (Inr (), s)
      else io_bind (parseValue F rd mk n t) (\<lambda>_.
           io_bind (next_token rd n) (\<lambda>t.
           io_bind (if t = COMMA then next_token rd n else if t \<noteq> RBRACK then io_fail json_exception else io_return t)
             (array_loop F rd mk n))) s)"
| "object_loop F rd mk 0 t s = (Inl Out_of_fuel, s)"
| "object_loop F rd mk (Suc n) t s =
     (if t = RBRACE then (Inr (), s)
      else if t \<noteq> STRING then (Inl json_exception, s)
      else io_bind (js_call mk (On_field (js_text s))) (\<lambda>_.
           io_bind (next_token rd n) (\<lambda>t.
           if t \<noteq> COLON then io_fail json_exception
           else io_bind (next_token rd n) (\<lambda>t.
                io_bind (parseValue F rd mk n t) (\<lambda>_.
                io_bind (next_token rd n) (\<lambda>t.
                io_bind (if t = COMMA then next_token rd n else if t \<noteq> RBRACE then io_fail json_exception else io_return t)
                  (object_loop F rd mk n)))))) s)"

definition doParsing :: "'d fops \<Rightarrow> ('i, int) io \<Rightarrow> ('d event \<Rightarrow> ('m, unit) io) \<Rightarrow> nat \<Rightarrow> (('i, 'm) jstate, unit) io" where
  "doParsing F rd mk n s =
     io_bind (next_token rd n) (parseValue F rd mk n) (s\<lparr>js_line := 1, js_col := 0, js_prev := nul\<rparr>)"

text \<open>\<^verbatim>\<open>parse\<close> of a string, and of a stream through a buffer of 4096 characters.\<close>

definition parse_string :: "'d fops \<Rightarrow> ('d event \<Rightarrow> ('m, unit) io) \<Rightarrow> nat \<Rightarrow> string \<Rightarrow> 'm \<Rightarrow> unit res \<times> 'm" where
  "parse_string F mk n t m =
     (case doParsing F BlockInStream_read_char mk n (Parser_new (BlockInStream_new t) m) of (r, s) \<Rightarrow> (r, js_maker s))"

definition parse_stream :: "'d fops \<Rightarrow> char \<Rightarrow> (nat \<Rightarrow> ('i, int \<times> string) io) \<Rightarrow> ('d event \<Rightarrow> ('m, unit) io) \<Rightarrow> nat \<Rightarrow> 'i \<Rightarrow> 'm \<Rightarrow> unit res \<times> 'm" where
  "parse_stream F junk r mk n i m =
     (case BufferedInStream_new junk i 4096 of
        Inl e \<Rightarrow> (Inl e, m)
      | Inr b \<Rightarrow>
          (case doParsing F (BufferedInStream_read_char r) mk n (Parser_new b m) of
             (Inl e, s) \<Rightarrow> (Inl (if e = io_exception then json_exception else e), js_maker s)
           | (Inr u, s) \<Rightarrow> (Inr u, js_maker s)))"



section \<open>Values and their text\<close>

datatype jvalue =
  JNull | JBool bool | JInt "32 word" | JString string | JList "jvalue list" | JObject "(string \<times> jvalue) list"

text \<open>The calls that write a value.\<close>

function save_value :: "jvalue \<Rightarrow> (saver, unit) io"
  and save_items :: "jvalue list \<Rightarrow> (saver, unit) io"
  and save_fields :: "(string \<times> jvalue) list \<Rightarrow> (saver, unit) io" where
  "save_value JNull = put_null"
| "save_value (JBool b) = write_bool b"
| "save_value (JInt w) = write_int w"
| "save_value (JString t) = write_string t"
| "save_value (JList vs) = io_bind beginList (\<lambda>_. io_bind (save_items vs) (\<lambda>_. endList))"
| "save_value (JObject fs) = io_bind beginMap (\<lambda>_. io_bind (save_fields fs) (\<lambda>_. endMap))"
| "save_items [] = io_return ()"
| "save_items (v # vs) = io_bind (save_value v) (\<lambda>_. save_items vs)"
| "save_fields [] = io_return ()"
| "save_fields ((k, v) # fs) = io_bind (Saver_key k) (\<lambda>_. io_bind (save_value v) (\<lambda>_. save_fields fs))"
  by pat_completeness auto
termination
  by (relation "measure (\<lambda>x. case x of Inl v \<Rightarrow> size v | Inr (Inl vs) \<Rightarrow> size_list size vs
      | Inr (Inr fs) \<Rightarrow> size_list (size_prod (\<lambda>_. 0) size) fs)") auto

text \<open>
  The text of a value; \<^verbatim>\<open>r\<close> and \<^verbatim>\<open>ind\<close> are the readable mode and the indentation of the writer, \<^verbatim>\<open>e\<close> the
  depth, and \<^verbatim>\<open>c\<close> tells that a comma separates the element from the previous one.
\<close>

definition newline :: "bool \<Rightarrow> string \<Rightarrow> nat \<Rightarrow> string" where
  "newline r ind e = (if r then char_of (10 :: nat) # concat (replicate e ind) else [])"

definition int_text :: "32 word \<Rightarrow> string" where
  "int_text w = sign_text (sint w < 0) (nat \<bar>sint w\<bar>)"

definition comma :: "bool \<Rightarrow> string" where
  "comma c = (if c then '','' else [])"

definition colon :: "bool \<Rightarrow> string" where
  "colon r = (if r then '': '' else '':'')"

function json_text :: "bool \<Rightarrow> string \<Rightarrow> nat \<Rightarrow> jvalue \<Rightarrow> string"
  and items_text :: "bool \<Rightarrow> string \<Rightarrow> nat \<Rightarrow> bool \<Rightarrow> jvalue list \<Rightarrow> string"
  and fields_text :: "bool \<Rightarrow> string \<Rightarrow> nat \<Rightarrow> bool \<Rightarrow> (string \<times> jvalue) list \<Rightarrow> string" where
  "json_text r ind e JNull = ''null''"
| "json_text r ind e (JBool b) = (if b then ''true'' else ''false'')"
| "json_text r ind e (JInt w) = int_text w"
| "json_text r ind e (JString t) = quote @ t @ quote"
| "json_text r ind e (JList vs) = ''['' @ items_text r ind (Suc e) False vs @ newline r ind e @ '']''"
| "json_text r ind e (JObject fs) = ''{'' @ fields_text r ind (Suc e) False fs @ newline r ind e @ ''}''"
| "items_text r ind e c [] = []"
| "items_text r ind e c (v # vs) = comma c @ newline r ind e @ json_text r ind e v @ items_text r ind e True vs"
| "fields_text r ind e c [] = []"
| "fields_text r ind e c ((k, v) # fs) =
     comma c @ newline r ind e @ quote @ k @ quote @ colon r @ json_text r ind e v @ fields_text r ind e True fs"
  by pat_completeness auto
termination
  by (relation "measure (\<lambda>x. case x of Inl (r, ind, e, v) \<Rightarrow> size v | Inr (Inl (r, ind, e, c, vs)) \<Rightarrow> size_list size vs
      | Inr (Inr (r, ind, e, c, fs)) \<Rightarrow> size_list (size_prod (\<lambda>_. 0) size) fs)") auto

definition document_text :: "bool \<Rightarrow> string \<Rightarrow> (string \<times> jvalue) list \<Rightarrow> string" where
  "document_text r ind fs = newline r ind 0 @ ''{'' @ fields_text r ind 0 False fs @ newline r ind 0 @ ''}''"

text \<open>The calls to the maker for a value: a container has a beginning and no end.\<close>

fun events :: "jvalue \<Rightarrow> 'd event list" where
  "events JNull = [On_null]"
| "events (JBool b) = [On_bool b]"
| "events (JInt w) = [On_int w]"
| "events (JString t) = [On_string t]"
| "events (JList vs) = Begin_array # concat (map events vs)"
| "events (JObject fs) = Begin_object # concat (map (\<lambda>f. On_field (fst f) # events (snd f)) fs)"

definition plain_char :: "char \<Rightarrow> bool" where
  "plain_char c \<longleftrightarrow> 32 \<le> (of_char c :: nat) \<and> (of_char c :: nat) < 128 \<and> (of_char c :: nat) \<noteq> 34 \<and> (of_char c :: nat) \<noteq> 92"

definition plain :: "string \<Rightarrow> bool" where
  "plain t \<longleftrightarrow> list_all plain_char t"

text \<open>Values that the parser reads back: plain strings, and not the lowest integer.\<close>

fun plain_value :: "jvalue \<Rightarrow> bool" where
  "plain_value (JInt w) = (w \<noteq> 2 ^ 31)"
| "plain_value (JString t) = plain t"
| "plain_value (JList vs) = list_all plain_value vs"
| "plain_value (JObject fs) = list_all (\<lambda>f. plain (fst f) \<and> plain_value (snd f)) fs"
| "plain_value _ = True"


section \<open>What the writer writes\<close>

definition sv_valid :: "saver \<Rightarrow> bool" where
  "sv_valid s \<longleftrightarrow> isArray (sv_state s) \<or> sv_state s = FIELD \<and> (\<exists>st ss. sv_stack s = st # ss \<and> isObject st)"

definition value_stack :: "saver \<Rightarrow> sstate list" where
  "value_stack s = (if sv_state s = FIELD then tl (sv_stack s) else sv_stack s)"

text \<open>The state after a value of text \<^verbatim>\<open>t\<close>, and what is written in front of it.\<close>

definition lead_text :: "saver \<Rightarrow> string" where
  "lead_text s =
     (if sv_state s = FIELD then []
      else comma (sv_state s \<in> {IN_ARRAY, IN_OBJECT}) @ newline (sv_readable s) (sv_indent s) (length (sv_stack s)))"

definition after_text :: "string \<Rightarrow> saver \<Rightarrow> saver" where
  "after_text t s = s\<lparr>sv_state := (if sv_state s = FIELD then IN_OBJECT else IN_ARRAY), sv_stack := value_stack s, sv_out := sv_out s @ lead_text s @ t\<rparr>"

lemma doIndent_lead: "doIndent False s = (Inr (), s\<lparr>sv_out := sv_out s @ lead_text s\<rparr>)"
  by (cases "sv_state s") (auto simp: doIndent_def lead_text_def comma_def newline_def io_bind_def sv_emit_def)

lemma doIndent_close:
  "sv_state s \<noteq> FIELD \<Longrightarrow> doIndent True s = (Inr (), s\<lparr>sv_out := sv_out s @ newline (sv_readable s) (sv_indent s) (length (sv_stack s))\<rparr>)"
  by (auto simp: doIndent_def newline_def io_bind_def sv_emit_def)

lemma put_value_ok:
  assumes "sv_valid s" "\<And>u. m u = (Inr (), u\<lparr>sv_out := sv_out u @ t\<rparr>)"
  shows "put_value m s = (Inr (), after_text t s)"
  using assms(1)
  by (auto simp: put_value_def sv_assert_def io_bind_def doIndent_lead assms(2) after_value_def after_text_def sv_valid_def isArray_def
      isObject_def value_stack_def sv_pop_def sv_set_def Saver_next_def)

lemma word_of_small:
  assumes "n < 128"
  shows "(word_of_nat n :: 8 word) AND 128 = 0"
proof -
  have "bit (word_of_nat n :: 8 word) 7 \<longleftrightarrow> bit (unat (word_of_nat n :: 8 word)) 7" by (simp add: bit_unsigned_iff)
  also have "\<dots> \<longleftrightarrow> False" using assms by (simp add: unat_of_nat take_bit_nat_eq_self bit_iff_odd)
  finally show ?thesis using and_exp_eq_0_iff_not_bit [of "word_of_nat n :: 8 word" 7] by simp
qed

lemma unat_small: "n < 128 \<Longrightarrow> unat (word_of_nat n :: 32 word) = n"
  by (simp add: unat_of_nat take_bit_nat_eq_self)

lemma utf8_parse_ascii:
  assumes "(of_char c :: nat) < 128"
  shows "utf8_parse (c # t) = Inr (word_of_nat (of_char c), t)"
proof -
  have w: "(of_char c :: 8 word) = word_of_nat (of_char c)" by (cases c) simp
  have "(ucast (word_of_nat (of_char c) :: 8 word) :: 32 word) = word_of_nat (of_char c)"
    using assms by (simp add: word_unat_eq_iff unsigned_ucast_eq unat_of_nat take_bit_nat_eq_self)
  then show ?thesis using word_of_small [OF assms] by (simp add: utf8_parse_def w)
qed

lemma Saver_escape_plain:
  assumes "plain_char c"
  shows "Saver_escape (word_of_nat (of_char c)) s = (Inr (), s\<lparr>sv_out := sv_out s @ [c]\<rparr>)"
proof -
  let ?w = "word_of_nat (of_char c) :: 32 word"
  have c: "unat ?w = of_char c" using assms by (intro unat_small) (simp add: plain_char_def)
  have "?w \<noteq> k" if "unat k \<noteq> of_char c" for k using that c by metis
  then have "?w \<noteq> 34" "?w \<noteq> 92" "?w \<noteq> 8" "?w \<noteq> 12" "?w \<noteq> 10" "?w \<noteq> 13" "?w \<noteq> 9"
    using assms by (auto simp: plain_char_def)
  moreover have "32 \<le> ?w" "?w < 128" using assms c by (simp_all add: word_le_nat_alt word_less_nat_alt plain_char_def)
  ultimately show ?thesis by (simp add: Saver_escape_def sv_emit_def c)
qed

lemma plain_escape: "plain t \<Longrightarrow> escape_loop t s = (Inr (), s\<lparr>sv_out := sv_out s @ t\<rparr>)"
proof (induction t arbitrary: s)
  case Nil
  show ?case by (simp add: escape_loop.simps utf8_parse_def)
next
  case (Cons c t)
  then have c: "plain_char c" "plain t" by (simp_all add: plain_def)
  have n: "(of_char c :: nat) < 128" "0 < (of_char c :: nat)" using c(1) by (auto simp: plain_char_def)
  have "(word_of_nat (of_char c) :: 32 word) \<noteq> 0" using n unat_small [of "of_char c"] by (metis less_not_refl unat_0)
  then show ?case using c(2)
    by (subst escape_loop.simps) (simp add: utf8_parse_ascii [OF n(1)] Saver_escape_plain [OF c(1)] Cons.IH io_bind_def)
qed

lemma write_int_text:
  "sv_emit_format (IntFormat_int32 w) s = (Inr (), s\<lparr>sv_out := sv_out s @ int_text w\<rparr>)"
proof -
  let ?f = "IntFormat_int32 w"
  have s: "sint (scast w :: 64 word) = sint w" by (rule sint_up_scast) (simp add: is_up)
  have f: "fmt_base ?f = 10" "fmt_width ?f = 0" "fmt_align ?f = LEFT" "fmt_sign ?f" "\<not> fmt_displaySign ?f" "\<not> fmt_upper ?f" "fmt_val ?f = scast w"
    by (simp_all add: IntFormat_int32_def IntFormat_init_def)
  have v: "unat (int_format_value ?f) = nat \<bar>sint w\<bar>"
    using unat_neg_sint(1) [of "scast w :: 64 word"] unat_pos_sint(1) [of "scast w :: 64 word"] by (simp add: int_format_value_def f s Let_def)
  have t: "format_text ?f = int_text w"
    by (simp add: format_text_def format_sign_def f s v int_text_def sign_text_def)
  have "nat \<bar>sint w\<bar> \<le> 2 ^ 31" using sint_greater_eq [of w] sint_less [of w] by (simp add: nat_le_iff)
  then have "length (number_text 10 CHR ''a'' (nat \<bar>sint w\<bar>)) \<le> 10" by (intro length_number_text) simp_all
  then have l: "length (int_text w) \<le> 32" by (cases "sint w < 0") (simp_all add: int_text_def sign_text_def)
  show ?thesis
    by (simp add: sv_emit_format_def print_int_format_def int_format_text_ok f t l io_lift_def io_bind_def pads_def unchecked_write_def
        strm_write_def)
qed

text \<open>The state inside a list or an object, and after it.\<close>

definition inside :: "sstate \<Rightarrow> string \<Rightarrow> saver \<Rightarrow> saver" where
  "inside st t s =
     s\<lparr>sv_state := st, sv_stack := (if sv_state s = FIELD then sv_stack s else sv_state s # sv_stack s), sv_out := sv_out s @ lead_text s @ t\<rparr>"

lemma length_inside: "sv_valid s \<Longrightarrow> length (sv_stack (inside st t s)) = Suc (length (value_stack s))"
  by (auto simp: inside_def value_stack_def sv_valid_def isArray_def)

lemma begin_ok:
  assumes "sv_valid s"
  shows "beginList s = (Inr (), inside ARRAY ''['' s)" "beginMap s = (Inr (), inside OBJECT ''{'' s)"
  using assms
  by (auto simp: beginList_def beginMap_def sv_assert_def io_bind_def doIndent_lead sv_emit_def sv_valid_def isArray_def isObject_def
      sv_push_def sv_set_def inside_def)

lemma close_ok:
  assumes "sv_valid s"
  shows "isArray st \<Longrightarrow> endList (inside st t s) = (Inr (), after_text (t @ newline (sv_readable s) (sv_indent s) (length (value_stack s)) @ '']'') s)"
    and "isObject st \<Longrightarrow> endMap (inside st t s) = (Inr (), after_text (t @ newline (sv_readable s) (sv_indent s) (length (value_stack s)) @ ''}'') s)"
  using assms
  by (auto simp: endList_def endMap_def sv_assert_def io_bind_def doIndent_close sv_emit_def sv_valid_def isArray_def isObject_def
      sv_pop_def sv_set_def inside_def after_text_def value_stack_def Saver_next_def)

lemma lead_field: "sv_state s = FIELD \<Longrightarrow> lead_text s = []"
  by (simp add: lead_text_def)

lemma Saver_key_ok:
  assumes "isObject (sv_state s)" "plain k"
  shows "Saver_key k s = (Inr (), s\<lparr>sv_state := FIELD, sv_stack := sv_state s # sv_stack s,
    sv_out := sv_out s @ lead_text s @ quote @ k @ quote @ colon (sv_readable s)\<rparr>)"
  using assms by (simp add: Saver_key_def sv_assert_def io_bind_def doIndent_lead sv_emit_def plain_escape sv_push_def sv_set_def colon_def)

lemma write_int_ok:
  "sv_valid s \<Longrightarrow> write_int w s = (Inr (), after_text (int_text w) s)"
  by (auto simp: write_int_def write_number_def io_bind_def doIndent_lead nextByValue_def sv_valid_def isArray_def isObject_def sv_pop_def sv_set_def
      write_int_text after_text_def value_stack_def)

lemma save_ok:
  shows "sv_valid s \<Longrightarrow> plain_value v \<Longrightarrow>
      save_value v s = (Inr (), after_text (json_text (sv_readable s) (sv_indent s) (length (value_stack s)) v) s)"
    and "isArray (sv_state s) \<Longrightarrow> list_all plain_value vs \<Longrightarrow>
      save_items vs s = (Inr (), s\<lparr>sv_state := (if vs = [] then sv_state s else IN_ARRAY),
        sv_out := sv_out s @ items_text (sv_readable s) (sv_indent s) (length (sv_stack s)) (sv_state s = IN_ARRAY) vs\<rparr>)"
    and "isObject (sv_state s) \<Longrightarrow> list_all (\<lambda>f. plain (fst f) \<and> plain_value (snd f)) fs \<Longrightarrow>
      save_fields fs s = (Inr (), s\<lparr>sv_state := (if fs = [] then sv_state s else IN_OBJECT),
        sv_out := sv_out s @ fields_text (sv_readable s) (sv_indent s) (length (sv_stack s)) (sv_state s = IN_OBJECT) fs\<rparr>)"
proof (induction v and vs and fs arbitrary: s and s and s rule: save_value_save_items_save_fields.induct)
  case 1
  then show ?case by (simp add: put_null_def put_value_ok sv_emit_def)
next
  case (2 b)
  then show ?case by (simp add: write_bool_def put_value_ok sv_emit_def)
next
  case (3 w)
  then show ?case by (simp add: write_int_ok)
next
  case (4 t)
  then show ?case
    by (simp add: write_string_def, intro put_value_ok) (simp_all add: io_bind_def sv_emit_def plain_escape)
next
  case (5 vs)
  let ?e = "length (value_stack s)"
  let ?t = "items_text (sv_readable s) (sv_indent s) (Suc ?e) False vs"
  let ?st = "if vs = [] then ARRAY else IN_ARRAY"
  have v: "sv_valid s" "list_all plain_value vs" using "5.prems" by simp_all
  have "save_items vs (inside ARRAY ''['' s) = (Inr (), inside ?st (''['' @ ?t) s)"
    using "5.IH" [OF _ v(2), of "inside ARRAY ''['' s"] length_inside [OF v(1)] by (simp add: inside_def isArray_def isObject_def)
  moreover have "isArray ?st" by (simp add: isArray_def isObject_def)
  ultimately show ?case using close_ok [OF v(1), of ?st "''['' @ ?t"] by (simp add: io_bind_def begin_ok [OF v(1)])
next
  case (6 fs)
  let ?e = "length (value_stack s)"
  let ?t = "fields_text (sv_readable s) (sv_indent s) (Suc ?e) False fs"
  let ?st = "if fs = [] then OBJECT else IN_OBJECT"
  have v: "sv_valid s" "list_all (\<lambda>f. plain (fst f) \<and> plain_value (snd f)) fs" using "6.prems" by simp_all
  have "save_fields fs (inside OBJECT ''{'' s) = (Inr (), inside ?st (''{'' @ ?t) s)"
    using "6.IH" [OF _ v(2), of "inside OBJECT ''{'' s"] length_inside [OF v(1)] by (simp add: inside_def isArray_def isObject_def)
  moreover have "isObject ?st" by (simp add: isArray_def isObject_def)
  ultimately show ?case using close_ok [OF v(1), of ?st "''{'' @ ?t"] by (simp add: io_bind_def begin_ok [OF v(1)])
next
  case 7
  then show ?case by simp
next
  case (8 v vs)
  have a: "sv_state s \<noteq> FIELD" "sv_valid s" using 8(3) by (auto simp: isArray_def sv_valid_def)
  have f: "sv_state s \<noteq> IN_OBJECT" using 8(3) by (auto simp: isArray_def)
  show ?case using 8(1) [OF a(2)] 8(2) [of "after_text (json_text (sv_readable s) (sv_indent s) (length (value_stack s)) v) s"] 8(4) a(1) f
    by (auto simp: io_bind_def after_text_def value_stack_def lead_text_def isArray_def)
next
  case 9
  then show ?case by simp
next
  case (10 k v fs)
  have f: "lead_text s = comma (sv_state s = IN_OBJECT) @ newline (sv_readable s) (sv_indent s) (length (sv_stack s))"
    using 10(3) by (auto simp: lead_text_def isObject_def)
  have k: "plain k" "plain_value v" "list_all (\<lambda>f. plain (fst f) \<and> plain_value (snd f)) fs" using 10(4) by simp_all
  let ?s = "s\<lparr>sv_state := FIELD, sv_stack := sv_state s # sv_stack s,
    sv_out := sv_out s @ lead_text s @ quote @ k @ quote @ colon (sv_readable s)\<rparr>"
  have v: "sv_valid ?s" using 10(3) by (simp add: sv_valid_def)
  show ?case
    using Saver_key_ok [OF 10(3) k(1)] 10(1) [OF v k(2)] 10(2) [OF _ k(3), of "after_text (json_text (sv_readable s) (sv_indent s) (length (sv_stack s)) v) ?s"]
    by (simp add: io_bind_def value_stack_def after_text_def lead_field f isObject_def)
qed

lemma save_document:
  assumes "list_all (\<lambda>f. plain (fst f) \<and> plain_value (snd f)) fs"
  shows "save_value (JObject fs) (Saver_new\<lparr>sv_readable := r, sv_indent := ind\<rparr>) =
    (Inr (), Saver_new\<lparr>sv_state := END, sv_out := document_text r ind fs, sv_readable := r, sv_indent := ind\<rparr>)"
proof -
  let ?s = "\<lparr>sv_state = OBJECT, sv_stack = [], sv_out = newline r ind 0 @ ''{'', sv_readable = r, sv_indent = ind\<rparr>"
  have "beginMap (Saver_new\<lparr>sv_readable := r, sv_indent := ind\<rparr>) = (Inr (), ?s)"
    by (simp add: beginMap_def sv_assert_def io_bind_def doIndent_lead lead_text_def comma_def sv_emit_def isObject_def isArray_def sv_set_def
        Saver_new_def)
  moreover have "isObject (sv_state ?s)" by (simp add: isObject_def)
  ultimately show ?thesis using save_ok(3) [of ?s fs, OF _ assms]
    by (auto simp: io_bind_def endMap_def sv_assert_def isObject_def sv_set_def doIndent_close sv_emit_def document_text_def Saver_new_def)
qed


section \<open>What the parser reads\<close>

text \<open>A source of characters: each read gives the next character of the text left, or its end.\<close>

locale char_source =
  fixes rd :: "('i, int) io" and sinv :: "'i \<Rightarrow> bool" and left_text :: "'i \<Rightarrow> string"
  assumes read_char: "sinv i \<Longrightarrow> \<exists>j. rd i = (Inr (chr_at (left_text i)), j) \<and> sinv j \<and> left_text j = tl (left_text i)"
begin

text \<open>
  The parser stands in front of the characters \<^verbatim>\<open>xs\<close>, with its text and its maker; \<^verbatim>\<open>b\<close> tells that no
  character is pushed back.
\<close>

definition stands :: "bool \<Rightarrow> string \<Rightarrow> string \<Rightarrow> 'm \<Rightarrow> ('i, 'm) jstate \<Rightarrow> bool" where
  "stands b xs tx m s \<longleftrightarrow> sinv (js_in s) \<and> xs = (if js_prev s = nul then [] else [js_prev s]) @ left_text (js_in s) \<and>
     js_text s = tx \<and> js_maker s = m \<and> (b \<longrightarrow> js_prev s = nul)"

definition yields :: "(('i, 'm) jstate, 'a) io \<Rightarrow> ('i, 'm) jstate \<Rightarrow> 'a \<Rightarrow> bool \<Rightarrow> string \<Rightarrow> string \<Rightarrow> 'm \<Rightarrow> bool" where
  "yields f s v b xs tx m \<longleftrightarrow> (\<exists>s'. f s = (Inr v, s') \<and> stands b xs tx m s')"

lemma yields_bind:
  "yields f s v b xs tx m \<Longrightarrow> (\<And>s'. stands b xs tx m s' \<Longrightarrow> yields (g v) s' w b' ys ty m') \<Longrightarrow> yields (io_bind f g) s w b' ys ty m'"
  by (auto simp: yields_def io_bind_def)

lemma yields_return: "stands b xs tx m s \<Longrightarrow> yields (io_return v) s v b xs tx m"
  by (simp add: yields_def)

lemma stands_weaken: "stands b xs tx m s \<Longrightarrow> stands False xs tx m s"
  by (simp add: stands_def)

lemma yields_weaken: "yields f s v b xs tx m \<Longrightarrow> yields f s v False xs tx m"
  using stands_weaken by (auto simp: yields_def)

lemma yields_nextChar:
  assumes "stands b (c # xs) tx m s" "c \<noteq> nul"
  shows "yields (nextChar rd) s c True xs tx m"
proof (cases "js_prev s = nul")
  case True
  then have l: "left_text (js_in s) = c # xs" "sinv (js_in s)" using assms(1) by (simp_all add: stands_def)
  then obtain j where "rd (js_in s) = (Inr (of_char c), j)" "sinv j" "left_text j = xs" using read_char by fastforce
  moreover have "of_char c \<noteq> (- 1 :: int)" using of_char_int_pos [of c] by linarith
  ultimately show ?thesis using True assms(1) by (auto simp: yields_def nextChar_def stands_def STREAM_FAILED_def STREAM_ENDED_def)
next
  case False
  then show ?thesis using assms(1) by (auto simp: yields_def nextChar_def stands_def)
qed

lemma yields_nextChar_end:
  assumes "stands b [] tx m s"
  shows "yields (nextChar rd) s nul True [] tx m"
proof -
  have l: "left_text (js_in s) = []" "sinv (js_in s)" "js_prev s = nul" using assms by (auto simp: stands_def split: if_splits)
  then obtain j where "rd (js_in s) = (Inr STREAM_ENDED, j)" "sinv j" "left_text j = []" using read_char by (fastforce simp: chr_at_def)
  then show ?thesis using l assms by (auto simp: yields_def nextChar_def stands_def STREAM_FAILED_def STREAM_ENDED_def)
qed

lemma yields_pushBack:
  "stands True xs tx m s \<Longrightarrow> c \<noteq> nul \<Longrightarrow> yields (pushBack c) s () False (c # xs) tx m"
  "stands True xs tx m s \<Longrightarrow> yields (pushBack nul) s () True xs tx m"
  by (auto simp: yields_def pushBack_def stands_def)

lemma yields_set_text: "stands b xs tx m s \<Longrightarrow> yields (set_text ty) s () b xs ty m"
  by (auto simp: yields_def set_text_def stands_def)

lemma yields_call: "stands b xs tx m s \<Longrightarrow> yields (js_call (\<lambda>e m. (Inr (), upd e m)) e) s () b xs tx (upd e m)"
  by (auto simp: yields_def js_call_def stands_def)

end

text \<open>The tokens of the written texts.\<close>

definition front_char :: "string \<Rightarrow> char" where
  "front_char xs = (case xs of [] \<Rightarrow> nul | c # _ \<Rightarrow> c)"

lemma front_char_simps [simp]: "front_char [] = nul" "front_char (c # xs) = c"
  by (simp_all add: front_char_def)

lemma index_of_mem: "0 \<le> index_of c xs \<longleftrightarrow> c \<in> set xs"
  by (induction xs) (auto simp: Let_def)

lemma json_chars [simp]:
  "nul = CHR 0x00" "char_of (10 :: nat) = CHR 0x0A" "char_of (9 :: nat) = CHR 0x09" "char_of (13 :: nat) = CHR 0x0D"
  "char_of (34 :: nat) = CHR 0x22" "char_of (39 :: nat) = CHR 0x27" "char_of (92 :: nat) = CHR 0x5C"
  by (code_simp)+

text \<open>What may follow a value.\<close>

definition follows :: "string \<Rightarrow> bool" where
  "follows xs \<longleftrightarrow> xs = [] \<or> hd xs \<in> {CHR '','', CHR '']'', CHR ''}'', char_of (10 :: nat)}"

definition no_nul :: "string \<Rightarrow> bool" where
  "no_nul xs \<longleftrightarrow> xs = [] \<or> hd xs \<noteq> nul"

lemma plain_no_nul: "plain t \<Longrightarrow> no_nul (t @ CHR 0x22 # xs)"
  by (cases t) (auto simp: plain_def no_nul_def plain_char_def)

lemma follows_no_nul: "follows xs \<Longrightarrow> no_nul xs"
  by (auto simp: follows_def no_nul_def)

definition decimal :: "char \<Rightarrow> bool" where
  "decimal c \<longleftrightarrow> c \<in> set dec_base \<and> c \<notin> set float_chars"

lemma not_decimal: "\<not> decimal nul" "follows xs \<Longrightarrow> front_char xs \<notin> set dec_base"
  by (cases xs; auto simp: follows_def dec_base_def decimal_def)+

context char_source
begin

lemma yields_char:
  "stands b xs tx m s \<Longrightarrow> no_nul xs \<Longrightarrow> yields (nextChar rd) s (front_char xs) True (tl xs) tx m"
  by (cases xs) (auto intro: yields_nextChar yields_nextChar_end simp: no_nul_def simp del: json_chars)

lemma yields_back:
  "stands True (tl xs) tx m s \<Longrightarrow> no_nul xs \<Longrightarrow> yields (pushBack (front_char xs)) s () False xs tx m"
  by (cases xs) (auto intro: yields_pushBack yields_weaken [OF yields_pushBack(2)] simp: no_nul_def simp del: json_chars)

lemma number_loop_ok:
  assumes "stands True (tl (ds @ xs)) tx m s" "list_all decimal ds" "follows xs" "length ds < n"
  shows "yields (number_loop rd n dec_base t buf (front_char (ds @ xs))) s (t, buf @ ds, front_char xs) True (tl xs) tx m"
  using assms
proof (induction ds arbitrary: n buf s)
  case Nil
  then obtain k where "n = Suc k" by (cases n) auto
  moreover have "front_char xs \<notin> set dec_base" using Nil(3) by (rule not_decimal(2))
  ultimately show ?case using Nil(1) by (simp add: index_of_mem yields_def)
next
  case (Cons d ds)
  then obtain k where k: "n = Suc k" by (cases n) auto
  have d: "d \<in> set dec_base" "d \<notin> set float_chars" using Cons(3) by (simp_all add: decimal_def)
  have z: "no_nul (ds @ xs)" using Cons(3,4) not_decimal(1) follows_no_nul [OF Cons(4)] by (cases ds) (auto simp: no_nul_def simp del: json_chars)
  let ?s = "s\<lparr>js_col := js_col s + 1\<rparr>"
  have "stands True (ds @ xs) tx m ?s" using Cons(2) by (simp add: stands_def)
  then have "yields (io_bind (nextChar rd) (number_loop rd k dec_base t (buf @ [d]))) ?s (t, buf @ d # ds, front_char xs) True (tl xs) tx m"
    using Cons(1) [of _ k "buf @ [d]"] Cons(3-5) k by (intro yields_bind [OF yields_char [OF _ z]]) auto
  then show ?case using d by (simp add: k index_of_mem yields_def)
qed

lemma parseNumber_ok:
  assumes "stands True (tl (ds @ xs)) tx m s" "list_all decimal ds" "follows xs" "length ds < n"
  shows "yields (parseNumber rd n (front_char (ds @ xs)) 10) s INT_TOKEN False xs ds m"
proof -
  have "no_nul xs" using assms(3) by (rule follows_no_nul)
  then show ?thesis
    by (auto simp: parseNumber_def intro!: yields_bind [OF number_loop_ok [OF assms]] yields_bind [OF yields_back] yields_bind [OF yields_set_text]
        yields_return simp del: number_loop.simps json_chars)
qed

end

context char_source
begin

lemma yields_pair: "stands b xs tx m s \<Longrightarrow> yields (Pair (Inr v)) s v b xs tx m"
  by (simp add: yields_def)

lemma string_loop_ok:
  assumes "stands True (tl (t @ CHR 0x22 # xs)) tx m s" "plain t" "length t < n"
  shows "yields (string_loop rd n CHR 0x22 buf (front_char (t @ CHR 0x22 # xs))) s (buf @ t) True xs tx m"
  using assms
proof (induction t arbitrary: n buf s)
  case Nil
  then obtain k where "n = Suc k" by (cases n) auto
  then show ?case using Nil(1) by (simp add: yields_pair)
next
  case (Cons c t)
  then obtain k where k: "n = Suc k" by (cases n) auto
  have c: "plain_char c" "plain t" using Cons(3) by (simp_all add: plain_def)
  have q: "c \<noteq> CHR 0x22" "c \<noteq> CHR 0x5C" using c(1) by (auto simp: plain_char_def)
  have z: "no_nul (t @ CHR 0x22 # xs)" using c(2) by (rule plain_no_nul)
  have "stands True (t @ CHR 0x22 # xs) tx m s" using Cons(2) by simp
  then have "yields (io_bind (nextChar rd) (string_loop rd k CHR 0x22 (buf @ [c]))) s (buf @ c # t) True xs tx m"
    using Cons(1) [of _ k "buf @ [c]"] c(2) Cons(4) k by (intro yields_bind [OF yields_char [OF _ z]]) auto
  then show ?case using q by (simp add: k yields_bind [OF yields_return] io_bind_def [of "io_return _"])
qed

lemma parseString_ok:
  assumes "stands b (t @ CHR 0x22 # xs) tx m s" "plain t" "length t < n"
  shows "yields (parseString rd n CHR 0x22) s () True xs t m"
proof -
  have z: "no_nul (t @ CHR 0x22 # xs)" using assms(2) by (rule plain_no_nul)
  show ?thesis unfolding parseString_def
    by (rule yields_bind [OF yields_char [OF assms(1) z]], rule yields_bind [OF string_loop_ok [OF _ assms(2,3)]])
      (auto intro: yields_set_text)
qed

lemma parseLitt_ok:
  "stands b (l @ xs) tx m s \<Longrightarrow> nul \<notin> set l \<Longrightarrow> yields (parseLitt rd l) s () False xs tx m"
proof (induction l arbitrary: s b)
  case Nil
  then show ?case using yields_weaken [OF yields_pair] by simp
next
  case (Cons c l)
  have c: "c \<noteq> nul" "nul \<notin> set l" using Cons(3) by (auto simp del: json_chars)
  show ?case using Cons(1) [OF _ c(2)] by (auto intro!: yields_bind [OF yields_nextChar [OF Cons(2) [unfolded append_Cons] c(1)]])
qed

lemma next_sign:
  assumes "stands b (c # xs) tx m s" "0 < n"
  shows "c = CHR ''{'' \<Longrightarrow> yields (next_token rd n) s LBRACE True xs tx m"
    and "c = CHR ''}'' \<Longrightarrow> yields (next_token rd n) s RBRACE True xs tx m"
    and "c = CHR ''['' \<Longrightarrow> yields (next_token rd n) s LBRACK True xs tx m"
    and "c = CHR '']'' \<Longrightarrow> yields (next_token rd n) s RBRACK True xs tx m"
    and "c = CHR '':'' \<Longrightarrow> yields (next_token rd n) s COLON True xs tx m"
    and "c = CHR '','' \<Longrightarrow> yields (next_token rd n) s COMMA True xs tx m"
proof -
  obtain k where k: "n = Suc k" using assms(2) by (cases n) auto
  show "c = CHR ''{'' \<Longrightarrow> yields (next_token rd n) s LBRACE True xs tx m"
    "c = CHR ''}'' \<Longrightarrow> yields (next_token rd n) s RBRACE True xs tx m"
    "c = CHR ''['' \<Longrightarrow> yields (next_token rd n) s LBRACK True xs tx m"
    "c = CHR '']'' \<Longrightarrow> yields (next_token rd n) s RBRACK True xs tx m"
    "c = CHR '':'' \<Longrightarrow> yields (next_token rd n) s COLON True xs tx m"
    "c = CHR '','' \<Longrightarrow> yields (next_token rd n) s COMMA True xs tx m"
    unfolding k next_token.simps
    by (rule yields_bind [OF yields_nextChar [OF assms(1)]]; auto simp: token_switch_def intro: yields_return yields_pair)+
qed

lemma next_string:
  assumes "stands b (CHR 0x22 # t @ CHR 0x22 # xs) tx m s" "plain t" "length t + 1 < n"
  shows "yields (next_token rd n) s STRING True xs t m"
proof -
  obtain k where k: "n = Suc k" "length t < k" using assms(3) by (cases n) auto
  show ?thesis unfolding k(1) next_token.simps
    by (rule yields_bind [OF yields_nextChar [OF assms(1)]])
      (auto simp: token_switch_def intro!: yields_bind [OF parseString_ok [OF _ assms(2) k(2)]] yields_return)
qed

lemma next_blank:
  assumes "stands b (w @ xs) tx m s" "list_all blank w" "\<And>b s' n. stands b xs tx m s' \<Longrightarrow> length xs + 2 \<le> n \<Longrightarrow> yields (next_token rd n) s' t b' ys ty m"
    and "length (w @ xs) + 2 \<le> n"
  shows "yields (next_token rd n) s t b' ys ty m"
  using assms(1,2,4)
proof (induction w arbitrary: b s n)
  case Nil
  then show ?case using assms(3) by simp
next
  case (Cons c w)
  then obtain k where k: "n = Suc k" by (cases n) auto
  have c: "c = CHR 0x0A \<or> c = CHR 0x09 \<or> c = CHR 0x0D \<or> c = CHR '' ''" "list_all blank w" using Cons(3) by (simp_all, simp add: blank_def)
  have i: "stands True (w @ xs) tx m s' \<Longrightarrow> yields (next_token rd k) s' t b' ys ty m" for s' using Cons(1) c(2) Cons(4) k by simp
  have y: "yields (nextChar rd) s c True (w @ xs) tx m" using c(1) by (intro yields_nextChar [OF Cons(2) [unfolded append_Cons]]) auto
  show ?case unfolding k next_token.simps
    by (rule yields_bind [OF y]) (use c(1) i in \<open>auto simp: token_switch_def blank_def\<close>)
qed

end

text \<open>The first token of a value, the text that it leaves in the parser and the rest of the value.\<close>

fun value_token :: "jvalue \<Rightarrow> token_t" where
  "value_token JNull = NULL_TOKEN"
| "value_token (JBool b) = (if b then TRUE else FALSE)"
| "value_token (JInt w) = INT_TOKEN"
| "value_token (JString t) = STRING"
| "value_token (JList vs) = LBRACK"
| "value_token (JObject fs) = LBRACE"

fun token_text :: "jvalue \<Rightarrow> string \<Rightarrow> string" where
  "token_text (JInt w) tx = int_text w"
| "token_text (JString t) tx = t"
| "token_text _ tx = tx"

fun value_body :: "bool \<Rightarrow> string \<Rightarrow> nat \<Rightarrow> jvalue \<Rightarrow> string" where
  "value_body r ind e (JList vs) = items_text r ind (Suc e) False vs @ newline r ind e @ '']''"
| "value_body r ind e (JObject fs) = fields_text r ind (Suc e) False fs @ newline r ind e @ ''}''"
| "value_body r ind e _ = []"

lemma digit_cases:
  assumes "isdigit (of_char c)"
  shows "c \<in> set ''0123456789''"
proof -
  have n: "48 \<le> (of_char c :: nat)" "(of_char c :: nat) \<le> 57" using assms by (simp_all add: isdigit_def of_char_int)
  then have "(of_char c :: nat) \<in> set [48, 49, 50, 51, 52, 53, 54, 55, 56, 57]" unfolding list.set insert_iff empty_iff by presburger
  moreover have "list_all (\<lambda>k :: nat. char_of k \<in> set ''0123456789'') [48, 49, 50, 51, 52, 53, 54, 55, 56, 57]" by code_simp
  ultimately have "char_of (of_char c :: nat) \<in> set ''0123456789''" unfolding list_all_iff by (rule bspec [rotated])
  then show ?thesis by (simp only: char_of_char)
qed

lemma digits_decimal: "digit_text ds \<Longrightarrow> list_all decimal ds"
  by (auto simp: digit_text_def list_all_iff decimal_def dec_base_def float_chars_def dest!: digit_cases bspec)

lemma number_text_decimal: "list_all decimal (number_text 10 enc n)"
  using base_text_10 [of enc n] by (cases "n = 0") (auto simp: number_text_def decimal_def dec_base_def float_chars_def intro: digits_decimal)

lemma int_text_cases:
  obtains (zero) "int_text w = ''0''"
  | (pos) c ds where "int_text w = c # ds" "c \<in> set ''123456789''" "list_all decimal (c # ds)"
  | (neg) ds where "int_text w = CHR ''-'' # ds" "list_all decimal (CHR ''-'' # ds)"
proof -
  let ?n = "nat \<bar>sint w\<bar>"
  let ?t = "number_text 10 CHR ''a'' ?n"
  note d = number_text_decimal [of "CHR ''a''" ?n]
  consider "sint w < 0" | "\<not> sint w < 0" "?n = 0" | "\<not> sint w < 0" "0 < ?n" by linarith
  then show ?thesis
  proof cases
    case 1
    have "decimal CHR ''-''" by (simp add: decimal_def dec_base_def float_chars_def)
    then show ?thesis using 1 d by (intro neg [of ?t]) (simp_all add: int_text_def sign_text_def)
  next
    case 2
    then show ?thesis by (intro zero) (simp add: int_text_def sign_text_def number_text_def)
  next
    case 3
    obtain c cs where c: "base_text 10 CHR ''a'' ?n = c # cs" "isdigit (of_char c)" "of_char c \<noteq> (48 :: int)"
      using number_text_10 [OF 3(2)] by metis
    have t: "?t = c # cs" using 3(2) c(1) by (simp add: number_text_def)
    have "c \<noteq> CHR ''0''" using c(3) by auto
    then have "c \<in> set ''123456789''" using digit_cases [OF c(2)] by auto
    moreover have "int_text w = c # cs" using 3(1) t by (simp only: int_text_def sign_text_def if_False)
    ultimately show ?thesis using pos d t by metis
  qed
qed

lemma int_min: "w \<noteq> 2 ^ 31 \<Longrightarrow> nat \<bar>sint (w :: 32 word)\<bar> < 2 ^ 31"
proof -
  assume "w \<noteq> 2 ^ 31"
  moreover have "w = word_of_int (sint w)" by simp
  moreover have "word_of_int (- (2 ^ 31)) = (2 ^ 31 :: 32 word)" by code_simp
  ultimately have "sint w \<noteq> - (2 ^ 31)" by metis
  then show ?thesis using sint_greater_eq [of w] sint_less [of w] by (simp add: nat_less_iff abs_less_iff)
qed

lemma text_int_ok: "w \<noteq> 2 ^ 31 \<Longrightarrow> text_int (int_text w) = Inr w"
  using scanLong_sign [of "Input_new [] False" "[]" "nat \<bar>sint w\<bar>" "sint w < 0"] int_min [of w] sint_of_abs [of w]
  by (simp add: text_int_def int_text_def fresh_def Input_new_def number_end_def)

lemma token_switch_digit: "list_all (\<lambda>c. token_switch rd n again c = parseNumber rd n c 10) ''123456789''"
  by (simp add: token_switch_def blank_def isNumber_def)

lemma token_switch_number:
  "c \<in> set ''123456789'' \<Longrightarrow> token_switch rd n again c = parseNumber rd n c 10"
  "token_switch rd n again CHR ''-'' = parseNumber rd n CHR ''-'' 10"
  "token_switch rd n again CHR ''0'' = parseBasedNumber rd n"
  using token_switch_digit [of rd n again] unfolding list_all_iff
  by (rule bspec) (simp_all add: token_switch_def blank_def)

context char_source
begin

lemma next_int:
  assumes "stands b (int_text w @ xs) tx m s" "follows xs" "length (int_text w) + 2 \<le> n"
  shows "yields (next_token rd n) s INT_TOKEN False xs (int_text w) m"
proof -
  obtain k where k: "n = Suc k" "length (int_text w) < k" using assms(3) by (cases n) auto
  have z: "no_nul xs" using assms(2) by (rule follows_no_nul)
  show ?thesis
  proof (cases w rule: int_text_cases)
    case zero
    have f: "front_char xs \<notin> {CHR ''x'', CHR ''X'', CHR ''b'', CHR ''B''}" "\<not> isNumber (front_char xs)"
      using assms(2) by (cases xs; auto simp: follows_def isNumber_def)+
    have "yields (parseBasedNumber rd k) s' INT_TOKEN False xs ''0'' m" if "stands True xs tx m s'" for s'
      unfolding parseBasedNumber_def using f
      by (intro yields_bind [OF yields_char [OF that z]]) (auto intro!: yields_bind [OF yields_back [OF _ z]] yields_bind [OF yields_set_text] yields_return)
    moreover have y: "yields (nextChar rd) s CHR ''0'' True xs tx m" using assms(1) zero by (intro yields_nextChar) auto
    ultimately show ?thesis unfolding zero k(1) next_token.simps
      by (intro yields_bind [OF y]) (simp_all only: token_switch_number)
  next
    case (pos c ds)
    have p: "yields (parseNumber rd k c 10) s' INT_TOKEN False xs (c # ds) m" if "stands True (ds @ xs) tx m s'" for s'
      using parseNumber_ok [of "c # ds" xs tx m s' k] that pos(1,3) assms(2) k(2) by simp
    moreover have y: "yields (nextChar rd) s c True (ds @ xs) tx m" using assms(1) pos(1,2) by (intro yields_nextChar) auto
    ultimately show ?thesis using pos(2) unfolding pos(1) k(1) next_token.simps
      by (intro yields_bind [OF y]) (simp_all only: token_switch_number)
  next
    case (neg ds)
    have p: "yields (parseNumber rd k CHR ''-'' 10) s' INT_TOKEN False xs (CHR ''-'' # ds) m" if "stands True (ds @ xs) tx m s'" for s'
      using parseNumber_ok [of "CHR ''-'' # ds" xs tx m s' k] that neg assms(2) k(2) by simp
    moreover have y: "yields (nextChar rd) s CHR ''-'' True (ds @ xs) tx m" using assms(1) neg(1) by (intro yields_nextChar) auto
    ultimately show ?thesis unfolding neg(1) k(1) next_token.simps
      by (intro yields_bind [OF y]) (simp_all only: token_switch_number)
  qed
qed

end

lemma token_switch_litt:
  "token_switch rd n again CHR ''n'' = io_bind (parseLitt rd ''ull'') (\<lambda>_. io_return NULL_TOKEN)"
  "token_switch rd n again CHR ''t'' = io_bind (parseLitt rd ''rue'') (\<lambda>_. io_return TRUE)"
  "token_switch rd n again CHR ''f'' = io_bind (parseLitt rd ''alse'') (\<lambda>_. io_return FALSE)"
  by (simp_all add: token_switch_def blank_def)

lemma quote_char [simp]: "quote = [CHR 0x22]"
  by (simp add: quote_def)

definition blanks :: "string \<Rightarrow> bool" where
  "blanks ind \<longleftrightarrow> list_all blank ind"

lemma newline_blank: "blanks ind \<Longrightarrow> list_all blank (newline r ind e)"
  by (auto simp: newline_def blanks_def blank_def list_all_iff)

context char_source
begin

lemma next_litt:
  fixes s :: "('i, 'm) jstate"
  assumes "stands b (c # l @ xs) tx m s" "nul \<notin> set (c # l)" "0 < n"
    and "\<And>k (again :: (('i, 'm) jstate, token_t) io). token_switch rd k again c = io_bind (parseLitt rd l) (\<lambda>_. io_return t)"
  shows "yields (next_token rd n) s t False xs tx m"
proof -
  obtain k where k: "n = Suc k" using assms(3) by (cases n) auto
  have c: "c \<noteq> nul" "nul \<notin> set l" using assms(2) by (auto simp del: json_chars)
  show ?thesis unfolding k next_token.simps
    by (rule yields_bind [OF yields_nextChar [OF assms(1) c(1)]], unfold assms(4), rule yields_bind [OF parseLitt_ok [OF _ c(2)]])
      (auto intro: yields_return)
qed

lemma next_value:
  assumes "stands b (json_text r ind e v @ xs) tx m s" "follows xs" "plain_value v" "length (json_text r ind e v) + 2 \<le> n"
  shows "yields (next_token rd n) s (value_token v) False (value_body r ind e v @ xs) (token_text v tx) m"
proof (cases v)
  case JNull
  then show ?thesis using next_litt [OF _ _ _ token_switch_litt(1), of b xs tx m s n] assms by simp
next
  case (JBool x)
  then show ?thesis using next_litt [OF _ _ _ token_switch_litt(2), of b xs tx m s n] next_litt [OF _ _ _ token_switch_litt(3), of b xs tx m s n] assms by (cases x) simp_all
next
  case (JInt w)
  then show ?thesis using next_int [of b w xs tx m s n] assms by simp
next
  case (JString t)
  then show ?thesis using next_string [THEN yields_weaken, of b t xs tx m s n] assms by simp
next
  case (JList vs)
  then show ?thesis using next_sign(3) [THEN yields_weaken, of b _ _ tx m s n] assms by simp
next
  case (JObject fs)
  then show ?thesis using next_sign(1) [THEN yields_weaken, of b _ _ tx m s n] assms by simp
qed

end

lemma body_shorter: "length (value_body r ind e v) < length (json_text r ind e v)"
proof (cases v)
  case (JInt w)
  then show ?thesis by (cases w rule: int_text_cases) simp_all
qed simp_all

lemma follows_items:
  "follows (items_text r ind e True vs @ newline r ind d @ CHR '']'' # xs)"
  "follows (fields_text r ind e True fs @ newline r ind d @ CHR ''}'' # xs)"
  by (cases vs; auto simp: follows_def comma_def newline_def) (cases fs; auto simp: follows_def comma_def newline_def)

text \<open>A maker that never refuses a call.\<close>

definition total_maker :: "('d event \<Rightarrow> 'm \<Rightarrow> 'm) \<Rightarrow> 'd event \<Rightarrow> ('m, unit) io" where
  "total_maker upd e m = (Inr (), upd e m)"

context char_source
begin

definition reads :: "(('i, 'm) jstate, unit) io \<Rightarrow> ('i, 'm) jstate \<Rightarrow> string \<Rightarrow> 'm \<Rightarrow> bool" where
  "reads f s xs m \<longleftrightarrow> (\<exists>tx. yields f s () False xs tx m)"

lemma reads_bind:
  "yields f s v b xs tx m \<Longrightarrow> (\<And>s'. stands b xs tx m s' \<Longrightarrow> reads (g v) s' ys m') \<Longrightarrow> reads (io_bind f g) s ys m'"
  unfolding reads_def yields_def io_bind_def by fastforce

lemma reads_seq:
  "reads f s xs m \<Longrightarrow> (\<And>s' tx. stands False xs tx m s' \<Longrightarrow> reads g s' ys m') \<Longrightarrow> reads (io_bind f (\<lambda>_. g)) s ys m'"
  unfolding reads_def yields_def io_bind_def by fastforce

lemma yields_maker: "stands b xs tx m s \<Longrightarrow> yields (js_call (total_maker upd) e) s () b xs tx (upd e m)"
  using yields_call [of b xs tx m s upd e] by (simp add: total_maker_def [abs_def])

lemma reads_maker: "stands b xs tx m s \<Longrightarrow> reads (js_call (total_maker upd) e) s xs (upd e m)"
  unfolding reads_def by (rule exI, rule yields_weaken [OF yields_maker])

definition value_reads :: "'d fops \<Rightarrow> ('d event \<Rightarrow> 'm \<Rightarrow> 'm) \<Rightarrow> jvalue \<Rightarrow> bool" where
  "value_reads F upd v \<longleftrightarrow> (\<forall>r ind e b xs tx m s N. blanks ind \<longrightarrow> stands b (value_body r ind e v @ xs) (token_text v tx) m s \<longrightarrow>
     follows xs \<longrightarrow> 2 * length (value_body r ind e v @ xs) + 4 \<le> N \<longrightarrow>
     reads (parseValue F rd (total_maker upd) N (value_token v)) s xs (fold upd (events v) m))"

text \<open>The end of a list, after one of its elements.\<close>

definition array_next :: "'d fops \<Rightarrow> ('d event \<Rightarrow> ('m, unit) io) \<Rightarrow> nat \<Rightarrow> (('i, 'm) jstate, unit) io" where
  "array_next F mk n =
     io_bind (next_token rd n) (\<lambda>t.
     io_bind (if t = COMMA then next_token rd n else if t \<noteq> RBRACK then io_fail json_exception else io_return t)
       (array_loop F rd mk n))"

lemma next_after_blanks:
  assumes "stands b (w @ json_text r ind e v @ xs) tx m s" "list_all blank w" "follows xs" "plain_value v"
    "length (w @ json_text r ind e v @ xs) + 2 \<le> n"
  shows "yields (next_token rd n) s (value_token v) False (value_body r ind e v @ xs) (token_text v tx) m"
  by (rule next_blank [OF assms(1,2) _ assms(5)]) (auto intro: next_value [OF _ assms(3,4)])

lemma next_close:
  assumes "stands b (w @ c # xs) tx m s" "list_all blank w" "length (w @ c # xs) + 2 \<le> n"
  shows "c = CHR '']'' \<Longrightarrow> yields (next_token rd n) s RBRACK True xs tx m"
    and "c = CHR ''}'' \<Longrightarrow> yields (next_token rd n) s RBRACE True xs tx m"
  by (rule next_blank [OF assms(1,2) _ assms(3)]; auto intro: next_sign)+

lemma item_ok:
  assumes "value_reads F upd v" "blanks ind" "follows zs"
    "stands False (value_body r ind e v @ zs) (token_text v tx) m s" "2 * length (value_body r ind e v @ zs) + 5 \<le> n"
    and rest: "\<And>s' tx j. stands False zs tx (fold upd (events v) m) s' \<Longrightarrow> n = Suc j \<Longrightarrow> reads (array_next F (total_maker upd) j) s' xs m'"
  shows "reads (array_loop F rd (total_maker upd) n (value_token v)) s xs m'"
proof -
  let ?mk = "total_maker upd"
  obtain j where j: "n = Suc j" using assms(5) by (cases n) auto
  have val: "reads (parseValue F rd ?mk j (value_token v)) s zs (fold upd (events v) m)"
    using assms(1-5) j unfolding value_reads_def by fastforce
  have loop: "array_loop F rd ?mk n (value_token v) = io_bind (parseValue F rd ?mk j (value_token v)) (\<lambda>_. array_next F ?mk j)"
    by (cases v) (simp_all add: j array_next_def fun_eq_iff)
  show ?thesis unfolding loop by (rule reads_seq [OF val rest [OF _ j]])
qed

lemma array_next_ok:
  assumes "\<And>v. v \<in> set vs \<Longrightarrow> value_reads F upd v" "list_all plain_value vs" "blanks ind"
    "stands b (items_text r ind e True vs @ newline r ind d @ CHR '']'' # xs) tx m s"
    "2 * length (items_text r ind e True vs @ newline r ind d @ CHR '']'' # xs) + 4 \<le> n"
  shows "reads (array_next F (total_maker upd) n) s xs (fold upd (concat (map events vs)) m)"
  using assms
proof (induction vs arbitrary: b tx m s n)
  case Nil
  then obtain k where k: "n = Suc k" by (cases n) auto
  have y: "yields (next_token rd n) s RBRACK True xs tx m"
    using Nil(4,5) newline_blank [OF Nil(3)] by (intro next_close(1)) auto
  show ?case unfolding array_next_def
    by (rule reads_bind [OF y]) (auto simp: k reads_def yields_def io_bind_def stands_def)
next
  case (Cons v vs)
  let ?z = "items_text r ind e True vs @ newline r ind d @ CHR '']'' # xs"
  let ?w = "newline r ind e"
  let ?mk = "total_maker upd"
  have p: "plain_value v" "list_all plain_value vs" using Cons(3) by simp_all
  have l: "2 * length (?w @ json_text r ind e v @ ?z) + 6 \<le> n" using Cons(6) by (simp add: comma_def)
  have b: "2 * length (value_body r ind e v @ ?z) + 8 \<le> n" "2 * length ?z + 8 \<le> n"
    using l body_shorter [of r ind e v] by simp_all
  have comma: "yields (next_token rd n) s COMMA True (?w @ json_text r ind e v @ ?z) tx m"
    using Cons(5) l by (intro next_sign(6)) (auto simp: comma_def)
  have tok: "stands True (?w @ json_text r ind e v @ ?z) tx m s' \<Longrightarrow>
      yields (next_token rd n) s' (value_token v) False (value_body r ind e v @ ?z) (token_text v tx) m" for s'
    using l newline_blank [OF Cons(4)] by (intro next_after_blanks [OF _ _ follows_items(1) p(1)]) auto
  have rest: "reads (array_next F ?mk j) s' xs (fold upd (concat (map events (v # vs))) m)"
    if "stands False ?z tx' (fold upd (events v) m) s'" "n = Suc j" for s' tx' j
    using Cons(1) [OF _ p(2) Cons(4) that(1), of j] Cons(2) b(2) that(2) by simp
  have itm: "reads (array_loop F rd ?mk n (value_token v)) s' xs (fold upd (concat (map events (v # vs))) m)"
    if "stands False (value_body r ind e v @ ?z) (token_text v tx) m s'" for s'
    using Cons(2) b(1) by (intro item_ok [OF _ Cons(4) follows_items(1) that _ rest]) auto
  show ?case unfolding array_next_def
    by (rule reads_bind [OF comma], simp only: if_True simp_thms, rule reads_bind [OF tok], assumption, rule itm)
qed

end

context char_source
begin

text \<open>The end of an object, after one of its fields.\<close>

definition object_next :: "'d fops \<Rightarrow> ('d event \<Rightarrow> ('m, unit) io) \<Rightarrow> nat \<Rightarrow> (('i, 'm) jstate, unit) io" where
  "object_next F mk n =
     io_bind (next_token rd n) (\<lambda>t.
     io_bind (if t = COMMA then next_token rd n else if t \<noteq> RBRACE then io_fail json_exception else io_return t)
       (object_loop F rd mk n))"

definition field_events :: "string \<times> jvalue \<Rightarrow> 'd event list" where
  "field_events f = On_field (fst f) # events (snd f)"

text \<open>A field, from the token of its key: its colon, its value, and what follows.\<close>

lemma field_ok:
  assumes "value_reads F upd v" "plain_value v" "blanks ind" "follows zs"
    "stands b (colon r @ json_text r ind e v @ zs) k m s" "2 * length (colon r @ json_text r ind e v @ zs) + 5 \<le> n"
    and rest: "\<And>s' tx j. stands False zs tx (fold upd (field_events (k, v)) m) s' \<Longrightarrow> n = Suc j \<Longrightarrow> reads (object_next F (total_maker upd) j) s' xs m'"
  shows "reads (object_loop F rd (total_maker upd) n STRING) s xs m'"
proof -
  let ?mk = "total_maker upd" and ?sp = "if r then '' '' else []" and ?m = "upd (On_field k) m"
  obtain j where j: "n = Suc j" using assms(6) by (cases n) auto
  have c: "colon r = CHR '':'' # ?sp" "list_all blank ?sp" by (simp_all add: colon_def blank_def)
  have l: "2 * length (?sp @ json_text r ind e v @ zs) + 6 \<le> j" "0 < j" using assms(6) j c(1) by simp_all
  have b: "2 * length (value_body r ind e v @ zs) + 8 \<le> j" using l body_shorter [of r ind e v] by simp
  have call: "yields (js_call ?mk (On_field k)) s () b (CHR '':'' # ?sp @ json_text r ind e v @ zs) k ?m"
    using yields_maker [OF assms(5), of upd "On_field k"] by (simp only: c(1) append_Cons)
  have col: "stands b (CHR '':'' # ?sp @ json_text r ind e v @ zs) k ?m s' \<Longrightarrow> yields (next_token rd j) s' COLON True (?sp @ json_text r ind e v @ zs) k ?m" for s'
    using l(2) by (intro next_sign(5)) auto
  have tok: "stands True (?sp @ json_text r ind e v @ zs) k ?m s' \<Longrightarrow>
      yields (next_token rd j) s' (value_token v) False (value_body r ind e v @ zs) (token_text v k) ?m" for s'
    using l c(2) by (intro next_after_blanks [OF _ _ assms(4,2)]) auto
  have val: "stands False (value_body r ind e v @ zs) (token_text v k) ?m s' \<Longrightarrow>
      reads (parseValue F rd ?mk j (value_token v)) s' zs (fold upd (events v) ?m)" for s'
    using assms(1,3,4) b unfolding value_reads_def by fastforce
  have loop: "object_loop F rd ?mk n STRING s =
      io_bind (js_call ?mk (On_field k)) (\<lambda>_. io_bind (next_token rd j) (\<lambda>t. if t \<noteq> COLON then io_fail json_exception
        else io_bind (next_token rd j) (\<lambda>t. io_bind (parseValue F rd ?mk j t) (\<lambda>_. object_next F ?mk j)))) s"
    using assms(5) unfolding object_next_def by (simp add: j stands_def)
  have "reads (io_bind (js_call ?mk (On_field k)) (\<lambda>_. io_bind (next_token rd j) (\<lambda>t. if t \<noteq> COLON then io_fail json_exception
        else io_bind (next_token rd j) (\<lambda>t. io_bind (parseValue F rd ?mk j t) (\<lambda>_. object_next F ?mk j))))) s xs m'"
    by (rule reads_bind [OF call], rule reads_bind [OF col], assumption, simp only: simp_thms if_False, rule reads_bind [OF tok], assumption,
        rule reads_seq [OF val], assumption, rule rest) (simp_all add: field_events_def j)
  then show ?thesis unfolding reads_def yields_def loop .
qed

lemma object_next_ok:
  assumes "\<And>f. f \<in> set fs \<Longrightarrow> value_reads F upd (snd f)" "list_all (\<lambda>f. plain (fst f) \<and> plain_value (snd f)) fs" "blanks ind"
    "stands b (fields_text r ind e True fs @ newline r ind d @ CHR ''}'' # xs) tx m s"
    "2 * length (fields_text r ind e True fs @ newline r ind d @ CHR ''}'' # xs) + 4 \<le> n"
  shows "reads (object_next F (total_maker upd) n) s xs (fold upd (concat (map field_events fs)) m)"
  using assms
proof (induction fs arbitrary: b tx m s n)
  case Nil
  then obtain k where k: "n = Suc k" by (cases n) auto
  have y: "yields (next_token rd n) s RBRACE True xs tx m"
    using Nil(4,5) newline_blank [OF Nil(3)] by (intro next_close(2)) auto
  show ?case unfolding object_next_def
    by (rule reads_bind [OF y]) (auto simp: k reads_def yields_def io_bind_def stands_def)
next
  case (Cons f fs)
  obtain k v where f: "f = (k, v)" by (cases f)
  let ?z = "fields_text r ind e True fs @ newline r ind d @ CHR ''}'' # xs"
  let ?y = "colon r @ json_text r ind e v @ ?z" and ?w = "newline r ind e"
  have p: "plain k" "plain_value v" "list_all (\<lambda>f. plain (fst f) \<and> plain_value (snd f)) fs" using Cons(3) f by simp_all
  have l: "2 * length (?w @ CHR 0x22 # k @ CHR 0x22 # ?y) + 6 \<le> n" using Cons(6) f by (simp add: comma_def)
  have comma: "yields (next_token rd n) s COMMA True (?w @ CHR 0x22 # k @ CHR 0x22 # ?y) tx m"
    using Cons(5) f l by (intro next_sign(6)) (auto simp: comma_def)
  have tok: "yields (next_token rd n) s' STRING True ?y k m" if "stands True (?w @ CHR 0x22 # k @ CHR 0x22 # ?y) tx m s'" for s'
    using that newline_blank [OF Cons(4)] by (rule next_blank) (use l p(1) in \<open>auto intro: next_string\<close>)
  have rest: "reads (object_next F (total_maker upd) j) s' xs (fold upd (concat (map field_events (f # fs))) m)"
    if "stands False ?z tx' (fold upd (field_events (k, v)) m) s'" "n = Suc j" for s' tx' j
    using Cons(1) [OF _ p(3) Cons(4) that(1), of j] Cons(2) l that(2) f by simp
  have fld: "stands True ?y k m s' \<Longrightarrow> reads (object_loop F rd (total_maker upd) n STRING) s' xs (fold upd (concat (map field_events (f # fs))) m)" for s'
    using Cons(2) [of f] f l by (intro field_ok [OF _ p(2) Cons(4) follows_items(2) _ _ rest]) auto
  show ?case unfolding object_next_def
    by (rule reads_bind [OF comma], simp only: if_True simp_thms, rule reads_bind [OF tok], assumption, rule fld)
qed

end

context char_source
begin

text \<open>A list or an object, from the token after its opening character.\<close>

lemma list_start:
  assumes "\<And>v. v \<in> set vs \<Longrightarrow> value_reads F upd v" "list_all plain_value vs" "blanks ind"
    and s: "stands b (items_text r ind e False vs @ newline r ind d @ CHR '']'' # xs) tx m s"
    and n: "2 * length (items_text r ind e False vs @ newline r ind d @ CHR '']'' # xs) + 3 \<le> n"
  shows "reads (io_bind (next_token rd n) (array_loop F rd (total_maker upd) n)) s xs (fold upd (concat (map events vs)) m)"
proof (cases vs)
  case Nil
  obtain k where k: "n = Suc k" using n by (cases n) auto
  have "yields (next_token rd n) s RBRACK True xs tx m"
    using s Nil n newline_blank [OF assms(3)] by (intro next_close(1)) auto
  then show ?thesis by (rule reads_bind) (auto simp: k Nil reads_def yields_def stands_def)
next
  case (Cons v us)
  let ?z = "items_text r ind e True us @ newline r ind d @ CHR '']'' # xs" and ?t = "json_text r ind e v"
  have st: "stands b (newline r ind e @ ?t @ ?z) tx m s" using s Cons by (simp add: comma_def)
  have l: "2 * length (newline r ind e @ ?t @ ?z) + 3 \<le> n" using n Cons by (simp add: comma_def)
  have p: "plain_value v" "list_all plain_value us" "value_reads F upd v" "\<And>u. u \<in> set us \<Longrightarrow> value_reads F upd u"
    using assms(1,2) Cons by (auto simp: list_all_iff)
  have tok: "yields (next_token rd n) s (value_token v) False (value_body r ind e v @ ?z) (token_text v tx) m"
    using l newline_blank [OF assms(3)] by (intro next_after_blanks [OF st _ follows_items(1) p(1)]) auto
  have b: "2 * length (value_body r ind e v @ ?z) + 5 \<le> n" using l body_shorter [of r ind e v] by simp
  have "reads (array_next F (total_maker upd) j) s' xs (fold upd (concat (map events vs)) m)"
    if "stands False ?z tx' (fold upd (events v) m) s'" "n = Suc j" for s' tx' j
    using array_next_ok [OF p(4,2) assms(3) that(1), of j] b that(2) Cons by simp
  then show ?thesis by (intro reads_bind [OF tok] item_ok [OF p(3) assms(3) follows_items(1) _ b])
qed

lemma object_start:
  assumes "\<And>f. f \<in> set fs \<Longrightarrow> value_reads F upd (snd f)" "list_all (\<lambda>f. plain (fst f) \<and> plain_value (snd f)) fs" "blanks ind"
    and s: "stands b (fields_text r ind e False fs @ newline r ind d @ CHR ''}'' # xs) tx m s"
    and n: "2 * length (fields_text r ind e False fs @ newline r ind d @ CHR ''}'' # xs) + 3 \<le> n"
  shows "reads (io_bind (next_token rd n) (object_loop F rd (total_maker upd) n)) s xs (fold upd (concat (map field_events fs)) m)"
proof (cases fs)
  case Nil
  obtain k where k: "n = Suc k" using n by (cases n) auto
  have "yields (next_token rd n) s RBRACE True xs tx m"
    using s Nil n newline_blank [OF assms(3)] by (intro next_close(2)) auto
  then show ?thesis by (rule reads_bind) (auto simp: k Nil reads_def yields_def stands_def)
next
  case (Cons f us)
  obtain k v where f: "f = (k, v)" by (cases f)
  let ?z = "fields_text r ind e True us @ newline r ind d @ CHR ''}'' # xs"
  let ?y = "colon r @ json_text r ind e v @ ?z" and ?w = "newline r ind e"
  have st: "stands b (?w @ CHR 0x22 # k @ CHR 0x22 # ?y) tx m s" using s Cons f by (simp add: comma_def)
  have l: "2 * length (?w @ CHR 0x22 # k @ CHR 0x22 # ?y) + 3 \<le> n" using n Cons f by (simp add: comma_def)
  have p: "plain k" "plain_value v" "list_all (\<lambda>f. plain (fst f) \<and> plain_value (snd f)) us"
    "value_reads F upd v" "\<And>u. u \<in> set us \<Longrightarrow> value_reads F upd (snd u)"
    using assms(1) [of f] assms(1,2) Cons f by (simp_all add: list_all_iff)
  have tok: "yields (next_token rd n) s STRING True ?y k m"
    using st newline_blank [OF assms(3)] by (rule next_blank) (use l p(1) in \<open>auto intro: next_string\<close>)
  have b: "2 * length ?y + 5 \<le> n" using l by simp
  have "reads (object_next F (total_maker upd) j) s' xs (fold upd (concat (map field_events fs)) m)"
    if "stands False ?z tx' (fold upd (field_events (k, v)) m) s'" "n = Suc j" for s' tx' j
    using object_next_ok [OF p(5,3) assms(3) that(1), of j] b that(2) Cons f by simp
  then show ?thesis by (intro reads_bind [OF tok] field_ok [OF p(4,2) assms(3) follows_items(2) _ b])
qed

lemma events_object: "events (JObject fs) = Begin_object # concat (map field_events fs)"
  by (simp add: field_events_def [abs_def])

lemma object_value:
  assumes "\<And>f. f \<in> set fs \<Longrightarrow> value_reads F upd (snd f)" "list_all (\<lambda>f. plain (fst f) \<and> plain_value (snd f)) fs" "blanks ind"
    "stands b (fields_text r ind e False fs @ newline r ind d @ CHR ''}'' # xs) tx m s"
    "2 * length (fields_text r ind e False fs @ newline r ind d @ CHR ''}'' # xs) + 4 \<le> n"
  shows "reads (parseValue F rd (total_maker upd) n LBRACE) s xs (fold upd (events (JObject fs)) m)"
proof -
  obtain k where k: "n = Suc k" using assms(5) by (cases n) auto
  have "reads (io_bind (js_call (total_maker upd) Begin_object) (\<lambda>_. io_bind (next_token rd k) (object_loop F rd (total_maker upd) k))) s xs
      (fold upd (concat (map field_events fs)) (upd Begin_object m))"
    using assms(5) k by (intro reads_bind [OF yields_maker [OF assms(4)]] object_start [OF assms(1-3)]) auto
  then show ?thesis by (simp add: k reads_def yields_def events_object del: events.simps)
qed

lemma list_value:
  assumes "\<And>v. v \<in> set vs \<Longrightarrow> value_reads F upd v" "list_all plain_value vs" "blanks ind"
    "stands b (items_text r ind e False vs @ newline r ind d @ CHR '']'' # xs) tx m s"
    "2 * length (items_text r ind e False vs @ newline r ind d @ CHR '']'' # xs) + 4 \<le> n"
  shows "reads (parseValue F rd (total_maker upd) n LBRACK) s xs (fold upd (events (JList vs)) m)"
proof -
  obtain k where k: "n = Suc k" using assms(5) by (cases n) auto
  have "reads (io_bind (js_call (total_maker upd) Begin_array) (\<lambda>_. io_bind (next_token rd k) (array_loop F rd (total_maker upd) k))) s xs
      (fold upd (concat (map events vs)) (upd Begin_array m))"
    using assms(5) k by (intro reads_bind [OF yields_maker [OF assms(4)]] list_start [OF assms(1-3)]) auto
  then show ?thesis by (simp add: k reads_def yields_def)
qed

lemma simple_reads:
  assumes "value_body True [] 0 v = []" "plain_value v"
  shows "value_reads F upd v"
  unfolding value_reads_def
proof (intro allI impI)
  fix r ind e b xs tx and m :: 'b and s :: "('i, 'b) jstate" and N
  assume a: "stands b (value_body r ind e v @ xs) (token_text v tx) m s" "2 * length (value_body r ind e v @ xs) + 4 \<le> N"
  obtain n where n: "N = Suc n" using a(2) by (cases N) auto
  have t: "js_text s = token_text v tx" using a(1) by (simp add: stands_def)
  show "reads (parseValue F rd (total_maker upd) N (value_token v)) s xs (fold upd (events v) m)"
  proof (cases v)
    case (JInt w)
    then show ?thesis using reads_maker [of b xs "token_text v tx" m s upd "On_int w"] a(1) assms(2) t
      by (simp add: n text_int_ok reads_def yields_def io_bind_def io_lift_def)
  qed (use reads_maker [of b xs "token_text v tx" m s upd] a(1) t assms(1) in \<open>simp_all add: n reads_def yields_def\<close>)
qed

lemma value_reads_ok: "plain_value v \<Longrightarrow> value_reads F upd v"
proof (induction v)
  case (JList vs)
  then have "\<And>v. v \<in> set vs \<Longrightarrow> value_reads F upd v" "list_all plain_value vs" by (auto simp: list_all_iff)
  then show ?case unfolding value_reads_def [of F upd "JList vs"] by (auto intro!: list_value simp del: events.simps)
next
  case (JObject fs)
  have "value_reads F upd (snd f)" if "f \<in> set fs" for f
    using JObject(1) [OF that, of "snd f"] JObject(2) that by (auto simp: list_all_iff snds.simps)
  then show ?case using JObject(2) unfolding value_reads_def [of F upd "JObject fs"] by (auto intro!: object_value simp del: events.simps)
qed (auto intro: simple_reads)

text \<open>A whole document, whose fields are not indented.\<close>

lemma document_reads:
  assumes "list_all (\<lambda>f. plain (fst f) \<and> plain_value (snd f)) fs" "blanks ind"
    "stands b (document_text r ind fs @ xs) tx m s" "2 * length (document_text r ind fs @ xs) + 4 \<le> n"
  shows "reads (io_bind (next_token rd n) (parseValue F rd (total_maker upd) n)) s xs (fold upd (events (JObject fs)) m)"
proof -
  let ?z = "fields_text r ind 0 False fs @ newline r ind 0 @ CHR ''}'' # xs"
  have st: "stands b (newline r ind 0 @ CHR ''{'' # ?z) tx m s" using assms(3) by (simp add: document_text_def)
  have l: "2 * length (newline r ind 0 @ CHR ''{'' # ?z) + 4 \<le> n" using assms(4) by (simp add: document_text_def)
  have tok: "yields (next_token rd n) s LBRACE True ?z tx m"
    using st newline_blank [OF assms(2)] by (rule next_blank) (use l in \<open>auto intro: next_sign\<close>)
  show ?thesis
    using l value_reads_ok assms(1) by (intro reads_bind [OF tok] object_value [OF _ assms(1,2)]) (auto simp: list_all_iff)
qed

end

text \<open>A block and a buffered stream are such sources.\<close>

interpretation block_chars: char_source BlockInStream_read_char block_in_inv block_left
proof
  fix i assume i: "block_in_inv i"
  show "\<exists>j. BlockInStream_read_char i = (Inr (chr_at (block_left i)), j) \<and> block_in_inv j \<and> block_left j = tl (block_left i)"
  proof (cases "block_left i")
    case Nil
    then show ?thesis using i by (auto simp: BlockInStream_read_char_def block_left_def block_in_inv_def chr_at_def)
  next
    case (Cons c cs)
    then have l: "nat (bk_off i) < length (bk_block i)"
      by (metis block_left_def drop_eq_Nil linorder_not_less list.distinct(1))
    then have d: "bk_block i ! nat (bk_off i) = c" "drop (Suc (nat (bk_off i))) (bk_block i) = cs"
      using Cons Cons_nth_drop_Suc [OF l] by (simp_all add: block_left_def)
    show ?thesis using i l d Cons
      by (auto simp: BlockInStream_read_char_def block_left_def block_in_inv_def nat_add_distrib)
  qed
qed

interpretation buffered_chars: char_source "BufferedInStream_read_char BlockInStream_read" "binp_inv block_in_inv" "binp_left block_left"
  by unfold_locales (rule block_input.binp_read_char_ok)

text \<open>
  The calls that the documentation of \<^verbatim>\<open>Maker\<close> promises for a value; \<^verbatim>\<open>events\<close> are those of them that the
  parser makes: it never calls \<^verbatim>\<open>endObject\<close> and \<^verbatim>\<open>endArray\<close>.
\<close>

fun documented_events :: "jvalue \<Rightarrow> 'd event list" where
  "documented_events JNull = [On_null]"
| "documented_events (JBool b) = [On_bool b]"
| "documented_events (JInt w) = [On_int w]"
| "documented_events (JString t) = [On_string t]"
| "documented_events (JList vs) = Begin_array # concat (map documented_events vs) @ [End_array]"
| "documented_events (JObject fs) = Begin_object # concat (map (\<lambda>f. On_field (fst f) # documented_events (snd f)) fs) @ [End_object]"

fun closing :: "'d event \<Rightarrow> bool" where
  "closing End_object = True"
| "closing End_array = True"
| "closing _ = False"

lemma filter_concat_map:
  "(\<And>x. x \<in> set xs \<Longrightarrow> filter P (f x) = g x) \<Longrightarrow> filter P (concat (map f xs)) = concat (map g xs)"
  by (induction xs) auto

lemma events_documented: "events v = filter (\<lambda>e :: 'd event. \<not> closing e) (documented_events v)"
proof (induction v)
  case (JList vs)
  then have "concat (map events vs) = filter (\<lambda>e :: 'd event. \<not> closing e) (concat (map documented_events vs))"
    by (intro filter_concat_map [symmetric]) simp
  then show ?case by simp
next
  case (JObject fs)
  have "concat (map (\<lambda>f. On_field (fst f) # events (snd f)) fs) =
      filter (\<lambda>e :: 'd event. \<not> closing e) (concat (map (\<lambda>f. On_field (fst f) # documented_events (snd f)) fs))"
    by (intro filter_concat_map [symmetric]) (use JObject in auto)
  then show ?case by simp
qed simp_all

text \<open>
  C29. What the writer writes is read back, for plain objects: their strings hold
  printable ASCII characters without quotes and backslashes, and their integers are not the lowest one.
  Writing such an object in any writer mode, indented with blanks or
  not, ends in the final state with no assertion failed, and the parser accepts the text, directly or
  through a buffered stream, and makes on the maker, in order, the calls that its documentation gives for the object,
  without those that close an object or an array, which it never makes.
  The bound on the turns of the parser is twice the length of the text.
\<close>

theorem json_save_parse:
  assumes "plain_value (JObject fs)" "blanks ind" "2 * length (document_text r ind fs) + 4 \<le> n"
  shows "\<exists>s. save_value (JObject fs) (Saver_new\<lparr>sv_readable := r, sv_indent := ind\<rparr>) = (Inr (), s) \<and> sv_state s = END \<and> sv_stack s = [] \<and>
    sv_out s = document_text r ind fs \<and>
    parse_string F (total_maker upd) n (sv_out s) m = (Inr (), fold upd (filter (\<lambda>e. \<not> closing e) (documented_events (JObject fs))) m) \<and>
    parse_stream F junk BlockInStream_read (total_maker upd) n (BlockInStream_new (sv_out s)) m = (Inr (), fold upd (filter (\<lambda>e. \<not> closing e) (documented_events (JObject fs))) m)"
proof -
  let ?t = "document_text r ind fs"
  have p: "list_all (\<lambda>f. plain (fst f) \<and> plain_value (snd f)) fs" using assms(1) by simp
  let ?s = "\<lambda>i. (Parser_new i m)\<lparr>js_line := 1, js_col := 0, js_prev := nul\<rparr>"
  let ?b = "BlockInStream_new ?t" and ?f = "\<lparr>bi_in = BlockInStream_new ?t, bi_buf = replicate 4096 junk, bi_pos = 0, bi_top = 0, bi_size = 4096\<rparr>"
  have i: "block_in_inv ?b" "block_left ?b = ?t" by (simp_all add: block_in_inv_def block_left_def BlockInStream_new_def)
  have f: "binp_inv block_in_inv ?f" "binp_left block_left ?f = ?t" using i by (simp_all add: binp_inv_def binp_left_def)
  have "block_chars.stands True (?t @ []) [] m (?s ?b)" using i by (simp add: block_chars.stands_def Parser_new_def)
  note a = block_chars.document_reads [OF p assms(2) this, of n F upd]
  have "buffered_chars.stands True (?t @ []) [] m (?s ?f)" using f by (simp add: buffered_chars.stands_def Parser_new_def)
  note b = buffered_chars.document_reads [OF p assms(2) this, of n F upd]
  have "parse_string F (total_maker upd) n ?t m = (Inr (), fold upd (events (JObject fs)) m)"
    using a assms(3) by (auto simp: parse_string_def doParsing_def block_chars.reads_def block_chars.yields_def block_chars.stands_def)
  moreover have "parse_stream F junk BlockInStream_read (total_maker upd) n ?b m = (Inr (), fold upd (events (JObject fs)) m)"
    using b assms(3) by (auto simp: parse_stream_def BufferedInStream_new_def doParsing_def buffered_chars.reads_def buffered_chars.yields_def
        buffered_chars.stands_def)
  ultimately show ?thesis using save_document [OF p, of ind r] by (simp add: Saver_new_def events_documented del: events.simps documented_events.simps)
qed

theorem json_save_parse_witness:
  "let fs = [(''a'', JList [JInt 12, JNull, JList []]), (''b'', JObject [(''c'', JString ''x y'')])];
       F = \<lparr>f_int = id, f_tenth = 0, f_add = (+), f_mult = (*), f_div = (div), f_neg = uminus, f_pow = (\<lambda>x n. x ^ nat n)\<rparr> :: int fops in
     \<exists>s. save_value (JObject fs) (Saver_new\<lparr>sv_readable := True, sv_indent := '' ''\<rparr>) = (Inr (), s) \<and>
       parse_string F (total_maker (\<lambda>e es. es @ [e])) 200 (sv_out s) [] =
         (Inr (), [Begin_object, On_field ''a'', Begin_array, On_int 12, On_null, Begin_array,
            On_field ''b'', Begin_object, On_field ''c'', On_string ''x y''])"
proof -
  let ?fs = "[(''a'', JList [JInt 12, JNull, JList []]), (''b'', JObject [(''c'', JString ''x y'')])]"
  let ?F = "\<lparr>f_int = id, f_tenth = 0, f_add = (+), f_mult = (*), f_div = (div), f_neg = uminus, f_pow = (\<lambda>x n. x ^ nat n)\<rparr> :: int fops"
  have "plain_value (JObject ?fs)" "blanks '' ''" "2 * length (document_text True '' '' ?fs) + 4 \<le> 200" by code_simp+
  from json_save_parse [OF this, of ?F "\<lambda>e es. es @ [e]" "[]" nul] show ?thesis unfolding Let_def by auto
qed


section \<open>Texts that are mistreated\<close>

definition record_call :: "'d event \<Rightarrow> 'd event list \<Rightarrow> 'd event list" where
  "record_call e es = es @ [e]"

lemma nextChar_ended:
  assumes "js_prev s = nul" "block_left (js_in s) = []" "block_in_inv (js_in s)"
  shows "nextChar BlockInStream_read_char s = (Inr nul, s)"
proof -
  have "BlockInStream_read_char (js_in s) = (Inr STREAM_ENDED, js_in s)"
    using assms(2,3) by (auto simp: BlockInStream_read_char_def block_left_def block_in_inv_def)
  then show ?thesis using assms(1) by (simp add: nextChar_def STREAM_FAILED_def STREAM_ENDED_def)
qed

text \<open>At the end of the text a string and a comment never end.\<close>

lemma string_loop_ended:
  assumes "js_prev s = nul" "block_left (js_in s) = []" "block_in_inv (js_in s)" "q \<noteq> nul"
  shows "string_loop BlockInStream_read_char n q buf nul s = (Inl Out_of_fuel, s)"
  using nextChar_ended [OF assms(1-3)] assms(4)
  by (induction n arbitrary: buf) (auto simp: io_fail_def io_bind_def io_return_def)

lemma block_comment_ended:
  assumes "js_prev s = nul" "block_left (js_in s) = []" "block_in_inv (js_in s)"
  shows "block_comment BlockInStream_read_char n s = (Inl Out_of_fuel, s)"
  using nextChar_ended [OF assms]
  by (induction n) (auto simp: io_fail_def io_bind_def)


lemma unterminated_string: "parse_string F mk n quote m = (Inl Out_of_fuel, m)"
proof (cases n)
  case 0
  then show ?thesis by (simp add: parse_string_def doParsing_def io_fail_def Parser_new_def)
next
  case (Suc k)
  let ?s = "\<lparr>js_in = \<lparr>bk_block = [CHR 0x22], bk_off = 1\<rparr>, js_line = 1, js_col = 0, js_text = [], js_prev = nul, js_maker = m\<rparr>"
  have e: "js_prev ?s = nul" "block_left (js_in ?s) = []" "block_in_inv (js_in ?s)" by (simp_all add: block_left_def block_in_inv_def)
  have "nextChar BlockInStream_read_char (?s\<lparr>js_in := BlockInStream_new [CHR 0x22]\<rparr>) = (Inr CHR 0x22, ?s)"
    by (simp add: nextChar_def BlockInStream_read_char_def BlockInStream_new_def STREAM_FAILED_def STREAM_ENDED_def) code_simp
  then show ?thesis using nextChar_ended [OF e] string_loop_ended [OF e, of "CHR 0x22" k "[]"]
    by (simp add: Suc parse_string_def doParsing_def Parser_new_def io_bind_def token_switch_def parseString_def)
qed

text \<open>
  Texts that the writer and the parser mistreat: two lists that differ by their nesting give the
  same calls, since the ends of lists and objects are never signalled; an escaped character disappears
  from a string; a character given by four digits is added at each of its digits; a hexadecimal
  number that holds the digit E is a floating-point number; a list is refused as the whole document;
  and on a string that is not closed the parser never returns.
\<close>

lemma json_defects:
  fixes F :: "('d :: equal) fops" and mk :: "'d event \<Rightarrow> ('m, unit) io"
  shows "parse_string F (total_maker record_call) 40 ''[[1],2]'' [] = parse_string F (total_maker record_call) 40 ''[[1,2]]'' [] \<and>
    parse_string F (total_maker record_call) 40 (quote @ ''a'' @ [char_of (92 :: nat)] @ ''nb'' @ quote) [] = (Inr (), [On_string ''ab'']) \<and>
    parse_string F (total_maker record_call) 40 (quote @ [char_of (92 :: nat)] @ ''u0041'' @ quote) [] =
      (Inr (), [On_string [nul, nul, char_of (4 :: nat), CHR ''A'']]) \<and>
    fst (next_token BlockInStream_read_char 40 (Parser_new (BlockInStream_new ''0x1e'') ())) = Inr FLOAT \<and>
    fst (beginList Saver_new) = Inl Assertion_failed \<and>
    parse_string F mk n quote m = (Inl Out_of_fuel, m)"
proof (intro conjI)
  show "parse_string F (total_maker record_call) 40 ''[[1],2]'' [] = parse_string F (total_maker record_call) 40 ''[[1,2]]'' []" by code_simp
  show "parse_string F (total_maker record_call) 40 (quote @ ''a'' @ [char_of (92 :: nat)] @ ''nb'' @ quote) [] = (Inr (), [On_string ''ab''])" by code_simp
  show "parse_string F (total_maker record_call) 40 (quote @ [char_of (92 :: nat)] @ ''u0041'' @ quote) [] =
      (Inr (), [On_string [nul, nul, char_of (4 :: nat), CHR ''A'']])" by code_simp
  show "fst (next_token BlockInStream_read_char 40 (Parser_new (BlockInStream_new ''0x1e'') ())) = Inr FLOAT" by code_simp
  show "fst (beginList Saver_new) = Inl Assertion_failed" by code_simp
  show "parse_string F mk n quote m = (Inl Out_of_fuel, m)" by (rule unterminated_string)
qed

end
