(* ===== verification/Elm_Vector.thy ===== *)
theory Elm_Vector
  imports Elm_Prelude
begin

unbundle bit_operations_syntax

text \<open>
  Growing arrays, \<^verbatim>\<open>data/Vector.h\<close> and \<^verbatim>\<open>data/FragTable.h\<close>, with the copies of \<^verbatim>\<open>array.h\<close>: a vector is one
  block that doubles, a fragmented table a vector of pages of the same size. Both are refinements
  of lists under sequences of operations, through one locale of arrays.

  A new block holds unknown items: \<^verbatim>\<open>junk\<close> stands for them. \<^verbatim>\<open>int\<close> variables are integers, and the
  doubling of a capacity wraps around as on 32 bits.
\<close>

section \<open>Blocks\<close>

definition wrap32 :: "int \<Rightarrow> int" where
  "wrap32 n = signed_take_bit 31 n"

definition arr_get :: "int \<Rightarrow> 'a list option \<Rightarrow> 'a res" where
  "arr_get i t = (case t of None \<Rightarrow> Inl Null_dereference | Some xs \<Rightarrow> if 0 \<le> i \<and> i < int (length xs) then Inr (xs ! nat i) else Inl Out_of_bounds)"

definition arr_set :: "int \<Rightarrow> 'a \<Rightarrow> 'a list option \<Rightarrow> 'a list option res" where
  "arr_set i x t = (case t of None \<Rightarrow> Inl Null_dereference
     | Some xs \<Rightarrow> if 0 \<le> i \<and> i < int (length xs) then Inr (Some (xs[nat i := x])) else Inl Out_of_bounds)"

text \<open>\<^verbatim>\<open>array::copy\<close> to another block; a null source is that of no item.\<close>

definition array_copy :: "'a list \<Rightarrow> 'a list option \<Rightarrow> int \<Rightarrow> 'a list res" where
  "array_copy target source n =
     (let src = (case source of None \<Rightarrow> [] | Some xs \<Rightarrow> xs) in
      if 0 \<le> n \<and> n \<le> int (length target) \<and> n \<le> int (length src) then Inr (take (nat n) src @ drop (nat n) target)
      else Inl Out_of_bounds)"

text \<open>
  \<^verbatim>\<open>array::move\<close> inside a block, from \<^verbatim>\<open>s\<close> to \<^verbatim>\<open>d\<close>: item by item for the types that need it (\<^verbatim>\<open>slow\<close>),
  and by \<^verbatim>\<open>memmove\<close> for the others (\<^verbatim>\<open>fast\<close>), that gets a negative size as a huge one.
\<close>

function slow_copy :: "int \<Rightarrow> int \<Rightarrow> int \<Rightarrow> int \<Rightarrow> 'a list option \<Rightarrow> 'a list option res" where
  "slow_copy d s n i t = (if i < n then bind_res (arr_get (s + i) t) (\<lambda>x. bind_res (arr_set (d + i) x t) (slow_copy d s n (i + 1))) else Inr t)"
  by pat_completeness auto
termination by (relation "measure (\<lambda>(d, s, n, i, t). nat (n - i))") auto

function slow_copy_back :: "int \<Rightarrow> int \<Rightarrow> int \<Rightarrow> 'a list option \<Rightarrow> 'a list option res" where
  "slow_copy_back d s i t = (if 0 \<le> i then bind_res (arr_get (s + i) t) (\<lambda>x. bind_res (arr_set (d + i) x t) (slow_copy_back d s (i - 1))) else Inr t)"
  by pat_completeness auto
termination by (relation "measure (\<lambda>(d, s, i, t). nat (i + 1))") auto

declare slow_copy.simps [simp del] slow_copy_back.simps [simp del]

definition slow_move :: "int \<Rightarrow> int \<Rightarrow> int \<Rightarrow> 'a list option \<Rightarrow> 'a list option res" where
  "slow_move d s n t = (if d < s then slow_copy d s n 0 t else slow_copy_back d s (n - 1) t)"

definition fast_move :: "int \<Rightarrow> int \<Rightarrow> int \<Rightarrow> 'a list option \<Rightarrow> 'a list option res" where
  "fast_move d s n t =
     (if n = 0 then Inr t
      else case t of
        None \<Rightarrow> Inl Null_dereference
      | Some xs \<Rightarrow>
          if 0 \<le> n \<and> 0 \<le> d \<and> 0 \<le> s \<and> d + n \<le> int (length xs) \<and> s + n \<le> int (length xs)
          then Inr (Some (take (nat d) xs @ take (nat n) (drop (nat s) xs) @ drop (nat (d + n)) xs))
          else Inl Out_of_bounds)"

definition array_move :: "bool \<Rightarrow> int \<Rightarrow> int \<Rightarrow> int \<Rightarrow> 'a list option \<Rightarrow> 'a list option res" where
  "array_move deep d s n t = (if deep then slow_move d s n t else fast_move d s n t)"


section \<open>Vectors\<close>

record 'a vector =
  v_tab :: "'a list option"
  v_cap :: int
  v_cnt :: int

definition newVec :: "'a \<Rightarrow> int \<Rightarrow> 'a list" where
  "newVec junk n = replicate (nat n) junk"

definition Vector_new :: "'a \<Rightarrow> int \<Rightarrow> 'a vector" where
  "Vector_new junk c = \<lparr>v_tab = Some (newVec junk c), v_cap = c, v_cnt = 0\<rparr>"

definition Vector_grow :: "'a \<Rightarrow> int \<Rightarrow> 'a vector \<Rightarrow> 'a vector res" where
  "Vector_grow junk new_cap v =
     bind_res (assert_res (v_cap v \<le> new_cap)) (\<lambda>_.
     bind_res (array_copy (newVec junk new_cap) (v_tab v) (v_cnt v)) (\<lambda>t.
       Inr (v\<lparr>v_tab := Some t, v_cap := new_cap\<rparr>)))"

text \<open>
  The capacity that \<^verbatim>\<open>setLength\<close> searches: after 32 doublings the value is 0 for ever, and a
  search that has not ended then never ends.
\<close>

fun cap_loop :: "nat \<Rightarrow> int \<Rightarrow> int \<Rightarrow> int res" where
  "cap_loop 0 new_cap new_length = Inl Out_of_fuel"
| "cap_loop (Suc k) new_cap new_length = (if new_cap < new_length then cap_loop k (wrap32 (new_cap * 2)) new_length else Inr new_cap)"

definition Vector_setLength :: "'a \<Rightarrow> int \<Rightarrow> 'a vector \<Rightarrow> 'a vector res" where
  "Vector_setLength junk new_length v =
     bind_res (assert_res (0 \<le> new_length)) (\<lambda>_.
     bind_res (cap_loop 34 1 new_length) (\<lambda>new_cap.
     bind_res (if v_cap v < new_cap then Vector_grow junk new_cap v else Inr v) (\<lambda>v. Inr (v\<lparr>v_cnt := new_length\<rparr>))))"

definition grow_full :: "'a \<Rightarrow> 'a vector \<Rightarrow> 'a vector res" where
  "grow_full junk v = (if v_cap v \<le> v_cnt v then Vector_grow junk (wrap32 (v_cap v * 2)) v else Inr v)"

definition Vector_add :: "'a \<Rightarrow> 'a \<Rightarrow> 'a vector \<Rightarrow> 'a vector res" where
  "Vector_add junk x v =
     bind_res (grow_full junk v) (\<lambda>v. bind_res (arr_set (v_cnt v) x (v_tab v)) (\<lambda>t. Inr (v\<lparr>v_tab := t, v_cnt := v_cnt v + 1\<rparr>)))"

text \<open>\<^verbatim>\<open>addNew\<close> returns the index of the item, that the caller then assigns.\<close>

definition Vector_addNew :: "'a \<Rightarrow> 'a vector \<Rightarrow> (int \<times> 'a vector) res" where
  "Vector_addNew junk v = bind_res (grow_full junk v) (\<lambda>v. Inr (v_cnt v, v\<lparr>v_cnt := v_cnt v + 1\<rparr>))"

fun Vector_addAll :: "'a \<Rightarrow> 'a list \<Rightarrow> 'a vector \<Rightarrow> 'a vector res" where
  "Vector_addAll junk [] v = Inr v"
| "Vector_addAll junk (x # xs) v = bind_res (Vector_add junk x v) (Vector_addAll junk xs)"

definition Vector_detach :: "'a vector \<Rightarrow> (int \<times> 'a list option) \<times> 'a vector" where
  "Vector_detach v = ((v_cnt v, v_tab v), v\<lparr>v_tab := None, v_cnt := 0\<rparr>)"

definition Vector_clear :: "'a vector \<Rightarrow> 'a vector" where
  "Vector_clear v = v\<lparr>v_cnt := 0\<rparr>"

definition Vector_isEmpty :: "'a vector \<Rightarrow> bool" where
  "Vector_isEmpty v \<longleftrightarrow> v_cnt v = 0"

text \<open>The access through a constant vector, and through another one, that does not test negative indexes.\<close>

definition Vector_get :: "int \<Rightarrow> 'a vector \<Rightarrow> 'a res" where
  "Vector_get i v = bind_res (assert_res (0 \<le> i \<and> i < v_cnt v)) (\<lambda>_. arr_get i (v_tab v))"

definition Vector_get_mut :: "int \<Rightarrow> 'a vector \<Rightarrow> 'a res" where
  "Vector_get_mut i v = bind_res (assert_res (i < v_cnt v)) (\<lambda>_. arr_get i (v_tab v))"

definition Vector_set :: "int \<Rightarrow> 'a \<Rightarrow> 'a vector \<Rightarrow> 'a vector res" where
  "Vector_set i x v =
     bind_res (assert_res (0 \<le> i \<and> i < v_cnt v)) (\<lambda>_. bind_res (arr_set i x (v_tab v)) (\<lambda>t. Inr (v\<lparr>v_tab := t\<rparr>)))"

definition Vector_shrink :: "int \<Rightarrow> 'a vector \<Rightarrow> 'a vector res" where
  "Vector_shrink l v = bind_res (assert_res (0 \<le> l \<and> l \<le> v_cnt v)) (\<lambda>_. Inr (v\<lparr>v_cnt := l\<rparr>))"

definition Vector_insert :: "'a \<Rightarrow> bool \<Rightarrow> int \<Rightarrow> 'a \<Rightarrow> 'a vector \<Rightarrow> 'a vector res" where
  "Vector_insert junk deep i x v =
     bind_res (assert_res (0 \<le> i \<and> i \<le> v_cnt v)) (\<lambda>_.
     bind_res (grow_full junk v) (\<lambda>v.
     bind_res (array_move deep (i + 1) i (v_cnt v - i) (v_tab v)) (\<lambda>t.
     bind_res (arr_set i x t) (\<lambda>t. Inr (v\<lparr>v_tab := t, v_cnt := v_cnt v + 1\<rparr>)))))"

definition Vector_removeAt :: "bool \<Rightarrow> int \<Rightarrow> 'a vector \<Rightarrow> 'a vector res" where
  "Vector_removeAt deep i v =
     bind_res (assert_res (0 \<le> i \<and> i \<le> v_cnt v)) (\<lambda>_.
     bind_res (array_move deep i (i + 1) (v_cnt v - i - 1) (v_tab v)) (\<lambda>t. Inr (v\<lparr>v_tab := t, v_cnt := v_cnt v - 1\<rparr>)))"

text \<open>Searches, with the equivalence of the items as a parameter.\<close>

function index_loop :: "('a \<Rightarrow> 'a \<Rightarrow> bool) \<Rightarrow> 'a \<Rightarrow> int \<Rightarrow> 'a vector \<Rightarrow> int res" where
  "index_loop eq x i v =
     (if i < v_cnt v then bind_res (arr_get i (v_tab v)) (\<lambda>y. if eq x y then Inr i else index_loop eq x (i + 1) v) else Inr (- 1))"
  by pat_completeness auto
termination by (relation "measure (\<lambda>(eq, x, i, v). nat (v_cnt v - i))") auto

function last_index_loop :: "('a \<Rightarrow> 'a \<Rightarrow> bool) \<Rightarrow> 'a \<Rightarrow> int \<Rightarrow> 'a vector \<Rightarrow> int res" where
  "last_index_loop eq x i v =
     (if 0 \<le> i then bind_res (arr_get i (v_tab v)) (\<lambda>y. if eq x y then Inr i else last_index_loop eq x (i - 1) v) else Inr (- 1))"
  by pat_completeness auto
termination by (relation "measure (\<lambda>(eq, x, i, v). nat (i + 1))") auto

declare index_loop.simps [simp del] last_index_loop.simps [simp del]

definition Vector_indexOf :: "('a \<Rightarrow> 'a \<Rightarrow> bool) \<Rightarrow> 'a \<Rightarrow> int \<Rightarrow> 'a vector \<Rightarrow> int res" where
  "Vector_indexOf eq x p v = bind_res (assert_res (0 \<le> p \<and> p \<le> v_cnt v)) (\<lambda>_. index_loop eq x p v)"

definition Vector_lastIndexOf :: "('a \<Rightarrow> 'a \<Rightarrow> bool) \<Rightarrow> 'a \<Rightarrow> int \<Rightarrow> 'a vector \<Rightarrow> int res" where
  "Vector_lastIndexOf eq x p v =
     bind_res (assert_res (p \<le> v_cnt v)) (\<lambda>_. last_index_loop eq x ((if p < 0 then v_cnt v else p) - 1) v)"

definition Vector_remove :: "bool \<Rightarrow> ('a \<Rightarrow> 'a \<Rightarrow> bool) \<Rightarrow> 'a \<Rightarrow> 'a vector \<Rightarrow> 'a vector res" where
  "Vector_remove deep eq x v = bind_res (Vector_indexOf eq x 0 v) (\<lambda>i. if 0 \<le> i then Vector_removeAt deep i v else Inr v)"

fun Vector_removeAll :: "bool \<Rightarrow> ('a \<Rightarrow> 'a \<Rightarrow> bool) \<Rightarrow> 'a list \<Rightarrow> 'a vector \<Rightarrow> 'a vector res" where
  "Vector_removeAll deep eq [] v = Inr v"
| "Vector_removeAll deep eq (x # xs) v = bind_res (Vector_remove deep eq x v) (Vector_removeAll deep eq xs)"

text \<open>The loops of \<^verbatim>\<open>contains\<close> and \<^verbatim>\<open>equals\<close>, over an iterator and over the items of another collection.\<close>

function contains_loop :: "'a \<Rightarrow> int \<Rightarrow> 'a vector \<Rightarrow> bool res" where
  "contains_loop x i v =
     (if i < v_cnt v then bind_res (Vector_get i v) (\<lambda>y. if x = y then Inr True else contains_loop x (i + 1) v) else Inr False)"
  by pat_completeness auto
termination by (relation "measure (\<lambda>(x, i, v). nat (v_cnt v - i))") auto

declare contains_loop.simps [simp del]

definition Vector_contains :: "'a \<Rightarrow> 'a vector \<Rightarrow> bool res" where
  "Vector_contains x v = contains_loop x 0 v"

fun Vector_containsAll :: "'a list \<Rightarrow> 'a vector \<Rightarrow> bool res" where
  "Vector_containsAll [] v = Inr True"
| "Vector_containsAll (x # xs) v = bind_res (Vector_contains x v) (\<lambda>b. if b then Vector_containsAll xs v else Inr False)"

fun vec_equals_loop :: "('a \<Rightarrow> 'a \<Rightarrow> bool) \<Rightarrow> int \<Rightarrow> 'a list \<Rightarrow> 'a vector \<Rightarrow> bool res" where
  "vec_equals_loop eq i [] v = Inr (i = v_cnt v)"
| "vec_equals_loop eq i (x # xs) v =
     (if v_cnt v \<le> i then Inr False
      else bind_res (arr_get i (v_tab v)) (\<lambda>y. if \<not> eq y x then Inr False else vec_equals_loop eq (i + 1) xs v))"

definition Vector_equals :: "('a \<Rightarrow> 'a \<Rightarrow> bool) \<Rightarrow> 'a list \<Rightarrow> 'a vector \<Rightarrow> bool res" where
  "Vector_equals eq xs v = vec_equals_loop eq 0 xs v"

definition Vector_copy :: "'a \<Rightarrow> 'a vector \<Rightarrow> 'a vector \<Rightarrow> 'a vector res" where
  "Vector_copy junk vec v =
     (let v = (if v_tab v = None \<or> v_cap v < v_cnt vec then v\<lparr>v_tab := Some (newVec junk (v_cap vec)), v_cap := v_cap vec\<rparr> else v) in
      bind_res (array_copy (case v_tab v of None \<Rightarrow> [] | Some t \<Rightarrow> t) (v_tab vec) (v_cnt vec)) (\<lambda>t.
        Inr (v\<lparr>v_tab := Some t, v_cnt := v_cnt vec\<rparr>)))"

definition Vector_new_copy :: "'a \<Rightarrow> 'a vector \<Rightarrow> 'a vector res" where
  "Vector_new_copy junk vec = Vector_copy junk vec \<lparr>v_tab = None, v_cap = 0, v_cnt = 0\<rparr>"

text \<open>The vector as a list and as a stack.\<close>

definition Vector_first :: "'a vector \<Rightarrow> 'a res" where
  "Vector_first v = bind_res (assert_res (0 < v_cnt v)) (\<lambda>_. arr_get 0 (v_tab v))"

definition Vector_last :: "'a vector \<Rightarrow> 'a res" where
  "Vector_last v = bind_res (assert_res (0 < v_cnt v)) (\<lambda>_. arr_get (v_cnt v - 1) (v_tab v))"

definition Vector_addFirst :: "'a \<Rightarrow> bool \<Rightarrow> 'a \<Rightarrow> 'a vector \<Rightarrow> 'a vector res" where
  "Vector_addFirst junk deep x v = Vector_insert junk deep 0 x v"

definition Vector_removeFirst :: "bool \<Rightarrow> 'a vector \<Rightarrow> 'a vector res" where
  "Vector_removeFirst deep v = Vector_removeAt deep 0 v"

definition Vector_removeLast :: "bool \<Rightarrow> 'a vector \<Rightarrow> 'a vector res" where
  "Vector_removeLast deep v = Vector_removeAt deep (v_cnt v - 1) v"

definition Vector_addAfter :: "'a \<Rightarrow> bool \<Rightarrow> int \<Rightarrow> 'a \<Rightarrow> 'a vector \<Rightarrow> 'a vector res" where
  "Vector_addAfter junk deep i x v = Vector_insert junk deep (i + 1) x v"

definition Vector_addBefore :: "'a \<Rightarrow> bool \<Rightarrow> int \<Rightarrow> 'a \<Rightarrow> 'a vector \<Rightarrow> 'a vector res" where
  "Vector_addBefore junk deep i x v = Vector_insert junk deep i x v"

definition Vector_removeBefore :: "bool \<Rightarrow> int \<Rightarrow> 'a vector \<Rightarrow> 'a vector res" where
  "Vector_removeBefore deep i v = Vector_removeAt deep (i - 1) v"

definition Vector_removeAfter :: "bool \<Rightarrow> int \<Rightarrow> 'a vector \<Rightarrow> 'a vector res" where
  "Vector_removeAfter deep i v = Vector_removeAt deep (i + 1) v"

definition Vector_push :: "'a \<Rightarrow> 'a \<Rightarrow> 'a vector \<Rightarrow> 'a vector res" where
  "Vector_push junk x v = Vector_add junk x v"

definition Vector_pop :: "'a vector \<Rightarrow> ('a \<times> 'a vector) res" where
  "Vector_pop v =
     bind_res (assert_res (0 < v_cnt v)) (\<lambda>_. bind_res (arr_get (v_cnt v - 1) (v_tab v)) (\<lambda>x. Inr (x, v\<lparr>v_cnt := v_cnt v - 1\<rparr>)))"

definition Vector_top :: "'a vector \<Rightarrow> 'a res" where
  "Vector_top v = Vector_last v"

definition Vector_top_mut :: "'a vector \<Rightarrow> 'a res" where
  "Vector_top_mut v = arr_get (v_cnt v - 1) (v_tab v)"


section \<open>Moves\<close>

text \<open>The effect of a move: the positions from \<^verbatim>\<open>a\<close> to \<^verbatim>\<open>b\<close> get the items at the distance of the source.\<close>

definition moved :: "int \<Rightarrow> int \<Rightarrow> int \<Rightarrow> int \<Rightarrow> 'a list \<Rightarrow> 'a list" where
  "moved d s a b xs = map (\<lambda>j. if a \<le> int j \<and> int j < b then xs ! nat (s + int j - d) else xs ! j) [0..<length xs]"

lemma length_moved [simp]: "length (moved d s a b xs) = length xs"
  by (simp add: moved_def)

lemma nth_moved [simp]:
  "j < length xs \<Longrightarrow> moved d s a b xs ! j = (if a \<le> int j \<and> int j < b then xs ! nat (s + int j - d) else xs ! j)"
  by (simp add: moved_def)

lemma moved_none: "b \<le> a \<Longrightarrow> moved d s a b xs = xs"
  by (intro nth_equalityI) auto

lemma arr_get_Some [simp]: "0 \<le> i \<Longrightarrow> i < int (length xs) \<Longrightarrow> arr_get i (Some xs) = Inr (xs ! nat i)"
  by (simp add: arr_get_def)

lemma arr_set_Some [simp]: "0 \<le> i \<Longrightarrow> i < int (length xs) \<Longrightarrow> arr_set i x (Some xs) = Inr (Some (xs[nat i := x]))"
  by (simp add: arr_set_def)

text \<open>A move up or down by one more item.\<close>

lemma moved_up:
  assumes "0 \<le> d" "d < s" "s + n \<le> int (length xs)" "0 \<le> i" "i < n"
  shows "moved d s (d + (i + 1)) (d + n) (xs[nat (d + i) := xs ! nat (s + i)]) = moved d s (d + i) (d + n) xs"
  using assms by (intro nth_equalityI) (auto simp: nth_list_update)

lemma moved_down:
  assumes "0 \<le> s" "s \<le> d" "d + i < int (length xs)" "0 \<le> i"
  shows "moved d s d (d + i) (xs[nat (d + i) := xs ! nat (s + i)]) = moved d s d (d + i + 1) xs"
proof (intro nth_equalityI)
  let ?ys = "xs[nat (d + i) := xs ! nat (s + i)]"
  fix j assume j: "j < length (moved d s d (d + i) ?ys)"
  have l: "nat (d + i) < length xs" using assms by simp
  consider "int j < d \<or> d + i < int j" | "int j = d + i" | "d \<le> int j" "int j < d + i" by linarith
  then show "moved d s d (d + i) ?ys ! j = moved d s d (d + i + 1) xs ! j"
  proof cases
    case 3
    then have "nat (s + int j - d) \<noteq> nat (d + i)" using assms by linarith
    then show ?thesis using j 3 l by (simp add: nth_list_update)
  qed (use j l assms in \<open>auto simp: nth_list_update\<close>)
qed simp

lemma slow_copy_ok:
  assumes "0 \<le> d" "d < s" "s + n \<le> int (length xs)" "0 \<le> i" "i \<le> n"
  shows "slow_copy d s n i (Some xs) = Inr (Some (moved d s (d + i) (d + n) xs))"
  using assms
proof (induction "nat (n - i)" arbitrary: i xs)
  case 0
  then show ?case by (simp add: slow_copy.simps moved_none)
next
  case (Suc k)
  let ?ys = "xs[nat (d + i) := xs ! nat (s + i)]"
  have lt: "i < n" using Suc.hyps(2) by simp
  have "slow_copy d s n i (Some xs) = slow_copy d s n (i + 1) (Some ?ys)"
    using lt Suc.prems by (subst slow_copy.simps) simp
  then show ?case using Suc.hyps(1) [of "i + 1" ?ys] Suc.hyps(2) Suc.prems lt moved_up [of d s n xs i] by simp
qed

lemma slow_copy_back_ok:
  assumes "0 \<le> s" "s \<le> d" "d + i < int (length xs)" "- 1 \<le> i"
  shows "slow_copy_back d s i (Some xs) = Inr (Some (moved d s d (d + i + 1) xs))"
  using assms
proof (induction "nat (i + 1)" arbitrary: i xs)
  case 0
  then show ?case by (simp add: slow_copy_back.simps moved_none)
next
  case (Suc k)
  let ?ys = "xs[nat (d + i) := xs ! nat (s + i)]"
  have lt: "0 \<le> i" using Suc.hyps(2) by simp
  have "slow_copy_back d s i (Some xs) = slow_copy_back d s (i - 1) (Some ?ys)"
    using lt Suc.prems by (subst slow_copy_back.simps) simp
  then show ?case using Suc.hyps(1) [of "i - 1" ?ys] Suc.hyps(2) Suc.prems lt moved_down [of s d i xs] by (simp add: ac_simps)
qed

text \<open>The moves of an insertion and of a removal.\<close>

lemma insert_moved:
  assumes "k \<le> n" "n < length t"
  shows "take (Suc n) ((moved (int k + 1) (int k) (int k + 1) (1 + int n) t)[k := x]) = take k t @ x # drop k (take n t)"
proof (intro nth_equalityI)
  let ?m = "moved (int k + 1) (int k) (int k + 1) (1 + int n) t"
  fix j assume "j < length (take (Suc n) (?m[k := x]))"
  then have "j < Suc n" by simp
  then show "take (Suc n) (?m[k := x]) ! j = (take k t @ x # drop k (take n t)) ! j"
    using assms by (auto simp: nth_append nth_list_update nth_Cons' intro!: arg_cong [where f = "(!) t"])
qed (use assms in auto)

lemma remove_moved:
  assumes "k < n" "n \<le> length t"
  shows "take (n - 1) (moved (int k) (int k + 1) (int k) (int n - 1) t) = take k t @ drop (Suc k) (take n t)"
proof (intro nth_equalityI)
  let ?m = "moved (int k) (int k + 1) (int k) (int n - 1) t"
  fix j assume "j < length (take (n - 1) ?m)"
  then have "j < n - 1" by simp
  then show "take (n - 1) ?m ! j = (take k t @ drop (Suc k) (take n t)) ! j"
    using assms by (auto simp: nth_append intro!: arg_cong [where f = "(!) t"])
qed (use assms in auto)

text \<open>The two implementations of a move do the same inside the block, whatever the overlap.\<close>

lemma array_move_ok:
  assumes "0 \<le> n" "0 \<le> d" "0 \<le> s" "d + n \<le> int (length xs)" "s + n \<le> int (length xs)"
  shows "array_move deep d s n (Some xs) = Inr (Some (moved d s d (d + n) xs))"
proof (cases deep)
  case True
  then show ?thesis using assms slow_copy_ok [of d s n xs 0] slow_copy_back_ok [of s d "n - 1" xs]
    by (auto simp: array_move_def slow_move_def)
next
  case False
  have "take (nat d) xs @ take (nat n) (drop (nat s) xs) @ drop (nat (d + n)) xs = moved d s d (d + n) xs"
    using assms by (intro nth_equalityI) (auto simp: nth_append nat_add_distrib algebra_simps intro!: arg_cong [where f = "(!) xs"])
  then show ?thesis using False assms by (auto simp: array_move_def fast_move_def moved_none)
qed


section \<open>The contract of arrays\<close>

text \<open>The operations on an array, their effect on a list, and when their indexes are right.\<close>

datatype 'a arr_op = Add 'a | Set int 'a | Insert int 'a | RemoveAt int | Shrink int | Clear

fun list_step :: "'a arr_op \<Rightarrow> 'a list \<Rightarrow> 'a list" where
  "list_step (Add x) xs = xs @ [x]"
| "list_step (Set i x) xs = xs[nat i := x]"
| "list_step (Insert i x) xs = take (nat i) xs @ x # drop (nat i) xs"
| "list_step (RemoveAt i) xs = take (nat i) xs @ drop (Suc (nat i)) xs"
| "list_step (Shrink n) xs = take (nat n) xs"
| "list_step Clear xs = []"

fun op_valid :: "'a arr_op \<Rightarrow> nat \<Rightarrow> bool" where
  "op_valid (Set i x) n = (0 \<le> i \<and> i < int n)"
| "op_valid (Insert i x) n = (0 \<le> i \<and> i \<le> int n)"
| "op_valid (RemoveAt i) n = (0 \<le> i \<and> i < int n)"
| "op_valid (Shrink l) n = (0 \<le> l \<and> l < int n)"
| "op_valid _ n = True"

text \<open>A run is valid when each of its operations is, and is allowed, on the list it meets.\<close>

fun run_valid :: "(nat \<Rightarrow> bool) \<Rightarrow> ('a arr_op \<Rightarrow> nat \<Rightarrow> bool) \<Rightarrow> 'a arr_op list \<Rightarrow> 'a list \<Rightarrow> bool" where
  "run_valid fits allowed [] xs = True"
| "run_valid fits allowed (p # ps) xs =
     (fits (length xs) \<and> allowed p (length xs) \<and> op_valid p (length xs) \<and> run_valid fits allowed ps (list_step p xs))"

fun arr_run :: "('a arr_op \<Rightarrow> 'v \<Rightarrow> 'v res) \<Rightarrow> 'a arr_op list \<Rightarrow> 'v \<Rightarrow> 'v res" where
  "arr_run step [] v = Inr v"
| "arr_run step (p # ps) v = bind_res (step p v) (arr_run step ps)"

locale growing_array =
  fixes inv :: "'v \<Rightarrow> bool"
    and contents :: "'v \<Rightarrow> 'a list"
    and fits :: "nat \<Rightarrow> bool"
    and allowed :: "'a arr_op \<Rightarrow> nat \<Rightarrow> bool"
    and step :: "'a arr_op \<Rightarrow> 'v \<Rightarrow> 'v res"
    and get :: "int \<Rightarrow> 'v \<Rightarrow> 'a res"
  assumes step_law: "inv v \<Longrightarrow> allowed p (length (contents v)) \<Longrightarrow> fits (length (contents v)) \<Longrightarrow> op_valid p (length (contents v)) \<Longrightarrow>
      \<exists>v'. step p v = Inr v' \<and> inv v' \<and> contents v' = list_step p (contents v)"
    and get_law: "inv v \<Longrightarrow> get i v = (if 0 \<le> i \<and> i < int (length (contents v)) then Inr (contents v ! nat i) else Inl Assertion_failed)"
begin

lemma run_refines:
  "inv v \<Longrightarrow> run_valid fits allowed ps (contents v) \<Longrightarrow>
   \<exists>v'. arr_run step ps v = Inr v' \<and> inv v' \<and> contents v' = fold list_step ps (contents v)"
proof (induction ps arbitrary: v)
  case (Cons p ps)
  then obtain u where u: "step p v = Inr u" "inv u" "contents u = list_step p (contents v)" using step_law by fastforce
  then show ?case using Cons.IH [of u] Cons.prems by auto
qed simp

lemma run_get:
  assumes "inv v" "run_valid fits allowed ps (contents v)"
  shows "\<exists>v'. arr_run step ps v = Inr v' \<and> inv v' \<and> (\<forall>i. get i v' =
    (let xs = fold list_step ps (contents v) in if 0 \<le> i \<and> i < int (length xs) then Inr (xs ! nat i) else Inl Assertion_failed))"
  using run_refines [OF assms] get_law by (auto simp: Let_def)

end


section \<open>Vectors as lists\<close>

definition vector_inv :: "'a vector \<Rightarrow> bool" where
  "vector_inv v \<longleftrightarrow> (\<exists>t. v_tab v = Some t \<and> int (length t) = v_cap v) \<and> 0 \<le> v_cnt v \<and> v_cnt v \<le> v_cap v \<and> 0 < v_cap v"

definition vec_items :: "'a vector \<Rightarrow> 'a list" where
  "vec_items v = (case v_tab v of None \<Rightarrow> [] | Some t \<Rightarrow> take (nat (v_cnt v)) t)"

definition vec_fits :: "nat \<Rightarrow> bool" where
  "vec_fits n \<longleftrightarrow> n < 2 ^ 30"

lemma wrap32_id: "- (2 ^ 31) \<le> n \<Longrightarrow> n < 2 ^ 31 \<Longrightarrow> wrap32 n = n"
  unfolding wrap32_def by (subst signed_take_bit_int_eq_self) auto

lemma vector_invE:
  assumes "vector_inv v"
  obtains t n where "v_tab v = Some t" "v_cap v = int (length t)" "v_cnt v = int n" "n \<le> length t" "t \<noteq> []"
    "vec_items v = take n t" "length (vec_items v) = n"
proof -
  obtain t where t: "v_tab v = Some t" "int (length t) = v_cap v" using assms by (auto simp: vector_inv_def)
  moreover obtain n where n: "v_cnt v = int n" using assms nonneg_int_cases [of "v_cnt v"] by (auto simp: vector_inv_def)
  moreover have "t \<noteq> []" using t(2) assms by (auto simp: vector_inv_def)
  ultimately show ?thesis using that [of t n] assms by (auto simp: vector_inv_def vec_items_def)
qed

lemma length_vec_items: "vector_inv v \<Longrightarrow> int (length (vec_items v)) = v_cnt v"
  by (elim vector_invE) simp

text \<open>The state after an operation that leaves the capacity.\<close>

lemma vector_invI:
  assumes "length t = length u" "v_cap v = int (length u)" "n \<le> length u" "u \<noteq> []"
  shows "vector_inv (v\<lparr>v_tab := Some t, v_cnt := int n\<rparr>)" "vec_items (v\<lparr>v_tab := Some t, v_cnt := int n\<rparr>) = take n t"
  using assms by (simp_all add: vector_inv_def vec_items_def)

lemma Vector_grow_ok:
  assumes "vector_inv v" "v_cap v \<le> c"
  shows "\<exists>u. Vector_grow junk c v = Inr u \<and> vector_inv u \<and> v_cap u = c \<and> v_cnt u = v_cnt v \<and> vec_items u = vec_items v"
proof -
  obtain t n where t: "v_tab v = Some t" "v_cap v = int (length t)" "v_cnt v = int n" "n \<le> length t" "t \<noteq> []" "vec_items v = take n t"
    using assms(1) by (rule vector_invE)
  moreover have "0 < c" using assms(2) t(2,5) by (cases t) auto
  ultimately show ?thesis using assms(2)
    by (auto simp: Vector_grow_def array_copy_def newVec_def vector_inv_def vec_items_def min_def)
qed

lemma grow_full_ok:
  assumes "vector_inv v" "vec_fits (length (vec_items v))"
  shows "\<exists>u. grow_full junk v = Inr u \<and> vector_inv u \<and> v_cnt u < v_cap u \<and> v_cnt u = v_cnt v \<and> vec_items u = vec_items v"
proof (cases "v_cap v \<le> v_cnt v")
  case True
  then have c: "v_cap v = v_cnt v" "0 < v_cap v" "v_cnt v < 2 ^ 30" using assms length_vec_items [OF assms(1)]
    by (auto simp: vector_inv_def vec_fits_def)
  then have "wrap32 (v_cap v * 2) = v_cap v * 2" by (intro wrap32_id) auto
  then show ?thesis using True c Vector_grow_ok [OF assms(1), of "v_cap v * 2" junk] by (auto simp: grow_full_def)
next
  case False
  then show ?thesis using assms by (auto simp: grow_full_def)
qed

lemma Vector_add_ok:
  assumes "vector_inv v" "vec_fits (length (vec_items v))"
  shows "\<exists>u. Vector_add junk x v = Inr u \<and> vector_inv u \<and> vec_items u = vec_items v @ [x]"
proof -
  obtain w where w: "grow_full junk v = Inr w" "vector_inv w" "v_cnt w < v_cap w" "vec_items w = vec_items v" using grow_full_ok [OF assms] by blast
  obtain t n where t: "v_tab w = Some t" "v_cap w = int (length t)" "v_cnt w = int n" "n \<le> length t" "t \<noteq> []" "vec_items w = take n t"
    using w(2) by (rule vector_invE)
  have n: "n < length t" using w(3) t by simp
  have "Vector_add junk x v = Inr (w\<lparr>v_tab := Some (t[n := x]), v_cnt := int (Suc n)\<rparr>)"
    using w(1) t n by (simp add: Vector_add_def ac_simps)
  moreover have "take (Suc n) (t[n := x]) = take n t @ [x]" using n by (simp add: take_Suc_conv_app_nth)
  ultimately show ?thesis using vector_invI [of "t[n := x]" t w "Suc n"] t n w(4) by auto
qed

lemma Vector_set_ok:
  assumes "vector_inv v" "op_valid (Set i x) (length (vec_items v))"
  shows "\<exists>u. Vector_set i x v = Inr u \<and> vector_inv u \<and> vec_items u = (vec_items v)[nat i := x]"
proof -
  obtain t n where t: "v_tab v = Some t" "v_cap v = int (length t)" "v_cnt v = int n" "n \<le> length t" "t \<noteq> []" "vec_items v = take n t"
    "length (vec_items v) = n" using assms(1) by (rule vector_invE)
  have "Vector_set i x v = Inr (v\<lparr>v_tab := Some (t[nat i := x]), v_cnt := int n\<rparr>)"
    using assms(2) t by (simp add: Vector_set_def)
  then show ?thesis using vector_invI [of "t[nat i := x]" t v n] t by (auto simp: take_update_swap)
qed

lemma Vector_shrink_ok:
  assumes "vector_inv v" "0 \<le> l" "l \<le> v_cnt v"
  shows "\<exists>u. Vector_shrink l v = Inr u \<and> vector_inv u \<and> vec_items u = take (nat l) (vec_items v)"
  using assms by (elim vector_invE) (auto simp: Vector_shrink_def vector_inv_def vec_items_def min_def)

lemma Vector_insert_ok:
  assumes "vector_inv v" "vec_fits (length (vec_items v))" "op_valid (Insert i x) (length (vec_items v))"
  shows "\<exists>u. Vector_insert junk deep i x v = Inr u \<and> vector_inv u \<and> vec_items u = list_step (Insert i x) (vec_items v)"
proof -
  obtain w where w: "grow_full junk v = Inr w" "vector_inv w" "v_cnt w < v_cap w" "v_cnt w = v_cnt v" "vec_items w = vec_items v"
    using grow_full_ok [OF assms(1,2)] by blast
  obtain t n where t: "v_tab w = Some t" "v_cap w = int (length t)" "v_cnt w = int n" "n \<le> length t" "t \<noteq> []" "vec_items w = take n t"
    "length (vec_items w) = n" using w(2) by (rule vector_invE)
  obtain k where k: "i = int k" "k \<le> n" using assms(3) w(5) t(7) nonneg_int_cases [of i] by auto
  have n: "n < length t" using w(3) t by simp
  let ?m = "moved (i + 1) i (i + 1) (1 + int n) t"
  have "Vector_insert junk deep i x v = Inr (w\<lparr>v_tab := Some (?m[k := x]), v_cnt := int (Suc n)\<rparr>)"
    using w(1,4) t n k by (simp add: Vector_insert_def array_move_ok ac_simps)
  moreover have "take (Suc n) (?m[k := x]) = take k (take n t) @ x # drop k (take n t)"
    using insert_moved [OF k(2) n, of x] k by (simp add: min_def)
  ultimately show ?thesis using vector_invI [of "?m[k := x]" t w "Suc n"] t n k w(5) by auto
qed

lemma Vector_removeAt_ok:
  assumes "vector_inv v" "op_valid (RemoveAt i) (length (vec_items v))"
  shows "\<exists>u. Vector_removeAt deep i v = Inr u \<and> vector_inv u \<and> vec_items u = list_step (RemoveAt i) (vec_items v)"
proof -
  obtain t n where t: "v_tab v = Some t" "v_cap v = int (length t)" "v_cnt v = int n" "n \<le> length t" "t \<noteq> []" "vec_items v = take n t"
    "length (vec_items v) = n" using assms(1) by (rule vector_invE)
  obtain k where k: "i = int k" "k < n" using assms(2) t(7) nonneg_int_cases [of i] by auto
  let ?m = "moved i (i + 1) i (int n - 1) t"
  have "Vector_removeAt deep i v = Inr (v\<lparr>v_tab := Some ?m, v_cnt := int (n - 1)\<rparr>)"
    using t k by (simp add: Vector_removeAt_def array_move_ok)
  moreover have "take (n - 1) ?m = take k (take n t) @ drop (Suc k) (take n t)"
    using remove_moved [OF k(2) t(4)] k by (simp add: min_def)
  ultimately show ?thesis using vector_invI [of ?m t v "n - 1"] t k by auto
qed

text \<open>One step of a vector.\<close>

fun vec_step :: "'a \<Rightarrow> bool \<Rightarrow> 'a arr_op \<Rightarrow> 'a vector \<Rightarrow> 'a vector res" where
  "vec_step junk deep (Add x) v = Vector_add junk x v"
| "vec_step junk deep (Set i x) v = Vector_set i x v"
| "vec_step junk deep (Insert i x) v = Vector_insert junk deep i x v"
| "vec_step junk deep (RemoveAt i) v = Vector_removeAt deep i v"
| "vec_step junk deep (Shrink n) v = Vector_shrink n v"
| "vec_step junk deep Clear v = Inr (Vector_clear v)"

lemma Vector_get_ok:
  "vector_inv v \<Longrightarrow> Vector_get i v = (if 0 \<le> i \<and> i < int (length (vec_items v)) then Inr (vec_items v ! nat i) else Inl Assertion_failed)"
  by (elim vector_invE) (auto simp: Vector_get_def assert_res_def)

interpretation vector_array: growing_array vector_inv vec_items vec_fits "\<lambda>_ _. True" "vec_step junk deep" Vector_get for junk deep
proof
  fix v :: "'a vector" and p :: "'a arr_op"
  assume a: "vector_inv v" "vec_fits (length (vec_items v))" "op_valid p (length (vec_items v))"
  show "\<exists>v'. vec_step junk deep p v = Inr v' \<and> vector_inv v' \<and> vec_items v' = list_step p (vec_items v)"
  proof (cases p)
    case (Shrink l)
    then show ?thesis using Vector_shrink_ok [OF a(1), of l] a(3) length_vec_items [OF a(1)] by auto
  next
    case Clear
    then show ?thesis using a(1) by (auto simp: Vector_clear_def vector_inv_def vec_items_def)
  qed (use a Vector_add_ok Vector_set_ok Vector_insert_ok Vector_removeAt_ok in fastforce)+
qed (rule Vector_get_ok)

lemma vector_inv_new: "0 < c \<Longrightarrow> vector_inv (Vector_new junk c) \<and> vec_items (Vector_new junk c) = []"
  by (simp add: Vector_new_def vector_inv_def vec_items_def newVec_def)

text \<open>The searches from an index.\<close>

fun first_index :: "('a \<Rightarrow> 'a \<Rightarrow> bool) \<Rightarrow> 'a \<Rightarrow> int \<Rightarrow> 'a list \<Rightarrow> int" where
  "first_index eq x i [] = - 1"
| "first_index eq x i (y # ys) = (if eq x y then i else first_index eq x (i + 1) ys)"

lemma index_loop_ok:
  assumes "vector_inv v" "k \<le> length (vec_items v)"
  shows "index_loop eq x (int k) v = Inr (first_index eq x (int k) (drop k (vec_items v)))"
  using assms(2)
proof (induction "length (vec_items v) - k" arbitrary: k)
  case 0
  then show ?case using length_vec_items [OF assms(1)] by (subst index_loop.simps) simp
next
  case (Suc d)
  have k: "k < length (vec_items v)" using Suc.hyps(2) by simp
  have g: "arr_get (int k) (v_tab v) = Inr (vec_items v ! k)" using assms(1) k by (elim vector_invE) simp
  have "index_loop eq x (int k) v = (if eq x (vec_items v ! k) then Inr (int k) else index_loop eq x (int (Suc k)) v)"
    using k length_vec_items [OF assms(1)] by (subst index_loop.simps) (simp add: g ac_simps)
  then show ?case using Suc.hyps(1) [of "Suc k"] Suc.hyps(2) k by (simp add: Cons_nth_drop_Suc [symmetric] ac_simps)
qed

lemma last_index_loop_ok:
  assumes "vector_inv v" "k \<le> length (vec_items v)"
  shows "\<exists>i. last_index_loop eq x (int k - 1) v = Inr i \<and>
    (if i = - 1 then \<forall>j < k. \<not> eq x (vec_items v ! j)
     else 0 \<le> i \<and> i < int k \<and> eq x (vec_items v ! nat i) \<and> (\<forall>j < k. nat i < j \<longrightarrow> \<not> eq x (vec_items v ! j)))"
  using assms(2)
proof (induction k)
  case 0
  show ?case by (simp add: last_index_loop.simps)
next
  case (Suc k)
  have g: "arr_get (int k) (v_tab v) = Inr (vec_items v ! k)" using assms(1) Suc.prems by (elim vector_invE) simp
  have "last_index_loop eq x (int (Suc k) - 1) v = (if eq x (vec_items v ! k) then Inr (int k) else last_index_loop eq x (int k - 1) v)"
    by (subst last_index_loop.simps) (simp add: g)
  moreover obtain i where i: "last_index_loop eq x (int k - 1) v = Inr i"
    "if i = - 1 then \<forall>j < k. \<not> eq x (vec_items v ! j)
     else 0 \<le> i \<and> i < int k \<and> eq x (vec_items v ! nat i) \<and> (\<forall>j < k. nat i < j \<longrightarrow> \<not> eq x (vec_items v ! j))"
    using Suc by auto
  ultimately show ?case
    by (intro exI [of _ "if eq x (vec_items v ! k) then int k else i"]) (auto simp: less_Suc_eq split: if_splits)
qed

lemma contains_loop_ok:
  assumes "vector_inv v" "k \<le> length (vec_items v)"
  shows "contains_loop x (int k) v = Inr (x \<in> set (drop k (vec_items v)))"
  using assms(2)
proof (induction "length (vec_items v) - k" arbitrary: k)
  case 0
  then show ?case using length_vec_items [OF assms(1)] by (subst contains_loop.simps) simp
next
  case (Suc d)
  have k: "k < length (vec_items v)" using Suc.hyps(2) by simp
  have "contains_loop x (int k) v = (if x = vec_items v ! k then Inr True else contains_loop x (int (Suc k)) v)"
    using k length_vec_items [OF assms(1)] by (subst contains_loop.simps) (simp add: Vector_get_ok [OF assms(1)] ac_simps)
  then show ?case using Suc.hyps(1) [of "Suc k"] Suc.hyps(2) k by (simp add: Cons_nth_drop_Suc [symmetric])
qed

lemma equals_loop_ok:
  assumes "vector_inv v" "k \<le> length (vec_items v)"
  shows "vec_equals_loop eq (int k) xs v = Inr (list_all2 eq (drop k (vec_items v)) xs)"
  using assms(2)
proof (induction xs arbitrary: k)
  case Nil
  then show ?case using length_vec_items [OF assms(1)] by auto
next
  case (Cons x xs)
  show ?case
  proof (cases "k < length (vec_items v)")
    case True
    have "arr_get (int k) (v_tab v) = Inr (vec_items v ! k)" using assms(1) True by (elim vector_invE) simp
    then show ?thesis using Cons.IH [of "Suc k"] True length_vec_items [OF assms(1)]
      by (simp add: Cons_nth_drop_Suc [symmetric] ac_simps)
  qed (use length_vec_items [OF assms(1)] in auto)
qed

lemma Vector_copy_ok:
  assumes "vector_inv vec" "v_tab v = None \<or> vector_inv v"
  shows "\<exists>u. Vector_copy junk vec v = Inr u \<and> vector_inv u \<and> vec_items u = vec_items vec"
proof -
  obtain t n where t: "v_tab vec = Some t" "v_cap vec = int (length t)" "v_cnt vec = int n" "n \<le> length t" "t \<noteq> []" "vec_items vec = take n t"
    using assms(1) by (rule vector_invE)
  show ?thesis
  proof (cases "v_tab v = None \<or> v_cap v < v_cnt vec")
    case True
    then show ?thesis using t by (auto simp: Vector_copy_def array_copy_def newVec_def vector_inv_def vec_items_def Let_def)
  next
    case False
    then have v: "vector_inv v" using assms(2) by auto
    obtain s m where s: "v_tab v = Some s" "v_cap v = int (length s)" "s \<noteq> []" using v by (rule vector_invE)
    then show ?thesis using t False by (auto simp: Vector_copy_def array_copy_def vector_inv_def vec_items_def Let_def)
  qed
qed


section \<open>Fragmented tables\<close>

text \<open>The pages are the items of a vector, kept by value; a page that is deleted is no more among them.\<close>

record 'a fragtable =
  f_tab :: "'a list vector"
  f_size :: int
  f_msk :: int
  f_shf :: nat
  f_used :: int

definition FragTable_new :: "nat \<Rightarrow> 'a fragtable res" where
  "FragTable_new size_pow =
     (if 31 \<le> size_pow then Inl (Exception ''undefined shift'')
      else bind_res (assert_res (0 < size_pow)) (\<lambda>_.
       Inr \<lparr>f_tab = Vector_new [] 8, f_size = push_bit size_pow 1, f_msk = push_bit size_pow 1 - 1, f_shf = size_pow, f_used = push_bit size_pow 1\<rparr>))"

definition FragTable_length :: "'a fragtable \<Rightarrow> int" where
  "FragTable_length f = push_bit (f_shf f) (v_cnt (f_tab f) - 1) + f_used f"

definition FragTable_pageFull :: "'a fragtable \<Rightarrow> bool" where
  "FragTable_pageFull f \<longleftrightarrow> f_size f \<le> f_used f"

definition FragTable_isEmpty :: "'a fragtable \<Rightarrow> bool" where
  "FragTable_isEmpty f \<longleftrightarrow> v_cnt (f_tab f) = 0"

definition FragTable_clear :: "'a fragtable \<Rightarrow> 'a fragtable" where
  "FragTable_clear f = f\<lparr>f_tab := Vector_clear (f_tab f), f_used := f_size f\<rparr>"

text \<open>The cell \<^verbatim>\<open>tab[p][j]\<close>, read and assigned.\<close>

definition cell_get :: "'a list res \<Rightarrow> int \<Rightarrow> 'a res" where
  "cell_get r j = bind_res r (\<lambda>page. arr_get j (Some page))"

definition cell_set :: "int \<Rightarrow> int \<Rightarrow> 'a \<Rightarrow> 'a list vector \<Rightarrow> 'a list vector res" where
  "cell_set p j x v =
     bind_res (Vector_get_mut p v) (\<lambda>page.
     bind_res (arr_set j x (Some page)) (\<lambda>page.
     bind_res (arr_set p (case page of None \<Rightarrow> [] | Some xs \<Rightarrow> xs) (v_tab v)) (\<lambda>t. Inr (v\<lparr>v_tab := t\<rparr>))))"

definition new_page :: "'a \<Rightarrow> 'a fragtable \<Rightarrow> 'a fragtable res" where
  "new_page junk f = bind_res (Vector_add [] (replicate (nat (f_size f)) junk) (f_tab f)) (\<lambda>t. Inr (f\<lparr>f_tab := t, f_used := 0\<rparr>))"

definition FragTable_add :: "'a \<Rightarrow> 'a \<Rightarrow> 'a fragtable \<Rightarrow> 'a fragtable res" where
  "FragTable_add junk x f =
     bind_res (if f_size f \<le> f_used f then new_page junk f else Inr f) (\<lambda>f.
     bind_res (cell_set (v_cnt (f_tab f) - 1) (f_used f) x (f_tab f)) (\<lambda>t. Inr (f\<lparr>f_tab := t, f_used := f_used f + 1\<rparr>)))"

definition FragTable_get :: "int \<Rightarrow> 'a fragtable \<Rightarrow> 'a res" where
  "FragTable_get i f =
     bind_res (assert_res (0 \<le> i \<and> i < FragTable_length f)) (\<lambda>_.
       cell_get (Vector_get (drop_bit (f_shf f) i) (f_tab f)) (i AND f_msk f))"

definition FragTable_set :: "int \<Rightarrow> 'a \<Rightarrow> 'a fragtable \<Rightarrow> 'a fragtable res" where
  "FragTable_set i x f =
     bind_res (assert_res (0 \<le> i \<and> i < FragTable_length f)) (\<lambda>_.
     bind_res (cell_set (drop_bit (f_shf f) i) (i AND f_msk f) x (f_tab f)) (\<lambda>t. Inr (f\<lparr>f_tab := t\<rparr>)))"

function frag_contains_loop :: "'a \<Rightarrow> int \<Rightarrow> 'a fragtable \<Rightarrow> bool res" where
  "frag_contains_loop x i f =
     (if i < FragTable_length f then bind_res (FragTable_get i f) (\<lambda>y. if y = x then Inr True else frag_contains_loop x (i + 1) f) else Inr False)"
  by pat_completeness auto
termination by (relation "measure (\<lambda>(x, i, f). nat (FragTable_length f - i))") auto

function frag_last_loop :: "'a \<Rightarrow> int \<Rightarrow> 'a fragtable \<Rightarrow> int res" where
  "frag_last_loop x i f =
     (if 0 \<le> i then bind_res (FragTable_get i f) (\<lambda>y. if y = x then Inr i else frag_last_loop x (i - 1) f) else Inr (- 1))"
  by pat_completeness auto
termination by (relation "measure (\<lambda>(x, i, f). nat (i + 1))") auto

declare frag_contains_loop.simps [simp del] frag_last_loop.simps [simp del]

definition FragTable_contains :: "'a \<Rightarrow> 'a fragtable \<Rightarrow> bool res" where
  "FragTable_contains x f = frag_contains_loop x 0 f"

definition FragTable_lastIndexOf :: "'a \<Rightarrow> int \<Rightarrow> 'a fragtable \<Rightarrow> int res" where
  "FragTable_lastIndexOf x start f = frag_last_loop x ((if start < 0 then FragTable_length f else start) - 1) f"

fun FragTable_containsAll :: "'a list \<Rightarrow> 'a fragtable \<Rightarrow> bool res" where
  "FragTable_containsAll [] f = Inr False"
| "FragTable_containsAll (x # xs) f = bind_res (FragTable_contains x f) (\<lambda>b. if b then FragTable_containsAll xs f else Inr False)"

definition FragTable_shrink :: "int \<Rightarrow> 'a fragtable \<Rightarrow> 'a fragtable res" where
  "FragTable_shrink l f =
     bind_res (assert_res (l < FragTable_length f)) (\<lambda>_.
       let nl = drop_bit (f_shf f) (l + f_msk f); used = l AND f_msk f in
       bind_res (Vector_setLength [] nl (f_tab f)) (\<lambda>t.
         Inr (f\<lparr>f_tab := t, f_used := (if used = 0 then f_size f else used)\<rparr>)))"

text \<open>
  \<^verbatim>\<open>alloc\<close>: each turn but the first takes a whole page off \<^verbatim>\<open>count\<close>, so that the turns are at most
  the count plus two.
\<close>

fun alloc_loop :: "'a \<Rightarrow> nat \<Rightarrow> int \<Rightarrow> 'a fragtable \<Rightarrow> (int \<times> 'a fragtable) res" where
  "alloc_loop junk 0 c f = Inl Out_of_fuel"
| "alloc_loop junk (Suc k) c f =
     (if f_size f - f_used f \<le> c then bind_res (new_page junk f) (alloc_loop junk k (c - (f_size f - f_used f))) else Inr (c, f))"

definition FragTable_alloc :: "'a \<Rightarrow> int \<Rightarrow> 'a fragtable \<Rightarrow> (int \<times> 'a fragtable) res" where
  "FragTable_alloc junk c f =
     bind_res (alloc_loop junk (nat c + 2) c f) (\<lambda>(c, g). Inr (FragTable_length f, g\<lparr>f_used := f_used g + c\<rparr>))"

function frag_up :: "int \<Rightarrow> int \<Rightarrow> 'a fragtable \<Rightarrow> 'a fragtable res" where
  "frag_up k i f = (if k \<le> i then bind_res (FragTable_get i f) (\<lambda>x. bind_res (FragTable_set (i + 1) x f) (frag_up k (i - 1))) else Inr f)"
  by pat_completeness auto
termination by (relation "measure (\<lambda>(k, i, f). nat (i - k + 1))") auto

function frag_down :: "int \<Rightarrow> int \<Rightarrow> 'a fragtable \<Rightarrow> 'a fragtable res" where
  "frag_down len i f = (if i < len then bind_res (FragTable_get i f) (\<lambda>x. bind_res (FragTable_set (i - 1) x f) (frag_down len (i + 1))) else Inr f)"
  by pat_completeness auto
termination by (relation "measure (\<lambda>(len, i, f). nat (len - i))") auto

declare frag_up.simps [simp del] frag_down.simps [simp del]

definition FragTable_insert :: "'a \<Rightarrow> int \<Rightarrow> 'a \<Rightarrow> 'a fragtable \<Rightarrow> 'a fragtable res" where
  "FragTable_insert junk k x f =
     bind_res (assert_res (0 \<le> k \<and> k \<le> FragTable_length f)) (\<lambda>_.
     bind_res (FragTable_alloc junk 1 f) (\<lambda>(_, g).
     bind_res (frag_up k (FragTable_length f - 1) g) (FragTable_set k x)))"

definition FragTable_removeAt :: "int \<Rightarrow> 'a fragtable \<Rightarrow> 'a fragtable res" where
  "FragTable_removeAt k f =
     bind_res (frag_down (FragTable_length f) (k + 1) f) (\<lambda>f.
       let f = f\<lparr>f_used := f_used f - 1\<rparr> in
       if f_used f = 0
       then bind_res (Vector_get_mut (v_cnt (f_tab f) - 1) (f_tab f)) (\<lambda>_.
            bind_res (Vector_setLength [] (v_cnt (f_tab f) - 1) (f_tab f)) (\<lambda>t. Inr (f\<lparr>f_tab := t, f_used := f_size f\<rparr>)))
       else Inr f)"

fun frag_step :: "'a \<Rightarrow> 'a arr_op \<Rightarrow> 'a fragtable \<Rightarrow> 'a fragtable res" where
  "frag_step junk (Add x) f = FragTable_add junk x f"
| "frag_step junk (Set i x) f = FragTable_set i x f"
| "frag_step junk (Insert i x) f = FragTable_insert junk i x f"
| "frag_step junk (RemoveAt i) f = FragTable_removeAt i f"
| "frag_step junk (Shrink n) f = FragTable_shrink n f"
| "frag_step junk Clear f = Inr (FragTable_clear f)"


section \<open>Fragmented tables as lists\<close>

lemma length_pages: "\<forall>p \<in> set P. length p = n \<Longrightarrow> length (concat P) = length P * n"
  by (induction P) auto

lemma nth_pages: "\<forall>p \<in> set P. length p = n \<Longrightarrow> i < length P * n \<Longrightarrow> concat P ! i = P ! (i div n) ! (i mod n)"
proof (induction P arbitrary: i)
  case (Cons p P)
  then have n: "0 < n" by (cases n) auto
  show ?case
  proof (cases "i < n")
    case True
    then show ?thesis using Cons.prems by (simp add: nth_append)
  next
    case False
    then have "i div n = Suc ((i - n) div n)" "i mod n = (i - n) mod n" using n by (simp_all add: le_div_geq le_mod_geq)
    then show ?thesis using Cons.prems Cons.IH [of "i - n"] False by (simp add: nth_append)
  qed
qed simp

lemma update_pages:
  assumes "\<forall>p \<in> set P. length p = n" "k < length P" "j < n"
  shows "concat (P[k := (P ! k)[j := x]]) = (concat P)[k * n + j := x]"
proof (intro nth_equalityI)
  let ?Q = "P[k := (P ! k)[j := x]]"
  have q: "\<forall>p \<in> set ?Q. length p = n" using assms(1,2) by (auto dest!: subsetD [OF set_update_subset_insert])
  show l: "length (concat ?Q) = length ((concat P)[k * n + j := x])"
    using length_pages [OF q] length_pages [OF assms(1)] by simp
  fix i assume "i < length (concat ?Q)"
  then have i: "i < length P * n" using length_pages [OF q] by simp
  have d: "i div n < length P" "i mod n < n" using i assms(3) by (simp_all add: less_mult_imp_div_less)
  have m: "i = k * n + j \<longleftrightarrow> i div n = k \<and> i mod n = j" using assms(3) by auto
  have lk: "length (P ! k) = n" "length (P ! (i div n)) = n" using assms(1,2) d by simp_all
  show "concat ?Q ! i = (concat P)[k * n + j := x] ! i"
    using nth_pages [OF q, of i] nth_pages [OF assms(1) i] i d m lk assms(2,3) length_pages [OF assms(1)]
    by (auto simp: nth_list_update)
qed

text \<open>
  The invariant; \<^verbatim>\<open>low\<close> is the least use of the last page. After the removal of items the last page is
  never empty (\<^verbatim>\<open>low\<close> is 1), but \<^verbatim>\<open>alloc\<close> and \<^verbatim>\<open>insert\<close> may leave it so (\<^verbatim>\<open>low\<close> is 0).
\<close>

definition frag_inv :: "nat \<Rightarrow> 'a fragtable \<Rightarrow> bool" where
  "frag_inv low f \<longleftrightarrow> 0 < f_shf f \<and> f_size f = 2 ^ f_shf f \<and> f_msk f = 2 ^ f_shf f - 1 \<and> vector_inv (f_tab f) \<and>
     (\<forall>p \<in> set (vec_items (f_tab f)). length p = 2 ^ f_shf f) \<and>
     (if vec_items (f_tab f) = [] then f_used f = f_size f else int low \<le> f_used f \<and> f_used f \<le> f_size f)"

definition frag_items :: "'a fragtable \<Rightarrow> 'a list" where
  "frag_items f = take (nat (FragTable_length f)) (concat (vec_items (f_tab f)))"

lemma frag_invE:
  assumes "frag_inv low f"
  obtains P n u where "vec_items (f_tab f) = P" "f_used f = int u" "FragTable_length f = int n" "n \<le> length P * 2 ^ f_shf f"
    "P = [] \<Longrightarrow> n = 0 \<and> u = 2 ^ f_shf f" "P \<noteq> [] \<Longrightarrow> n = (length P - 1) * 2 ^ f_shf f + u \<and> low \<le> u" "u \<le> 2 ^ f_shf f"
    "frag_items f = take n (concat P)" "length (frag_items f) = n" "\<forall>p \<in> set P. length p = 2 ^ f_shf f" "v_cnt (f_tab f) = int (length P)"
proof -
  let ?P = "vec_items (f_tab f)"
  have i: "vector_inv (f_tab f)" "\<forall>p \<in> set ?P. length p = 2 ^ f_shf f" using assms by (simp_all add: frag_inv_def)
  have c: "v_cnt (f_tab f) = int (length ?P)" using length_vec_items [OF i(1)] by simp
  have "0 \<le> f_used f" using assms by (auto simp: frag_inv_def split: if_splits)
  then obtain u where u: "f_used f = int u" using nonneg_int_cases by blast
  have "int u \<le> int (2 ^ f_shf f)" using assms u by (auto simp: frag_inv_def split: if_splits)
  then have le: "u \<le> 2 ^ f_shf f" by (simp only: of_nat_le_iff)
  show ?thesis
  proof (cases "?P = []")
    case True
    then have "int u = int (2 ^ f_shf f)" using assms u by (simp add: frag_inv_def)
    then have u0: "u = 2 ^ f_shf f" by (simp only: of_nat_eq_iff)
    have "push_bit (f_shf f) (- 1 :: int) = - 1 * 2 ^ f_shf f" by (rule push_bit_eq_mult)
    then have "FragTable_length f = 0" using True c u u0 by (simp add: FragTable_length_def del: push_bit_minus_one_eq_not_mask)
    then show ?thesis using that [of ?P u 0] u u0 True c by (simp add: frag_items_def)
  next
    case False
    let ?n = "(length ?P - 1) * 2 ^ f_shf f + u"
    obtain m where m: "length ?P = Suc m" using False by (cases ?P) auto
    then have l: "FragTable_length f = int ?n" using u c by (simp add: FragTable_length_def push_bit_eq_mult)
    have n: "?n \<le> length ?P * 2 ^ f_shf f" using m le by simp
    have lu: "low \<le> u" using assms False u by (auto simp: frag_inv_def)
    have it: "frag_items f = take ?n (concat ?P)" unfolding frag_items_def l nat_int ..
    then have "length (frag_items f) = ?n" using n length_pages [OF i(2)] by simp
    then show ?thesis using that [of ?P u ?n] u l n lu le it False i(2) c by simp
  qed
qed

lemma length_frag_items: "frag_inv low f \<Longrightarrow> FragTable_length f = int (length (frag_items f))"
  by (elim frag_invE) simp

lemma index_bits:
  "drop_bit s (int i) = int (i div 2 ^ s)" "int i AND (2 ^ s - 1) = int (i mod 2 ^ s)"
  by (simp_all add: drop_bit_eq_div zdiv_int zmod_int take_bit_eq_mod flip: mask_eq_exp_minus_1 take_bit_eq_mask)

lemma FragTable_get_ok:
  assumes "frag_inv low f"
  shows "FragTable_get i f = (if 0 \<le> i \<and> i < int (length (frag_items f)) then Inr (frag_items f ! nat i) else Inl Assertion_failed)"
proof (cases "0 \<le> i \<and> i < int (length (frag_items f))")
  case True
  let ?S = "2 ^ f_shf f :: nat"
  obtain P n u where p: "vec_items (f_tab f) = P" "FragTable_length f = int n" "n \<le> length P * ?S"
    "frag_items f = take n (concat P)" "length (frag_items f) = n" "\<forall>p \<in> set P. length p = ?S" "v_cnt (f_tab f) = int (length P)"
    using assms by (rule frag_invE) blast
  obtain k where k: "i = int k" "k < n" using True p(5) nonneg_int_cases [of i] by auto
  have d: "k div ?S < length P" "k mod ?S < ?S" using k p(3) by (simp_all add: less_mult_imp_div_less)
  have v: "vector_inv (f_tab f)" "f_msk f = 2 ^ f_shf f - 1" using assms by (simp_all add: frag_inv_def)
  have "length (P ! (k div ?S)) = ?S" using p(6) d(1) by simp
  then have "FragTable_get i f = Inr (P ! (k div ?S) ! (k mod ?S))"
    using k d p(1,2) v by (simp add: FragTable_get_def index_bits cell_get_def Vector_get_ok)
  then show ?thesis using True k p(3,4,6) nth_pages [OF p(6), of k] by simp
next
  case False
  then show ?thesis using length_frag_items [OF assms] by (auto simp: FragTable_get_def)
qed

lemma frag_itemsI: "FragTable_length g = int k \<Longrightarrow> frag_items g = take k (concat (vec_items (f_tab g)))"
  by (simp add: frag_items_def)

lemma cell_set_ok:
  assumes "vector_inv v" "p < length (vec_items v)" "j < length (vec_items v ! p)"
  shows "\<exists>w. cell_set (int p) (int j) x v = Inr w \<and> vector_inv w \<and> vec_items w = (vec_items v)[p := (vec_items v ! p)[j := x]] \<and> v_cnt w = v_cnt v"
proof -
  obtain t n where t: "v_tab v = Some t" "v_cap v = int (length t)" "v_cnt v = int n" "n \<le> length t" "t \<noteq> []" "vec_items v = take n t"
    "length (vec_items v) = n" using assms(1) by (rule vector_invE)
  have p: "p < n" "vec_items v ! p = t ! p" using assms(2) t by simp_all
  then have "Vector_get_mut (int p) v = Inr (t ! p)" using t by (simp add: Vector_get_mut_def)
  then have "cell_set (int p) (int j) x v = Inr (v\<lparr>v_tab := Some (t[p := (t ! p)[j := x]]), v_cnt := int n\<rparr>)"
    using t p assms(3) by (simp add: cell_set_def)
  then show ?thesis using vector_invI [of "t[p := (t ! p)[j := x]]" t v n] t p by (auto simp: take_update_swap)
qed

text \<open>An assignment inside the pages, seen on their concatenation.\<close>

lemma frag_cell_ok:
  assumes "vector_inv (f_tab f)" "\<forall>p \<in> set (vec_items (f_tab f)). length p = 2 ^ s" "p < length (vec_items (f_tab f))" "j < 2 ^ s"
  shows "\<exists>w. cell_set (int p) (int j) x (f_tab f) = Inr w \<and> vector_inv w \<and> v_cnt w = v_cnt (f_tab f) \<and>
    length (vec_items w) = length (vec_items (f_tab f)) \<and> (\<forall>q \<in> set (vec_items w). length q = 2 ^ s) \<and>
    concat (vec_items w) = (concat (vec_items (f_tab f)))[p * 2 ^ s + j := x]"
proof -
  let ?P = "vec_items (f_tab f)"
  have j: "j < length (?P ! p)" "length (?P ! p) = 2 ^ s" using assms(2-4) by simp_all
  obtain w where w: "cell_set (int p) (int j) x (f_tab f) = Inr w" "vector_inv w" "vec_items w = ?P[p := (?P ! p)[j := x]]" "v_cnt w = v_cnt (f_tab f)"
    using cell_set_ok [OF assms(1,3) j(1)] by blast
  have "\<forall>q \<in> set (vec_items w). length q = 2 ^ s"
    using w(3) assms(2) j(2) by (auto dest!: subsetD [OF set_update_subset_insert])
  then show ?thesis using w update_pages [OF assms(2-4)] by auto
qed

lemma FragTable_set_ok:
  assumes "frag_inv low f" "0 \<le> i" "i < int (length (frag_items f))"
  shows "\<exists>g. FragTable_set i x f = Inr g \<and> frag_inv low g \<and> frag_items g = (frag_items f)[nat i := x]"
proof -
  let ?S = "2 ^ f_shf f :: nat"
  obtain P n u where p: "vec_items (f_tab f) = P" "FragTable_length f = int n" "n \<le> length P * ?S"
    "frag_items f = take n (concat P)" "length (frag_items f) = n" "\<forall>p \<in> set P. length p = ?S" "v_cnt (f_tab f) = int (length P)"
    using assms(1) by (rule frag_invE) blast
  obtain k where k: "i = int k" "k < n" using assms(2,3) p(5) nonneg_int_cases [of i] by auto
  have d: "k div ?S < length P" "k mod ?S < ?S" using k p(3) by (simp_all add: less_mult_imp_div_less)
  have v: "vector_inv (f_tab f)" "f_msk f = 2 ^ f_shf f - 1" using assms by (simp_all add: frag_inv_def)
  obtain w where w: "cell_set (int (k div ?S)) (int (k mod ?S)) x (f_tab f) = Inr w" "vector_inv w" "v_cnt w = v_cnt (f_tab f)"
    "length (vec_items w) = length P" "\<forall>q \<in> set (vec_items w). length q = ?S" "concat (vec_items w) = (concat P)[k := x]"
    using frag_cell_ok [of f "f_shf f" "k div ?S" "k mod ?S" x, unfolded p(1) div_mult_mod_eq, OF v(1) p(6) d] by blast
  have "FragTable_set i x f = Inr (f\<lparr>f_tab := w\<rparr>)"
    using k p(2) v(2) w(1) by (simp add: FragTable_set_def index_bits)
  moreover have "frag_inv low (f\<lparr>f_tab := w\<rparr>)" using assms(1) w(2,4,5) p(1) by (auto simp: frag_inv_def split: if_splits)
  moreover have "frag_items (f\<lparr>f_tab := w\<rparr>) = (frag_items f)[nat i := x]"
    using p(2,4) w(3,6) k(1) by (simp add: frag_items_def FragTable_length_def take_update_swap)
  ultimately show ?thesis by blast
qed

lemma new_page_ok:
  assumes "frag_inv low f" "vec_fits (length (vec_items (f_tab f)))"
  shows "\<exists>g. new_page junk f = Inr g \<and> frag_inv 0 g \<and> frag_items g = concat (vec_items (f_tab f)) \<and> f_used g = 0 \<and> f_size g = f_size f \<and> f_shf g = f_shf f \<and>
    length (vec_items (f_tab g)) = Suc (length (vec_items (f_tab f)))"
proof -
  let ?S = "2 ^ f_shf f :: nat"
  let ?p = "replicate (nat (f_size f)) junk"
  obtain P n u where p: "vec_items (f_tab f) = P" "f_used f = int u" "FragTable_length f = int n" "n \<le> length P * ?S"
    "P = [] \<Longrightarrow> n = 0 \<and> u = ?S" "P \<noteq> [] \<Longrightarrow> n = (length P - 1) * ?S + u \<and> low \<le> u"
    "frag_items f = take n (concat P)" "\<forall>p \<in> set P. length p = ?S" "v_cnt (f_tab f) = int (length P)"
    using assms(1) by (rule frag_invE) blast
  have i: "0 < f_shf f" "f_size f = int ?S" "f_msk f = 2 ^ f_shf f - 1" "vector_inv (f_tab f)" using assms(1) by (simp_all add: frag_inv_def)
  then have s: "nat (f_size f) = ?S" by (simp only: nat_int)
  obtain w where w: "Vector_add [] ?p (f_tab f) = Inr w" "vector_inv w" "vec_items w = P @ [?p]"
    using Vector_add_ok [OF i(4) assms(2), of "[]" ?p] p(1) by auto
  let ?g = "f\<lparr>f_tab := w, f_used := 0\<rparr>"
  have inv: "frag_inv 0 ?g" using i w(2,3) p(8) s by (simp add: frag_inv_def)
  have c: "v_cnt w = int (Suc (length P))" using length_vec_items [OF w(2)] w(3) by simp
  have "FragTable_length ?g = int (length P * ?S)" using c by (simp add: FragTable_length_def push_bit_eq_mult)
  from frag_itemsI [OF this] have "frag_items ?g = concat P" using w(3) length_pages [OF p(8)] by simp
  then show ?thesis using w inv p(1) by (intro exI [of _ ?g]) (simp add: new_page_def)
qed

lemma FragTable_add_room:
  assumes "frag_inv low f" "f_used f < f_size f"
  shows "\<exists>g. FragTable_add junk x f = Inr g \<and> frag_inv 1 g \<and> frag_items g = frag_items f @ [x]"
proof -
  let ?S = "2 ^ f_shf f :: nat"
  obtain P n u where p: "vec_items (f_tab f) = P" "f_used f = int u" "FragTable_length f = int n" "n \<le> length P * ?S"
    "P \<noteq> [] \<Longrightarrow> n = (length P - 1) * ?S + u \<and> low \<le> u"
    "frag_items f = take n (concat P)" "\<forall>p \<in> set P. length p = ?S" "v_cnt (f_tab f) = int (length P)"
    using assms(1) by (rule frag_invE) blast
  have i: "0 < f_shf f" "f_size f = int ?S" "f_msk f = 2 ^ f_shf f - 1" "vector_inv (f_tab f)" using assms(1) by (simp_all add: frag_inv_def)
  have "P \<noteq> []" using assms(1,2) p(1) by (auto simp: frag_inv_def)
  then obtain m where m: "length P = Suc m" by (cases P) auto
  have n: "n = m * ?S + u" using p(5) \<open>P \<noteq> []\<close> m by simp
  have u: "u < ?S" using assms(2) p(2) i(2) by (simp del: of_nat_power)
  obtain w where w: "cell_set (int m) (int u) x (f_tab f) = Inr w" "vector_inv w" "v_cnt w = v_cnt (f_tab f)"
    "length (vec_items w) = length P" "\<forall>q \<in> set (vec_items w). length q = ?S" "concat (vec_items w) = (concat P)[n := x]"
    using frag_cell_ok [of f "f_shf f" m u x] i(4) p(1,7) m u n by auto
  let ?g = "f\<lparr>f_tab := w, f_used := int (Suc u)\<rparr>"
  have "FragTable_add junk x f = Inr ?g"
    using assms(2) w(1) p(2,8) m by (simp add: FragTable_add_def ac_simps)
  moreover have "frag_inv 1 ?g"
    using i w(2,4,5) m u by (auto simp: frag_inv_def simp del: of_nat_power)
  moreover have "frag_items ?g = frag_items f @ [x]"
  proof -
    have "FragTable_length ?g = int (Suc n)" using p(8) m n w(3) by (simp add: FragTable_length_def push_bit_eq_mult)
    moreover have "n < length (concat P)" using length_pages [OF p(7)] m n u by simp
    ultimately show ?thesis using w(6) p(6) frag_itemsI [of ?g "Suc n"] by (simp add: take_Suc_conv_app_nth)
  qed
  ultimately show ?thesis by blast
qed

lemma pages_fit:
  assumes "frag_inv low f" "vec_fits (length (frag_items f))"
  shows "vec_fits (length (vec_items (f_tab f)))"
proof (cases "vec_items (f_tab f) = []")
  case False
  let ?S = "2 ^ f_shf f :: nat"
  obtain P n u where p: "vec_items (f_tab f) = P" "P \<noteq> [] \<Longrightarrow> n = (length P - 1) * ?S + u \<and> low \<le> u" "length (frag_items f) = n"
    using assms(1) by (rule frag_invE) blast
  have "2 ^ 1 \<le> ?S" using assms(1) by (intro power_increasing) (auto simp: frag_inv_def)
  then have "(length P - 1) * 2 \<le> (length P - 1) * ?S" by simp
  moreover have "n = (length P - 1) * ?S + u" using p(1,2) False by simp
  ultimately have "(length P - 1) * 2 \<le> n" by (simp only: trans_le_add1)
  then show ?thesis using assms(2) p(1,3) by (simp add: vec_fits_def)
qed (simp add: vec_fits_def)

lemma full_items: "frag_inv low f \<Longrightarrow> f_used f = f_size f \<Longrightarrow> concat (vec_items (f_tab f)) = frag_items f"
proof -
  assume a: "frag_inv low f" "f_used f = f_size f"
  let ?S = "2 ^ f_shf f :: nat"
  obtain P n u where p: "vec_items (f_tab f) = P" "f_used f = int u" "P = [] \<Longrightarrow> n = 0 \<and> u = ?S"
    "P \<noteq> [] \<Longrightarrow> n = (length P - 1) * ?S + u \<and> low \<le> u" "frag_items f = take n (concat P)" "\<forall>p \<in> set P. length p = ?S"
    using a(1) by (rule frag_invE) blast
  have "f_size f = int ?S" using a(1) by (simp add: frag_inv_def)
  then have "n = length P * ?S" using p(2-4) a(2) by (cases P) (auto simp del: of_nat_power)
  then show ?thesis using p(1,5) length_pages [OF p(6)] by simp
qed

lemma FragTable_add_ok:
  assumes "frag_inv low f" "vec_fits (length (frag_items f))"
  shows "\<exists>g. FragTable_add junk x f = Inr g \<and> frag_inv 1 g \<and> frag_items g = frag_items f @ [x]"
proof (cases "f_used f < f_size f")
  case True
  then show ?thesis using FragTable_add_room [OF assms(1)] by blast
next
  case False
  then have full: "f_used f = f_size f" using assms(1) by (auto simp: frag_inv_def split: if_splits)
  have s: "0 < f_size f" using assms(1) by (simp add: frag_inv_def)
  obtain g where g: "new_page junk f = Inr g" "frag_inv 0 g" "frag_items g = frag_items f" "f_used g < f_size g"
    using new_page_ok [OF assms(1) pages_fit [OF assms], of junk] full_items [OF assms(1) full] s by auto
  have "FragTable_add junk x f = FragTable_add junk x g" using False g(1,4) by (simp add: FragTable_add_def)
  then show ?thesis using FragTable_add_room [OF g(2,4)] g(3) by simp
qed

text \<open>\<^verbatim>\<open>alloc\<close> of one item: an unknown item is added, and the last page may be empty.\<close>

lemma used_more:
  assumes "frag_inv low f" "f_used f < f_size f"
  shows "frag_inv 0 (f\<lparr>f_used := f_used f + 1\<rparr>) \<and> length (frag_items (f\<lparr>f_used := f_used f + 1\<rparr>)) = Suc (length (frag_items f)) \<and>
    take (length (frag_items f)) (frag_items (f\<lparr>f_used := f_used f + 1\<rparr>)) = frag_items f"
proof -
  let ?g = "f\<lparr>f_used := f_used f + 1\<rparr>"
  obtain P n where p: "vec_items (f_tab f) = P" "FragTable_length f = int n" "frag_items f = take n (concat P)" "length (frag_items f) = n"
    using assms(1) by (rule frag_invE) blast
  have i: "frag_inv 0 ?g" using assms by (auto simp: frag_inv_def split: if_splits)
  have l: "FragTable_length ?g = int (Suc n)" using p(2) by (simp add: FragTable_length_def)
  then have "frag_items ?g = take (Suc n) (concat P)" using frag_itemsI [OF l] p(1) by simp
  moreover have "length (frag_items ?g) = Suc n" using length_frag_items [OF i] l by simp
  ultimately show ?thesis using i p(3,4) by (simp add: min_def)
qed

lemma FragTable_alloc_one:
  assumes "frag_inv low f" "vec_fits (length (frag_items f))"
  shows "\<exists>g. FragTable_alloc junk 1 f = Inr (int (length (frag_items f)), g) \<and> frag_inv 0 g \<and>
    length (frag_items g) = Suc (length (frag_items f)) \<and> take (length (frag_items f)) (frag_items g) = frag_items f"
proof -
  have len: "FragTable_length f = int (length (frag_items f))" by (rule length_frag_items [OF assms(1)])
  have "2 ^ 1 \<le> (2 ^ f_shf f :: int)" using assms(1) by (intro power_increasing) (auto simp: frag_inv_def)
  then have s: "2 \<le> f_size f" "f_used f \<le> f_size f" using assms(1) by (auto simp: frag_inv_def split: if_splits)
  have three: "nat 1 + 2 = Suc (Suc (Suc 0))" by simp
  obtain g where g: "new_page junk f = Inr g" "frag_inv 0 g" "frag_items g = concat (vec_items (f_tab f))" "f_used g = 0" "f_size g = f_size f"
    using new_page_ok [OF assms(1) pages_fit [OF assms], of junk] by blast
  consider "f_used f = f_size f" | "f_used f + 1 = f_size f" | "f_used f + 1 < f_size f" using s by linarith
  then show ?thesis
  proof cases
    case 1
    then have "FragTable_alloc junk 1 f = Inr (int (length (frag_items f)), g\<lparr>f_used := f_used g + 1\<rparr>)"
      using g(1,4,5) s len unfolding FragTable_alloc_def three by simp
    then show ?thesis using used_more [OF g(2)] g(3-5) s full_items [OF assms(1) 1] by auto
  next
    case 2
    then have "FragTable_alloc junk 1 f = Inr (int (length (frag_items f)), g\<lparr>f_used := f_used g + 0\<rparr>)"
      using g(1,4,5) s len unfolding FragTable_alloc_def three by simp
    moreover have "g\<lparr>f_used := f_used g + 0\<rparr> = g" by simp
    moreover have "f_used (f\<lparr>f_used := f_used f + 1\<rparr>) = f_size (f\<lparr>f_used := f_used f + 1\<rparr>)" using 2 by simp
    ultimately show ?thesis using used_more [OF assms(1)] 2 g(2,3) full_items [of 0 "f\<lparr>f_used := f_used f + 1\<rparr>"] by auto
  next
    case 3
    then have "FragTable_alloc junk 1 f = Inr (int (length (frag_items f)), f\<lparr>f_used := f_used f + 1\<rparr>)"
      using s len unfolding FragTable_alloc_def three by simp
    then show ?thesis using used_more [OF assms(1)] 3 by auto
  qed
qed

lemma frag_up_ok:
  assumes "frag_inv low f" "0 \<le> k" "k - 1 \<le> i" "i + 1 < int (length (frag_items f))"
  shows "\<exists>g. frag_up k i f = Inr g \<and> frag_inv low g \<and> frag_items g = moved (k + 1) k (k + 1) (i + 2) (frag_items f)"
  using assms
proof (induction "nat (i - k + 1)" arbitrary: i f)
  case 0
  then show ?case by (auto simp: frag_up.simps moved_none)
next
  case (Suc d)
  have lt: "k \<le> i" using Suc.hyps(2) by simp
  obtain g where g: "FragTable_set (i + 1) (frag_items f ! nat i) f = Inr g" "frag_inv low g" "frag_items g = (frag_items f)[nat (i + 1) := frag_items f ! nat i]"
    using FragTable_set_ok [OF Suc.prems(1), of "i + 1" "frag_items f ! nat i"] Suc.prems lt by auto
  have "frag_up k i f = frag_up k (i - 1) g"
    using lt Suc.prems g(1) by (subst frag_up.simps) (simp add: FragTable_get_ok [OF Suc.prems(1)])
  then show ?case using Suc.hyps(1) [of "i - 1" g] Suc.hyps(2) Suc.prems lt g(2,3) moved_down [of k "k + 1" "i - k" "frag_items f"]
    by (auto simp: ac_simps)
qed

lemma frag_down_ok:
  assumes "frag_inv low f" "0 \<le> k" "k + 1 \<le> i" "i \<le> int (length (frag_items f))"
  shows "\<exists>g. frag_down (int (length (frag_items f))) i f = Inr g \<and> frag_inv low g \<and> f_used g = f_used f \<and> f_size g = f_size f \<and>
    frag_items g = moved k (k + 1) (i - 1) (int (length (frag_items f)) - 1) (frag_items f)"
  using assms
proof (induction "nat (int (length (frag_items f)) - i)" arbitrary: i f)
  case 0
  then show ?case by (auto simp: frag_down.simps moved_none)
next
  case (Suc d)
  let ?n = "int (length (frag_items f))"
  have lt: "i < ?n" using Suc.hyps(2) by simp
  obtain g where g: "FragTable_set (i - 1) (frag_items f ! nat i) f = Inr g" "frag_inv low g" "frag_items g = (frag_items f)[nat (i - 1) := frag_items f ! nat i]"
    using FragTable_set_ok [OF Suc.prems(1), of "i - 1" "frag_items f ! nat i"] Suc.prems lt by auto
  have u: "f_used g = f_used f" "f_size g = f_size f" using g(1) by (auto simp: FragTable_set_def bind_res_eq_Inr)
  have "frag_down ?n i f = frag_down ?n (i + 1) g"
    using lt Suc.prems g(1) by (subst frag_down.simps) (simp add: FragTable_get_ok [OF Suc.prems(1)])
  then show ?case using Suc.hyps(1) [of g "i + 1"] Suc.hyps(2) Suc.prems lt g(2,3) u moved_up [of k "k + 1" "?n - k - 1" "frag_items f" "i - k - 1"]
    by (auto simp: ac_simps)
qed

lemma FragTable_insert_ok:
  assumes "frag_inv low f" "vec_fits (length (frag_items f))" "0 \<le> i" "i \<le> int (length (frag_items f))"
  shows "\<exists>g. FragTable_insert junk i x f = Inr g \<and> frag_inv 0 g \<and> frag_items g = list_step (Insert i x) (frag_items f)"
proof -
  let ?n = "length (frag_items f)"
  obtain k where k: "i = int k" "k \<le> ?n" using assms(3,4) nonneg_int_cases [of i] by auto
  have len: "FragTable_length f = int ?n" by (rule length_frag_items [OF assms(1)])
  obtain g where g: "FragTable_alloc junk 1 f = Inr (int ?n, g)" "frag_inv 0 g" "length (frag_items g) = Suc ?n" "take ?n (frag_items g) = frag_items f"
    using FragTable_alloc_one [OF assms(1,2)] by blast
  let ?m = "moved (int k + 1) (int k) (int k + 1) (1 + int ?n) (frag_items g)"
  obtain h where h: "frag_up (int k) (int ?n - 1) g = Inr h" "frag_inv 0 h" "frag_items h = ?m"
    using frag_up_ok [OF g(2), of "int k" "int ?n - 1"] k(2) g(3) by (auto simp: ac_simps)
  obtain u where u: "FragTable_set (int k) x h = Inr u" "frag_inv 0 u" "frag_items u = ?m[k := x]"
    using FragTable_set_ok [OF h(2), of "int k" x] k(2) g(3) h(3) by auto
  have "FragTable_insert junk i x f = Inr u" using k g(1) h(1) u(1) len by (simp add: FragTable_insert_def)
  moreover have "frag_items u = take k (frag_items g) @ x # drop k (frag_items f)"
    using insert_moved [OF k(2), of "frag_items g" x] g(3,4) u(3) by simp
  moreover have "take k (frag_items g) = take k (frag_items f)" using k(2) g(4) by (metis min_def take_take)
  ultimately show ?thesis using u(2) k(1) by simp
qed

lemma cap_loop_ok:
  assumes "j \<le> 30" "30 - j < fuel" "l \<le> 2 ^ 30"
  shows "\<exists>c. cap_loop fuel (2 ^ j) l = Inr c \<and> l \<le> c \<and> 0 < c"
  using assms
proof (induction fuel arbitrary: j)
  case (Suc fuel)
  show ?case
  proof (cases "2 ^ j < l")
    case True
    then have "j \<noteq> 30" using assms(3) by auto
    then have j: "Suc j \<le> 30" using Suc.prems by simp
    then have "(2 :: int) ^ Suc j \<le> 2 ^ 30" by (intro power_increasing) auto
    then have "wrap32 (2 ^ j * 2) = 2 ^ Suc j" by (subst wrap32_id) (auto intro: order_trans [of _ 0])
    then show ?thesis using Suc.IH [of "Suc j"] Suc.prems j True by simp
  qed auto
qed simp

lemma Vector_setLength_ok:
  assumes "vector_inv v" "0 \<le> l" "l \<le> 2 ^ 30"
  shows "\<exists>u. Vector_setLength junk l v = Inr u \<and> vector_inv u \<and> v_cnt u = l \<and> (l \<le> v_cnt v \<longrightarrow> vec_items u = take (nat l) (vec_items v))"
proof -
  obtain c where c: "cap_loop 34 1 l = Inr c" "l \<le> c" "0 < c" using cap_loop_ok [of 0 34 l] assms(3) by auto
  obtain w where w: "(if v_cap v < c then Vector_grow junk c v else Inr v) = Inr w" "vector_inv w" "c \<le> v_cap w" "vec_items w = vec_items v"
  proof (cases "v_cap v < c")
    case True
    then show ?thesis using Vector_grow_ok [OF assms(1), of c junk] that by auto
  qed (use assms(1) that in auto)
  obtain t n where t: "v_tab w = Some t" "v_cap w = int (length t)" "v_cnt w = int n" "n \<le> length t" "t \<noteq> []" "vec_items w = take n t"
    "length (vec_items w) = n" using w(2) by (rule vector_invE)
  have "Vector_setLength junk l v = Inr (w\<lparr>v_cnt := l\<rparr>)" using assms(2) c(1) w(1) by (simp add: Vector_setLength_def)
  moreover have "vector_inv (w\<lparr>v_cnt := l\<rparr>)" using t w(3) c(2) assms(2) by (simp add: vector_inv_def)
  moreover have "vec_items (w\<lparr>v_cnt := l\<rparr>) = take (nat l) (vec_items v)" if "l \<le> v_cnt v"
  proof -
    have "nat l \<le> n" using that t(7) w(4) length_vec_items [OF assms(1)] by simp
    then have "take (nat l) (take n t) = take (nat l) t" by (simp add: min_def)
    moreover have "vec_items (w\<lparr>v_cnt := l\<rparr>) = take (nat l) t" using t(1) by (simp add: vec_items_def)
    ultimately show ?thesis using t(6) w(4) by simp
  qed
  ultimately show ?thesis by auto
qed

lemma take_pages: "\<forall>p \<in> set P. length p = n \<Longrightarrow> concat (take m P) = take (m * n) (concat P)"
proof (induction P arbitrary: m)
  case (Cons p P)
  then show ?case by (cases m) auto
qed simp

text \<open>The pages that hold the \<^verbatim>\<open>l\<close> first items, the last of them used up to the last item.\<close>

lemma frag_cut:
  assumes "frag_inv low f" "l \<le> length (frag_items f)" "vector_inv t" "vec_items t = take m (vec_items (f_tab f))" "m \<le> length (vec_items (f_tab f))"
    "if m = 0 then l = 0 \<and> u = 2 ^ f_shf f else l = (m - 1) * 2 ^ f_shf f + u \<and> 1 \<le> u \<and> u \<le> 2 ^ f_shf f"
  shows "frag_inv 1 (f\<lparr>f_tab := t, f_used := int u\<rparr>)" "frag_items (f\<lparr>f_tab := t, f_used := int u\<rparr>) = take l (frag_items f)"
proof -
  let ?S = "2 ^ f_shf f :: nat" and ?g = "f\<lparr>f_tab := t, f_used := int u\<rparr>"
  obtain P n where p: "vec_items (f_tab f) = P" "frag_items f = take n (concat P)" "length (frag_items f) = n" "\<forall>p \<in> set P. length p = ?S"
    using assms(1) by (rule frag_invE) blast
  have i: "0 < f_shf f" "f_size f = int ?S" "f_msk f = 2 ^ f_shf f - 1" using assms(1) by (simp_all add: frag_inv_def)
  have q: "vec_items t = take m P" "m \<le> length P" "\<forall>p \<in> set (take m P). length p = ?S" using assms(4,5) p(1,4) by (auto dest: in_set_takeD)
  have ne: "take m P = [] \<longleftrightarrow> m = 0" using q(2) by auto
  have us: "m \<noteq> 0 \<Longrightarrow> 1 \<le> u \<and> u \<le> ?S" "m = 0 \<Longrightarrow> u = ?S" using assms(6) by auto
  show "frag_inv 1 ?g" using i assms(3) q(1,3) ne us by (cases "m = 0") (simp_all add: frag_inv_def del: of_nat_power)
  have c: "v_cnt t = int m" using length_vec_items [OF assms(3)] q(1,2) by simp
  have l: "FragTable_length ?g = int l"
  proof (cases m)
    case 0
    have "push_bit (f_shf f) (- 1 :: int) = - 1 * 2 ^ f_shf f" by (rule push_bit_eq_mult)
    then show ?thesis using 0 assms(6) c by (simp add: FragTable_length_def del: push_bit_minus_one_eq_not_mask)
  next
    case (Suc k)
    then show ?thesis using assms(6) c by (simp add: FragTable_length_def push_bit_eq_mult)
  qed
  have "l \<le> m * ?S"
  proof (cases m)
    case (Suc k)
    then show ?thesis using assms(6) by simp
  qed (use assms(6) in simp)
  then show "frag_items ?g = take l (frag_items f)"
    using frag_itemsI [OF l] q(1) take_pages [OF p(4), of m] p(2,3) assms(2) by (simp add: min_def)
qed

lemma frag_inv_weaken: "frag_inv 1 f \<Longrightarrow> frag_inv 0 f"
  by (auto simp: frag_inv_def split: if_splits)

lemma frag_unchanged: "f\<lparr>f_tab := t, f_used := u\<rparr> = f\<lparr>f_used := u, f_tab := t\<rparr>"
  by simp

lemma FragTable_shrink_ok:
  assumes "frag_inv low f" "vec_fits (length (frag_items f))" "0 \<le> l" "l < int (length (frag_items f))"
  shows "\<exists>g. FragTable_shrink l f = Inr g \<and> frag_inv 1 g \<and> frag_items g = take (nat l) (frag_items f)"
proof -
  let ?S = "2 ^ f_shf f :: nat"
  obtain P n where p: "vec_items (f_tab f) = P" "n \<le> length P * ?S" "length (frag_items f) = n" "v_cnt (f_tab f) = int (length P)"
    using assms(1) by (rule frag_invE) blast
  obtain k where k: "l = int k" "k < n" using assms(3,4) p(3) nonneg_int_cases [of l] by auto
  have i: "f_size f = int ?S" "f_msk f = 2 ^ f_shf f - 1" "vector_inv (f_tab f)" using assms(1) by (simp_all add: frag_inv_def)
  define m where "m = (k + (?S - 1)) div ?S"
  define u where "u = (if k mod ?S = 0 then ?S else k mod ?S)"
  have nl: "drop_bit (f_shf f) (l + f_msk f) = int m"
  proof -
    have "1 \<le> ?S" by simp
    then have "int (k + (?S - 1)) = int k + (int ?S - 1)" by (simp only: of_nat_add of_nat_diff of_nat_1)
    then have "l + f_msk f = int (k + (?S - 1))" using k(1) i(2) by simp
    then show ?thesis unfolding m_def by (simp only: index_bits)
  qed
  have us: "(if l AND f_msk f = 0 then f_size f else l AND f_msk f) = int u" using k(1) i(1,2) by (simp add: index_bits u_def)
  have mk: "if m = 0 then k = 0 \<and> u = ?S else k = (m - 1) * ?S + u \<and> 1 \<le> u \<and> u \<le> ?S"
  proof (cases "k mod ?S = 0")
    case True
    then have "k = (k div ?S) * ?S" using div_mult_mod_eq [of k ?S] by simp
    then obtain q where q: "k = q * ?S" by blast
    have "(q * ?S + (?S - 1)) div ?S = q + (?S - 1) div ?S" by (rule div_mult_self3) simp
    moreover have "(?S - 1) div ?S = 0" by (intro div_less) simp
    ultimately have "m = q" unfolding m_def q by linarith
    then show ?thesis using q True by (cases q) (simp_all add: u_def)
  next
    case False
    have e: "k + (?S - 1) = k div ?S * ?S + (k mod ?S + (?S - 1))" using div_mult_mod_eq [of k ?S] by linarith
    have "(k + (?S - 1)) div ?S = k div ?S + (k mod ?S + (?S - 1)) div ?S" by (subst e) (rule div_mult_self3, simp)
    also have "(k mod ?S + (?S - 1)) div ?S = 1"
    proof -
      have "k mod ?S + (?S - 1) = ?S + (k mod ?S - 1)" using False by simp
      moreover have "k mod ?S - 1 < ?S" by (simp add: less_imp_diff_less)
      moreover have "(?S + (k mod ?S - 1)) div ?S = 1 + (k mod ?S - 1) div ?S" using div_mult_self3 [of ?S 1 "k mod ?S - 1"] by simp
      ultimately show ?thesis by (simp only: div_less add_0_right)
    qed
    finally have "m = Suc (k div ?S)" by (simp add: m_def)
    then show ?thesis using False div_mult_mod_eq [of k ?S, symmetric] by (simp add: u_def less_imp_le)
  qed
  have ml: "m \<le> length P"
  proof -
    have "k + (?S - 1) < Suc (length P) * ?S" using k(2) p(2) by simp
    then show ?thesis unfolding m_def by (simp add: less_mult_imp_div_less less_Suc_eq_le [symmetric] del: mult_Suc)
  qed
  have "int m \<le> 2 ^ 30" using ml pages_fit [OF assms(1,2)] p(1) by (simp add: vec_fits_def)
  then obtain t where t: "Vector_setLength [] (int m) (f_tab f) = Inr t" "vector_inv t" "vec_items t = take m P"
    using Vector_setLength_ok [OF i(3), of "int m" "[]"] ml p(1,4) by auto
  have "FragTable_shrink l f = Inr (f\<lparr>f_tab := t, f_used := int u\<rparr>)"
    unfolding FragTable_shrink_def Let_def nl us using t(1) k p(3) length_frag_items [OF assms(1)] by simp
  then show ?thesis using frag_cut [OF assms(1) _ t(2), of k m u] t(3) p(1,3) k ml mk by auto
qed

lemma FragTable_removeAt_ok:
  assumes "frag_inv 1 f" "vec_fits (length (frag_items f))" "0 \<le> i" "i < int (length (frag_items f))"
  shows "\<exists>g. FragTable_removeAt i f = Inr g \<and> frag_inv 1 g \<and> frag_items g = list_step (RemoveAt i) (frag_items f)"
proof -
  let ?n = "length (frag_items f)"
  obtain k where k: "i = int k" "k < ?n" using assms(3,4) nonneg_int_cases [of i] by auto
  obtain g where g: "frag_down (int ?n) (int k + 1) f = Inr g" "frag_inv 1 g" "f_used g = f_used f" "f_size g = f_size f"
    "frag_items g = moved (int k) (int k + 1) (int k) (int ?n - 1) (frag_items f)"
    using frag_down_ok [OF assms(1), of "int k" "int k + 1"] k by auto
  let ?S = "2 ^ f_shf g :: nat"
  obtain P n u where p: "vec_items (f_tab g) = P" "f_used g = int u" "length (frag_items g) = n" "P = [] \<Longrightarrow> n = 0 \<and> u = ?S"
    "P \<noteq> [] \<Longrightarrow> n = (length P - 1) * ?S + u \<and> 1 \<le> u" "u \<le> ?S" "v_cnt (f_tab g) = int (length P)"
    using g(2) by (rule frag_invE) blast
  have n: "n = ?n" using g(5) p(3) by simp
  then have ne: "P \<noteq> []" using p(4) k(2) by auto
  obtain m where m: "length P = Suc m" using ne by (cases P) auto
  have nu: "n = m * ?S + u" "1 \<le> u" using p(5) ne m by simp_all
  have i: "f_size g = int ?S" "vector_inv (f_tab g)" using g(2) by (simp_all add: frag_inv_def)
  have cut: "take (n - 1) (frag_items g) = list_step (RemoveAt i) (frag_items f)"
    using remove_moved [of k ?n "frag_items f"] k g(5) n by simp
  have down: "frag_down (FragTable_length f) (i + 1) f = Inr g" using g(1) k(1) length_frag_items [OF assms(1)] by simp
  show ?thesis
  proof (cases "u = 1")
    case True
    have "int m \<le> 2 ^ 30" using pages_fit [OF frag_inv_weaken [OF g(2)]] assms(2) p(1,3) n m by (simp add: vec_fits_def)
    then obtain t where t: "Vector_setLength [] (int m) (f_tab g) = Inr t" "vector_inv t" "vec_items t = take m P"
      using Vector_setLength_ok [OF i(2), of "int m" "[]"] m p(1,7) by auto
    have top: "Vector_get_mut (int m) (f_tab g) = Inr (P ! m)"
      using Vector_get_ok [OF i(2), of "int m"] p(1,7) m by (simp add: Vector_get_def Vector_get_mut_def)
    have "FragTable_removeAt i f = Inr (g\<lparr>f_tab := t, f_used := int ?S\<rparr>)"
      using down t(1) top True p(2,7) m i(1) by (simp add: FragTable_removeAt_def Let_def)
    moreover have "if m = 0 then n - 1 = 0 \<and> ?S = ?S else n - 1 = (m - 1) * ?S + ?S \<and> 1 \<le> ?S \<and> ?S \<le> ?S"
      using nu(1) True by (cases m) simp_all
    ultimately show ?thesis using frag_cut [OF g(2) _ t(2), of "n - 1" m ?S] t(3) p(1,3) m cut by auto
  next
    case False
    have "FragTable_removeAt i f = Inr (g\<lparr>f_tab := f_tab g, f_used := int (u - 1)\<rparr>)"
      using down False p(2) nu(2) by (simp add: FragTable_removeAt_def Let_def of_nat_diff)
    moreover have "if Suc m = 0 then n - 1 = 0 \<and> u - 1 = ?S else n - 1 = (Suc m - 1) * ?S + (u - 1) \<and> 1 \<le> u - 1 \<and> u - 1 \<le> ?S"
      using nu p(6) False by auto
    ultimately show ?thesis using frag_cut [OF g(2) _ i(2), of "n - 1" "Suc m" "u - 1"] p(1,3) m cut by auto
  qed
qed

lemma FragTable_clear_ok: "frag_inv low f \<Longrightarrow> frag_inv 1 (FragTable_clear f) \<and> frag_items (FragTable_clear f) = []"
proof -
  assume "frag_inv low f"
  then have "vector_inv (Vector_clear (f_tab f))" "vec_items (Vector_clear (f_tab f)) = []" "frag_inv low f"
    by (auto simp: frag_inv_def Vector_clear_def vector_inv_def vec_items_def)
  then show ?thesis by (simp add: frag_inv_def FragTable_clear_def frag_items_def)
qed

text \<open>The size of the pages does not change.\<close>

lemma FragTable_set_shf: "FragTable_set i x f = Inr g \<Longrightarrow> f_shf g = f_shf f"
  by (auto simp: FragTable_set_def bind_res_eq_Inr)

lemma frag_up_shf: "frag_up k i f = Inr g \<Longrightarrow> f_shf g = f_shf f"
proof (induction k i f rule: frag_up.induct)
  case (1 k i f)
  show ?case
  proof (cases "k \<le> i")
    case True
    then obtain x h where "FragTable_get i f = Inr x" "FragTable_set (i + 1) x f = Inr h" "frag_up k (i - 1) h = Inr g"
      using "1.prems" by (subst (asm) frag_up.simps) (auto simp: bind_res_eq_Inr)
    then show ?thesis using "1.IH" True FragTable_set_shf by fastforce
  qed (use "1.prems" in \<open>simp add: frag_up.simps\<close>)
qed

lemma frag_down_shf: "frag_down l i f = Inr g \<Longrightarrow> f_shf g = f_shf f"
proof (induction l i f rule: frag_down.induct)
  case (1 l i f)
  show ?case
  proof (cases "i < l")
    case True
    then obtain x h where "FragTable_get i f = Inr x" "FragTable_set (i - 1) x f = Inr h" "frag_down l (i + 1) h = Inr g"
      using "1.prems" by (subst (asm) frag_down.simps) (auto simp: bind_res_eq_Inr)
    then show ?thesis using "1.IH" True FragTable_set_shf by fastforce
  qed (use "1.prems" in \<open>simp add: frag_down.simps\<close>)
qed

lemma alloc_loop_shf: "alloc_loop junk k c f = Inr (d, g) \<Longrightarrow> f_shf g = f_shf f"
  by (induction k arbitrary: c f) (fastforce simp: new_page_def bind_res_eq_Inr split: if_splits)+

lemma FragTable_alloc_shf: "FragTable_alloc junk c f = Inr (d, g) \<Longrightarrow> f_shf g = f_shf f"
  by (auto simp: FragTable_alloc_def bind_res_eq_Inr simp del: alloc_loop.simps dest: alloc_loop_shf)

lemma frag_step_shf: "frag_step junk p f = Inr g \<Longrightarrow> f_shf g = f_shf f"
proof (cases p)
  case (Insert i x)
  assume "frag_step junk p f = Inr g"
  then obtain n a b c where "FragTable_alloc junk 1 f = Inr (c, a)" "frag_up i n a = Inr b" "FragTable_set i x b = Inr g"
    using Insert by (auto simp: FragTable_insert_def bind_res_eq_Inr)
  then show ?thesis using FragTable_alloc_shf frag_up_shf FragTable_set_shf by fastforce
next
  case (RemoveAt i)
  assume "frag_step junk p f = Inr g"
  then obtain h where "frag_down (FragTable_length f) (i + 1) f = Inr h" "f_shf g = f_shf h"
    using RemoveAt by (auto simp: FragTable_removeAt_def bind_res_eq_Inr Let_def split: if_splits)
  then show ?thesis using frag_down_shf by fastforce
qed (auto simp: FragTable_add_def FragTable_set_def FragTable_shrink_def FragTable_clear_def new_page_def bind_res_eq_Inr Let_def split: if_splits)

lemma frag_inv_used:
  assumes "frag_inv 0 f" "length (frag_items f) mod 2 ^ f_shf f \<noteq> 0"
  shows "frag_inv 1 f"
proof -
  obtain P n u where p: "vec_items (f_tab f) = P" "f_used f = int u" "P = [] \<Longrightarrow> n = 0 \<and> u = 2 ^ f_shf f" "P \<noteq> [] \<Longrightarrow> n = (length P - 1) * 2 ^ f_shf f + u \<and> 0 \<le> u"
    "length (frag_items f) = n" using assms(1) by (rule frag_invE) blast
  have "P \<noteq> [] \<Longrightarrow> u \<noteq> 0" using assms(2) p(4,5) by (cases u) auto
  then show ?thesis using assms(1) p(1,2) by (auto simp: frag_inv_def)
qed

text \<open>
  The two contracts of a table: with no removal, or with insertions that do not fill a page.
\<close>

fun no_removal :: "'a arr_op \<Rightarrow> nat \<Rightarrow> bool" where
  "no_removal (RemoveAt i) n = False"
| "no_removal _ n = True"

fun no_filling :: "nat \<Rightarrow> 'a arr_op \<Rightarrow> nat \<Rightarrow> bool" where
  "no_filling s (Insert i x) n = (Suc n mod 2 ^ s \<noteq> 0)"
| "no_filling s _ n = True"

interpretation inserting_table: growing_array "frag_inv 0" frag_items vec_fits no_removal "frag_step junk" FragTable_get for junk
proof
  fix f :: "'a fragtable" and p :: "'a arr_op"
  assume a: "frag_inv 0 f" "no_removal p (length (frag_items f))" "vec_fits (length (frag_items f))" "op_valid p (length (frag_items f))"
  show "\<exists>g. frag_step junk p f = Inr g \<and> frag_inv 0 g \<and> frag_items g = list_step p (frag_items f)"
  proof (cases p)
    case (Add x)
    then show ?thesis using FragTable_add_ok [OF a(1,3)] frag_inv_weaken by fastforce
  next
    case (Set i x)
    then show ?thesis using FragTable_set_ok [OF a(1)] a(4) by simp
  next
    case (Insert i x)
    then show ?thesis using FragTable_insert_ok [OF a(1,3)] a(4) by simp
  next
    case (Shrink l)
    then show ?thesis using FragTable_shrink_ok [OF a(1,3), of l] a(4) frag_inv_weaken by fastforce
  qed (use a FragTable_clear_ok [OF a(1)] frag_inv_weaken in auto)
qed (rule FragTable_get_ok)

interpretation removing_table: growing_array "\<lambda>f. frag_inv 1 f \<and> f_shf f = s" frag_items vec_fits "no_filling s" "frag_step junk" FragTable_get for junk s
proof
  fix f :: "'a fragtable" and p :: "'a arr_op"
  assume f: "frag_inv 1 f \<and> f_shf f = s"
    and a: "no_filling s p (length (frag_items f))" "vec_fits (length (frag_items f))" "op_valid p (length (frag_items f))"
  have "\<exists>g. frag_step junk p f = Inr g \<and> frag_inv 1 g \<and> frag_items g = list_step p (frag_items f)"
  proof (cases p)
    case (Add x)
    then show ?thesis using FragTable_add_ok [OF conjunct1 [OF f] a(2)] by simp
  next
    case (Set i x)
    then show ?thesis using FragTable_set_ok [OF conjunct1 [OF f]] a(3) by simp
  next
    case (Insert i x)
    then obtain g where g: "frag_step junk p f = Inr g" "frag_inv 0 g" "frag_items g = list_step p (frag_items f)"
      using FragTable_insert_ok [OF conjunct1 [OF f] a(2), of i junk x] a(3) by auto
    moreover have "length (list_step p (frag_items f)) = Suc (length (frag_items f))" using Insert a(3) by simp
    ultimately show ?thesis using frag_inv_used [of g] frag_step_shf [OF g(1)] f a(1) Insert by auto
  next
    case (RemoveAt i)
    then show ?thesis using FragTable_removeAt_ok [OF conjunct1 [OF f] a(2)] a(3) by simp
  next
    case (Shrink l)
    then show ?thesis using FragTable_shrink_ok [OF conjunct1 [OF f] a(2), of l] a(3) by simp
  qed (use FragTable_clear_ok [OF conjunct1 [OF f]] in auto)
  then show "\<exists>g. frag_step junk p f = Inr g \<and> (frag_inv 1 g \<and> f_shf g = s) \<and> frag_items g = list_step p (frag_items f)"
    using frag_step_shf f by fastforce
qed (use FragTable_get_ok in blast)

lemma frag_inv_new: "0 < s \<Longrightarrow> s < 31 \<Longrightarrow> \<exists>f. FragTable_new s = Inr f \<and> frag_inv low f \<and> f_shf f = s \<and> frag_items f = []"
  by (simp add: FragTable_new_def frag_inv_def frag_items_def vector_inv_new push_bit_eq_mult mult.commute)


section \<open>Properties\<close>

text \<open>
  C30. A vector is a list: any sequence of additions, assignments, insertions, removals, shrinkings and
  clearings with valid indexes, on a new vector of positive capacity and up to 2 to the 30 items, returns, keeps
  the invariant, and the vector then reads as the list after the same operations. With an invalid index, the constant
  access, assignments, insertions and shrinkings fail an assertion; the other access runs out of the block when the index is
  negative; a removal fails an assertion except just after the last item, where it silently
  removes the last item, or moves a negative number of items when they are moved by \<^verbatim>\<open>memmove\<close>.
\<close>

theorem vector_refines_list:
  assumes "0 < c" "run_valid vec_fits (\<lambda>_ _. True) ps []"
  defines "xs \<equiv> fold list_step ps []"
  shows "\<exists>v. arr_run (vec_step junk deep) ps (Vector_new junk c) = Inr v \<and> vector_inv v \<and> vec_items v = xs \<and> v_cnt v = int (length xs) \<and>
     (\<forall>i. Vector_get i v = (if 0 \<le> i \<and> i < int (length xs) then Inr (xs ! nat i) else Inl Assertion_failed)) \<and>
     (\<forall>i. Vector_get_mut i v =
       (if i < 0 then Inl Out_of_bounds else if i < int (length xs) then Inr (xs ! nat i) else Inl Assertion_failed)) \<and>
     (\<forall>i x. \<not> op_valid (Set i x) (length xs) \<longrightarrow> Vector_set i x v = Inl Assertion_failed) \<and>
     (\<forall>i x. \<not> op_valid (Insert i x) (length xs) \<longrightarrow> Vector_insert junk deep i x v = Inl Assertion_failed) \<and>
     (\<forall>l. l < 0 \<or> int (length xs) < l \<longrightarrow> Vector_shrink l v = Inl Assertion_failed) \<and>
     (\<forall>i. i < 0 \<or> int (length xs) < i \<longrightarrow> Vector_removeAt deep i v = Inl Assertion_failed) \<and>
     Vector_removeAt deep (int (length xs)) v = (if deep then Inr (v\<lparr>v_cnt := int (length xs) - 1\<rparr>) else Inl Out_of_bounds)"
proof -
  obtain v where v: "arr_run (vec_step junk deep) ps (Vector_new junk c) = Inr v" "vector_inv v" "vec_items v = xs"
    using vector_array.run_refines [of "Vector_new junk c" ps junk deep] vector_inv_new [OF assms(1), of junk] assms(2) by (auto simp: xs_def)
  have n: "v_cnt v = int (length xs)" using length_vec_items [OF v(2)] v(3) by simp
  obtain t where t: "v_tab v = Some t" using v(2) by (auto simp: vector_inv_def)
  have mut: "Vector_get_mut i v = (if i < 0 then Inl Out_of_bounds else Vector_get i v)" for i
    using n t by (auto simp: Vector_get_mut_def Vector_get_def assert_res_def arr_get_def)
  have "Vector_removeAt deep (int (length xs)) v = (if deep then Inr (v\<lparr>v_cnt := int (length xs) - 1\<rparr>) else Inl Out_of_bounds)"
    using n t by (cases v) (simp add: Vector_removeAt_def array_move_def slow_move_def fast_move_def slow_copy.simps)
  then show ?thesis using v n Vector_get_ok [OF v(2)] mut
    by (auto simp: Vector_set_def Vector_insert_def Vector_shrink_def Vector_removeAt_def assert_res_def)
qed

theorem vector_refines_list_witness:
  "\<exists>v. arr_run (vec_step (0 :: nat) True) [Add 5, Add 6, Insert 1 7, RemoveAt 0, Set 1 9] (Vector_new 0 1) = Inr v \<and> vec_items v = [7, 9]"
proof -
  have "run_valid vec_fits (\<lambda>_ _. True) [Add (5 :: nat), Add 6, Insert 1 7, RemoveAt 0, Set 1 9] []" by (simp add: vec_fits_def)
  from vector_refines_list [OF _ this, of 1 0 True] show ?thesis by auto
qed

lemma remove_first:
  assumes "0 \<le> i"
  shows "if first_index (=) x i xs = - 1 then x \<notin> set xs
    else \<exists>k < length xs. first_index (=) x i xs = i + int k \<and> take k xs @ drop (Suc k) xs = remove1 x xs"
  using assms
proof (induction xs arbitrary: i)
  case (Cons y ys)
  show ?case
  proof (cases "x = y")
    case False
    show ?thesis
    proof (cases "first_index (=) x (i + 1) ys = - 1")
      case True
      then show ?thesis using Cons.IH [of "i + 1"] Cons.prems False by simp
    next
      case f: False
      then obtain k where "k < length ys" "first_index (=) x (i + 1) ys = i + 1 + int k" "take k ys @ drop (Suc k) ys = remove1 x ys"
        using Cons.IH [of "i + 1"] Cons.prems by auto
      then have "Suc k < length (y # ys) \<and> first_index (=) x i (y # ys) = i + int (Suc k) \<and>
          take (Suc k) (y # ys) @ drop (Suc (Suc k)) (y # ys) = remove1 x (y # ys)" "first_index (=) x i (y # ys) \<noteq> - 1"
        using False Cons.prems by simp_all
      then show ?thesis unfolding if_not_P [OF \<open>first_index (=) x i (y # ys) \<noteq> - 1\<close>] by blast
    qed
  qed (use Cons.prems in auto)
qed simp

lemma Vector_remove_ok:
  assumes "vector_inv v"
  shows "\<exists>w. Vector_remove deep (=) x v = Inr w \<and> vector_inv w \<and> vec_items w = remove1 x (vec_items v)"
proof -
  let ?i = "first_index (=) x 0 (vec_items v)"
  have "0 \<le> v_cnt v" using length_vec_items [OF assms] by linarith
  then have ix: "Vector_indexOf (=) x 0 v = Inr ?i" using index_loop_ok [OF assms, of 0 "(=)" x] by (simp add: Vector_indexOf_def)
  show ?thesis
  proof (cases "?i = - 1")
    case True
    then show ?thesis using ix assms remove_first [of 0 x "vec_items v"] by (simp add: Vector_remove_def remove1_idem)
  next
    case False
    then obtain k where k: "k < length (vec_items v)" "?i = int k" "take k (vec_items v) @ drop (Suc k) (vec_items v) = remove1 x (vec_items v)"
      using remove_first [of 0 x "vec_items v"] by auto
    then show ?thesis using ix Vector_removeAt_ok [OF assms, of "int k" deep] by (simp add: Vector_remove_def)
  qed
qed

lemma Vector_lastIndexOf_ok:
  assumes "vector_inv v" "p \<le> v_cnt v" "n = nat (if p < 0 then v_cnt v else p)"
  shows "\<exists>i. Vector_lastIndexOf eq x p v = Inr i \<and>
    (if i = - 1 then \<forall>j < n. \<not> eq x (vec_items v ! j)
     else 0 \<le> i \<and> i < int n \<and> eq x (vec_items v ! nat i) \<and> (\<forall>j < n. nat i < j \<longrightarrow> \<not> eq x (vec_items v ! j)))"
proof -
  have c: "v_cnt v = int (length (vec_items v))" using length_vec_items [OF assms(1)] by simp
  then have n: "(if p < 0 then v_cnt v else p) = int n" "n \<le> length (vec_items v)" using assms(2,3) by auto
  show ?thesis using last_index_loop_ok [OF assms(1) n(2), of eq x] assms(2) unfolding Vector_lastIndexOf_def n(1) by simp
qed

text \<open>
  The searches of a vector: the first index of an item from a given one, the last one before a given one,
  the test of an item, the removal of the first equal item, the comparison with another collection item by
  item, and the copy in a new vector.
\<close>

lemma vector_searches:
  assumes "vector_inv v" "0 \<le> p" "p \<le> v_cnt v" "q \<le> v_cnt v"
  shows "Vector_indexOf eq x p v = Inr (first_index eq x p (drop (nat p) (vec_items v))) \<and>
    (\<exists>i. Vector_lastIndexOf eq x q v = Inr i \<and>
      (let n = nat (if q < 0 then v_cnt v else q) in
       if i = - 1 then \<forall>j < n. \<not> eq x (vec_items v ! j)
       else 0 \<le> i \<and> i < int n \<and> eq x (vec_items v ! nat i) \<and> (\<forall>j < n. nat i < j \<longrightarrow> \<not> eq x (vec_items v ! j)))) \<and>
    Vector_contains y v = Inr (y \<in> set (vec_items v)) \<and>
    (\<exists>w. Vector_remove deep (=) y v = Inr w \<and> vector_inv w \<and> vec_items w = remove1 y (vec_items v)) \<and>
    Vector_equals eq ys v = Inr (list_all2 eq (vec_items v) ys) \<and>
    (\<exists>w. Vector_new_copy junk v = Inr w \<and> vector_inv w \<and> vec_items w = vec_items v)"
proof (intro conjI)
  obtain k where k: "p = int k" using assms(2) nonneg_int_cases by blast
  have "k \<le> length (vec_items v)" using k assms(3) length_vec_items [OF assms(1)] by simp
  then show "Vector_indexOf eq x p v = Inr (first_index eq x p (drop (nat p) (vec_items v)))"
    using index_loop_ok [OF assms(1), of k eq x] assms(2,3) k by (simp add: Vector_indexOf_def)
  show "\<exists>i. Vector_lastIndexOf eq x q v = Inr i \<and>
      (let n = nat (if q < 0 then v_cnt v else q) in
       if i = - 1 then \<forall>j < n. \<not> eq x (vec_items v ! j)
       else 0 \<le> i \<and> i < int n \<and> eq x (vec_items v ! nat i) \<and> (\<forall>j < n. nat i < j \<longrightarrow> \<not> eq x (vec_items v ! j)))"
    unfolding Let_def by (rule Vector_lastIndexOf_ok [OF assms(1,4) refl])
  show "Vector_contains y v = Inr (y \<in> set (vec_items v))" using contains_loop_ok [OF assms(1), of 0 y] by (simp add: Vector_contains_def)
  show "\<exists>w. Vector_remove deep (=) y v = Inr w \<and> vector_inv w \<and> vec_items w = remove1 y (vec_items v)" by (rule Vector_remove_ok [OF assms(1)])
  show "Vector_equals eq ys v = Inr (list_all2 eq (vec_items v) ys)" using equals_loop_ok [OF assms(1), of 0 eq ys] by (simp add: Vector_equals_def)
  show "\<exists>w. Vector_new_copy junk v = Inr w \<and> vector_inv w \<and> vec_items w = vec_items v"
    unfolding Vector_new_copy_def by (rule Vector_copy_ok [OF assms(1)]) simp
qed

lemma vector_searches_witness:
  "let v = \<lparr>v_tab = Some [3 :: nat, 5, 3, 0], v_cap = 4, v_cnt = 3\<rparr> in
     Vector_indexOf (=) 3 1 v = Inr 2 \<and> Vector_contains 0 v = Inr False \<and> Vector_equals (=) [3, 5, 3] v = Inr True"
proof -
  let ?v = "\<lparr>v_tab = Some [3 :: nat, 5, 3, 0], v_cap = 4, v_cnt = 3\<rparr>"
  have "vector_inv ?v" by (simp add: vector_inv_def)
  from vector_searches [OF this, of 1 "- 1" "(=)" 3 0 True "[3, 5, 3]" 7] show ?thesis
    by (simp add: vec_items_def numeral_eq_Suc)
qed

text \<open>
  C31. A fragmented table is a list: any sequence of operations with valid indexes that contains no removal, or
  no insertion that fills a page, on a new table whose page size is a power of two from 2 to 2 to the 30,
  returns, and the table
  then has the length and the items of the list after the same operations.
\<close>

theorem frag_table_refines_list:
  fixes junk :: 'a
  assumes "0 < s" "s < 31" "run_valid vec_fits allowed ps []" "allowed = no_removal \<or> allowed = no_filling s"
  shows "\<exists>f g. FragTable_new s = Inr f \<and> arr_run (frag_step junk) ps f = Inr g \<and> frag_inv 0 g \<and>
    FragTable_length g = int (length (fold list_step ps [])) \<and>
    (\<forall>i. FragTable_get i g =
      (if 0 \<le> i \<and> i < int (length (fold list_step ps [])) then Inr (fold list_step ps [] ! nat i) else Inl Assertion_failed))"
proof -
  obtain f :: "'a fragtable" where f: "FragTable_new s = Inr f" "frag_inv 1 f" "f_shf f = s" "frag_items f = []"
    using frag_inv_new [OF assms(1,2), of 1] by auto
  note f0 = frag_inv_weaken [OF f(2)]
  obtain g where g: "arr_run (frag_step junk) ps f = Inr g" "frag_inv 0 g" "frag_items g = fold list_step ps []"
    using assms(4)
  proof
    assume "allowed = no_removal"
    then show ?thesis using inserting_table.run_refines [OF f0, of ps junk] assms(3) f(4) that by auto
  next
    assume "allowed = no_filling s"
    then show ?thesis using removing_table.run_refines [of f s ps junk] assms(3) f that frag_inv_weaken by fastforce
  qed
  then show ?thesis using f(1) length_frag_items [OF g(2)] FragTable_get_ok [OF g(2)] by auto
qed

theorem frag_table_refines_list_witness:
  "\<exists>f g. FragTable_new 1 = Inr f \<and> arr_run (frag_step (0 :: nat)) [Add 5, Add 6, Insert 0 7, RemoveAt 1, Set 1 9] f = Inr g \<and>
     FragTable_length g = 2 \<and> FragTable_get 0 g = Inr 7 \<and> FragTable_get 1 g = Inr 9"
proof -
  have "run_valid vec_fits (no_filling 1) [Add (5 :: nat), Add 6, Insert 0 7, RemoveAt 1, Set 1 9] []" by (simp add: vec_fits_def)
  from frag_table_refines_list [of 1, OF _ _ this, where junk = 0] show ?thesis by fastforce
qed

text \<open>An insertion that fills a page adds an empty one; a removal then leaves the count of its items at -1.\<close>

lemma FragTable_set_used: "FragTable_set i x f = Inr g \<Longrightarrow> f_used g = f_used f"
  by (auto simp: FragTable_set_def bind_res_eq_Inr)

lemma frag_up_used: "frag_up k i f = Inr g \<Longrightarrow> f_used g = f_used f"
proof (induction k i f rule: frag_up.induct)
  case (1 k i f)
  show ?case
  proof (cases "k \<le> i")
    case True
    then obtain x h where "FragTable_get i f = Inr x" "FragTable_set (i + 1) x f = Inr h" "frag_up k (i - 1) h = Inr g"
      using 1(2) by (subst (asm) frag_up.simps) (auto simp: bind_res_eq_Inr)
    then show ?thesis using 1(1) [OF True] FragTable_set_used by metis
  qed (use 1(2) in \<open>simp add: frag_up.simps\<close>)
qed

lemma FragTable_alloc_fills:
  assumes "f_used f + 1 = f_size f" "1 < f_size f" "FragTable_alloc junk 1 f = Inr (d, g)"
  shows "f_used g = 0"
proof -
  have three: "nat 1 + 2 = Suc (Suc (Suc 0))" by simp
  have room: "f_size f - f_used f = 1" using assms(1) by simp
  have "\<exists>t. new_page junk f = Inr t" using assms(3) room by (cases "new_page junk f") (simp_all add: FragTable_alloc_def three)
  then obtain t where t: "new_page junk f = Inr t" by blast
  then have u: "f_used t = 0" "f_size t = f_size f" by (auto simp: new_page_def bind_res_eq_Inr)
  have "g = t\<lparr>f_used := f_used t + 0\<rparr>" using assms(2,3) room t u by (simp add: FragTable_alloc_def three)
  then show ?thesis using u by simp
qed

lemma FragTable_insert_fills:
  assumes "frag_inv 0 f" "vec_fits (length (frag_items f))" "0 \<le> i" "i \<le> int (length (frag_items f))"
    "Suc (length (frag_items f)) mod 2 ^ f_shf f = 0"
  obtains g where "FragTable_insert junk i x f = Inr g" "frag_inv 0 g" "frag_items g = list_step (Insert i x) (frag_items f)" "f_used g = 0"
proof -
  obtain g where g: "FragTable_insert junk i x f = Inr g" "frag_inv 0 g" "frag_items g = list_step (Insert i x) (frag_items f)"
    using FragTable_insert_ok [OF assms(1-4)] by blast
  let ?S = "2 ^ f_shf f :: nat"
  have "(2 :: nat) ^ 1 \<le> ?S" using assms(1) by (intro power_increasing) (auto simp: frag_inv_def)
  then have S: "2 \<le> ?S" by simp
  obtain P n u where v: "vec_items (f_tab f) = P" and p: "f_used f = int u" "P = [] \<Longrightarrow> n = 0 \<and> u = ?S" "P \<noteq> [] \<Longrightarrow> n = (length P - 1) * ?S + u \<and> 0 \<le> u" "u \<le> ?S"
    "length (frag_items f) = n" using assms(1) by (rule frag_invE) blast
  have "P \<noteq> []" using p(2,5) assms(5) S by auto
  then have "Suc n = (length P - 1) * ?S + Suc u" using p(3) by simp
  then have "Suc u mod ?S = 0" using p(5) assms(5) by (metis mod_mult_self3)
  then have "Suc u = ?S" using p(4) S by (cases "u = ?S") (auto simp: mod_Suc split: if_splits)
  moreover have "f_size f = int ?S" using assms(1) by (simp add: frag_inv_def)
  ultimately have "f_used f + 1 = f_size f" "1 < f_size f" using p(1) S by linarith+
  moreover obtain d a b where "FragTable_alloc junk 1 f = Inr (d, a)" "frag_up i (FragTable_length f - 1) a = Inr b" "FragTable_set i x b = Inr g"
    using g(1) by (force simp: FragTable_insert_def bind_res_eq_Inr)
  ultimately have "f_used g = 0" using FragTable_alloc_fills frag_up_used FragTable_set_used by metis
  then show ?thesis using that g by blast
qed

lemma FragTable_removeAt_empty_page:
  assumes "frag_inv 0 f" "f_used f = 0" "0 \<le> i" "i < int (length (frag_items f))"
  obtains h where "FragTable_removeAt i f = Inr h" "f_used h = - 1" "frag_items h = list_step (RemoveAt i) (frag_items f)"
    "FragTable_length h = int (length (frag_items h))" "\<And>y. FragTable_add junk y h = Inl Out_of_bounds"
proof -
  let ?n = "length (frag_items f)"
  obtain k where k: "i = int k" "k < ?n" using assms(3,4) nonneg_int_cases [of i] by auto
  obtain g where g: "frag_down (int ?n) (int k + 1) f = Inr g" "frag_inv 0 g" "f_used g = 0" "f_size g = f_size f"
    "frag_items g = moved (int k) (int k + 1) (int k) (int ?n - 1) (frag_items f)"
    using frag_down_ok [OF assms(1), of "int k" "int k + 1"] k assms(2) by auto
  let ?S = "2 ^ f_shf g :: nat" and ?h = "g\<lparr>f_used := - 1\<rparr>"
  obtain P n u where p: "vec_items (f_tab g) = P" "f_used g = int u" "FragTable_length g = int n" "frag_items g = take n (concat P)"
    "length (frag_items g) = n" "P = [] \<Longrightarrow> n = 0 \<and> u = ?S" "\<forall>p \<in> set P. length p = ?S" "v_cnt (f_tab g) = int (length P)"
    using g(2) by (rule frag_invE) blast
  have n: "n = ?n" using g(5) p(5) by simp
  then have ne: "P \<noteq> []" using p(6) k(2) by auto
  have down: "frag_down (FragTable_length f) (i + 1) f = Inr g" using g(1) k(1) length_frag_items [OF assms(1)] by simp
  then have r: "FragTable_removeAt i f = Inr ?h" using g(3) by (simp add: FragTable_removeAt_def Let_def)
  have l: "FragTable_length ?h = int (n - 1)" using p(3) g(3) n k(2) by (simp add: FragTable_length_def of_nat_diff)
  have "frag_items ?h = take (n - 1) (frag_items g)" using frag_itemsI [OF l] p(1,4) by (simp add: min_def)
  also have "\<dots> = list_step (RemoveAt i) (frag_items f)" using remove_moved [of k ?n "frag_items f"] k g(5) n by simp
  finally have it: "frag_items ?h = list_step (RemoveAt i) (frag_items f)" .
  have "Vector_get_mut (int (length P) - 1) (f_tab g) = Inr (P ! (length P - 1))"
    using Vector_get_ok [of "f_tab g" "int (length P) - 1"] g(2) p(1,8) ne
    by (cases P) (auto simp: Vector_get_def Vector_get_mut_def frag_inv_def split: if_splits)
  moreover have "0 < f_size g" using g(2) by (simp add: frag_inv_def)
  then have size: "\<not> f_size g \<le> - 1" by simp
  ultimately have "FragTable_add junk y ?h = Inl Out_of_bounds" for y
    using p(8) size by (simp add: FragTable_add_def cell_set_def arr_set_def)
  then show ?thesis using that [OF r _ it] l it p(5) n k by (simp add: min_def)
qed

lemma frag_contains_loop_total: "frag_inv low f \<Longrightarrow> 0 \<le> i \<Longrightarrow> \<exists>b. frag_contains_loop x i f = Inr b"
proof (induction x i f rule: frag_contains_loop.induct)
  case (1 x i f)
  show ?case
  proof (cases "i < FragTable_length f")
    case True
    then have "FragTable_get i f = Inr (frag_items f ! nat i)" using 1(2,3) FragTable_get_ok [OF 1(2)] length_frag_items [OF 1(2)] by simp
    then show ?thesis using 1 True by (subst frag_contains_loop.simps) auto
  qed (subst frag_contains_loop.simps, simp, intro exI [of _ False], simp)
qed

lemma FragTable_containsAll_false: "frag_inv low f \<Longrightarrow> FragTable_containsAll xs f = Inr False"
proof (induction xs)
  case (Cons x xs)
  then show ?case using frag_contains_loop_total [of low f 0 x] by (auto simp: FragTable_contains_def)
qed simp

lemma cap_loop_never: "c = 0 \<or> (\<exists>j \<le> 30. c = 2 ^ j) \<or> c = - (2 ^ 31) \<Longrightarrow> 2 ^ 30 < l \<Longrightarrow> cap_loop fuel c l = Inl Out_of_fuel"
proof (induction fuel arbitrary: c)
  case (Suc fuel)
  consider "c = 0" | "c = - (2 ^ 31)" | "c = 2 ^ 30" | j where "j < 30" "c = 2 ^ j" using Suc.prems(1) by (auto simp: le_less)
  then show ?case
  proof cases
    case 4
    then have "Suc j \<le> 30" by simp
    then have "(2 :: int) ^ Suc j \<le> 2 ^ 30" by (intro power_increasing) auto
    moreover from this have "wrap32 (2 ^ j * 2) = 2 ^ Suc j" by (subst wrap32_id) (auto intro: order_trans [of _ 0])
    moreover have "(2 :: int) ^ j < 2 ^ Suc j" by simp
    ultimately have "wrap32 (2 ^ j * 2) = 2 ^ Suc j" "(2 :: int) ^ j < l" using Suc.prems(2) by simp_all
    then show ?thesis using 4 Suc.IH [of "2 ^ Suc j"] Suc.prems(2) \<open>Suc j \<le> 30\<close> by (simp del: power_Suc)
  qed (use Suc in \<open>simp_all add: wrap32_def\<close>)
qed simp

text \<open>
  C32. Where the two contracts of a fragmented table are mixed: on any table within its contract, an insertion that fills
  a page is right, and so is the removal of any item after it, but the count of the items of the last page is then -1, so
  that the next addition writes before the page. \<^verbatim>\<open>containsAll\<close> answers false on any table and any items. For a
  vector, any item added after \<^verbatim>\<open>detach\<close> is written through a null pointer, and no number of doublings, if a doubling that
  overflows wraps around, makes \<^verbatim>\<open>setLength\<close> find a capacity for a length over 2 to the 30.
\<close>

theorem array_misuse:
  "(frag_inv 0 f \<and> vec_fits (length (frag_items f)) \<and> 0 \<le> i \<and> i \<le> int (length (frag_items f)) \<and>
      Suc (length (frag_items f)) mod 2 ^ f_shf f = 0 \<and> 0 \<le> k \<and> k \<le> int (length (frag_items f)) \<longrightarrow>
    (\<exists>g h. FragTable_insert junk i x f = Inr g \<and> frag_items g = list_step (Insert i x) (frag_items f) \<and>
      FragTable_removeAt k g = Inr h \<and> frag_items h = list_step (RemoveAt k) (frag_items g) \<and>
      FragTable_length h = int (length (frag_items h)) \<and> FragTable_add junk y h = Inl Out_of_bounds)) \<and>
   (frag_inv 0 t \<longrightarrow> FragTable_containsAll ys t = Inr False) \<and>
   (vector_inv v \<longrightarrow> Vector_add junk' z (snd (Vector_detach v)) = Inl Null_dereference) \<and>
   (2 ^ 30 < l \<longrightarrow> cap_loop fuel 1 l = Inl Out_of_fuel)"
proof (intro conjI impI)
  assume a: "frag_inv 0 f \<and> vec_fits (length (frag_items f)) \<and> 0 \<le> i \<and> i \<le> int (length (frag_items f)) \<and>
      Suc (length (frag_items f)) mod 2 ^ f_shf f = 0 \<and> 0 \<le> k \<and> k \<le> int (length (frag_items f))"
  then obtain g where g: "FragTable_insert junk i x f = Inr g" "frag_inv 0 g" "frag_items g = list_step (Insert i x) (frag_items f)" "f_used g = 0"
    by (elim conjE, elim FragTable_insert_fills [where f = f and i = i and junk = junk and x = x])
  then have "length (frag_items g) = Suc (length (frag_items f))" using a by (auto simp: min_def)
  then have "k < int (length (frag_items g))" using a by linarith
  then obtain h where "FragTable_removeAt k g = Inr h" "frag_items h = list_step (RemoveAt k) (frag_items g)"
    "FragTable_length h = int (length (frag_items h))" "FragTable_add junk y h = Inl Out_of_bounds"
    using FragTable_removeAt_empty_page [OF g(2,4)] a by metis
  then show "\<exists>g h. FragTable_insert junk i x f = Inr g \<and> frag_items g = list_step (Insert i x) (frag_items f) \<and>
      FragTable_removeAt k g = Inr h \<and> frag_items h = list_step (RemoveAt k) (frag_items g) \<and>
      FragTable_length h = int (length (frag_items h)) \<and> FragTable_add junk y h = Inl Out_of_bounds"
    using g(1,3) by blast
next
  assume "frag_inv 0 t"
  then show "FragTable_containsAll ys t = Inr False" by (rule FragTable_containsAll_false)
next
  assume "vector_inv v"
  then show "Vector_add junk' z (snd (Vector_detach v)) = Inl Null_dereference"
    by (elim vector_invE) (simp add: Vector_add_def Vector_detach_def grow_full_def arr_set_def)
next
  assume "2 ^ 30 < l"
  then show "cap_loop fuel 1 l = Inl Out_of_fuel" by (intro cap_loop_never) (auto intro: exI [of _ 0])
qed

theorem array_misuse_witness:
  "(\<exists>f g h. FragTable_insert (0 :: nat) 1 6 f = Inr g \<and> frag_items g = [5, 6] \<and> FragTable_removeAt 0 g = Inr h \<and>
      frag_items h = [6] \<and> FragTable_add 0 7 h = Inl Out_of_bounds \<and> FragTable_containsAll [5] f = Inr False) \<and>
   Vector_add 0 (7 :: nat) (snd (Vector_detach (Vector_new 0 8))) = Inl Null_dereference \<and> cap_loop 100 1 (2 ^ 30 + 1) = Inl Out_of_fuel"
proof -
  obtain f :: "nat fragtable" where f: "FragTable_new 1 = Inr f" "frag_inv 1 f" "f_shf f = 1" "frag_items f = []" using frag_inv_new [of 1 1] by auto
  then obtain e where e: "FragTable_add 0 5 f = Inr e" "frag_inv 1 e" "frag_items e = [5]" "f_shf e = 1"
    using FragTable_add_ok [OF f(2), of 0 5] frag_step_shf [of 0 "Add 5" f] by (force simp: vec_fits_def)
  have e0: "frag_inv 0 e" by (rule frag_inv_weaken [OF e(2)])
  note all = array_misuse [where f = e and i = 1 and k = 0 and junk = 0 and x = 6 and y = 7 and t = e and ys = "[5]" and v = "Vector_new 0 8" and junk' = 0
      and z = "7 :: nat" and l = "2 ^ 30 + 1" and fuel = 100]
  have 1: "\<exists>g h. FragTable_insert 0 1 6 e = Inr g \<and> frag_items g = [5, 6] \<and> FragTable_removeAt 0 g = Inr h \<and> frag_items h = [6] \<and>
      FragTable_add 0 7 h = Inl Out_of_bounds"
    using all [THEN conjunct1] e0 e(3,4) by (fastforce simp: vec_fits_def)
  have 2: "FragTable_containsAll [5] e = Inr False" using all [THEN conjunct2, THEN conjunct1] e0 by blast
  have 3: "Vector_add 0 (7 :: nat) (snd (Vector_detach (Vector_new 0 8))) = Inl Null_dereference"
    using all [THEN conjunct2, THEN conjunct2, THEN conjunct1] vector_inv_new [of 8 "0 :: nat"] by simp
  have "cap_loop 100 1 (2 ^ 30 + 1) = Inl Out_of_fuel" using all [THEN conjunct2, THEN conjunct2, THEN conjunct2] by simp
  then show ?thesis using 1 2 3 by blast
qed

end
