(* ===== verification/Elm_Alloc.thy ===== *)
theory Elm_Alloc
  imports Elm_Prelude
begin

text \<open>
  Allocators: \<^verbatim>\<open>alloc_StackAllocator.cpp\<close>, \<^verbatim>\<open>alloc/BlockAllocator.h\<close>, and the collectors
  \<^verbatim>\<open>alloc_BlockAllocatorWithGC.cpp\<close> and \<^verbatim>\<open>alloc_ListGC.cpp\<close>. An address is the number of a chunk, in the order of
  their creation, and an offset in it: two chunks never overlap. What the allocators rely on of the
  addresses of the chunks themselves, and of the objects that are alive, are parameters.
\<close>

type_synonym addr = "nat \<times> nat"

section \<open>Stack allocator\<close>

text \<open>The chunks, the current one first; a null pointer is \<^verbatim>\<open>None\<close>.\<close>

record stack_alloc =
  sa_chunks :: "nat list"
  sa_fresh :: nat
  sa_max :: "addr option"
  sa_top :: "addr option"
  sa_size :: nat

definition StackAllocator_new :: "nat \<Rightarrow> stack_alloc res" where
  "StackAllocator_new size1 =
     bind_res (assert_res (size1 \<noteq> 0)) (\<lambda>_.
       Inr \<lparr>sa_chunks = [], sa_fresh = 0, sa_max = None, sa_top = None, sa_size = size1\<rparr>)"

definition newChunk :: "stack_alloc \<Rightarrow> stack_alloc" where
  "newChunk s =
     s\<lparr>sa_chunks := sa_fresh s # sa_chunks s, sa_fresh := sa_fresh s + 1, sa_top := Some (sa_fresh s, 0), sa_max := Some (sa_fresh s, sa_size s)\<rparr>"

text \<open>The difference of two addresses as a \<^verbatim>\<open>size_t\<close>; the chunk \<^verbatim>\<open>c\<close> is at the address \<^verbatim>\<open>base c\<close>.\<close>

definition addr_diff :: "(nat \<Rightarrow> int) \<Rightarrow> addr option \<Rightarrow> addr option \<Rightarrow> nat" where
  "addr_diff base p q =
     (let a = (\<lambda>p. case p of None \<Rightarrow> 0 | Some (c, i) \<Rightarrow> base c + int i) in nat ((a p - a q) mod 2 ^ 64))"

definition take_block :: "nat \<Rightarrow> stack_alloc \<Rightarrow> (addr \<times> stack_alloc) res" where
  "take_block n s = (case sa_top s of None \<Rightarrow> Inl Null_dereference | Some (c, i) \<Rightarrow> Inr ((c, i), s\<lparr>sa_top := Some (c, i + n)\<rparr>))"

text \<open>\<^verbatim>\<open>allocate\<close> and \<^verbatim>\<open>chunkFilled\<close> call each other; the first argument bounds their calls.\<close>

fun StackAllocator_allocate :: "(nat \<Rightarrow> int) \<Rightarrow> nat \<Rightarrow> nat \<Rightarrow> stack_alloc \<Rightarrow> (addr \<times> stack_alloc) res" where
  "StackAllocator_allocate base 0 n s = Inl Out_of_fuel"
| "StackAllocator_allocate base (Suc k) n s =
     bind_res (assert_res (n \<le> sa_size s)) (\<lambda>_.
       if sa_chunks s = [] \<or> addr_diff base (sa_max s) (sa_top s) < n
       then StackAllocator_allocate base k n (newChunk s)
       else take_block n s)"

definition StackAllocator_clear :: "stack_alloc \<Rightarrow> stack_alloc" where
  "StackAllocator_clear s = s\<lparr>sa_chunks := []\<rparr>"

definition StackAllocator_mark :: "stack_alloc \<Rightarrow> addr option" where
  "StackAllocator_mark s = sa_top s"

text \<open>\<^verbatim>\<open>release\<close>: the chunks are deleted down to that of the mark; the mark is compared with their bounds.\<close>

fun release_loop :: "nat \<Rightarrow> addr option \<Rightarrow> nat list \<Rightarrow> nat list" where
  "release_loop size1 m [] = []"
| "release_loop size1 m (c # cs) = (case m of Some (d, i) \<Rightarrow> if d = c \<and> i < size1 then c # cs else release_loop size1 m cs | None \<Rightarrow> release_loop size1 m cs)"

definition StackAllocator_release :: "addr option \<Rightarrow> stack_alloc \<Rightarrow> stack_alloc res" where
  "StackAllocator_release m s =
     (let cs = release_loop (sa_size s) m (sa_chunks s) in
      bind_res (assert_res (cs \<noteq> [])) (\<lambda>_. Inr (s\<lparr>sa_chunks := cs, sa_top := m\<rparr>)))"


section \<open>Block allocator\<close>

text \<open>Free blocks are linked through their own memory; a block is \<^verbatim>\<open>tsz\<close> bytes, a pointer 8.\<close>

record block_alloc =
  ba_alloc :: stack_alloc
  ba_list :: "addr list"

definition BlockAllocator_new :: "nat \<Rightarrow> nat \<Rightarrow> block_alloc res" where
  "BlockAllocator_new tsz block_per_chunk =
     bind_res (StackAllocator_new (min tsz 8 * block_per_chunk)) (\<lambda>s. Inr \<lparr>ba_alloc = s, ba_list = []\<rparr>)"

definition BlockAllocator_allocate :: "(nat \<Rightarrow> int) \<Rightarrow> nat \<Rightarrow> block_alloc \<Rightarrow> (addr \<times> block_alloc) res" where
  "BlockAllocator_allocate base tsz b =
     (case ba_list b of
        p # ps \<Rightarrow> Inr (p, b\<lparr>ba_list := ps\<rparr>)
      | [] \<Rightarrow> bind_res (StackAllocator_allocate base 2 tsz (ba_alloc b)) (\<lambda>(p, s). Inr (p, b\<lparr>ba_alloc := s\<rparr>)))"

definition BlockAllocator_free :: "addr \<Rightarrow> block_alloc \<Rightarrow> block_alloc" where
  "BlockAllocator_free p b = b\<lparr>ba_list := p # ba_list b\<rparr>"


section \<open>Block allocator with a garbage collector\<close>

text \<open>
  \<^verbatim>\<open>bg_next\<close> is the memory of the links of the free blocks, \<^verbatim>\<open>bg_top\<close> the offset in the last chunk, and
  \<^verbatim>\<open>bg_coll\<close> the bits of the vector of a collection.
\<close>

record block_gc =
  bg_free :: "addr option"
  bg_next :: "addr \<rightharpoonup> addr option"
  bg_free_cnt :: int
  bg_sync :: bool
  bg_need :: bool
  bg_chunks :: nat
  bg_top :: nat
  bg_bsize :: nat
  bg_csize :: nat
  bg_coll :: "bool list"

definition BlockGC_new :: "nat \<Rightarrow> nat \<Rightarrow> block_gc res" where
  "BlockGC_new block_size chunk_size =
     bind_res (assert_res (block_size < chunk_size)) (\<lambda>_.
       Inr \<lparr>bg_free = None, bg_next = Map.empty, bg_free_cnt = 0, bg_sync = False, bg_need = False, bg_chunks = 1, bg_top = 0,
         bg_bsize = max block_size 8, bg_csize = chunk_size, bg_coll = []\<rparr>)"

definition BlockGC_totalCount :: "block_gc \<Rightarrow> nat" where
  "BlockGC_totalCount g = (bg_csize g div bg_bsize g) * (bg_chunks g - 1) + bg_top g div bg_bsize g"

definition BlockGC_setSync :: "block_gc \<Rightarrow> block_gc" where
  "BlockGC_setSync g = g\<lparr>bg_sync := True\<rparr>"

definition BlockGC_setAsync :: "block_gc \<Rightarrow> block_gc" where
  "BlockGC_setAsync g = g\<lparr>bg_sync := False\<rparr>"

definition BlockGC_usedCount :: "block_gc \<Rightarrow> int" where
  "BlockGC_usedCount g = int (BlockGC_totalCount g) - bg_free_cnt g"

definition BlockGC_mark :: "addr \<Rightarrow> block_gc \<Rightarrow> (bool \<times> block_gc) res" where
  "BlockGC_mark p g =
     (case p of (c, i) \<Rightarrow>
        bind_res (assert_res (c < bg_chunks g \<and> i < bg_csize g)) (\<lambda>_.
          let n = i div bg_bsize g + c * (bg_csize g div bg_bsize g) in
          if length (bg_coll g) \<le> n then Inl Assertion_failed
          else if bg_coll g ! n then Inr (False, g)
          else Inr (True, g\<lparr>bg_coll := (bg_coll g)[n := True]\<rparr>)))"

fun mark_all :: "addr list \<Rightarrow> block_gc \<Rightarrow> block_gc res" where
  "mark_all [] g = Inr g"
| "mark_all (p # ps) g = bind_res (BlockGC_mark p g) (\<lambda>(_, g). mark_all ps g)"

text \<open>The blocks whose bit is zero, in the order of the bits, are put in front of the free list.\<close>

definition free_block :: "nat \<Rightarrow> block_gc \<Rightarrow> block_gc" where
  "free_block n g =
     (let b = bg_csize g div bg_bsize g; c = n div b; p = (c, (n - c * b) * bg_bsize g) in
      g\<lparr>bg_next := (bg_next g)(p \<mapsto> bg_free g), bg_free := Some p, bg_free_cnt := bg_free_cnt g + 1\<rparr>)"

fun sweep_loop :: "nat \<Rightarrow> bool list \<Rightarrow> block_gc \<Rightarrow> block_gc" where
  "sweep_loop n [] g = g"
| "sweep_loop n (b # bs) g = sweep_loop (n + 1) bs (if b then g else free_block n g)"

text \<open>\<^verbatim>\<open>collectGarbage\<close>: the client marks the blocks of \<^verbatim>\<open>live\<close> in order; \<^verbatim>\<open>destroy\<close> does nothing by default.\<close>

definition BlockGC_collectGarbage :: "addr list \<Rightarrow> block_gc \<Rightarrow> block_gc res" where
  "BlockGC_collectGarbage live g =
     bind_res (mark_all live (g\<lparr>bg_coll := replicate (BlockGC_totalCount g) False\<rparr>)) (\<lambda>g.
       let h = sweep_loop 0 (bg_coll g) (g\<lparr>bg_free_cnt := 0\<rparr>) in Inr (h\<lparr>bg_need := False, bg_coll := []\<rparr>))"

definition pop_free :: "addr \<Rightarrow> block_gc \<Rightarrow> (addr \<times> block_gc) res" where
  "pop_free p g =
     (case bg_next g p of
        None \<Rightarrow> Inl Out_of_bounds
      | Some q \<Rightarrow> Inr (p, g\<lparr>bg_free := q, bg_free_cnt := bg_free_cnt g - 1\<rparr>))"

definition add_chunk :: "block_gc \<Rightarrow> addr \<times> block_gc" where
  "add_chunk g = ((bg_chunks g, 0), g\<lparr>bg_chunks := bg_chunks g + 1, bg_top := bg_bsize g\<rparr>)"

definition BlockGC_allocate :: "addr list \<Rightarrow> block_gc \<Rightarrow> (addr \<times> block_gc) res" where
  "BlockGC_allocate live g =
     (case bg_free g of
        Some p \<Rightarrow> pop_free p g
      | None \<Rightarrow>
          if bg_top g + bg_bsize g \<le> bg_csize g then Inr ((bg_chunks g - 1, bg_top g), g\<lparr>bg_top := bg_top g + bg_bsize g\<rparr>)
          else if bg_sync g then Inr (add_chunk (g\<lparr>bg_need := True\<rparr>))
          else bind_res (BlockGC_collectGarbage live g) (\<lambda>g.
            case bg_free g of Some p \<Rightarrow> pop_free p g | None \<Rightarrow> Inr (add_chunk g)))"


section \<open>List collector\<close>

text \<open>The blocks from the head of the list, with their marks.\<close>

record list_gc =
  lg_blocks :: "(nat \<times> bool) list"
  lg_fresh :: nat
  lg_lcnt :: int
  lg_cnt :: int
  lg_lim :: int
  lg_dis :: bool

definition ListGC_new :: "int \<Rightarrow> list_gc" where
  "ListGC_new limit = \<lparr>lg_blocks = [], lg_fresh = 0, lg_lcnt = 0, lg_cnt = 0, lg_lim = limit, lg_dis = False\<rparr>"

definition gcNeeded :: "list_gc \<Rightarrow> bool" where
  "gcNeeded g \<longleftrightarrow> \<not> lg_dis g \<and> lg_lim g < lg_cnt g - lg_lcnt g"

fun set_mark :: "nat \<Rightarrow> (nat \<times> bool) list \<Rightarrow> (bool \<times> (nat \<times> bool) list) res" where
  "set_mark p [] = Inl Out_of_bounds"
| "set_mark p ((q, m) # bs) =
     (if p = q then Inr (m, (q, True) # bs) else bind_res (set_mark p bs) (\<lambda>(r, bs). Inr (r, (q, m) # bs)))"

definition ListGC_mark :: "nat \<Rightarrow> list_gc \<Rightarrow> (bool \<times> list_gc) res" where
  "ListGC_mark p g = bind_res (set_mark p (lg_blocks g)) (\<lambda>(r, bs). Inr (r, g\<lparr>lg_blocks := bs\<rparr>))"

fun manager_collect :: "nat list \<Rightarrow> list_gc \<Rightarrow> list_gc res" where
  "manager_collect [] g = Inr g"
| "manager_collect (p # ps) g = bind_res (ListGC_mark p g) (\<lambda>(_, g). manager_collect ps g)"

text \<open>The blocks that stay, unmarked, and the count; the others are cleaned by the manager and freed.\<close>

fun sweep_list :: "(nat \<times> bool) list \<Rightarrow> int \<Rightarrow> (nat \<times> bool) list \<times> int" where
  "sweep_list [] n = ([], n)"
| "sweep_list ((p, m) # bs) n =
     (if m then (case sweep_list bs n of (cs, k) \<Rightarrow> ((p, False) # cs, k)) else sweep_list bs (n - 1))"

definition ListGC_runGC :: "nat list \<Rightarrow> list_gc \<Rightarrow> list_gc res" where
  "ListGC_runGC live g =
     bind_res (manager_collect live g) (\<lambda>g.
       case sweep_list (lg_blocks g) (lg_cnt g) of (bs, n) \<Rightarrow> Inr (g\<lparr>lg_blocks := bs, lg_cnt := n, lg_lcnt := n\<rparr>))"

definition ListGC_allocate :: "nat list \<Rightarrow> list_gc \<Rightarrow> (nat \<times> list_gc) res" where
  "ListGC_allocate live g =
     (let p = lg_fresh g; g = g\<lparr>lg_blocks := (p, False) # lg_blocks g, lg_fresh := p + 1, lg_cnt := lg_cnt g + 1\<rparr> in
      if gcNeeded g
      then bind_res (ListGC_mark p (g\<lparr>lg_lim := lg_lim g * 2\<rparr>)) (\<lambda>(_, g). bind_res (ListGC_runGC live g) (\<lambda>g. Inr (p, g)))
      else Inr (p, g))"

definition ListGC_disable :: "list_gc \<Rightarrow> list_gc" where
  "ListGC_disable g = g\<lparr>lg_dis := True\<rparr>"

definition ListGC_enable :: "nat list \<Rightarrow> list_gc \<Rightarrow> list_gc res" where
  "ListGC_enable live g = (let g = g\<lparr>lg_dis := False\<rparr> in if gcNeeded g then ListGC_runGC live g else Inr g)"

definition ListGC_clean :: "list_gc \<Rightarrow> list_gc" where
  "ListGC_clean g = g\<lparr>lg_blocks := [], lg_cnt := 0, lg_lcnt := 0\<rparr>"


section \<open>Blocks of a stack allocator\<close>

text \<open>The blocks that two allocations return do not overlap; a block in use is inside its chunk, below the top.\<close>

definition apart :: "addr \<times> nat \<Rightarrow> addr \<times> nat \<Rightarrow> bool" where
  "apart a b \<longleftrightarrow> fst (fst a) \<noteq> fst (fst b) \<or> snd (fst a) + snd a \<le> snd (fst b) \<or> snd (fst b) + snd b \<le> snd (fst a)"

definition stack_ok :: "stack_alloc \<Rightarrow> bool" where
  "stack_ok s \<longleftrightarrow> 0 < sa_size s \<and> sa_size s < 2 ^ 64 \<and> (\<forall>c \<in> set (sa_chunks s). c < sa_fresh s) \<and>
     (\<forall>c cs. sa_chunks s = c # cs \<longrightarrow> sa_max s = Some (c, sa_size s) \<and> (\<exists>i \<le> sa_size s. sa_top s = Some (c, i)))"

definition stack_used :: "stack_alloc \<Rightarrow> addr \<times> nat \<Rightarrow> bool" where
  "stack_used s a \<longleftrightarrow> snd (fst a) + snd a \<le> sa_size s \<and> fst (fst a) < sa_fresh s \<and>
     (\<forall>cs i. sa_chunks s = fst (fst a) # cs \<longrightarrow> sa_top s = Some (fst (fst a), i) \<longrightarrow> snd (fst a) + snd a \<le> i)"

lemma stack_ok_new: "0 < n \<Longrightarrow> n < 2 ^ 64 \<Longrightarrow> \<exists>s. StackAllocator_new n = Inr s \<and> stack_ok s \<and> sa_size s = n"
  by (auto simp: StackAllocator_new_def stack_ok_def)

lemma stack_ok_newChunk: "stack_ok s \<Longrightarrow> stack_ok (newChunk s)"
  by (auto simp: stack_ok_def newChunk_def less_SucI)

lemma stack_used_newChunk: "stack_used s a \<Longrightarrow> stack_used (newChunk s) a"
  by (auto simp: stack_used_def newChunk_def)

lemma addr_diff_same:
  assumes "i \<le> m" "m < 2 ^ 64"
  shows "addr_diff base (Some (c, m)) (Some (c, i)) = m - i"
proof -
  have "(base c + int m - (base c + int i)) mod 2 ^ 64 = int (m - i)"
    using assms by (auto intro!: mod_pos_pos_trivial simp: of_nat_diff)
  then show ?thesis by (simp add: addr_diff_def)
qed

lemma take_block_correct:
  assumes ok: "stack_ok s" and s: "sa_chunks s = c # cs" "sa_top s = Some (c, i)" and n: "i + n \<le> sa_size s"
  obtains t where "take_block n s = Inr ((c, i), t)" "stack_ok t" "sa_size t = sa_size s" "sa_fresh s = sa_fresh t" "sa_chunks t = sa_chunks s"
    "stack_used t ((c, i), n)" "\<And>a. stack_used s a \<Longrightarrow> stack_used t a \<and> apart a ((c, i), n)"
proof
  let ?t = "s\<lparr>sa_top := Some (c, i + n)\<rparr>"
  show "take_block n s = Inr ((c, i), ?t)" using s by (simp add: take_block_def)
  show "stack_ok ?t" using ok s n by (auto simp: stack_ok_def)
  show "stack_used ?t ((c, i), n)" using ok s n by (auto simp: stack_used_def stack_ok_def)
  show "stack_used ?t a \<and> apart a ((c, i), n)" if "stack_used s a" for a
    using that s n by (fastforce simp: stack_used_def apart_def)
qed (simp_all)

text \<open>An allocation that is not larger than a chunk returns a fresh block, with at most two calls.\<close>

lemma StackAllocator_allocate_correct:
  assumes ok: "stack_ok s" and n: "n \<le> sa_size s"
  obtains p t where "StackAllocator_allocate base 2 n s = Inr (p, t)" "stack_ok t" "sa_size t = sa_size s"
    "stack_used t (p, n)" "\<And>a. stack_used s a \<Longrightarrow> stack_used t a \<and> apart a (p, n)"
proof (cases "sa_chunks s = [] \<or> addr_diff base (sa_max s) (sa_top s) < n")
  case True
  let ?c = "sa_fresh s" and ?s = "newChunk s"
  have c: "sa_chunks ?s = ?c # sa_chunks s" "sa_top ?s = Some (?c, 0)" "sa_size ?s = sa_size s" "sa_max ?s = Some (?c, sa_size s)"
    by (simp_all add: newChunk_def)
  obtain t where t: "take_block n ?s = Inr ((?c, 0), t)" "stack_ok t" "sa_size t = sa_size s"
      "stack_used t ((?c, 0), n)" "\<And>a. stack_used ?s a \<Longrightarrow> stack_used t a \<and> apart a ((?c, 0), n)"
    using take_block_correct [OF stack_ok_newChunk [OF ok] c(1) c(2), of n] n c(3) by (metis add_0)
  have "sa_size s < 2 ^ 64" using ok by (simp add: stack_ok_def)
  then have "\<not> addr_diff base (sa_max ?s) (sa_top ?s) < n" using n addr_diff_same [of 0 "sa_size s" base ?c] by (simp add: c)
  then have "StackAllocator_allocate base 2 n s = Inr ((?c, 0), t)"
    using True n t(1) c by (simp add: numeral_2_eq_2)
  then show ?thesis using that t stack_used_newChunk by metis
next
  case False
  then obtain c cs where cs: "sa_chunks s = c # cs" by (cases "sa_chunks s") auto
  then obtain i where i: "sa_top s = Some (c, i)" "i \<le> sa_size s" "sa_max s = Some (c, sa_size s)" "sa_size s < 2 ^ 64"
    using ok by (auto simp: stack_ok_def)
  then have "i + n \<le> sa_size s" using False addr_diff_same [OF i(2,4), of base c] by (simp, linarith)
  then obtain t where t: "take_block n s = Inr ((c, i), t)" "stack_ok t" "sa_size t = sa_size s"
      "stack_used t ((c, i), n)" "\<And>a. stack_used s a \<Longrightarrow> stack_used t a \<and> apart a ((c, i), n)"
    using take_block_correct [OF ok cs i(1)] by metis
  have "StackAllocator_allocate base 2 n s = Inr ((c, i), t)" using False n t(1) by (simp add: numeral_2_eq_2)
  then show ?thesis using that t by metis
qed

fun stack_run :: "(nat \<Rightarrow> int) \<Rightarrow> nat list \<Rightarrow> stack_alloc \<Rightarrow> ((addr \<times> nat) list \<times> stack_alloc) res" where
  "stack_run base [] s = Inr ([], s)"
| "stack_run base (n # ns) s =
     bind_res (StackAllocator_allocate base 2 n s) (\<lambda>(p, s). bind_res (stack_run base ns s) (\<lambda>(bs, s). Inr ((p, n) # bs, s)))"

lemma stack_run_correct:
  assumes "stack_ok s" "\<forall>n \<in> set ns. n \<le> sa_size s"
  shows "\<exists>bs t. stack_run base ns s = Inr (bs, t) \<and> stack_ok t \<and> sa_size t = sa_size s \<and> map snd bs = ns \<and>
    (\<forall>b \<in> set bs. stack_used t b \<and> (\<forall>a. stack_used s a \<longrightarrow> apart a b)) \<and> sorted_wrt apart bs \<and> (\<forall>a. stack_used s a \<longrightarrow> stack_used t a)"
  using assms
proof (induction ns arbitrary: s)
  case (Cons n ns)
  obtain p t where t: "StackAllocator_allocate base 2 n s = Inr (p, t)" "stack_ok t" "sa_size t = sa_size s"
      "stack_used t (p, n)" "\<And>a. stack_used s a \<Longrightarrow> stack_used t a \<and> apart a (p, n)"
    using StackAllocator_allocate_correct [of s n base] Cons.prems by (metis list.set_intros(1))
  obtain bs u where "stack_run base ns t = Inr (bs, u)" "stack_ok u" "sa_size u = sa_size t" "map snd bs = ns"
      "\<forall>b \<in> set bs. stack_used u b \<and> (\<forall>a. stack_used t a \<longrightarrow> apart a b)" "sorted_wrt apart bs" "\<forall>a. stack_used t a \<longrightarrow> stack_used u a"
    using Cons.IH [OF t(2)] Cons.prems(2) t(3) by auto
  moreover have "stack_used u (p, n)" "\<forall>b \<in> set bs. apart (p, n) b" using calculation t(4) by blast+
  moreover have "stack_used t a" "apart a (p, n)" if "stack_used s a" for a using t(5) [OF that] by auto
  ultimately show ?case using t(1-3) by (intro exI [of _ "(p, n) # bs"] exI [of _ u]) simp
qed auto

text \<open>A mark is valid as long as the allocations after it stay in the chunk of the mark.\<close>

lemma StackAllocator_release_mark:
  assumes "stack_ok s" "sa_chunks s = c # cs" "sa_top s = Some (c, i)" "i < sa_size s" "sa_chunks t = ds @ sa_chunks s" "c \<notin> set ds" "sa_size t = sa_size s"
  shows "StackAllocator_release (StackAllocator_mark s) t = Inr (t\<lparr>sa_chunks := sa_chunks s, sa_top := sa_top s\<rparr>)"
proof -
  have "release_loop (sa_size s) (Some (c, i)) (ds @ c # cs) = c # cs" using assms(4,6) by (induction ds) auto
  then show ?thesis using assms by (simp add: StackAllocator_release_def StackAllocator_mark_def)
qed

text \<open>
  The block allocator: the states that allocations, and the release of blocks in use, reach from a new
  allocator. The link of a free block needs 8 bytes of it.
\<close>

inductive block_reach :: "(nat \<Rightarrow> int) \<Rightarrow> nat \<Rightarrow> nat \<Rightarrow> block_alloc \<Rightarrow> addr list \<Rightarrow> bool" for base tsz per where
  new: "BlockAllocator_new tsz per = Inr b \<Longrightarrow> block_reach base tsz per b []"
| alloc: "block_reach base tsz per b L \<Longrightarrow> BlockAllocator_allocate base tsz b = Inr (p, c) \<Longrightarrow> block_reach base tsz per c (p # L)"
| free: "block_reach base tsz per b L \<Longrightarrow> p \<in> set L \<Longrightarrow> block_reach base tsz per (BlockAllocator_free p b) (remove1 p L)"

definition block_ok :: "nat \<Rightarrow> block_alloc \<Rightarrow> addr list \<Rightarrow> bool" where
  "block_ok tsz b L \<longleftrightarrow> stack_ok (ba_alloc b) \<and> tsz \<le> sa_size (ba_alloc b) \<and> distinct (L @ ba_list b) \<and>
     (\<forall>p \<in> set (L @ ba_list b). stack_used (ba_alloc b) (p, tsz) \<and> (\<forall>q \<in> set (L @ ba_list b). p \<noteq> q \<longrightarrow> apart (p, tsz) (q, tsz)))"

lemma apart_sym: "apart a b \<Longrightarrow> apart b a"
  by (auto simp: apart_def)

lemma apart_neq: "0 < n \<Longrightarrow> apart (p, n) (q, n) \<Longrightarrow> p \<noteq> q"
  by (auto simp: apart_def)

lemma BlockAllocator_allocate_correct:
  assumes ok: "block_ok tsz b L" and t: "0 < tsz"
  obtains p c where "BlockAllocator_allocate base tsz b = Inr (p, c)" "block_ok tsz c (p # L)" "p \<notin> set L"
proof (cases "ba_list b")
  case Nil
  from ok have s: "stack_ok (ba_alloc b)" "tsz \<le> sa_size (ba_alloc b)" by (simp_all add: block_ok_def)
  obtain p s where p: "StackAllocator_allocate base 2 tsz (ba_alloc b) = Inr (p, s)" "stack_ok s" "sa_size s = sa_size (ba_alloc b)"
      "stack_used s (p, tsz)" "\<And>a. stack_used (ba_alloc b) a \<Longrightarrow> stack_used s a \<and> apart a (p, tsz)"
    using StackAllocator_allocate_correct [OF s, of base] by blast
  have new: "stack_used s (q, tsz) \<and> apart (q, tsz) (p, tsz) \<and> apart (p, tsz) (q, tsz) \<and> q \<noteq> p" if "q \<in> set L" for q
    using that ok p(5) apart_sym apart_neq [OF t] unfolding block_ok_def Nil by (metis append_Nil2)
  then have "p \<notin> set L" by blast
  moreover have "block_ok tsz (b\<lparr>ba_alloc := s\<rparr>) (p # L)" using ok Nil p(2-4) s(2) new calculation by (auto simp: block_ok_def)
  ultimately show ?thesis using that Nil p(1) by (simp add: BlockAllocator_allocate_def)
next
  case (Cons p ps)
  have "block_ok tsz (b\<lparr>ba_list := ps\<rparr>) (p # L)" using ok unfolding block_ok_def Cons by auto
  moreover have "p \<notin> set L" using ok Cons by (auto simp: block_ok_def)
  ultimately show ?thesis using that Cons by (simp add: BlockAllocator_allocate_def)
qed

lemma BlockAllocator_free_correct:
  assumes ok: "block_ok tsz b L" and p: "p \<in> set L"
  shows "block_ok tsz (BlockAllocator_free p b) (remove1 p L)"
proof -
  have "distinct L" using ok by (simp add: block_ok_def)
  then have s: "set (remove1 p L @ p # ba_list b) = set (L @ ba_list b)" using p by auto
  have "distinct (remove1 p L @ p # ba_list b)" using ok p by (auto simp: block_ok_def distinct_remove1)
  then show ?thesis using ok s unfolding block_ok_def BlockAllocator_free_def by simp
qed

lemma block_reach_ok:
  assumes "8 \<le> tsz" "tsz \<le> 8 * per" "8 * per < 2 ^ 64"
  shows "block_reach base tsz per b L \<Longrightarrow> block_ok tsz b L"
proof (induction rule: block_reach.induct)
  case (new b)
  have "0 < 8 * per" using assms by linarith
  moreover have "min tsz 8 = 8" using assms(1) by simp
  ultimately show ?case using new assms stack_ok_new [of "8 * per"]
    by (auto simp: BlockAllocator_new_def block_ok_def bind_res_eq_Inr)
next
  case (alloc b L p c)
  then show ?case using BlockAllocator_allocate_correct [of tsz b L base] assms(1) by force
next
  case free
  then show ?case by (simp add: BlockAllocator_free_correct)
qed

lemma block_allocators_parts:
  fixes base :: "nat \<Rightarrow> int"
  shows
  "0 < m \<Longrightarrow> m < 2 ^ 64 \<Longrightarrow> (\<forall>n \<in> set ns. n \<le> m) \<Longrightarrow>
     \<exists>s bs t. StackAllocator_new m = Inr s \<and> stack_run base ns s = Inr (bs, t) \<and> map snd bs = ns \<and> sorted_wrt apart bs \<and>
       (\<forall>((c, i), n) \<in> set bs. i + n \<le> m)"
  "sa_size s < k \<Longrightarrow> StackAllocator_allocate base 2 k s = Inl Assertion_failed"
  "stack_ok u \<Longrightarrow> sa_chunks u = c # cs \<Longrightarrow> sa_top u = Some (c, i) \<Longrightarrow> i < sa_size u \<Longrightarrow> c \<notin> set ds \<Longrightarrow>
     StackAllocator_release (StackAllocator_mark u) (v\<lparr>sa_chunks := ds @ sa_chunks u, sa_size := sa_size u\<rparr>)
       = Inr (v\<lparr>sa_chunks := sa_chunks u, sa_size := sa_size u, sa_top := sa_top u\<rparr>)"
  "block_reach base tsz per b L \<Longrightarrow> 8 \<le> tsz \<Longrightarrow> tsz \<le> 8 * per \<Longrightarrow> 8 * per < 2 ^ 64 \<Longrightarrow>
     sorted_wrt apart (map (\<lambda>p. (p, tsz)) L) \<and> (\<exists>p d. BlockAllocator_allocate base tsz b = Inr (p, d) \<and> p \<notin> set L)"
proof -
  show "\<exists>s bs t. StackAllocator_new m = Inr s \<and> stack_run base ns s = Inr (bs, t) \<and> map snd bs = ns \<and> sorted_wrt apart bs \<and>
      (\<forall>((c, i), n) \<in> set bs. i + n \<le> m)" if "0 < m" "m < 2 ^ 64" and ns: "\<forall>n \<in> set ns. n \<le> m"
  proof -
    obtain s where s: "StackAllocator_new m = Inr s" "stack_ok s" "sa_size s = m" using stack_ok_new \<open>0 < m\<close> \<open>m < 2 ^ 64\<close> by blast
    then obtain bs t where t: "stack_run base ns s = Inr (bs, t)" "sa_size t = m" "map snd bs = ns" "\<forall>b \<in> set bs. stack_used t b" "sorted_wrt apart bs"
      using stack_run_correct [OF s(2), of ns base] ns by metis
    then have "\<forall>((c, i), n) \<in> set bs. i + n \<le> m" unfolding stack_used_def by fastforce
    then show ?thesis using s(1) t by blast
  qed
  show "StackAllocator_allocate base 2 k s = Inl Assertion_failed" if "sa_size s < k" using that by (simp add: numeral_2_eq_2)
  show "StackAllocator_release (StackAllocator_mark u) (v\<lparr>sa_chunks := ds @ sa_chunks u, sa_size := sa_size u\<rparr>)
      = Inr (v\<lparr>sa_chunks := sa_chunks u, sa_size := sa_size u, sa_top := sa_top u\<rparr>)"
    if "stack_ok u" "sa_chunks u = c # cs" "sa_top u = Some (c, i)" "i < sa_size u" "c \<notin> set ds"
    using StackAllocator_release_mark [OF that(1-4) _ that(5)] by simp
  assume b: "block_reach base tsz per b L" and t: "8 \<le> tsz" "tsz \<le> 8 * per" "8 * per < 2 ^ 64"
  have ok: "block_ok tsz b L" using block_reach_ok [OF t b] .
  have "sorted_wrt apart (map (\<lambda>p. (p, tsz)) L)" using ok
    by (auto simp: block_ok_def sorted_wrt_map sorted_wrt_iff_nth_less nth_eq_iff_index_eq)
  moreover have "0 < tsz" using t by simp
  ultimately show "sorted_wrt apart (map (\<lambda>p. (p, tsz)) L) \<and> (\<exists>p d. BlockAllocator_allocate base tsz b = Inr (p, d) \<and> p \<notin> set L)"
    using BlockAllocator_allocate_correct [OF ok, of base] by metis
qed

lemma block_reach_two: "\<exists>b. block_reach (\<lambda>c. 4096 * int c) 16 4 b [(0, 16), (0, 0)]"
proof -
  let ?s = "\<lparr>sa_chunks = [], sa_fresh = 0, sa_max = None, sa_top = None, sa_size = 32\<rparr>"
  let ?t = "\<lambda>i. \<lparr>sa_chunks = [0], sa_fresh = 1, sa_max = Some (0, 32), sa_top = Some (0, i), sa_size = 32\<rparr>"
  have 1: "block_reach (\<lambda>c. 4096 * int c) 16 4 \<lparr>ba_alloc = ?s, ba_list = []\<rparr> []"
    by (rule block_reach.new) (simp add: BlockAllocator_new_def StackAllocator_new_def)
  have 2: "block_reach (\<lambda>c. 4096 * int c) 16 4 \<lparr>ba_alloc = ?t 16, ba_list = []\<rparr> [(0, 0)]"
    by (rule block_reach.alloc [OF 1]) (simp add: BlockAllocator_allocate_def numeral_2_eq_2 newChunk_def addr_diff_def take_block_def)
  have "block_reach (\<lambda>c. 4096 * int c) 16 4 \<lparr>ba_alloc = ?t 32, ba_list = []\<rparr> [(0, 16), (0, 0)]"
    by (rule block_reach.alloc [OF 2]) (simp add: BlockAllocator_allocate_def numeral_2_eq_2 newChunk_def addr_diff_def take_block_def)
  then show ?thesis by blast
qed

text \<open>
  C33. As long as nothing is released, a stack allocator whose blocks are not larger than its chunks never
  fails: its blocks keep
  their size inside the chunk and no two of them overlap; a larger block is refused by an assertion. The release of
  a mark that is not at the end of its chunk restores the chunks and the top, but not the end of the current chunk.
  The block allocator, over it, hands out no block that is still in use or that overlaps one in use,
  for blocks of at least 8 bytes, that can hold a link, and of at most the size of a chunk.
\<close>

theorem block_allocators_disjoint:
  fixes base :: "nat \<Rightarrow> int"
  shows
  "(0 < m \<and> m < 2 ^ 64 \<and> (\<forall>n \<in> set ns. n \<le> m) \<longrightarrow>
     (\<exists>s bs t. StackAllocator_new m = Inr s \<and> stack_run base ns s = Inr (bs, t) \<and> map snd bs = ns \<and> sorted_wrt apart bs \<and>
       (\<forall>((c, i), n) \<in> set bs. i + n \<le> m))) \<and>
   (sa_size s < k \<longrightarrow> StackAllocator_allocate base 2 k s = Inl Assertion_failed) \<and>
   (stack_ok u \<and> sa_chunks u = c # cs \<and> sa_top u = Some (c, i) \<and> i < sa_size u \<and> c \<notin> set ds \<longrightarrow>
     StackAllocator_release (StackAllocator_mark u) (v\<lparr>sa_chunks := ds @ sa_chunks u, sa_size := sa_size u\<rparr>)
       = Inr (v\<lparr>sa_chunks := sa_chunks u, sa_size := sa_size u, sa_top := sa_top u\<rparr>)) \<and>
   (block_reach base tsz per b L \<and> 8 \<le> tsz \<and> tsz \<le> 8 * per \<and> 8 * per < 2 ^ 64 \<longrightarrow>
     sorted_wrt apart (map (\<lambda>p. (p, tsz)) L) \<and> (\<exists>p d. BlockAllocator_allocate base tsz b = Inr (p, d) \<and> p \<notin> set L))"
  using block_allocators_parts(1) [of m ns base] block_allocators_parts(2) [of s k base]
    block_allocators_parts(3) [of u c cs i ds v] block_allocators_parts(4) [of base tsz per b L] by blast

theorem block_allocators_disjoint_witness:
  "(\<exists>s bs t. StackAllocator_new 16 = Inr s \<and> stack_run (\<lambda>c. 4096 * int c) [8, 8, 4] s = Inr (bs, t) \<and> map snd bs = [8, 8, 4] \<and> sorted_wrt apart bs) \<and>
   StackAllocator_allocate (\<lambda>c. 4096 * int c) 2 17 \<lparr>sa_chunks = [], sa_fresh = 0, sa_max = None, sa_top = None, sa_size = 16\<rparr> = Inl Assertion_failed \<and>
   StackAllocator_release (Some (0, 8)) \<lparr>sa_chunks = [1, 0], sa_fresh = 2, sa_max = Some (1, 16), sa_top = Some (1, 4), sa_size = 16\<rparr>
     = Inr \<lparr>sa_chunks = [0], sa_fresh = 2, sa_max = Some (1, 16), sa_top = Some (0, 8), sa_size = 16\<rparr> \<and>
   (\<exists>b p d. block_reach (\<lambda>c. 4096 * int c) 16 4 b [(0, 16), (0, 0)] \<and> BlockAllocator_allocate (\<lambda>c. 4096 * int c) 16 b = Inr (p, d) \<and> p \<notin> {(0, 16), (0, 0)})"
proof -
  obtain b where b: "block_reach (\<lambda>c. 4096 * int c) 16 4 b [(0, 16), (0, 0)]" using block_reach_two by blast
  let ?s = "\<lparr>sa_chunks = [], sa_fresh = 0, sa_max = None, sa_top = None, sa_size = 16\<rparr>"
  let ?u = "\<lparr>sa_chunks = [0], sa_fresh = 1, sa_max = Some (0, 16), sa_top = Some (0, 8), sa_size = 16\<rparr>"
  let ?v = "\<lparr>sa_chunks = [1, 0], sa_fresh = 2, sa_max = Some (1, 16), sa_top = Some (1, 4), sa_size = 16\<rparr>"
  have u: "stack_ok ?u" by (simp add: stack_ok_def)
  note T = block_allocators_disjoint [of 16 "[8, 8, 4]" "\<lambda>c. 4096 * int c" ?s 17 ?u 0 "[]" 8 "[1]" ?v 16 4 b "[(0, 16), (0, 0)]"]
  have 1: "\<exists>s bs t. StackAllocator_new 16 = Inr s \<and> stack_run (\<lambda>c. 4096 * int c) [8, 8, 4] s = Inr (bs, t) \<and> map snd bs = [8, 8, 4] \<and> sorted_wrt apart bs"
    using T [THEN conjunct1] by auto
  have 2: "StackAllocator_allocate (\<lambda>c. 4096 * int c) 2 17 ?s = Inl Assertion_failed"
    using T [THEN conjunct2, THEN conjunct1] by simp
  have 3: "StackAllocator_release (Some (0, 8)) ?v = Inr \<lparr>sa_chunks = [0], sa_fresh = 2, sa_max = Some (1, 16), sa_top = Some (0, 8), sa_size = 16\<rparr>"
    using T [THEN conjunct2, THEN conjunct2, THEN conjunct1] u by (simp add: StackAllocator_mark_def)
  have 4: "\<exists>p d. BlockAllocator_allocate (\<lambda>c. 4096 * int c) 16 b = Inr (p, d) \<and> p \<notin> set [(0, 16), (0, 0)]"
    using T [THEN conjunct2, THEN conjunct2, THEN conjunct2] b by simp
  show ?thesis using 1 2 3 4 b by (simp only: list.set) blast
qed


section \<open>The free list of the collector\<close>

text \<open>The chain of links from a pointer to null, as a list.\<close>

fun chain :: "(addr \<rightharpoonup> addr option) \<Rightarrow> addr option \<Rightarrow> addr list \<Rightarrow> bool" where
  "chain nx p [] \<longleftrightarrow> p = None"
| "chain nx p (a # as) \<longleftrightarrow> p = Some a \<and> (\<exists>q. nx a = Some q \<and> chain nx q as)"

lemma chain_update [simp]: "a \<notin> set as \<Longrightarrow> chain (nx(a \<mapsto> q)) p as = chain nx p as"
  by (induction as arbitrary: p) auto

text \<open>The blocks of the chunks, in the order of the bits of a collection.\<close>

definition per_chunk :: "block_gc \<Rightarrow> nat" where
  "per_chunk g = bg_csize g div bg_bsize g"

definition block_at :: "block_gc \<Rightarrow> nat \<Rightarrow> addr" where
  "block_at g n = (n div per_chunk g, (n mod per_chunk g) * bg_bsize g)"

definition carved :: "block_gc \<Rightarrow> addr set" where
  "carved g = block_at g ` {..<BlockGC_totalCount g}"

definition gc_ok :: "block_gc \<Rightarrow> addr list \<Rightarrow> bool" where
  "gc_ok g free \<longleftrightarrow> 0 < per_chunk g \<and> 0 < bg_bsize g \<and> 0 < bg_chunks g \<and> (\<exists>k \<le> per_chunk g. bg_top g = k * bg_bsize g) \<and>
     chain (bg_next g) (bg_free g) free \<and> distinct free \<and> set free \<subseteq> carved g \<and> bg_free_cnt g = int (length free)"

lemma total_bound: "gc_ok g free \<Longrightarrow> BlockGC_totalCount g \<le> bg_chunks g * per_chunk g"
proof -
  assume ok: "gc_ok g free"
  then obtain m where m: "bg_chunks g = Suc m" by (cases "bg_chunks g") (auto simp: gc_ok_def)
  from ok have "bg_top g div bg_bsize g \<le> per_chunk g" by (auto simp: gc_ok_def)
  then show ?thesis using m by (simp add: BlockGC_totalCount_def per_chunk_def mult.commute)
qed

lemma block_at_inj: "0 < per_chunk g \<Longrightarrow> 0 < bg_bsize g \<Longrightarrow> block_at g n = block_at g m \<longleftrightarrow> n = m"
  by (auto simp: block_at_def) (metis div_mult_mod_eq)

lemma block_at_bounds:
  assumes ok: "gc_ok g free" and n: "n < BlockGC_totalCount g"
  shows "n div per_chunk g < bg_chunks g" "(n mod per_chunk g) * bg_bsize g + bg_bsize g \<le> bg_csize g"
    "((n mod per_chunk g) * bg_bsize g) div bg_bsize g + n div per_chunk g * per_chunk g = n"
proof -
  from ok have pos: "0 < per_chunk g" "0 < bg_bsize g" by (simp_all add: gc_ok_def)
  show "n div per_chunk g < bg_chunks g" using n total_bound [OF ok] pos by (simp add: less_mult_imp_div_less)
  have "Suc (n mod per_chunk g) * bg_bsize g \<le> per_chunk g * bg_bsize g" using pos by (intro mult_le_mono1) (simp add: Suc_leI)
  also have "\<dots> \<le> bg_csize g" by (simp add: per_chunk_def)
  finally show "(n mod per_chunk g) * bg_bsize g + bg_bsize g \<le> bg_csize g" by simp
  show "((n mod per_chunk g) * bg_bsize g) div bg_bsize g + n div per_chunk g * per_chunk g = n" using pos by simp
qed

lemma BlockGC_mark_correct:
  assumes ok: "gc_ok g free" and n: "n < BlockGC_totalCount g" and l: "length (bg_coll g) = BlockGC_totalCount g"
  shows "BlockGC_mark (block_at g n) g = Inr (\<not> bg_coll g ! n, g\<lparr>bg_coll := (bg_coll g)[n := True]\<rparr>)"
proof -
  have "(n mod per_chunk g) * bg_bsize g < bg_csize g" using block_at_bounds(2) [OF ok n] ok by (simp add: gc_ok_def)
  moreover have "bg_coll g ! n \<Longrightarrow> (bg_coll g)[n := True] = bg_coll g" by (metis list_update_id)
  ultimately show ?thesis using block_at_bounds [OF ok n] n l
    by (auto simp: BlockGC_mark_def block_at_def per_chunk_def [symmetric])
qed

text \<open>The marking of blocks sets their bits.\<close>

lemma gc_ok_coll: "gc_ok (g\<lparr>bg_coll := cs\<rparr>) free = gc_ok g free" "block_at (g\<lparr>bg_coll := cs\<rparr>) = block_at g"
    "carved (g\<lparr>bg_coll := cs\<rparr>) = carved g" "BlockGC_totalCount (g\<lparr>bg_coll := cs\<rparr>) = BlockGC_totalCount g"
  by (auto simp: gc_ok_def per_chunk_def block_at_def carved_def BlockGC_totalCount_def)

definition marked :: "block_gc \<Rightarrow> addr list \<Rightarrow> bool list \<Rightarrow> bool list" where
  "marked g live cs = map (\<lambda>n. cs ! n \<or> block_at g n \<in> set live) [0..<length cs]"

lemma marked_Nil: "marked g [] cs = cs"
  by (simp add: marked_def map_nth)

lemma marked_Cons:
  assumes "gc_ok g free" "n < length cs"
  shows "marked g (block_at g n # live) cs = marked g live (cs[n := True])"
  using assms by (auto simp: marked_def gc_ok_def nth_list_update block_at_inj)

lemma mark_all_correct:
  assumes ok: "gc_ok g free" and l: "length (bg_coll g) = BlockGC_totalCount g" and live: "set live \<subseteq> carved g"
  shows "mark_all live g = Inr (g\<lparr>bg_coll := marked g live (bg_coll g)\<rparr>)"
  using ok l live
proof (induction live arbitrary: g)
  case Nil
  then show ?case by (simp add: marked_Nil)
next
  case (Cons p live)
  then obtain n where n: "p = block_at g n" "n < BlockGC_totalCount g" by (auto simp: carved_def)
  let ?g = "g\<lparr>bg_coll := (bg_coll g)[n := True]\<rparr>"
  have "mark_all live ?g = Inr (?g\<lparr>bg_coll := marked ?g live (bg_coll ?g)\<rparr>)"
    using Cons.IH [of ?g] Cons.prems by (simp add: gc_ok_coll)
  moreover have "marked ?g live ((bg_coll g)[n := True]) = marked g (p # live) (bg_coll g)"
    using marked_Cons [OF Cons.prems(1), of n "bg_coll g" live] n Cons.prems(2) by (simp add: marked_def gc_ok_coll)
  ultimately show ?case using BlockGC_mark_correct [OF Cons.prems(1) n(2) Cons.prems(2)] n by simp
qed

text \<open>The sweep links the blocks whose bit is not set, the last one first.\<close>

fun dead :: "block_gc \<Rightarrow> nat \<Rightarrow> bool list \<Rightarrow> addr list" where
  "dead g n [] = []"
| "dead g n (b # bs) = (if b then [] else [block_at g n]) @ dead g (n + 1) bs"

lemma dead_iff: "p \<in> set (dead g n bs) \<longleftrightarrow> (\<exists>i < length bs. p = block_at g (n + i) \<and> \<not> bs ! i)"
  by (induction bs arbitrary: n) (auto simp: Ex_less_Suc2)

lemma dead_distinct: "0 < per_chunk g \<Longrightarrow> 0 < bg_bsize g \<Longrightarrow> distinct (dead g n bs)"
  by (induction bs arbitrary: n) (auto simp: dead_iff block_at_inj)

lemma free_block_eq:
  "free_block n g = g\<lparr>bg_next := (bg_next g)(block_at g n \<mapsto> bg_free g), bg_free := Some (block_at g n), bg_free_cnt := bg_free_cnt g + 1\<rparr>"
  by (simp add: free_block_def Let_def block_at_def per_chunk_def minus_div_mult_eq_mod)

lemma sweep_correct:
  assumes "0 < per_chunk g" "0 < bg_bsize g" "chain (bg_next g) (bg_free g) as" "set as \<inter> set (dead g n bs) = {}"
  shows "\<exists>nx fr. sweep_loop n bs g = g\<lparr>bg_next := nx, bg_free := fr, bg_free_cnt := bg_free_cnt g + int (length (dead g n bs))\<rparr> \<and>
    chain nx fr (rev (dead g n bs) @ as)"
  using assms
proof (induction bs arbitrary: n g as)
  case Nil
  then show ?case by (intro exI [of _ "bg_next g"] exI [of _ "bg_free g"]) simp
next
  case (Cons b bs)
  show ?case
  proof (cases b)
    case True
    then show ?thesis using Cons.IH [of g as "n + 1"] Cons.prems by auto
  next
    case False
    let ?h = "free_block n g" and ?p = "block_at g n"
    have p: "?p \<notin> set as" using Cons.prems(4) False by auto
    have same: "per_chunk ?h = per_chunk g" "bg_bsize ?h = bg_bsize g" "\<And>m cs. dead ?h m cs = dead g m cs"
    proof -
      show "per_chunk ?h = per_chunk g" "bg_bsize ?h = bg_bsize g" by (simp_all add: free_block_eq per_chunk_def)
      then have "block_at ?h = block_at g" by (simp add: block_at_def fun_eq_iff)
      then show "dead ?h m cs = dead g m cs" for m cs by (induction cs arbitrary: m) simp_all
    qed
    have c: "chain (bg_next ?h) (bg_free ?h) (?p # as)" using Cons.prems(3) p by (simp add: free_block_eq)
    have "?p \<notin> set (dead g (n + 1) bs)" using Cons.prems(1,2) by (auto simp: dead_iff block_at_inj)
    then have "set (?p # as) \<inter> set (dead ?h (n + 1) bs) = {}" using Cons.prems(4) False same by auto
    from Cons.IH [OF _ _ c this] same Cons.prems obtain nx fr where
      "sweep_loop (n + 1) bs ?h = ?h\<lparr>bg_next := nx, bg_free := fr, bg_free_cnt := bg_free_cnt ?h + int (length (dead g (n + 1) bs))\<rparr>"
      "chain nx fr (rev (dead g (n + 1) bs) @ ?p # as)" by auto
    then show ?thesis using False by (intro exI [of _ nx] exI [of _ fr]) (simp add: free_block_eq)
  qed
qed

lemmas gc_shape = per_chunk_def block_at_def carved_def BlockGC_totalCount_def

text \<open>A collection, when no block is free, frees exactly the blocks that are not alive.\<close>

lemma collectGarbage_correct:
  assumes ok: "gc_ok g []" and live: "set live \<subseteq> carved g"
  obtains nx fr as where "BlockGC_collectGarbage live g = Inr (g\<lparr>bg_next := nx, bg_free := fr, bg_free_cnt := int (length as), bg_need := False, bg_coll := []\<rparr>)"
    "chain nx fr as" "distinct as" "set as = carved g - set live"
proof -
  let ?n = "BlockGC_totalCount g"
  let ?cs = "marked g live (replicate ?n False)"
  let ?g = "g\<lparr>bg_coll := ?cs, bg_free_cnt := 0\<rparr>"
  have m: "mark_all live (g\<lparr>bg_coll := replicate ?n False\<rparr>) = Inr (g\<lparr>bg_coll := ?cs\<rparr>)"
    using mark_all_correct [of "g\<lparr>bg_coll := replicate ?n False\<rparr>" "[]" live] ok live by (simp add: gc_ok_coll marked_def)
  have pos: "0 < per_chunk ?g" "0 < bg_bsize ?g" "chain (bg_next ?g) (bg_free ?g) []" using ok by (auto simp: gc_ok_def per_chunk_def)
  obtain nx fr where s: "sweep_loop 0 ?cs ?g = ?g\<lparr>bg_next := nx, bg_free := fr, bg_free_cnt := int (length (dead ?g 0 ?cs))\<rparr>"
      "chain nx fr (rev (dead ?g 0 ?cs))"
    using sweep_correct [OF pos, of 0 ?cs] by auto
  have "p \<in> set (dead ?g 0 ?cs) \<longleftrightarrow> p \<in> carved g - set live" for p
    by (auto simp: dead_iff marked_def carved_def gc_ok_coll block_at_def per_chunk_def)
  then have "set (rev (dead ?g 0 ?cs)) = carved g - set live" by auto
  moreover have "distinct (rev (dead ?g 0 ?cs))" using dead_distinct [OF pos(1,2)] by simp
  ultimately show ?thesis
    using that [where as = "rev (dead ?g 0 ?cs)" and nx = nx and fr = fr] m s by (simp add: BlockGC_collectGarbage_def)
qed

lemma gc_ok_collected:
  assumes "gc_ok g []" "chain nx fr as" "distinct as" "set as \<subseteq> carved g"
  shows "gc_ok (g\<lparr>bg_next := nx, bg_free := fr, bg_free_cnt := int (length as), bg_need := False, bg_coll := []\<rparr>) as"
    "carved (g\<lparr>bg_next := nx, bg_free := fr, bg_free_cnt := n, bg_need := False, bg_coll := []\<rparr>) = carved g"
  using assms by (auto simp: gc_ok_def gc_shape)

lemma pop_free_correct:
  assumes "gc_ok g (p # free)"
  obtains q where "bg_free g = Some p" "pop_free p g = Inr (p, g\<lparr>bg_free := q, bg_free_cnt := bg_free_cnt g - 1\<rparr>)"
    "gc_ok (g\<lparr>bg_free := q, bg_free_cnt := bg_free_cnt g - 1\<rparr>) free"
    "carved (g\<lparr>bg_free := q, bg_free_cnt := bg_free_cnt g - 1\<rparr>) = carved g"
  using assms by (force simp: gc_ok_def pop_free_def gc_shape)

lemma carved_bump:
  assumes ok: "gc_ok g free" and room: "bg_top g + bg_bsize g \<le> bg_csize g"
  defines "h \<equiv> g\<lparr>bg_top := bg_top g + bg_bsize g\<rparr>"
  shows "gc_ok h free" "(bg_chunks g - 1, bg_top g) \<notin> carved g" "carved h = insert (bg_chunks g - 1, bg_top g) (carved g)"
proof -
  from ok obtain k where k: "k \<le> per_chunk g" "bg_top g = k * bg_bsize g" and pos: "0 < per_chunk g" "0 < bg_bsize g"
    by (auto simp: gc_ok_def)
  have "Suc k * bg_bsize g \<le> bg_csize g" using room k by (simp add: algebra_simps)
  then have sk: "Suc k \<le> per_chunk g" using pos by (simp add: per_chunk_def less_eq_div_iff_mult_less_eq)
  have same: "per_chunk h = per_chunk g" "block_at h = block_at g" by (simp_all add: h_def per_chunk_def block_at_def fun_eq_iff)
  have tg: "BlockGC_totalCount g = per_chunk g * (bg_chunks g - 1) + k" using k pos by (simp add: BlockGC_totalCount_def per_chunk_def)
  have "(bg_top g + bg_bsize g) div bg_bsize g = Suc k" using k pos by simp
  then have th: "BlockGC_totalCount h = Suc (BlockGC_totalCount g)" using tg by (simp add: BlockGC_totalCount_def per_chunk_def h_def)
  have at: "block_at g (BlockGC_totalCount g) = (bg_chunks g - 1, bg_top g)"
    using tg sk pos k by (simp add: block_at_def)
  show c: "carved h = insert (bg_chunks g - 1, bg_top g) (carved g)" using th at same by (simp add: carved_def lessThan_Suc)
  show "(bg_chunks g - 1, bg_top g) \<notin> carved g" using at by (auto simp: carved_def block_at_inj [OF pos] simp flip: at)
  have "bg_top h = Suc k * bg_bsize h" using k by (simp add: h_def)
  then show "gc_ok h free" using ok sk same c unfolding gc_ok_def by (auto simp: h_def)
qed

lemma carved_chunk:
  assumes ok: "gc_ok g free" and full: "\<not> bg_top g + bg_bsize g \<le> bg_csize g"
  shows "fst (add_chunk g) = (bg_chunks g, 0)" "gc_ok (snd (add_chunk g)) free"
    "(bg_chunks g, 0) \<notin> carved g" "carved (snd (add_chunk g)) = insert (bg_chunks g, 0) (carved g)"
proof -
  define h where "h = snd (add_chunk g)"
  from ok obtain k where k: "k \<le> per_chunk g" "bg_top g = k * bg_bsize g" and pos: "0 < per_chunk g" "0 < bg_bsize g" "0 < bg_chunks g"
    by (auto simp: gc_ok_def)
  have "bg_csize g < Suc k * bg_bsize g" using full k by (simp add: algebra_simps)
  then have "per_chunk g < Suc k" by (simp add: per_chunk_def less_mult_imp_div_less)
  then have kk: "k = per_chunk g" using k by simp
  have same: "per_chunk h = per_chunk g" "block_at h = block_at g" by (simp_all add: h_def add_chunk_def per_chunk_def block_at_def fun_eq_iff)
  obtain c where c: "bg_chunks g = Suc c" using pos by (cases "bg_chunks g") auto
  have tg: "BlockGC_totalCount g = per_chunk g * bg_chunks g" using k kk pos c by (simp add: BlockGC_totalCount_def per_chunk_def)
  have th: "BlockGC_totalCount h = Suc (BlockGC_totalCount g)" using tg pos by (simp add: BlockGC_totalCount_def per_chunk_def h_def add_chunk_def)
  have at: "block_at g (BlockGC_totalCount g) = (bg_chunks g, 0)" using tg pos by (simp add: block_at_def)
  show "fst (add_chunk g) = (bg_chunks g, 0)" by (simp add: add_chunk_def)
  have cc: "carved h = insert (bg_chunks g, 0) (carved g)" using th at same by (simp add: carved_def lessThan_Suc)
  then show "carved (snd (add_chunk g)) = insert (bg_chunks g, 0) (carved g)" by (simp add: h_def)
  show "(bg_chunks g, 0) \<notin> carved g" using at by (auto simp: carved_def block_at_inj [OF pos(1,2)] simp flip: at)
  have "bg_top h = 1 * bg_bsize h" by (simp add: h_def add_chunk_def)
  then have "\<exists>j \<le> per_chunk h. bg_top h = j * bg_bsize h" using pos same by (intro exI [of _ 1]) simp
  then show "gc_ok (snd (add_chunk g)) free" using ok same cc unfolding gc_ok_def h_def [symmetric] by (auto simp: h_def add_chunk_def)
qed

text \<open>An allocation returns a block that is neither in use nor free, whatever it has to do to find it.\<close>

definition fresh_block :: "block_gc \<Rightarrow> addr list \<Rightarrow> addr \<Rightarrow> block_gc \<Rightarrow> addr list \<Rightarrow> bool" where
  "fresh_block g live p h free \<longleftrightarrow> gc_ok h free \<and> p \<in> carved h \<and> p \<notin> set live \<and> p \<notin> set free \<and> set live \<inter> set free = {} \<and>
     carved g \<subseteq> carved h \<and> carved h \<subseteq> insert p (carved g)"

lemma pop_fresh:
  assumes ok: "gc_ok g (p # free)" and live: "set live \<subseteq> carved g - set (p # free)"
  shows "bg_free g = Some p \<and> (\<exists>h. pop_free p g = Inr (p, h) \<and> fresh_block g live p h free)"
proof -
  obtain q where q: "bg_free g = Some p" "pop_free p g = Inr (p, g\<lparr>bg_free := q, bg_free_cnt := bg_free_cnt g - 1\<rparr>)"
      "gc_ok (g\<lparr>bg_free := q, bg_free_cnt := bg_free_cnt g - 1\<rparr>) free" "carved (g\<lparr>bg_free := q, bg_free_cnt := bg_free_cnt g - 1\<rparr>) = carved g"
    using pop_free_correct [OF ok] by metis
  have "p \<in> carved g" "p \<notin> set live" "p \<notin> set free" "set live \<inter> set free = {}" using ok live by (auto simp: gc_ok_def)
  then show ?thesis using q by (auto simp: fresh_block_def)
qed

lemma chunk_fresh:
  assumes "gc_ok g []" "\<not> bg_top g + bg_bsize g \<le> bg_csize g" "set live \<subseteq> carved g"
  shows "\<exists>p h. add_chunk g = (p, h) \<and> fresh_block g live p h []"
proof -
  have "(bg_chunks g, 0) \<notin> set live" using carved_chunk(3) [OF assms(1,2)] assms(3) by auto
  then show ?thesis using carved_chunk [OF assms(1,2)] by (cases "add_chunk g") (auto simp: fresh_block_def)
qed

lemma take_or_chunk:
  assumes ok: "gc_ok g free" and live: "set live \<subseteq> carved g - set free" and full: "\<not> bg_top g + bg_bsize g \<le> bg_csize g"
  shows "\<exists>p h free'. (case bg_free g of Some p \<Rightarrow> pop_free p g | None \<Rightarrow> Inr (add_chunk g)) = Inr (p, h) \<and> fresh_block g live p h free'"
proof (cases free)
  case Nil
  then have "bg_free g = None" using ok by (simp add: gc_ok_def)
  then show ?thesis using chunk_fresh [of g live] ok live full Nil by force
next
  case (Cons p free')
  then show ?thesis using pop_fresh [of g p free' live] ok live by (cases p) auto
qed

lemma BlockGC_allocate_correct:
  assumes ok: "gc_ok g free" and live: "set live \<subseteq> carved g - set free"
  shows "\<exists>p h free'. BlockGC_allocate live g = Inr (p, h) \<and> fresh_block g live p h free'"
proof (cases free)
  case (Cons p free')
  then show ?thesis using pop_fresh [of g p free' live] ok live by (cases p) (auto simp: BlockGC_allocate_def)
next
  case Nil
  then have ok: "gc_ok g []" and n: "bg_free g = None" and live: "set live \<subseteq> carved g" using ok live by (auto simp: gc_ok_def)
  consider "bg_top g + bg_bsize g \<le> bg_csize g" | "\<not> bg_top g + bg_bsize g \<le> bg_csize g" "bg_sync g" | "\<not> bg_top g + bg_bsize g \<le> bg_csize g" "\<not> bg_sync g" by blast
  then show ?thesis
  proof cases
    case 1
    then show ?thesis using carved_bump [OF ok 1] n live by (fastforce simp: BlockGC_allocate_def fresh_block_def)
  next
    case 2
    let ?g = "g\<lparr>bg_need := True\<rparr>"
    have "gc_ok ?g []" and c: "carved ?g = carved g" using ok by (auto simp: gc_ok_def gc_shape)
    then obtain p h where "add_chunk ?g = (p, h)" "fresh_block ?g live p h []" using chunk_fresh [of ?g live] 2 live by auto
    then show ?thesis using 2 n c by (auto simp: BlockGC_allocate_def fresh_block_def)
  next
    case 3
    obtain nx fr as where col: "BlockGC_collectGarbage live g =
        Inr (g\<lparr>bg_next := nx, bg_free := fr, bg_free_cnt := int (length as), bg_need := False, bg_coll := []\<rparr>)"
      and as: "chain nx fr as" "distinct as" "set as = carved g - set live" using collectGarbage_correct [OF ok live] by metis
    define h where "h = g\<lparr>bg_next := nx, bg_free := fr, bg_free_cnt := int (length as), bg_need := False, bg_coll := []\<rparr>"
    have h: "gc_ok h as" "carved h = carved g" "\<not> bg_top h + bg_bsize h \<le> bg_csize h"
      using gc_ok_collected [OF ok as(1,2)] as(3) 3 by (auto simp: h_def)
    have "BlockGC_allocate live g = (case bg_free h of Some p \<Rightarrow> pop_free p h | None \<Rightarrow> Inr (add_chunk h))"
      using 3 n col [folded h_def] by (simp add: BlockGC_allocate_def)
    moreover have "set live \<subseteq> carved h - set as" using h(2) as(3) live by auto
    ultimately show ?thesis using take_or_chunk [OF h(1) _ h(3), of live] h(2) by (simp add: fresh_block_def)
  qed
qed

text \<open>
  The states that a client reaches: it allocates, forgets blocks, collects when no block is free and
  changes the mode. The list is that of the blocks in use, those that it marks.
\<close>

inductive gc_reach :: "nat \<Rightarrow> nat \<Rightarrow> block_gc \<Rightarrow> addr list \<Rightarrow> bool" for bs cs where
  new: "BlockGC_new bs cs = Inr g \<Longrightarrow> gc_reach bs cs g []"
| alloc: "gc_reach bs cs g L \<Longrightarrow> BlockGC_allocate L g = Inr (p, h) \<Longrightarrow> gc_reach bs cs h (p # L)"
| forget: "gc_reach bs cs g L \<Longrightarrow> set M \<subseteq> set L \<Longrightarrow> distinct M \<Longrightarrow> gc_reach bs cs g M"
| collect: "gc_reach bs cs g L \<Longrightarrow> bg_free g = None \<Longrightarrow> BlockGC_collectGarbage L g = Inr h \<Longrightarrow> gc_reach bs cs h L"
| sync: "gc_reach bs cs g L \<Longrightarrow> gc_reach bs cs (BlockGC_setSync g) L"
| async: "gc_reach bs cs g L \<Longrightarrow> gc_reach bs cs (BlockGC_setAsync g) L"

definition gc_inv :: "block_gc \<Rightarrow> addr list \<Rightarrow> bool" where
  "gc_inv g L \<longleftrightarrow> distinct L \<and> (\<exists>free. gc_ok g free \<and> set L \<subseteq> carved g - set free)"

lemma gc_ok_new: "0 < bs \<Longrightarrow> max bs 8 \<le> cs \<Longrightarrow> bs < cs \<Longrightarrow> \<exists>g. BlockGC_new bs cs = Inr g \<and> gc_ok g []"
  by (auto simp: BlockGC_new_def gc_ok_def per_chunk_def div_greater_zero_iff)

lemma gc_inv_fresh: "gc_inv g L \<Longrightarrow> fresh_block g L p h free \<Longrightarrow> gc_inv h (p # L)"
  by (auto simp: gc_inv_def fresh_block_def)

lemma gc_inv_None: "gc_inv g L \<Longrightarrow> bg_free g = None \<Longrightarrow> gc_ok g [] \<and> set L \<subseteq> carved g"
  by (auto simp: gc_inv_def) (metis chain.simps(2) gc_ok_def list.exhaust option.simps(3))

lemma gc_reach_inv:
  assumes "0 < bs" "max bs 8 \<le> cs"
  shows "gc_reach bs cs g L \<Longrightarrow> gc_inv g L"
proof (induction rule: gc_reach.induct)
  case (new g)
  then have "bs < cs" by (simp add: BlockGC_new_def bind_res_eq_Inr)
  then show ?case using gc_ok_new [OF assms] new by (auto simp: gc_inv_def)
next
  case (alloc g L p h)
  then obtain free where "gc_ok g free" "set L \<subseteq> carved g - set free" by (auto simp: gc_inv_def)
  then have "\<exists>free'. fresh_block g L p h free'" using BlockGC_allocate_correct [of g free L] alloc.hyps(2) by auto
  then show ?case using gc_inv_fresh alloc.IH by blast
next
  case (collect g L h)
  then have ok: "gc_ok g []" and L: "set L \<subseteq> carved g" using gc_inv_None by auto
  obtain nx fr as where h: "h = g\<lparr>bg_next := nx, bg_free := fr, bg_free_cnt := int (length as), bg_need := False, bg_coll := []\<rparr>"
    and as: "chain nx fr as" "distinct as" "set as = carved g - set L"
    using collectGarbage_correct [OF ok L] collect.hyps(3) by (metis sum.inject(2))
  have "gc_ok h as" "carved h = carved g" using gc_ok_collected [OF ok as(1,2)] as(3) by (auto simp: h)
  moreover have "set L \<subseteq> carved g - set as" using as(3) L by auto
  ultimately show ?case using collect.IH by (auto simp: gc_inv_def)
next
  case (forget g L M)
  then show ?case by (auto simp: gc_inv_def)
next
  case (sync g L)
  then show ?case by (simp add: gc_inv_def BlockGC_setSync_def gc_ok_def gc_shape)
next
  case (async g L)
  then show ?case by (simp add: gc_inv_def BlockGC_setAsync_def gc_ok_def gc_shape)
qed

lemma card_carved: "gc_ok g free \<Longrightarrow> card (carved g) = BlockGC_totalCount g"
proof -
  assume "gc_ok g free"
  then have "inj_on (block_at g) {..<BlockGC_totalCount g}" by (simp add: inj_on_def gc_ok_def block_at_inj)
  then show ?thesis unfolding carved_def by (simp add: card_image)
qed

lemma finite_carved [simp]: "finite (carved g)"
  by (simp add: carved_def)

lemma usedCount_correct:
  assumes ok: "gc_ok g free"
  shows "BlockGC_usedCount g = int (card (carved g - set free))"
proof -
  have "card (carved g - set free) = card (carved g) - length free" "length free \<le> card (carved g)"
    using ok by (auto simp: gc_ok_def card_Diff_subset distinct_card card_mono simp flip: distinct_card)
  then show ?thesis using ok card_carved [OF ok] by (simp add: BlockGC_usedCount_def gc_ok_def of_nat_diff)
qed

text \<open>While a block is free, an allocation takes it from the list.\<close>

fun gc_run :: "addr list list \<Rightarrow> block_gc \<Rightarrow> (addr list \<times> block_gc) res" where
  "gc_run [] g = Inr ([], g)"
| "gc_run (live # lives) g =
     bind_res (BlockGC_allocate live g) (\<lambda>(p, g). bind_res (gc_run lives g) (\<lambda>(ps, g). Inr (p # ps, g)))"

lemma gc_run_free:
  "gc_ok g free \<Longrightarrow> length lives = length free \<Longrightarrow>
   \<exists>h. gc_run lives g = Inr (free, h) \<and> bg_chunks h = bg_chunks g \<and> bg_top h = bg_top g \<and> bg_free h = None"
proof (induction free arbitrary: g lives)
  case Nil
  then show ?case by (simp add: gc_ok_def)
next
  case (Cons p free)
  obtain live lives' where l: "lives = live # lives'" using Cons.prems(2) by (cases lives) auto
  obtain q where q: "bg_free g = Some p" "pop_free p g = Inr (p, g\<lparr>bg_free := q, bg_free_cnt := bg_free_cnt g - 1\<rparr>)"
      "gc_ok (g\<lparr>bg_free := q, bg_free_cnt := bg_free_cnt g - 1\<rparr>) free" using pop_free_correct [OF Cons.prems(1)] by metis
  then show ?case using Cons.IH [OF q(3), of lives'] Cons.prems(2) l by (force simp: BlockGC_allocate_def)
qed

text \<open>
  A collection is only asked for when no block is free, so that a synchronous client that collects when
  \<^verbatim>\<open>needsCollect\<close> says so stays in the reached states.
\<close>

lemma collectGarbage_need: "BlockGC_collectGarbage L g = Inr h \<Longrightarrow> \<not> bg_need h"
  by (auto simp: BlockGC_collectGarbage_def bind_res_eq_Inr Let_def)

lemma pop_free_need: "pop_free q g = Inr (p, h) \<Longrightarrow> bg_need h = bg_need g"
  by (auto simp: pop_free_def split: option.splits)

lemma allocate_need:
  assumes a: "BlockGC_allocate L g = Inr (p, h)" and n: "bg_need g \<longrightarrow> bg_free g = None"
  shows "bg_need h \<longrightarrow> bg_free h = None"
proof (cases "bg_free g")
  case None
  then consider "h = g\<lparr>bg_top := bg_top g + bg_bsize g\<rparr>" | "h = snd (add_chunk (g\<lparr>bg_need := True\<rparr>))"
    | x where "BlockGC_collectGarbage L g = Inr x" "bg_free x = None" "h = snd (add_chunk x)"
    | x q where "BlockGC_collectGarbage L g = Inr x" "bg_free x = Some q" "pop_free q x = Inr (p, h)"
  proof (cases "bg_top g + bg_bsize g \<le> bg_csize g \<or> bg_sync g")
    case True
    then show ?thesis using that(1,2) None a by (auto simp: BlockGC_allocate_def split: if_splits)
  next
    case False
    then obtain x where x: "BlockGC_collectGarbage L g = Inr x" using None a by (auto simp: BlockGC_allocate_def bind_res_eq_Inr)
    then show ?thesis using that(3) [of x] that(4) [of x] None False a by (cases "bg_free x") (auto simp: BlockGC_allocate_def)
  qed
  then show ?thesis
  proof cases
    case 4
    then show ?thesis using collectGarbage_need pop_free_need by metis
  qed (use None in \<open>simp_all add: add_chunk_def\<close>)
next
  case (Some q)
  then show ?thesis using a n pop_free_need [of q g p h] by (simp add: BlockGC_allocate_def)
qed

lemma gc_reach_need: "gc_reach bs cs g L \<Longrightarrow> bg_need g \<longrightarrow> bg_free g = None"
proof (induction rule: gc_reach.induct)
  case (new g)
  then show ?case by (auto simp: BlockGC_new_def bind_res_eq_Inr)
next
  case (alloc g L p h)
  then show ?case using allocate_need by blast
next
  case (collect g L h)
  then show ?case using collectGarbage_need by blast
qed (simp_all add: BlockGC_setSync_def BlockGC_setAsync_def)

text \<open>
  C34. The garbage collector of blocks is safe as long as the client collects only when no block is free, as when
  \<^verbatim>\<open>needsCollect\<close> asks for it: in every state that allocations, forgotten blocks,
  such collections and changes of mode reach, an allocation returns a
  block that is not in use, in a chunk, whether it comes from the free list, the current chunk, a
  collection or a new chunk, and the count of used blocks is not less than that of the blocks in use.
\<close>

theorem block_gc_safe:
  assumes "gc_reach bs cs g L" "0 < bs" "max bs 8 \<le> cs"
  shows "distinct L \<and> int (length L) \<le> BlockGC_usedCount g \<and> (bg_need g \<longrightarrow> bg_free g = None) \<and>
    (\<exists>p h. BlockGC_allocate L g = Inr (p, h) \<and> p \<notin> set L \<and> fst p < bg_chunks h \<and> snd p + bg_bsize h \<le> bg_csize h)"
proof -
  obtain free where ok: "gc_ok g free" "distinct L" "set L \<subseteq> carved g - set free" using gc_reach_inv [OF assms(2,3,1)] by (auto simp: gc_inv_def)
  obtain p h free' where h: "BlockGC_allocate L g = Inr (p, h)" "fresh_block g L p h free'" using BlockGC_allocate_correct [OF ok(1,3)] by blast
  then obtain n where "n < BlockGC_totalCount h" "p = block_at h n" "gc_ok h free'" by (auto simp: fresh_block_def carved_def)
  then have "fst p < bg_chunks h \<and> snd p + bg_bsize h \<le> bg_csize h" using block_at_bounds [of h free' n] by (simp add: block_at_def)
  moreover have "length L \<le> card (carved g - set free)" using card_mono [OF _ ok(3)] distinct_card [OF ok(2)] by simp
  ultimately show ?thesis using ok(2) h usedCount_correct [OF ok(1)] gc_reach_need [OF assms(1)] by (auto simp: fresh_block_def)
qed

text \<open>
  C35. A collection made when no block is free gives back every dead block: the count of used blocks
  becomes exactly that of the blocks in use, and the allocations that follow return the blocks that are
  not in use, each once, before the memory grows.
\<close>

theorem block_gc_reuses:
  assumes "gc_reach bs cs g L" "0 < bs" "max bs 8 \<le> cs" "bg_free g = None"
  shows "\<exists>h. BlockGC_collectGarbage L g = Inr h \<and> BlockGC_usedCount h = int (length L) \<and>
    (\<forall>lives. length lives = BlockGC_totalCount g - length L \<longrightarrow>
      (\<exists>ps h'. gc_run lives h = Inr (ps, h') \<and> distinct ps \<and> set ps = block_at g ` {..<BlockGC_totalCount g} - set L \<and>
        bg_chunks h' = bg_chunks g \<and> bg_top h' = bg_top g))"
proof -
  have inv: "gc_inv g L" using gc_reach_inv [OF assms(2,3,1)] .
  then have ok: "gc_ok g []" and L: "set L \<subseteq> carved g" "distinct L" using gc_inv_None assms(4) by (auto simp: gc_inv_def)
  obtain nx fr as where as: "BlockGC_collectGarbage L g =
      Inr (g\<lparr>bg_next := nx, bg_free := fr, bg_free_cnt := int (length as), bg_need := False, bg_coll := []\<rparr>)"
    "chain nx fr as" "distinct as" "set as = carved g - set L" using collectGarbage_correct [OF ok L(1)] by metis
  define h where "h = g\<lparr>bg_next := nx, bg_free := fr, bg_free_cnt := int (length as), bg_need := False, bg_coll := []\<rparr>"
  have h: "gc_ok h as" "carved h = carved g" "bg_chunks h = bg_chunks g" "bg_top h = bg_top g"
    using gc_ok_collected [OF ok as(2,3)] as(4) by (auto simp: h_def)
  have "carved g - set as = set L" using as(4) L by auto
  then have u: "BlockGC_usedCount h = int (length L)" using usedCount_correct [OF h(1)] h(2) distinct_card [OF L(2)] by simp
  have "length as = BlockGC_totalCount g - length L"
    using distinct_card [OF as(3)] as(4) L distinct_card [OF L(2)] card_carved [OF ok] by (simp add: card_Diff_subset)
  then have "\<exists>ps h'. gc_run lives h = Inr (ps, h') \<and> distinct ps \<and> set ps = carved g - set L \<and> bg_chunks h' = bg_chunks g \<and> bg_top h' = bg_top g"
    if "length lives = BlockGC_totalCount g - length L" for lives using gc_run_free [OF h(1), of lives] that as(3,4) h(3,4) by auto
  then show ?thesis using as(1) [folded h_def] u unfolding carved_def by blast
qed

lemma gc_reach_two:
  "gc_reach 8 16 \<lparr>bg_free = None, bg_next = Map.empty, bg_free_cnt = 0, bg_sync = False, bg_need = False, bg_chunks = 1, bg_top = 16,
     bg_bsize = 8, bg_csize = 16, bg_coll = []\<rparr> [(0, 8), (0, 0)]"
proof -
  let ?g = "\<lambda>n. \<lparr>bg_free = None, bg_next = Map.empty, bg_free_cnt = 0, bg_sync = False, bg_need = False, bg_chunks = 1, bg_top = n,
     bg_bsize = 8, bg_csize = 16, bg_coll = []\<rparr>"
  have 1: "gc_reach 8 16 (?g 0) []" by (rule gc_reach.new) (simp add: BlockGC_new_def)
  have 2: "gc_reach 8 16 (?g 8) [(0, 0)]" by (rule gc_reach.alloc [OF 1]) (simp add: BlockGC_allocate_def)
  show ?thesis by (rule gc_reach.alloc [OF 2]) (simp add: BlockGC_allocate_def)
qed

theorem block_gc_safe_witness:
  "\<exists>p h. BlockGC_allocate [(0, 8), (0, 0)] \<lparr>bg_free = None, bg_next = Map.empty, bg_free_cnt = 0, bg_sync = False, bg_need = False,
     bg_chunks = 1, bg_top = 16, bg_bsize = 8, bg_csize = 16, bg_coll = []\<rparr> = Inr (p, h) \<and> p \<notin> {(0, 8), (0, 0)}"
  using block_gc_safe [OF gc_reach_two] by auto

theorem block_gc_reuses_witness:
  "\<exists>h p h'. BlockGC_collectGarbage [(0, 8)] \<lparr>bg_free = None, bg_next = Map.empty, bg_free_cnt = 0, bg_sync = False, bg_need = False,
     bg_chunks = 1, bg_top = 16, bg_bsize = 8, bg_csize = 16, bg_coll = []\<rparr> = Inr h \<and> gc_run [[(0, 8)]] h = Inr ([p], h') \<and> p = (0, 0)"
proof -
  define g where "g = \<lparr>bg_free = None, bg_next = Map.empty, bg_free_cnt = 0, bg_sync = False, bg_need = False, bg_chunks = 1, bg_top = 16,
     bg_bsize = 8, bg_csize = 16, bg_coll = []\<rparr>"
  have r: "gc_reach 8 16 g [(0, 8)]" unfolding g_def by (rule gc_reach.forget [OF gc_reach_two]) simp_all
  have f: "bg_free g = None" by (simp add: g_def)
  have n: "BlockGC_totalCount g - length [(0 :: nat, 8 :: nat)] = 1" by (simp add: g_def BlockGC_totalCount_def)
  have t: "block_at g ` {..<BlockGC_totalCount g} - set [(0, 8)] = {(0, 0)}"
    by (auto simp: g_def BlockGC_totalCount_def block_at_def per_chunk_def numeral_2_eq_2 lessThan_Suc)
  obtain h where h: "BlockGC_collectGarbage [(0, 8)] g = Inr h"
    "\<forall>lives. length lives = BlockGC_totalCount g - length [(0 :: nat, 8 :: nat)] \<longrightarrow>
      (\<exists>ps h'. gc_run lives h = Inr (ps, h') \<and> distinct ps \<and> set ps = block_at g ` {..<BlockGC_totalCount g} - set [(0, 8)] \<and>
        bg_chunks h' = bg_chunks g \<and> bg_top h' = bg_top g)"
    using block_gc_reuses [OF r _ _ f] by auto
  obtain ps h' where p: "gc_run [[(0, 8)]] h = Inr (ps, h')" "distinct ps" "set ps = {(0, 0)}"
    using h(2) [rule_format, of "[[(0, 8)]]"] n unfolding t by auto
  then have "length ps = 1" using distinct_card [OF p(2)] by simp
  then obtain q where "ps = [q]" by (cases ps) auto
  then show ?thesis using h(1) p(1,3) unfolding g_def by auto
qed


section \<open>The list collector\<close>

definition list_gc_ok :: "list_gc \<Rightarrow> bool" where
  "list_gc_ok g \<longleftrightarrow> lg_cnt g = int (length (lg_blocks g)) \<and> distinct (map fst (lg_blocks g)) \<and> (\<forall>p \<in> fst ` set (lg_blocks g). p < lg_fresh g)"

definition all_clear :: "list_gc \<Rightarrow> bool" where
  "all_clear g \<longleftrightarrow> (\<forall>b \<in> set (lg_blocks g). \<not> snd b)"

lemma set_mark_correct:
  "distinct (map fst bs) \<Longrightarrow> p \<in> fst ` set bs \<Longrightarrow>
   \<exists>r. set_mark p bs = Inr (r, map (\<lambda>b. (fst b, snd b \<or> fst b = p)) bs) \<and> r = ((p, True) \<in> set bs)"
proof (induction bs)
  case (Cons b bs)
  obtain q m where b: "b = (q, m)" by (cases b)
  show ?case
  proof (cases "p = q")
    case True
    then have "p \<notin> fst ` set bs" using Cons.prems(1) b by simp
    then have "map (\<lambda>b. (fst b, snd b \<or> fst b = p)) bs = bs" "(p, True) \<notin> set bs" by (force intro!: map_idI)+
    then show ?thesis using True b by auto
  next
    case False
    then show ?thesis using Cons b by auto
  qed
qed simp

lemma manager_collect_correct:
  "distinct (map fst (lg_blocks g)) \<Longrightarrow> set live \<subseteq> fst ` set (lg_blocks g) \<Longrightarrow>
   manager_collect live g = Inr (g\<lparr>lg_blocks := map (\<lambda>b. (fst b, snd b \<or> fst b \<in> set live)) (lg_blocks g)\<rparr>)"
proof (induction live arbitrary: g)
  case Nil
  then show ?case by simp
next
  case (Cons p live)
  let ?g = "g\<lparr>lg_blocks := map (\<lambda>b. (fst b, snd b \<or> fst b = p)) (lg_blocks g)\<rparr>"
  have "map fst (lg_blocks ?g) = map fst (lg_blocks g)" by (simp add: comp_def)
  then have "distinct (map fst (lg_blocks ?g))" using Cons.prems(1) by (simp only:)
  moreover have "set live \<subseteq> fst ` set (lg_blocks ?g)" using Cons.prems(2) by (simp add: image_image)
  ultimately have "manager_collect live ?g = Inr (?g\<lparr>lg_blocks := map (\<lambda>b. (fst b, snd b \<or> fst b \<in> set live)) (lg_blocks ?g)\<rparr>)"
    by (rule Cons.IH)
  moreover obtain r where "ListGC_mark p g = Inr (r, ?g)" using set_mark_correct [of "lg_blocks g" p] Cons.prems by (auto simp: ListGC_mark_def)
  moreover have "map (\<lambda>b. (fst b, snd b \<or> fst b \<in> set live)) (map (\<lambda>b. (fst b, snd b \<or> fst b = p)) bs) = map (\<lambda>b. (fst b, snd b \<or> fst b \<in> set (p # live))) bs" for bs
    by (induction bs) auto
  ultimately show ?case by simp
qed

lemma sweep_list_correct:
  "sweep_list bs n = (map (\<lambda>b. (fst b, False)) (filter snd bs), n - int (length (filter (\<lambda>b. \<not> snd b) bs)))"
  by (induction bs n rule: sweep_list.induct) auto

lemma ListGC_runGC_correct:
  assumes ok: "list_gc_ok g" and live: "set live \<subseteq> fst ` set (lg_blocks g)"
  defines "kept \<equiv> filter (\<lambda>b. snd b \<or> fst b \<in> set live) (lg_blocks g)"
  shows "ListGC_runGC live g = Inr (g\<lparr>lg_blocks := map (\<lambda>b. (fst b, False)) kept, lg_cnt := int (length kept), lg_lcnt := int (length kept)\<rparr>)"
proof -
  let ?bs = "map (\<lambda>b. (fst b, snd b \<or> fst b \<in> set live)) (lg_blocks g)"
  have k: "map (\<lambda>b. (fst b, False)) (filter snd ?bs) = map (\<lambda>b. (fst b, False)) kept"
    unfolding kept_def by (simp add: filter_map comp_def case_prod_beta)
  have "length (filter snd ?bs) = length kept" by (simp add: kept_def filter_map comp_def)
  moreover have "length (filter snd ?bs) + length (filter (\<lambda>b. \<not> snd b) ?bs) = length (lg_blocks g)"
    using sum_length_filter_compl [of snd ?bs] by simp
  ultimately have "lg_cnt g - int (length (filter (\<lambda>b. \<not> snd b) ?bs)) = int (length kept)" using ok by (simp add: list_gc_ok_def)
  then show ?thesis using manager_collect_correct [of g live] ok live k by (simp add: ListGC_runGC_def sweep_list_correct list_gc_ok_def)
qed

lemma all_clear_kept: "\<forall>b \<in> set bs. \<not> snd b \<Longrightarrow> map fst (map (\<lambda>b. (fst b, False)) (filter (\<lambda>b. snd b \<or> fst b \<in> S) bs)) = filter (\<lambda>p. p \<in> S) (map fst bs)"
  by (induction bs) auto

lemma ListGC_runGC_clear:
  assumes ok: "list_gc_ok g" and clear: "all_clear g" and live: "set live \<subseteq> fst ` set (lg_blocks g)"
  obtains h where "ListGC_runGC live g = Inr h" "list_gc_ok h" "all_clear h" "map fst (lg_blocks h) = filter (\<lambda>p. p \<in> set live) (map fst (lg_blocks g))"
    "lg_lcnt h = lg_cnt h" "lg_lim h = lg_lim g" "lg_dis h = lg_dis g"
proof -
  let ?kept = "filter (\<lambda>b. snd b \<or> fst b \<in> set live) (lg_blocks g)"
  let ?h = "g\<lparr>lg_blocks := map (\<lambda>b. (fst b, False)) ?kept, lg_cnt := int (length ?kept), lg_lcnt := int (length ?kept)\<rparr>"
  have m: "map fst (lg_blocks ?h) = filter (\<lambda>p. p \<in> set live) (map fst (lg_blocks g))" using clear all_clear_kept [of "lg_blocks g" "set live"]
    by (simp add: all_clear_def)
  have "distinct (map fst (lg_blocks ?h))" unfolding m using ok by (simp add: list_gc_ok_def)
  moreover have "\<forall>p \<in> set (map fst (lg_blocks ?h)). p < lg_fresh ?h" unfolding m using ok by (auto simp: list_gc_ok_def)
  ultimately have "list_gc_ok ?h" by (simp add: list_gc_ok_def image_image)
  moreover have "all_clear ?h" by (auto simp: all_clear_def)
  ultimately show ?thesis using that [of ?h] m ListGC_runGC_correct [OF ok live] by simp
qed

text \<open>
  C36. The list collector: a collection keeps the blocks that the manager marks, in their order and
  without their marks, and frees all the others; the counts are then the number of blocks. An
  allocation returns a new block, keeps it and the marked blocks whether it collects or not, and leaves no more
  blocks since the last collection than the limit; enabling collects when it is needed.
\<close>

theorem list_gc_correct:
  assumes "list_gc_ok g" "all_clear g" "set live \<subseteq> fst ` set (lg_blocks g)" "0 \<le> lg_lim g"
  shows "(\<exists>h. ListGC_runGC live g = Inr h \<and> list_gc_ok h \<and> all_clear h \<and> lg_lcnt h = lg_cnt h \<and>
      map fst (lg_blocks h) = filter (\<lambda>p. p \<in> set live) (map fst (lg_blocks g)) \<and>
      ListGC_enable live g = Inr (if lg_lim g < lg_cnt g - lg_lcnt g then h\<lparr>lg_dis := False\<rparr> else g\<lparr>lg_dis := False\<rparr>)) \<and>
    (\<exists>p h. ListGC_allocate live g = Inr (p, h) \<and> p \<notin> fst ` set (lg_blocks g) \<and> list_gc_ok h \<and> all_clear h \<and> \<not> gcNeeded h \<and>
      insert p (set live) \<subseteq> fst ` set (lg_blocks h) \<and> fst ` set (lg_blocks h) \<subseteq> insert p (fst ` set (lg_blocks g)))"
proof (rule conjI)
  obtain h where h: "ListGC_runGC live g = Inr h" "list_gc_ok h" "all_clear h" "map fst (lg_blocks h) = filter (\<lambda>p. p \<in> set live) (map fst (lg_blocks g))"
    "lg_lcnt h = lg_cnt h" using ListGC_runGC_clear [OF assms(1-3)] by metis
  have "ListGC_runGC live (g\<lparr>lg_dis := False\<rparr>) = Inr (h\<lparr>lg_dis := False\<rparr>)"
    using ListGC_runGC_correct [OF assms(1,3)] ListGC_runGC_correct [of "g\<lparr>lg_dis := False\<rparr>" live] assms(1,3) h(1) by (auto simp: list_gc_ok_def)
  then show "\<exists>h. ListGC_runGC live g = Inr h \<and> list_gc_ok h \<and> all_clear h \<and> lg_lcnt h = lg_cnt h \<and>
      map fst (lg_blocks h) = filter (\<lambda>p. p \<in> set live) (map fst (lg_blocks g)) \<and>
      ListGC_enable live g = Inr (if lg_lim g < lg_cnt g - lg_lcnt g then h\<lparr>lg_dis := False\<rparr> else g\<lparr>lg_dis := False\<rparr>)"
    using h by (simp add: ListGC_enable_def gcNeeded_def Let_def)
  let ?p = "lg_fresh g"
  let ?g = "g\<lparr>lg_blocks := (?p, False) # lg_blocks g, lg_fresh := ?p + 1, lg_cnt := lg_cnt g + 1\<rparr>"
  have ok: "list_gc_ok ?g" "all_clear ?g" and new: "?p \<notin> fst ` set (lg_blocks g)"
    using assms(1,2) by (auto simp: list_gc_ok_def all_clear_def less_Suc_eq)
  show "\<exists>p h. ListGC_allocate live g = Inr (p, h) \<and> p \<notin> fst ` set (lg_blocks g) \<and> list_gc_ok h \<and> all_clear h \<and> \<not> gcNeeded h \<and>
      insert p (set live) \<subseteq> fst ` set (lg_blocks h) \<and> fst ` set (lg_blocks h) \<subseteq> insert p (fst ` set (lg_blocks g))"
  proof (cases "gcNeeded ?g")
    case False
    then show ?thesis using ok new assms(3) by (intro exI [of _ ?p] exI [of _ ?g]) (auto simp: ListGC_allocate_def Let_def)
  next
    case True
    let ?m = "?g\<lparr>lg_lim := lg_lim g * 2, lg_blocks := (?p, True) # lg_blocks g\<rparr>"
    let ?kept = "(?p, True) # filter (\<lambda>b. snd b \<or> fst b \<in> set live) (lg_blocks g)"
    let ?h = "?m\<lparr>lg_blocks := map (\<lambda>b. (fst b, False)) ?kept, lg_cnt := int (length ?kept), lg_lcnt := int (length ?kept)\<rparr>"
    have "list_gc_ok ?m" using ok(1) by (simp add: list_gc_ok_def)
    then have run: "ListGC_runGC live ?m = Inr ?h" using ListGC_runGC_correct [of ?m live] assms(3) by auto
    have blocks: "fst ` set (lg_blocks ?h) = insert ?p (set live)" using assms(2,3) by (auto simp: image_iff all_clear_def)
    have "distinct (map fst (filter (\<lambda>b. snd b \<or> fst b \<in> set live) (lg_blocks g)))" using assms(1) by (simp add: list_gc_ok_def distinct_map_filter)
    then have "list_gc_ok ?h" using assms(1) new by (auto simp: list_gc_ok_def comp_def image_image less_Suc_eq)
    moreover have "ListGC_allocate live g = Inr (?p, ?h)" using True run by (simp add: ListGC_allocate_def Let_def ListGC_mark_def)
    moreover have "all_clear ?h" by (auto simp: all_clear_def)
    moreover have "\<not> gcNeeded ?h" using assms(4) by (simp add: gcNeeded_def)
    ultimately show ?thesis using new blocks assms(3) by (intro exI [of _ ?p] exI [of _ ?h]) auto
  qed
qed

theorem list_gc_correct_witness:
  "\<exists>p h. ListGC_allocate [0] \<lparr>lg_blocks = [(1, False), (0, False)], lg_fresh = 2, lg_lcnt = 0, lg_cnt = 2, lg_lim = 2, lg_dis = False\<rparr> = Inr (p, h) \<and>
     p \<notin> {0, 1} \<and> list_gc_ok h \<and> \<not> gcNeeded h \<and> insert p {0} \<subseteq> fst ` set (lg_blocks h)"
  using list_gc_correct [of "\<lparr>lg_blocks = [(1, False), (0, False)], lg_fresh = 2, lg_lcnt = 0, lg_cnt = 2, lg_lim = 2, lg_dis = False\<rparr>" "[0]", THEN conjunct2]
  by (auto simp: list_gc_ok_def all_clear_def)

lemma ListGC_clean_empty: "list_gc_ok (ListGC_clean g) \<and> lg_blocks (ListGC_clean g) = []"
  by (simp add: ListGC_clean_def list_gc_ok_def)

lemma allocate_two: "StackAllocator_allocate base 2 n s = StackAllocator_allocate base (Suc (Suc 0)) n s"
  by (simp add: numeral_2_eq_2)

text \<open>A collection while a block is free: all the dead blocks are linked to dead blocks.\<close>

lemma sweep_links:
  assumes "0 < per_chunk g" "0 < bg_bsize g" "bg_free g = Some p" "p \<in> D" "set (dead g n bs) \<subseteq> D"
  shows "\<exists>nx fr k. sweep_loop n bs g = g\<lparr>bg_next := nx, bg_free := Some fr, bg_free_cnt := k\<rparr> \<and> fr \<in> D \<and>
    (\<forall>d \<in> set (dead g n bs). \<exists>q \<in> D. nx d = Some (Some q)) \<and> (\<forall>d. d \<notin> set (dead g n bs) \<longrightarrow> nx d = bg_next g d)"
  using assms
proof (induction bs arbitrary: n g p)
  case Nil
  then show ?case by (intro exI [of _ "bg_next g"] exI [of _ p] exI [of _ "bg_free_cnt g"]) simp
next
  case (Cons b bs)
  show ?case
  proof (cases b)
    case True
    then show ?thesis using Cons.IH [of g p "n + 1"] Cons.prems by auto
  next
    case False
    let ?h = "free_block n g" and ?q = "block_at g n"
    have same: "per_chunk ?h = per_chunk g" "bg_bsize ?h = bg_bsize g" "\<And>m cs. dead ?h m cs = dead g m cs"
    proof -
      show "per_chunk ?h = per_chunk g" "bg_bsize ?h = bg_bsize g" by (simp_all add: free_block_eq per_chunk_def)
      then have "block_at ?h = block_at g" by (simp add: block_at_def fun_eq_iff)
      then show "dead ?h m cs = dead g m cs" for m cs by (induction cs arbitrary: m) simp_all
    qed
    have q: "?q \<in> D" "?q \<notin> set (dead g (n + 1) bs)" using Cons.prems(1,2,5) False by (auto simp: dead_iff block_at_inj)
    have "bg_free ?h = Some ?q" "set (dead ?h (n + 1) bs) \<subseteq> D" using Cons.prems(5) False same by (auto simp: free_block_eq)
    from Cons.IH [OF _ _ this(1) q(1) this(2)] same Cons.prems(1,2) obtain nx fr k where
      "sweep_loop (n + 1) bs ?h = ?h\<lparr>bg_next := nx, bg_free := Some fr, bg_free_cnt := k\<rparr>" "fr \<in> D"
      "\<forall>d \<in> set (dead g (n + 1) bs). \<exists>q \<in> D. nx d = Some (Some q)" "\<forall>d. d \<notin> set (dead g (n + 1) bs) \<longrightarrow> nx d = bg_next ?h d"
      by auto
    moreover from this(4) have "nx ?q = bg_next ?h ?q" using q(2) by blast
    then have "nx ?q = Some (Some p)" using Cons.prems(3) by (simp add: free_block_eq)
    ultimately show ?thesis using False Cons.prems(4) by (intro exI [of _ nx] exI [of _ fr] exI [of _ k]) (auto simp: free_block_eq)
  qed
qed

lemma gc_run_links:
  assumes "bg_free g = Some f" "f \<in> D" "\<forall>d \<in> D. \<exists>q \<in> D. bg_next g d = Some (Some q)"
  shows "\<exists>ps h. gc_run lives g = Inr (ps, h) \<and> length ps = length lives \<and> set ps \<subseteq> D \<and> bg_chunks h = bg_chunks g \<and> bg_top h = bg_top g"
  using assms
proof (induction lives arbitrary: g f)
  case (Cons live lives)
  obtain q where q: "q \<in> D" "bg_next g f = Some (Some q)" using Cons.prems(2,3) by blast
  let ?g = "g\<lparr>bg_free := Some q, bg_free_cnt := bg_free_cnt g - 1\<rparr>"
  obtain ps h where "gc_run lives ?g = Inr (ps, h)" "length ps = length lives" "set ps \<subseteq> D" "bg_chunks h = bg_chunks ?g" "bg_top h = bg_top ?g"
    using Cons.IH [of ?g q] q(1) Cons.prems(3) by auto
  then show ?case using Cons.prems(1,2) q(2) by (simp add: BlockGC_allocate_def pop_free_def)
qed simp

lemma collect_free_blocks:
  assumes ok: "gc_ok g (p # free)" and live: "set live \<subseteq> carved g - set (p # free)"
  shows "\<exists>h. BlockGC_collectGarbage live g = Inr h \<and>
    (\<forall>lives. \<exists>ps h'. gc_run lives h = Inr (ps, h') \<and> length ps = length lives \<and> set ps \<subseteq> carved g - set live \<and>
      bg_chunks h' = bg_chunks g \<and> bg_top h' = bg_top g)"
proof -
  let ?n = "BlockGC_totalCount g"
  let ?cs = "marked g live (replicate ?n False)"
  let ?g = "g\<lparr>bg_coll := ?cs, bg_free_cnt := 0\<rparr>"
  have m: "mark_all live (g\<lparr>bg_coll := replicate ?n False\<rparr>) = Inr (g\<lparr>bg_coll := ?cs\<rparr>)"
    using mark_all_correct [of "g\<lparr>bg_coll := replicate ?n False\<rparr>" "p # free" live] ok live by (auto simp: gc_ok_coll marked_def)
  have pos: "0 < per_chunk ?g" "0 < bg_bsize ?g" "bg_free ?g = Some p" using ok by (auto simp: gc_ok_def per_chunk_def)
  have "q \<in> set (dead ?g 0 ?cs) \<longleftrightarrow> q \<in> carved g - set live" for q
    by (auto simp: dead_iff marked_def carved_def gc_ok_coll block_at_def per_chunk_def)
  then have D: "set (dead ?g 0 ?cs) = carved g - set live" by auto
  have "p \<in> carved g - set live" using ok live by (auto simp: gc_ok_def)
  then obtain nx fr k where s: "sweep_loop 0 ?cs ?g = ?g\<lparr>bg_next := nx, bg_free := Some fr, bg_free_cnt := k\<rparr>" "fr \<in> carved g - set live"
      "\<forall>d \<in> carved g - set live. \<exists>q \<in> carved g - set live. nx d = Some (Some q)"
    using sweep_links [OF pos, of "carved g - set live" 0 ?cs] unfolding D by auto
  let ?h = "?g\<lparr>bg_next := nx, bg_free := Some fr, bg_free_cnt := k, bg_need := False, bg_coll := []\<rparr>"
  have "BlockGC_collectGarbage live g = Inr ?h" using m s(1) by (simp add: BlockGC_collectGarbage_def)
  then show ?thesis using gc_run_links [of ?h fr "carved g - set live"] s(2,3) by (intro exI [of _ ?h]) auto
qed

text \<open>A mark that is in no chunk.\<close>

lemma release_loop_outside: "(\<forall>c i. m = Some (c, i) \<longrightarrow> size1 \<le> i) \<Longrightarrow> release_loop size1 m cs = []"
  by (induction cs) (auto split: option.splits)

lemma release_loop_inside: "c \<notin> set ds \<Longrightarrow> i < size1 \<Longrightarrow> release_loop size1 (Some (c, i)) (ds @ c # ds') = c # ds'"
  by (induction ds) auto

text \<open>
  C37. Uses that break the allocators. After a collection made while a block is free, whatever the state reached
  before it, all the allocations that follow, for ever, return blocks that were dead, so that more of them than dead blocks
  return a block twice. A mark taken at the end of a chunk, or before the first allocation, cannot be released:
  all the chunks are deleted and an assertion fails. After the release of a mark in an older chunk, an allocation returns the
  block at the mark, and moves the top after it, whenever its size is at most the distance from the mark to the end of the chunk
  that was current, even if the block passes the end of its own chunk. A block allocator with more than 8 bytes for each of its blocks per chunk never allocates.
\<close>

theorem alloc_misuse:
  fixes base :: "nat \<Rightarrow> int"
  shows "(gc_reach bs cs g L \<and> 0 < bs \<and> max bs 8 \<le> cs \<and> bg_free g \<noteq> None \<longrightarrow>
      (\<exists>h. BlockGC_collectGarbage L g = Inr h \<and>
        (\<forall>lives. \<exists>ps h'. gc_run lives h = Inr (ps, h') \<and> set ps \<subseteq> block_at g ` {..<BlockGC_totalCount g} - set L \<and>
          (BlockGC_totalCount g - length L < length lives \<longrightarrow> \<not> distinct ps)))) \<and>
    (StackAllocator_mark u = None \<or> StackAllocator_mark u = Some (c, sa_size v) \<longrightarrow>
      StackAllocator_release (StackAllocator_mark u) v = Inl Assertion_failed) \<and>
    (sa_chunks v = ds @ c # ds' \<and> c \<notin> set ds \<and> i < sa_size v \<and> n \<le> sa_size v \<and> n \<le> addr_diff base (sa_max v) (Some (c, i)) \<longrightarrow>
      (\<exists>t. bind_res (StackAllocator_release (Some (c, i)) v) (StackAllocator_allocate base 2 n) = Inr ((c, i), t) \<and> sa_top t = Some (c, i + n))) \<and>
    (8 * per < tsz \<and> 0 < per \<and> 8 \<le> tsz \<longrightarrow>
      (\<exists>b. BlockAllocator_new tsz per = Inr b \<and> BlockAllocator_allocate base tsz b = Inl Assertion_failed))"
proof (intro conjI impI)
  assume a: "gc_reach bs cs g L \<and> 0 < bs \<and> max bs 8 \<le> cs \<and> bg_free g \<noteq> None"
  then obtain free where ok: "gc_ok g free" "distinct L" "set L \<subseteq> carved g - set free" 
    using gc_reach_inv [of bs cs g L] by (auto simp: gc_inv_def)
  then obtain p free' where f: "free = p # free'" using a by (cases free) (auto simp: gc_ok_def)
  obtain h where h: "BlockGC_collectGarbage L g = Inr h" "\<forall>lives. \<exists>ps h'. gc_run lives h = Inr (ps, h') \<and> length ps = length lives \<and>
      set ps \<subseteq> carved g - set L \<and> bg_chunks h' = bg_chunks g \<and> bg_top h' = bg_top g"
    using collect_free_blocks [of g p free' L] ok f by auto
  have "card (carved g - set L) = BlockGC_totalCount g - length L"
    using card_carved [OF ok(1)] distinct_card [OF ok(2)] ok(3) by (subst card_Diff_subset) auto
  moreover have "finite (carved g)" by (simp add: carved_def)
  ultimately have "\<not> distinct ps" if "set ps \<subseteq> carved g - set L" "BlockGC_totalCount g - length L < length ps" for ps
    using that card_mono [of "carved g - set L" "set ps"] distinct_card [of ps] by fastforce
  then show "\<exists>h. BlockGC_collectGarbage L g = Inr h \<and>
        (\<forall>lives. \<exists>ps h'. gc_run lives h = Inr (ps, h') \<and> set ps \<subseteq> block_at g ` {..<BlockGC_totalCount g} - set L \<and>
          (BlockGC_totalCount g - length L < length lives \<longrightarrow> \<not> distinct ps))"
    using h unfolding carved_def [symmetric] by metis
next
  assume "StackAllocator_mark u = None \<or> StackAllocator_mark u = Some (c, sa_size v)"
  then have "release_loop (sa_size v) (StackAllocator_mark u) (sa_chunks v) = []" by (intro release_loop_outside) auto
  then show "StackAllocator_release (StackAllocator_mark u) v = Inl Assertion_failed" by (simp add: StackAllocator_release_def)
next
  assume a: "sa_chunks v = ds @ c # ds' \<and> c \<notin> set ds \<and> i < sa_size v \<and> n \<le> sa_size v \<and> n \<le> addr_diff base (sa_max v) (Some (c, i))"
  then have "release_loop (sa_size v) (Some (c, i)) (ds @ c # ds') = c # ds'" by (simp add: release_loop_inside)
  then have "StackAllocator_release (Some (c, i)) v = Inr (v\<lparr>sa_chunks := c # ds', sa_top := Some (c, i)\<rparr>)"
    using a by (simp add: StackAllocator_release_def)
  then show "\<exists>t. bind_res (StackAllocator_release (Some (c, i)) v) (StackAllocator_allocate base 2 n) = Inr ((c, i), t) \<and> sa_top t = Some (c, i + n)"
    using a by (simp add: numeral_2_eq_2 take_block_def)
next
  assume "8 * per < tsz \<and> 0 < per \<and> 8 \<le> tsz"
  then show "\<exists>b. BlockAllocator_new tsz per = Inr b \<and> BlockAllocator_allocate base tsz b = Inl Assertion_failed"
    by (simp add: BlockAllocator_new_def StackAllocator_new_def BlockAllocator_allocate_def numeral_2_eq_2 min_def)
qed
theorem alloc_misuse_witness:
  "(\<exists>g h ps h'. bg_free g = Some (0, 0) \<and> BlockGC_collectGarbage [(0, 8)] g = Inr h \<and> gc_run [[], []] h = Inr (ps, h') \<and> \<not> distinct ps) \<and>
   StackAllocator_release None \<lparr>sa_chunks = [1, 0], sa_fresh = 2, sa_max = Some (1, 16), sa_top = Some (1, 8), sa_size = 16\<rparr> = Inl Assertion_failed \<and>
   (\<exists>t. bind_res (StackAllocator_release (Some (0, 8)) \<lparr>sa_chunks = [1, 0], sa_fresh = 2, sa_max = Some (1, 16), sa_top = Some (1, 8), sa_size = 16\<rparr>)
      (StackAllocator_allocate (\<lambda>c. 1000 * int c) 2 16) = Inr ((0, 8), t) \<and> sa_top t = Some (0, 24)) \<and>
   (\<exists>b. BlockAllocator_new 512 32 = Inr b \<and> BlockAllocator_allocate (\<lambda>c. 1000 * int c) 512 b = Inl Assertion_failed)"
proof -
  let ?g = "\<lparr>bg_free = None, bg_next = Map.empty, bg_free_cnt = 0, bg_sync = False, bg_need = False, bg_chunks = 1, bg_top = 16,
     bg_bsize = 8, bg_csize = 16, bg_coll = []\<rparr>"
  let ?v = "\<lparr>sa_chunks = [1, 0], sa_fresh = 2, sa_max = Some (1, 16), sa_top = Some (1, 8), sa_size = 16\<rparr>"
  let ?u = "?v\<lparr>sa_top := None\<rparr>"
  let ?h = "?g\<lparr>bg_free := Some (0, 0), bg_free_cnt := 1, bg_next := [(0, 0) \<mapsto> None]\<rparr>"
  have 1: "gc_reach 8 16 ?g [(0, 8)]" by (rule gc_reach.forget [OF gc_reach_two]) simp_all
  have c: "BlockGC_collectGarbage [(0, 8)] ?g = Inr ?h"
    by (simp add: BlockGC_collectGarbage_def BlockGC_totalCount_def BlockGC_mark_def free_block_def numeral_2_eq_2 Let_def)
  have 2: "gc_reach 8 16 ?h [(0, 8)]" by (rule gc_reach.collect [OF 1 _ c]) simp
  have n: "BlockGC_totalCount ?h - length [(0 :: nat, 8 :: nat)] < length [[], [] :: addr list]" by (simp add: BlockGC_totalCount_def)
  note all = alloc_misuse [where bs = 8 and cs = 16 and g = ?h and L = "[(0, 8)]" and u = ?u and v = ?v and c = 0 and i = 8 and n = 16 and ds = "[1]"
      and ds' = "[]" and base = "\<lambda>c. 1000 * int c" and tsz = 512 and per = 32]
  obtain h where h: "BlockGC_collectGarbage [(0, 8)] ?h = Inr h" "\<exists>ps h'. gc_run [[], []] h = Inr (ps, h') \<and> \<not> distinct ps"
    using all [THEN conjunct1] 2 n by fastforce
  moreover have "StackAllocator_release None ?v = Inl Assertion_failed"
    using all [THEN conjunct2, THEN conjunct1] by (simp add: StackAllocator_mark_def)
  moreover have "\<exists>t. bind_res (StackAllocator_release (Some (0, 8)) ?v) (StackAllocator_allocate (\<lambda>c. 1000 * int c) 2 16) = Inr ((0, 8), t) \<and> sa_top t = Some (0, 24)"
    using all [THEN conjunct2, THEN conjunct2, THEN conjunct1] by (simp add: addr_diff_def)
  moreover have "\<exists>b. BlockAllocator_new 512 32 = Inr b \<and> BlockAllocator_allocate (\<lambda>c. 1000 * int c) 512 b = Inl Assertion_failed"
    using all [THEN conjunct2, THEN conjunct2, THEN conjunct2] by simp
  moreover have "bg_free ?h = Some (0, 0)" by simp
  ultimately show ?thesis by (intro conjI) blast+
qed

end
