(* ===== verification/Elm_Dtd.thy ===== *)
theory Elm_Dtd
  imports Elm_Prelude "HOL-Library.Multiset"
begin

text \<open>
  Parsing of XML documents by their DTD: \<^verbatim>\<open>xom/dtd.h\<close> and \<^verbatim>\<open>xom_dtd.cpp\<close>. A document is a tree, as the
  interface of \<^verbatim>\<open>xom\<close> shows it. The contents of a DTD are a finite tree, since \<^verbatim>\<open>reset\<close> goes
  through all of them; elements and attributes carry a number, their address, and the mutable part of the attributes is
  a map from these numbers. The factory of the client and the reading of values by \<^verbatim>\<open>io::Input\<close> are
  parameters; the calls of the factory are recorded.
\<close>

section \<open>Documents and DTD\<close>

datatype xnode = XElement string "(string \<times> string) list" "xnode list" | XText string | XOther string

fun xml_children :: "xnode \<Rightarrow> xnode list" where
  "xml_children (XElement nm avs kids) = kids"
| "xml_children _ = []"

datatype 'v akind = Plain_attribute | String_attribute string | Value_attribute 'v | ID_attribute | Ref_attribute

record 'v attribute =
  at_id :: nat
  at_elt :: nat
  at_name :: string
  at_required :: bool
  at_strict :: bool
  at_forward :: bool
  at_kind :: "'v akind"

datatype 'v dtd_content =
    DElement nat string "'v attribute list" "'v dtd_content"
  | DOptional "'v dtd_content"
  | DAlt "'v dtd_content" "'v dtd_content"
  | DSeq "'v dtd_content" "'v dtd_content"
  | DRepeat "'v dtd_content"
  | PCDATA
  | ANY
  | EMPTY
  | Ignored

section \<open>State of the parser\<close>

text \<open>The calls with their results, and with the identifier that the parser resolves.\<close>

datatype ('r, 'o) factory_call =
    Begin nat
  | End nat
  | Backtracked nat
  | GetRef string nat 'r
  | GetPCDATA string
  | GetAny xnode
  | Patch string nat 'o 'r
  | GetPatchRef string nat 'o

text \<open>The value of an attribute: \<^verbatim>\<open>v\<close> or \<^verbatim>\<open>_id\<close> as a string, or \<^verbatim>\<open>v\<close> of another type.\<close>

record ('v, 'r) attr_state =
  as_set :: bool
  as_str :: string
  as_val :: 'v
  as_done :: bool
  as_ref :: "'r option"

record ('v, 'r, 'o) client =
  cl_ok :: "string \<Rightarrow> bool"
  cl_read :: "string \<Rightarrow> 'v \<Rightarrow> 'v"
  cl_ref :: "('r, 'o) factory_call list \<Rightarrow> nat \<Rightarrow> 'r"
  cl_patch :: "('r, 'o) factory_call list \<Rightarrow> nat \<Rightarrow> 'o"

record ('v, 'r, 'o) dtd_parser =
  dp_i :: nat
  dp_elt :: nat
  dp_node :: "xnode option"
  dp_stack :: "(nat \<times> nat \<times> xnode option) list"
  dp_map :: "string \<rightharpoonup> 'r"
  dp_patches :: "(string \<times> (nat \<times> 'o) list) list"
  dp_crop :: bool
  dp_error :: "xnode option"
  dp_posts :: "'v attribute list"
  dp_atts :: "nat \<Rightarrow> ('v, 'r) attr_state"
  dp_calls :: "('r, 'o) factory_call list"

definition call :: "('r, 'o) factory_call \<Rightarrow> ('v, 'r, 'o) dtd_parser \<Rightarrow> ('v, 'r, 'o) dtd_parser" where
  "call e p = p\<lparr>dp_calls := dp_calls p @ [e]\<rparr>"

definition Parser_ended :: "('v, 'r, 'o) dtd_parser \<Rightarrow> bool" where
  "Parser_ended p \<longleftrightarrow> dp_node p = None"

definition blank_text :: "xnode \<Rightarrow> bool" where
  "blank_text n = (case n of XText t \<Rightarrow> list_all (\<lambda>c. c \<in> {CHR '' '', CHR 0x09, CHR 0x0B, CHR 0x0A}) t | _ \<Rightarrow> False)"

definition Parser_isEmpty :: "('v, 'r, 'o) dtd_parser \<Rightarrow> bool res" where
  "Parser_isEmpty p = (case dp_node p of None \<Rightarrow> Inl Null_dereference | Some n \<Rightarrow> Inr (blank_text n))"

text \<open>The loop of \<^verbatim>\<open>setNode\<close>, on the children from the index on.\<close>

fun setNode_loop :: "bool \<Rightarrow> xnode list \<Rightarrow> nat \<Rightarrow> nat \<times> xnode option" where
  "setNode_loop crop [] i = (i, None)"
| "setNode_loop crop (n # ns) i = (if \<not> crop \<or> \<not> blank_text n then (i, Some n) else setNode_loop crop ns (i + 1))"

definition setNode :: "('v, 'r, 'o) dtd_parser \<Rightarrow> ('v, 'r, 'o) dtd_parser res" where
  "setNode p =
     (case dp_stack p of
        [] \<Rightarrow> Inr (p\<lparr>dp_node := None\<rparr>)
      | (_, _, None) # _ \<Rightarrow> Inl Null_dereference
      | (_, _, Some x) # _ \<Rightarrow>
          (case setNode_loop (dp_crop p) (drop (dp_i p) (xml_children x)) (dp_i p) of (i, n) \<Rightarrow> Inr (p\<lparr>dp_i := i, dp_node := n\<rparr>)))"

definition Parser_next :: "('v, 'r, 'o) dtd_parser \<Rightarrow> ('v, 'r, 'o) dtd_parser res" where
  "Parser_next p = setNode (p\<lparr>dp_i := dp_i p + 1\<rparr>)"

definition Parser_backtrack :: "nat \<Rightarrow> ('v, 'r, 'o) dtd_parser \<Rightarrow> (bool \<times> ('v, 'r, 'o) dtd_parser) res" where
  "Parser_backtrack m p = bind_res (setNode (p\<lparr>dp_i := m\<rparr>)) (\<lambda>p. Inr (False, p))"


section \<open>Identifiers and references\<close>

text \<open>The hash table of the references that wait for an identifier is the list of its pairs.\<close>

definition recordID :: "('v, 'r, 'o) client \<Rightarrow> string \<Rightarrow> nat \<Rightarrow> ('v, 'r, 'o) dtd_parser \<Rightarrow> ('v, 'r, 'o) dtd_parser" where
  "recordID cl i e p =
     (let r = cl_ref cl (dp_calls p) e; p = (call (GetRef i e r) p)\<lparr>dp_map := (dp_map p)(i \<mapsto> r)\<rparr> in
      case map_of (dp_patches p) i of
        None \<Rightarrow> p
      | Some bs \<Rightarrow> (fold (\<lambda>(a, ob). call (Patch i a ob r)) bs p)\<lparr>dp_patches := filter (\<lambda>(j, _). j \<noteq> i) (dp_patches p)\<rparr>)"

definition recordPatch :: "('v, 'r, 'o) client \<Rightarrow> string \<Rightarrow> nat \<Rightarrow> ('v, 'r, 'o) dtd_parser \<Rightarrow> ('v, 'r, 'o) dtd_parser" where
  "recordPatch cl i a p =
     (let ob = cl_patch cl (dp_calls p) a; p = call (GetPatchRef i a ob) p in
      p\<lparr>dp_patches := (i, (a, ob) # (case map_of (dp_patches p) i of None \<Rightarrow> [] | Some bs \<Rightarrow> bs)) # filter (\<lambda>(j, _). j \<noteq> i) (dp_patches p)\<rparr>)"

definition postprocess :: "('v, 'r, 'o) client \<Rightarrow> 'v attribute \<Rightarrow> ('v, 'r, 'o) dtd_parser \<Rightarrow> ('v, 'r, 'o) dtd_parser" where
  "postprocess cl a p =
     (let i = as_str (dp_atts p (at_id a)) in
      case at_kind a of ID_attribute \<Rightarrow> recordID cl i (at_elt a) p | Ref_attribute \<Rightarrow> recordPatch cl i (at_id a) p | _ \<Rightarrow> p)"

definition Parser_begin :: "('v, 'r, 'o) client \<Rightarrow> nat \<Rightarrow> ('v, 'r, 'o) dtd_parser \<Rightarrow> ('v, 'r, 'o) dtd_parser res" where
  "Parser_begin cl e p =
     (let p = call (Begin e) p; p = (fold (postprocess cl) (dp_posts p) p)\<lparr>dp_posts := []\<rparr> in
      setNode (p\<lparr>dp_error := dp_node p, dp_stack := (dp_i p, dp_elt p, dp_node p) # dp_stack p, dp_i := 0, dp_elt := e\<rparr>))"

definition Parser_end :: "bool \<Rightarrow> ('v, 'r, 'o) dtd_parser \<Rightarrow> ('v, 'r, 'o) dtd_parser res" where
  "Parser_end success p =
     (case dp_stack p of
        [] \<Rightarrow> Inl Out_of_bounds
      | (i, e, n) # st \<Rightarrow>
          let q = p\<lparr>dp_i := i, dp_elt := e, dp_node := n, dp_stack := st\<rparr> in
          if success then Parser_next (call (End (dp_elt p)) q) else Inr (call (Backtracked (dp_elt p)) q))"

definition recordError :: "('v, 'r, 'o) dtd_parser \<Rightarrow> ('v, 'r, 'o) dtd_parser" where
  "recordError p = p\<lparr>dp_error := dp_node p\<rparr>"


section \<open>Attributes\<close>

definition upd_attr :: "'v attribute \<Rightarrow> (('v, 'r) attr_state \<Rightarrow> ('v, 'r) attr_state) \<Rightarrow> ('v, 'r, 'o) dtd_parser \<Rightarrow> ('v, 'r, 'o) dtd_parser" where
  "upd_attr a f p = p\<lparr>dp_atts := (dp_atts p)(at_id a := f (dp_atts p (at_id a)))\<rparr>"

text \<open>\<^verbatim>\<open>reset\<close>, that of an attribute of type string without the flag.\<close>

definition attr_reset :: "'v attribute \<Rightarrow> ('v, 'r, 'o) dtd_parser \<Rightarrow> ('v, 'r, 'o) dtd_parser" where
  "attr_reset a p =
     upd_attr a (\<lambda>s.
       case at_kind a of
         Plain_attribute \<Rightarrow> s\<lparr>as_set := False\<rparr>
       | String_attribute init \<Rightarrow> s\<lparr>as_str := init\<rparr>
       | Value_attribute init \<Rightarrow> s\<lparr>as_set := False, as_val := init\<rparr>
       | ID_attribute \<Rightarrow> s\<lparr>as_set := False, as_str := []\<rparr>
       | Ref_attribute \<Rightarrow> s\<lparr>as_set := False, as_done := False, as_ref := None\<rparr>) p"

definition ID_process :: "'v attribute \<Rightarrow> string \<Rightarrow> ('v, 'r, 'o) dtd_parser \<Rightarrow> (bool \<times> ('v, 'r, 'o) dtd_parser) res" where
  "ID_process a v p =
     (if dp_map p v \<noteq> None then (if at_strict a then Inl (Exception ''already used identifier'') else Inr (False, p))
      else let p = upd_attr a (\<lambda>s. s\<lparr>as_str := v\<rparr>) p in Inr (True, p\<lparr>dp_posts := dp_posts p @ [a]\<rparr>))"

definition Ref_process :: "'v attribute \<Rightarrow> string \<Rightarrow> ('v, 'r, 'o) dtd_parser \<Rightarrow> (bool \<times> ('v, 'r, 'o) dtd_parser) res" where
  "Ref_process a v p =
     (case dp_map p v of
        Some r \<Rightarrow> Inr (True, upd_attr a (\<lambda>s. s\<lparr>as_str := v, as_done := True, as_ref := Some r\<rparr>) p)
      | None \<Rightarrow>
          let p = upd_attr a (\<lambda>s. s\<lparr>as_str := v, as_done := False, as_ref := None\<rparr>) p in
          if at_forward a then Inr (True, p\<lparr>dp_posts := dp_posts p @ [a]\<rparr>)
          else if at_strict a then Inl (Exception ''undefined reference'') else Inr (False, p))"

definition attr_process :: "('v, 'r, 'o) client \<Rightarrow> 'v attribute \<Rightarrow> string \<Rightarrow> ('v, 'r, 'o) dtd_parser \<Rightarrow> (bool \<times> ('v, 'r, 'o) dtd_parser) res" where
  "attr_process cl a v p =
     (case at_kind a of
        Plain_attribute \<Rightarrow> Inr (True, p)
      | String_attribute _ \<Rightarrow> Inr (True, upd_attr a (\<lambda>s. s\<lparr>as_str := v\<rparr>) p)
      | Value_attribute _ \<Rightarrow> Inr (cl_ok cl v, upd_attr a (\<lambda>s. s\<lparr>as_val := cl_read cl v (as_val s)\<rparr>) p)
      | ID_attribute \<Rightarrow> ID_process a v p
      | Ref_attribute \<Rightarrow> Ref_process a v p)"

definition attr_parse :: "('v, 'r, 'o) client \<Rightarrow> 'v attribute \<Rightarrow> (string \<times> string) list \<Rightarrow> ('v, 'r, 'o) dtd_parser \<Rightarrow> (bool \<times> ('v, 'r, 'o) dtd_parser) res" where
  "attr_parse cl a avs p =
     (case map_of avs (at_name a) of
        Some v \<Rightarrow> attr_process cl a v (upd_attr a (\<lambda>s. s\<lparr>as_set := True\<rparr>) p)
      | None \<Rightarrow> Inr (\<not> at_required a, attr_reset a p))"

fun attrs_loop :: "('v, 'r, 'o) client \<Rightarrow> 'v attribute list \<Rightarrow> (string \<times> string) list \<Rightarrow> ('v, 'r, 'o) dtd_parser \<Rightarrow> (bool \<times> ('v, 'r, 'o) dtd_parser) res" where
  "attrs_loop cl [] avs p = Inr (True, p)"
| "attrs_loop cl (a # as) avs p =
     bind_res (attr_parse cl a avs p) (\<lambda>(b, p). if b then attrs_loop cl as avs p else Inr (False, recordError p))"


section \<open>Contents\<close>

text \<open>The loops over the children of an element have a bound on their turns.\<close>

fun empty_loop :: "nat \<Rightarrow> nat \<Rightarrow> ('v, 'r, 'o) dtd_parser \<Rightarrow> (bool \<times> ('v, 'r, 'o) dtd_parser) res" where
  "empty_loop 0 m p = Inl Out_of_fuel"
| "empty_loop (Suc k) m p =
     (if Parser_ended p then Inr (True, p)
      else bind_res (Parser_isEmpty p) (\<lambda>b.
        if \<not> b then Parser_backtrack m p else bind_res (Parser_next p) (\<lambda>p. empty_loop k m p)))"

fun any_loop :: "(xnode \<Rightarrow> ('v, 'r, 'o) dtd_parser \<Rightarrow> ('v, 'r, 'o) dtd_parser) \<Rightarrow> nat \<Rightarrow> ('v, 'r, 'o) dtd_parser \<Rightarrow> (bool \<times> ('v, 'r, 'o) dtd_parser) res" where
  "any_loop f 0 p = Inl Out_of_fuel"
| "any_loop f (Suc k) p =
     (case dp_node p of None \<Rightarrow> Inr (True, p) | Some n \<Rightarrow> bind_res (Parser_next (f n p)) (\<lambda>p. any_loop f k p))"

fun repeat_loop :: "(('v, 'r, 'o) dtd_parser \<Rightarrow> (bool \<times> ('v, 'r, 'o) dtd_parser) res) \<Rightarrow> nat \<Rightarrow> ('v, 'r, 'o) dtd_parser \<Rightarrow> (bool \<times> ('v, 'r, 'o) dtd_parser) res" where
  "repeat_loop f 0 p = Inl Out_of_fuel"
| "repeat_loop f (Suc k) p =
     (if Parser_ended p then Inr (True, p) else bind_res (f p) (\<lambda>(b, p). if b then repeat_loop f k p else Inr (True, p)))"

definition PCDATA_parse :: "('v, 'r, 'o) dtd_parser \<Rightarrow> (bool \<times> ('v, 'r, 'o) dtd_parser) res" where
  "PCDATA_parse p =
     (case dp_node p of
        None \<Rightarrow> Inr (True, call (GetPCDATA []) p)
      | Some (XText t) \<Rightarrow> bind_res (Parser_next (call (GetPCDATA t) p)) (\<lambda>p. Inr (True, p))
      | Some _ \<Rightarrow> Inr (False, p))"

text \<open>\<^verbatim>\<open>Element::parse\<close>, the parsing of its content given.\<close>

definition Element_leave :: "bool \<times> ('v, 'r, 'o) dtd_parser \<Rightarrow> (bool \<times> ('v, 'r, 'o) dtd_parser) res" where
  "Element_leave r =
     (let (success, p) = r; (success, p) = (if Parser_ended p then (success, p) else (False, recordError p)) in
      bind_res (Parser_end success p) (\<lambda>p. Inr (success, p)))"

definition Element_parse ::
    "('v, 'r, 'o) client \<Rightarrow> nat \<Rightarrow> string \<Rightarrow> 'v attribute list \<Rightarrow> (('v, 'r, 'o) dtd_parser \<Rightarrow> (bool \<times> ('v, 'r, 'o) dtd_parser) res) \<Rightarrow>
     ('v, 'r, 'o) dtd_parser \<Rightarrow> (bool \<times> ('v, 'r, 'o) dtd_parser) res" where
  "Element_parse cl e nm as content p =
     (case dp_node p of
        Some (XElement nm' avs kids) \<Rightarrow>
          if nm' \<noteq> nm then Inr (False, p)
          else bind_res (attrs_loop cl as avs p) (\<lambda>(b, p).
            if \<not> b then Inr (False, p) else bind_res (Parser_begin cl e p) (\<lambda>p. bind_res (content p) Element_leave))
      | _ \<Rightarrow> Inr (False, p))"

primrec parse_content :: "('v, 'r, 'o) client \<Rightarrow> nat \<Rightarrow> 'v dtd_content \<Rightarrow> ('v, 'r, 'o) dtd_parser \<Rightarrow> (bool \<times> ('v, 'r, 'o) dtd_parser) res" where
  "parse_content cl F (DElement e nm as c) = Element_parse cl e nm as (parse_content cl F c)"
| "parse_content cl F (DOptional c) =
     (\<lambda>p. if Parser_ended p then Inr (True, p) else bind_res (parse_content cl F c p) (\<lambda>(_, p). Inr (True, p)))"
| "parse_content cl F (DAlt c1 c2) =
     (\<lambda>p. bind_res (parse_content cl F c1 p) (\<lambda>(b, p). if b then Inr (True, p) else parse_content cl F c2 p))"
| "parse_content cl F (DSeq c1 c2) =
     (\<lambda>p. if Parser_ended p then Inr (False, p)
          else let m = dp_i p in
            bind_res (parse_content cl F c1 p) (\<lambda>(b, p).
              if \<not> b then Parser_backtrack m p
              else bind_res (parse_content cl F c2 p) (\<lambda>(b, p). if \<not> b then Parser_backtrack m p else Inr (True, p))))"
| "parse_content cl F (DRepeat c) = repeat_loop (parse_content cl F c) F"
| "parse_content cl F PCDATA = PCDATA_parse"
| "parse_content cl F ANY = any_loop (\<lambda>n. call (GetAny n)) F"
| "parse_content cl F EMPTY = (\<lambda>p. empty_loop F (dp_i p) p)"
| "parse_content cl F Ignored = any_loop (\<lambda>_ p. p) F"

text \<open>\<^verbatim>\<open>reset\<close> goes through the whole DTD.\<close>

primrec content_reset :: "'v dtd_content \<Rightarrow> ('v, 'r, 'o) dtd_parser \<Rightarrow> ('v, 'r, 'o) dtd_parser" where
  "content_reset (DElement e nm as c) = (\<lambda>p. content_reset c (fold attr_reset as p))"
| "content_reset (DOptional c) = content_reset c"
| "content_reset (DAlt c1 c2) = (\<lambda>p. content_reset c2 (content_reset c1 p))"
| "content_reset (DSeq c1 c2) = (\<lambda>p. content_reset c2 (content_reset c1 p))"
| "content_reset (DRepeat c) = content_reset c"
| "content_reset PCDATA = (\<lambda>p. p)"
| "content_reset ANY = (\<lambda>p. p)"
| "content_reset EMPTY = (\<lambda>p. p)"
| "content_reset Ignored = (\<lambda>p. p)"

definition DParser_new :: "bool \<Rightarrow> nat \<Rightarrow> (nat \<Rightarrow> ('v, 'r) attr_state) \<Rightarrow> ('v, 'r, 'o) dtd_parser" where
  "DParser_new crop e atts =
     \<lparr>dp_i = 0, dp_elt = e, dp_node = None, dp_stack = [], dp_map = Map.empty, dp_patches = [], dp_crop = crop, dp_error = None,
      dp_posts = [], dp_atts = atts, dp_calls = []\<rparr>"

definition dtd_parse :: "('v, 'r, 'o) client \<Rightarrow> nat \<Rightarrow> 'v dtd_content \<Rightarrow> nat \<Rightarrow> xnode \<Rightarrow> ('v, 'r, 'o) dtd_parser \<Rightarrow> ('v, 'r, 'o) dtd_parser res" where
  "dtd_parse cl F root e x p =
     (let p = content_reset root (p\<lparr>dp_patches := [], dp_posts := []\<rparr>) in
      bind_res (parse_content cl F root (p\<lparr>dp_elt := e, dp_i := 0, dp_node := Some x, dp_error := Some x\<rparr>)) (\<lambda>(b, p).
        if \<not> b then Inl (Exception ''cannot parse.'')
        else if dp_patches p \<noteq> [] then Inl (Exception ''some references are pending'') else Inr p))"


section \<open>Valid documents\<close>

text \<open>What a DTD means: the sequences of nodes of a content; with the cropping, blank texts do not count.\<close>

definition crop_nodes :: "bool \<Rightarrow> xnode list \<Rightarrow> xnode list" where
  "crop_nodes crop ns = filter (\<lambda>n. \<not> crop \<or> \<not> blank_text n) ns"

definition attr_ok :: "(string \<Rightarrow> bool) \<Rightarrow> (string \<times> string) list \<Rightarrow> 'v attribute \<Rightarrow> bool" where
  "attr_ok ok avs a =
     (case map_of avs (at_name a) of None \<Rightarrow> \<not> at_required a
        | Some v \<Rightarrow> (case at_kind a of Value_attribute _ \<Rightarrow> ok v | _ \<Rightarrow> True))"

inductive valid :: "(string \<Rightarrow> bool) \<Rightarrow> bool \<Rightarrow> 'v dtd_content \<Rightarrow> xnode list \<Rightarrow> bool" for ok crop where
  element: "list_all (attr_ok ok avs) as \<Longrightarrow> valid ok crop c (crop_nodes crop kids) \<Longrightarrow> valid ok crop (DElement e nm as c) [XElement nm avs kids]"
| optional_none: "valid ok crop (DOptional c) []"
| optional_some: "valid ok crop c u \<Longrightarrow> valid ok crop (DOptional c) u"
| alt_left: "valid ok crop c1 u \<Longrightarrow> valid ok crop (DAlt c1 c2) u"
| alt_right: "valid ok crop c2 u \<Longrightarrow> valid ok crop (DAlt c1 c2) u"
| seq: "valid ok crop c1 u \<Longrightarrow> valid ok crop c2 v \<Longrightarrow> valid ok crop (DSeq c1 c2) (u @ v)"
| repeat_none: "valid ok crop (DRepeat c) []"
| repeat_more: "valid ok crop c u \<Longrightarrow> valid ok crop (DRepeat c) v \<Longrightarrow> valid ok crop (DRepeat c) (u @ v)"
| pcdata_none: "valid ok crop PCDATA []"
| pcdata: "valid ok crop PCDATA [XText t]"
| any: "valid ok crop ANY u"
| empty: "list_all blank_text u \<Longrightarrow> valid ok crop EMPTY u"
| ignored: "valid ok crop Ignored u"

inductive_cases valid_elementE: "valid ok crop (DElement e nm as c) u"
inductive_cases valid_optionalE: "valid ok crop (DOptional c) u"
inductive_cases valid_altE: "valid ok crop (DAlt c1 c2) u"
inductive_cases valid_seqE: "valid ok crop (DSeq c1 c2) u"
inductive_cases valid_repeatE: "valid ok crop (DRepeat c) u"
inductive_cases valid_pcdataE: "valid ok crop PCDATA u"
inductive_cases valid_emptyE: "valid ok crop EMPTY u"

text \<open>The contents that take a node whenever there is one, and the DTD that repeats only these.\<close>

primrec consumes :: "'v dtd_content \<Rightarrow> bool" where
  "consumes (DElement e nm as c) = True"
| "consumes (DOptional c) = False"
| "consumes (DAlt c1 c2) = (consumes c1 \<and> consumes c2)"
| "consumes (DSeq c1 c2) = (consumes c1 \<or> consumes c2)"
| "consumes (DRepeat c) = False"
| "consumes PCDATA = True"
| "consumes ANY = True"
| "consumes EMPTY = True"
| "consumes Ignored = True"

primrec productive :: "'v dtd_content \<Rightarrow> bool" where
  "productive (DElement e nm as c) = productive c"
| "productive (DOptional c) = productive c"
| "productive (DAlt c1 c2) = (productive c1 \<and> productive c2)"
| "productive (DSeq c1 c2) = (productive c1 \<and> productive c2)"
| "productive (DRepeat c) = (productive c \<and> consumes c)"
| "productive PCDATA = True"
| "productive ANY = True"
| "productive EMPTY = True"
| "productive Ignored = True"

text \<open>The calls of the factory: an element that begins ends, or is backtracked.\<close>

inductive nested :: "('r, 'o) factory_call list \<Rightarrow> bool" where
  nil: "nested []"
| other: "\<forall>e. c \<noteq> Begin e \<and> c \<noteq> End e \<and> c \<noteq> Backtracked e \<Longrightarrow> nested [c]"
| finished: "nested cs \<Longrightarrow> nested (Begin e # cs @ [End e])"
| abandoned: "nested cs \<Longrightarrow> nested (Begin e # cs @ [Backtracked e])"
| append: "nested cs \<Longrightarrow> nested ds \<Longrightarrow> nested (cs @ ds)"

fun xsize :: "xnode \<Rightarrow> nat" where
  "xsize (XElement nm avs kids) = Suc (sum_list (map xsize kids))"
| "xsize _ = 1"

definition nodes :: "xnode list \<Rightarrow> nat" where
  "nodes ns = sum_list (map xsize ns)"

lemma nodes_simps [simp]: "nodes [] = 0" "nodes (n # ns) = xsize n + nodes ns" "nodes (ns @ ms) = nodes ns + nodes ms"
  by (simp_all add: nodes_def)

lemma xsize_pos: "0 < xsize n"
  by (cases n) simp_all

lemma length_nodes: "length ns \<le> nodes ns"
proof (induction ns)
  case (Cons n ns)
  then show ?case using xsize_pos [of n] by simp
qed simp

lemma nodes_crop: "nodes (crop_nodes crop ns) \<le> nodes ns"
  by (induction ns) (auto simp: crop_nodes_def)

lemma nodes_kids: "xsize (XElement nm avs kids) = Suc (nodes kids)"
  by (simp add: nodes_def)


section \<open>The position in a document\<close>

text \<open>The nodes that remain in the current element; a settled position is on the first of them.\<close>

definition within :: "('v, 'r, 'o) dtd_parser \<Rightarrow> xnode list \<Rightarrow> bool" where
  "within p kids \<longleftrightarrow> (\<exists>i e x st. dp_stack p = (i, e, Some x) # st \<and> kids = xml_children x)"

definition remain :: "('v, 'r, 'o) dtd_parser \<Rightarrow> xnode list" where
  "remain p = crop_nodes (dp_crop p) (drop (dp_i p) (case dp_stack p of (_, _, Some x) # _ \<Rightarrow> xml_children x | _ \<Rightarrow> []))"

definition settled :: "('v, 'r, 'o) dtd_parser \<Rightarrow> bool" where
  "settled p \<longleftrightarrow> (\<exists>kids. within p kids) \<and> setNode p = Inr p"

definition frame :: "('v, 'r, 'o) dtd_parser \<Rightarrow> ('v, 'r, 'o) dtd_parser \<Rightarrow> bool" where
  "frame p q \<longleftrightarrow> dp_stack q = dp_stack p \<and> dp_crop q = dp_crop p \<and> dp_elt q = dp_elt p"

definition nested_calls :: "('v, 'r, 'o) dtd_parser \<Rightarrow> ('v, 'r, 'o) dtd_parser \<Rightarrow> bool" where
  "nested_calls p q \<longleftrightarrow> (\<exists>cs. dp_calls q = dp_calls p @ cs \<and> nested cs)"

lemma frame_refl [simp]: "frame p p"
  by (simp add: frame_def)

lemma frame_trans: "frame p q \<Longrightarrow> frame q r \<Longrightarrow> frame p r"
  by (simp add: frame_def)

lemma nested_calls_refl [simp]: "nested_calls p p"
  by (simp add: nested_calls_def nested.nil)

lemma nested_calls_trans: "nested_calls p q \<Longrightarrow> nested_calls q r \<Longrightarrow> nested_calls p r"
  by (auto simp: nested_calls_def intro: nested.append)

lemma within_frame: "frame p q \<Longrightarrow> within q kids = within p kids"
  by (simp add: frame_def within_def)

lemma remain_within: "within p kids \<Longrightarrow> remain p = crop_nodes (dp_crop p) (drop (dp_i p) kids)"
  by (auto simp: within_def remain_def)

lemma setNode_within:
  "within p kids \<Longrightarrow> setNode p = (case setNode_loop (dp_crop p) (drop (dp_i p) kids) (dp_i p) of (i, n) \<Rightarrow> Inr (p\<lparr>dp_i := i, dp_node := n\<rparr>))"
  by (auto simp: within_def setNode_def)

lemma crop_nodes_simps [simp]:
  "crop_nodes crop [] = []"
  "crop_nodes crop (n # ns) = (if \<not> crop \<or> \<not> blank_text n then n # crop_nodes crop ns else crop_nodes crop ns)"
  by (simp_all add: crop_nodes_def)

lemma setNode_loop_correct:
  "setNode_loop crop ns i = (j, m) \<Longrightarrow>
    i \<le> j \<and> crop_nodes crop (drop (j - i) ns) = crop_nodes crop ns \<and> setNode_loop crop (drop (j - i) ns) j = (j, m) \<and>
    (case m of None \<Rightarrow> crop_nodes crop ns = [] | Some k \<Rightarrow> \<exists>ks. drop (j - i) ns = k # ks \<and> crop_nodes crop ns = k # crop_nodes crop ks)"
proof (induction crop ns i rule: setNode_loop.induct)
  case (2 crop n ns i)
  show ?case
  proof (cases "\<not> crop \<or> \<not> blank_text n")
    case True
    then show ?thesis using "2.prems" by auto
  next
    case False
    then have l: "setNode_loop crop ns (i + 1) = (j, m)" using "2.prems" by simp
    from "2.IH" [OF False l] have "Suc i \<le> j" by simp
    then have "j - i = Suc (j - Suc i)" by simp
    then have "drop (j - i) (n # ns) = drop (j - Suc i) ns" "crop_nodes crop (n # ns) = crop_nodes crop ns" using False by auto
    then show ?thesis using "2.IH" [OF False l] by (simp split: option.splits)
  qed
qed auto

definition here :: "('v, 'r, 'o) dtd_parser \<Rightarrow> ('v, 'r, 'o) dtd_parser \<Rightarrow> bool" where
  "here p q \<longleftrightarrow> frame p q \<and> dp_i q = dp_i p \<and> dp_node q = dp_node p"

lemma here_refl [simp]: "here p p"
  by (simp add: here_def)

lemma settled_iff:
  "settled p \<longleftrightarrow> (\<exists>kids. within p kids \<and> setNode_loop (dp_crop p) (drop (dp_i p) kids) (dp_i p) = (dp_i p, dp_node p))"
proof
  assume "settled p"
  then obtain kids where k: "within p kids" "setNode p = Inr p" by (auto simp: settled_def)
  obtain j m where l: "setNode_loop (dp_crop p) (drop (dp_i p) kids) (dp_i p) = (j, m)" by fastforce
  then have e: "p\<lparr>dp_i := j, dp_node := m\<rparr> = p" using setNode_within [OF k(1)] k(2) by simp
  have "j = dp_i p" "m = dp_node p" using arg_cong [OF e, of dp_i] arg_cong [OF e, of dp_node] by simp_all
  then show "\<exists>kids. within p kids \<and> setNode_loop (dp_crop p) (drop (dp_i p) kids) (dp_i p) = (dp_i p, dp_node p)" using k l by blast
next
  assume "\<exists>kids. within p kids \<and> setNode_loop (dp_crop p) (drop (dp_i p) kids) (dp_i p) = (dp_i p, dp_node p)"
  then obtain kids where k: "within p kids" "setNode_loop (dp_crop p) (drop (dp_i p) kids) (dp_i p) = (dp_i p, dp_node p)" by blast
  then have "setNode p = Inr p" using setNode_within [OF k(1)] by simp
  then show "settled p" using k(1) by (auto simp: settled_def)
qed

lemma setNode_settles:
  assumes "within p kids"
  obtains q where "setNode p = Inr q" "settled q" "remain q = remain p" "frame p q" "dp_calls q = dp_calls p"
proof -
  obtain j m where l: "setNode_loop (dp_crop p) (drop (dp_i p) kids) (dp_i p) = (j, m)" by fastforce
  define q where "q = p\<lparr>dp_i := j, dp_node := m\<rparr>"
  note c = setNode_loop_correct [OF l]
  have d: "drop (j - dp_i p) (drop (dp_i p) kids) = drop j kids" using c by simp
  have i: "within q kids" using assms by (simp add: within_def q_def)
  have "setNode p = Inr q" using setNode_within [OF assms] l by (simp add: q_def)
  moreover have "setNode_loop (dp_crop p) (drop j kids) j = (j, m)" using c unfolding d by blast
  then have "settled q" using i by (auto simp: settled_iff q_def)
  moreover have "crop_nodes (dp_crop p) (drop j kids) = crop_nodes (dp_crop p) (drop (dp_i p) kids)" using c unfolding d by blast
  then have "remain q = remain p" using remain_within [OF i] remain_within [OF assms] by (simp add: q_def)
  ultimately show ?thesis using that [of q] by (auto simp: frame_def q_def)
qed

lemma settled_here: "settled p \<Longrightarrow> here p q \<Longrightarrow> settled q \<and> remain q = remain p"
  by (auto simp: settled_iff here_def frame_def within_def remain_def)

lemma settled_cases:
  assumes "settled p"
  obtains kids where "within p kids"
    "case dp_node p of None \<Rightarrow> remain p = [] | Some n \<Rightarrow> \<exists>ns. drop (dp_i p) kids = n # ns \<and> remain p = n # crop_nodes (dp_crop p) ns"
proof -
  from assms obtain kids where k: "within p kids" "setNode_loop (dp_crop p) (drop (dp_i p) kids) (dp_i p) = (dp_i p, dp_node p)"
    by (auto simp: settled_iff)
  then show ?thesis using that [OF k(1)] setNode_loop_correct [OF k(2)] remain_within [OF k(1)] by (auto split: option.splits)
qed

lemma ended_remain: "settled p \<Longrightarrow> Parser_ended p \<longleftrightarrow> remain p = []"
  by (erule settled_cases) (auto simp: Parser_ended_def split: option.splits)

lemma node_remain: "settled p \<Longrightarrow> dp_node p = (case remain p of [] \<Rightarrow> None | n # _ \<Rightarrow> Some n)"
  by (erule settled_cases) (auto split: option.splits)

lemma Parser_next_correct:
  assumes p: "settled p" "remain p = n # w"
  obtains q where "Parser_next p = Inr q" "settled q" "remain q = w" "frame p q" "dp_calls q = dp_calls p"
proof -
  have n: "dp_node p = Some n" using node_remain [OF p(1)] p(2) by simp
  obtain kids ns where k: "within p kids" "drop (dp_i p) kids = n # ns" "w = crop_nodes (dp_crop p) ns"
    by (rule settled_cases [OF p(1)]) (use n p(2) that in auto)
  let ?p = "p\<lparr>dp_i := dp_i p + 1\<rparr>"
  have i: "within ?p kids" using k(1) by (simp add: within_def)
  have "drop (dp_i p + 1) kids = drop 1 (drop (dp_i p) kids)" by (simp add: add.commute)
  then have "remain ?p = w" using remain_within [OF i] k by simp
  then show ?thesis using setNode_settles [OF i] that by (auto simp: Parser_next_def frame_def)
qed

lemma Parser_backtrack_correct:
  assumes "settled p" "frame p q"
  obtains r where "Parser_backtrack (dp_i p) q = Inr (False, r)" "here p r" "dp_calls r = dp_calls q"
proof -
  from assms(1) obtain kids where k: "within p kids" "setNode_loop (dp_crop p) (drop (dp_i p) kids) (dp_i p) = (dp_i p, dp_node p)"
    by (auto simp: settled_iff)
  have i: "within (q\<lparr>dp_i := dp_i p\<rparr>) kids" using k(1) assms(2) by (simp add: within_def frame_def)
  have "setNode (q\<lparr>dp_i := dp_i p\<rparr>) = Inr (q\<lparr>dp_i := dp_i p, dp_node := dp_node p\<rparr>)"
    using setNode_within [OF i] k(2) assms(2) by (simp add: frame_def)
  then show ?thesis using that assms(2) by (simp add: Parser_backtrack_def here_def frame_def)
qed

text \<open>The attributes change neither the position nor the calls.\<close>

definition attr_frame :: "('v, 'r, 'o) dtd_parser \<Rightarrow> ('v, 'r, 'o) dtd_parser \<Rightarrow> bool" where
  "attr_frame p q \<longleftrightarrow> here p q \<and> dp_calls q = dp_calls p \<and> dp_map q = dp_map p \<and> dp_patches q = dp_patches p"

lemma attr_frame_trans: "attr_frame p q \<Longrightarrow> attr_frame q r \<Longrightarrow> attr_frame p r"
  by (simp add: attr_frame_def here_def frame_def)

lemma upd_attr_frame: "attr_frame p (upd_attr a f p)"
  by (simp add: attr_frame_def here_def frame_def upd_attr_def)

lemma upd_attr_frame': "attr_frame p q \<Longrightarrow> attr_frame p (upd_attr a f q)"
  using upd_attr_frame attr_frame_trans by blast

lemma attr_process_frame:
  "case attr_process cl a v p of Inl e \<Rightarrow> \<exists>m. e = Exception m
     | Inr (b, q) \<Rightarrow> attr_frame p q \<and> (b \<longrightarrow> (case at_kind a of Value_attribute _ \<Rightarrow> cl_ok cl v | _ \<Rightarrow> True))"
  by (auto simp: attr_process_def ID_process_def Ref_process_def Let_def upd_attr_def attr_frame_def here_def frame_def split: akind.splits option.splits)

lemma attr_parse_frame:
  "case attr_parse cl a avs p of Inl e \<Rightarrow> \<exists>m. e = Exception m | Inr (b, q) \<Rightarrow> attr_frame p q \<and> (b \<longrightarrow> attr_ok (cl_ok cl) avs a)"
proof (cases "map_of avs (at_name a)")
  case None
  then show ?thesis by (simp add: attr_parse_def attr_ok_def attr_reset_def upd_attr_frame)
next
  case (Some v)
  let ?p = "upd_attr a (\<lambda>s. s\<lparr>as_set := True\<rparr>) p"
  show ?thesis using attr_process_frame [where cl = cl and a = a and v = v and p = ?p] Some attr_frame_trans [OF upd_attr_frame [of p a "\<lambda>s. s\<lparr>as_set := True\<rparr>"]]
    by (auto simp: attr_parse_def attr_ok_def split: sum.splits)
qed

lemma attrs_loop_frame:
  "case attrs_loop cl al avs p of Inl e \<Rightarrow> \<exists>m. e = Exception m
     | Inr (b, q) \<Rightarrow> attr_frame p q \<and> (b \<longrightarrow> list_all (attr_ok (cl_ok cl) avs) al)"
proof (induction al arbitrary: p)
  case Nil
  then show ?case by (simp add: attr_frame_def)
next
  case (Cons a al)
  have err: "attr_frame p q \<Longrightarrow> attr_frame p (recordError q)" for q by (simp add: attr_frame_def here_def frame_def recordError_def)
  show ?case
  proof (cases "attr_parse cl a avs p")
    case (Inl e)
    then show ?thesis using attr_parse_frame [where cl = cl and a = a and avs = avs and p = p] by simp
  next
    case (Inr r)
    obtain b q where r: "r = (b, q)" by (cases r)
    then have q: "attr_frame p q" "b \<longrightarrow> attr_ok (cl_ok cl) avs a" using attr_parse_frame [where cl = cl and a = a and avs = avs and p = p] Inr by auto
    then show ?thesis using Inr r Cons [of q] err attr_frame_trans [OF q(1)] by (auto split: sum.splits)
  qed
qed

lemma nested_others: "list_all (\<lambda>c. \<forall>e. c \<noteq> Begin e \<and> c \<noteq> End e \<and> c \<noteq> Backtracked e) cs \<Longrightarrow> nested cs"
proof (induction cs)
  case (Cons c cs)
  then show ?case using nested.append [OF nested.other [of c], of cs] by simp
qed (rule nested.nil)

definition side_calls :: "('v, 'r, 'o) dtd_parser \<Rightarrow> ('v, 'r, 'o) dtd_parser \<Rightarrow> bool" where
  "side_calls p q \<longleftrightarrow> here p q \<and> (\<exists>cs. dp_calls q = dp_calls p @ cs \<and> list_all (\<lambda>c. \<forall>e. c \<noteq> Begin e \<and> c \<noteq> End e \<and> c \<noteq> Backtracked e) cs)"

lemma side_calls_trans: "side_calls p q \<Longrightarrow> side_calls q r \<Longrightarrow> side_calls p r"
  by (fastforce simp: side_calls_def here_def frame_def)

lemma side_calls_patches: "side_calls p q \<Longrightarrow> side_calls p (fold (\<lambda>(a, ob). call (Patch i a ob r)) bs q)"
  by (induction bs arbitrary: q) (auto simp: side_calls_def here_def frame_def call_def)

lemma postprocess_side: "side_calls p (postprocess cl a p)"
proof -
  have id: "side_calls p (recordID cl i e p)" for i e
  proof -
    let ?r = "cl_ref cl (dp_calls p) e"
    have "side_calls p ((call (GetRef i e ?r) p)\<lparr>dp_map := (dp_map p)(i \<mapsto> ?r)\<rparr>)"
      by (simp add: side_calls_def here_def frame_def call_def)
    then have "side_calls p (fold (\<lambda>(a, ob). call (Patch i a ob ?r)) bs ((call (GetRef i e ?r) p)\<lparr>dp_map := (dp_map p)(i \<mapsto> ?r)\<rparr>))" for bs
      by (rule side_calls_patches)
    moreover have "side_calls p q \<Longrightarrow> side_calls p (q\<lparr>dp_patches := ps\<rparr>)" for q ps by (simp add: side_calls_def here_def frame_def)
    ultimately show ?thesis using \<open>side_calls p ((call (GetRef i e ?r) p)\<lparr>dp_map := (dp_map p)(i \<mapsto> ?r)\<rparr>)\<close>
      by (simp add: recordID_def Let_def call_def split: option.splits)
  qed
  have "side_calls p (recordPatch cl i e p)" for i e
    by (simp add: recordPatch_def Let_def side_calls_def here_def frame_def call_def)
  moreover have "side_calls p p" by (simp add: side_calls_def)
  ultimately show ?thesis using id by (simp add: postprocess_def Let_def split: akind.splits)
qed

lemma postprocess_fold_side: "side_calls p (fold (postprocess cl) as p)"
proof (induction "as" arbitrary: p)
  case Nil
  then show ?case by (simp add: side_calls_def)
next
  case (Cons a as)
  show ?case using side_calls_trans [OF postprocess_side Cons.IH [of "postprocess cl a p"]] by simp
qed

lemma Parser_begin_correct:
  assumes "dp_node p = Some n"
  obtains q cs where "Parser_begin cl e p = Inr q" "settled q" "remain q = crop_nodes (dp_crop p) (xml_children n)"
    "dp_stack q = (dp_i p, dp_elt p, dp_node p) # dp_stack p" "dp_crop q = dp_crop p" "dp_elt q = e"
    "dp_calls q = dp_calls p @ Begin e # cs" "nested cs"
proof -
  let ?c = "call (Begin e) p"
  let ?f = "fold (postprocess cl) (dp_posts ?c) ?c"
  have s: "side_calls ?c ?f" by (rule postprocess_fold_side)
  then obtain cs where cs: "dp_calls ?f = dp_calls p @ Begin e # cs" "nested cs"
    by (auto simp: side_calls_def call_def nested_others)
  have h: "dp_i ?f = dp_i p" "dp_elt ?f = dp_elt p" "dp_node ?f = dp_node p" "dp_stack ?f = dp_stack p" "dp_crop ?f = dp_crop p"
    using s by (simp_all add: side_calls_def here_def frame_def call_def)
  let ?b = "?f\<lparr>dp_posts := [], dp_error := dp_node p, dp_stack := (dp_i p, dp_elt p, dp_node p) # dp_stack p, dp_i := 0, dp_elt := e\<rparr>"
  have i: "within ?b (xml_children n)" using assms by (simp add: within_def)
  obtain q where q: "setNode ?b = Inr q" "settled q" "remain q = remain ?b" "frame ?b q" "dp_calls q = dp_calls ?b"
    using setNode_settles [OF i] by blast
  have "Parser_begin cl e p = Inr q" using q(1) h by (simp add: Parser_begin_def Let_def)
  moreover have "remain q = crop_nodes (dp_crop p) (xml_children n)" using q(3) remain_within [OF i] h by simp
  moreover have "dp_stack q = (dp_i p, dp_elt p, dp_node p) # dp_stack p" "dp_crop q = dp_crop p" "dp_elt q = e"
    using q(4) h by (simp_all add: frame_def)
  ultimately show ?thesis using that q(2,5) cs by simp
qed

text \<open>The result of the parsing of a content: what it must be.\<close>

definition sound :: "('v, 'r, 'o) client \<Rightarrow> 'v dtd_content \<Rightarrow> ('v, 'r, 'o) dtd_parser \<Rightarrow> (bool \<times> ('v, 'r, 'o) dtd_parser) res \<Rightarrow> bool" where
  "sound cl c p r \<longleftrightarrow>
     (case r of Inl e \<Rightarrow> \<exists>m. e = Exception m
        | Inr (b, q) \<Rightarrow> nested_calls p q \<and>
            (if b then frame p q \<and> settled q \<and>
               (\<exists>u. remain p = u @ remain q \<and> valid (cl_ok cl) (dp_crop p) c u \<and> (consumes c \<and> remain p \<noteq> [] \<longrightarrow> u \<noteq> []))
             else here p q))"

text \<open>Leaving an element: back to its position, or to the next one.\<close>

definition leaves :: "('v, 'r, 'o) dtd_parser \<Rightarrow> bool \<Rightarrow> (bool \<times> ('v, 'r, 'o) dtd_parser) res \<Rightarrow> bool" where
  "leaves p v r \<longleftrightarrow> (\<exists>m. r = Inl (Exception m)) \<or> (\<exists>q. r = Inr (False, q) \<and> here p q \<and> nested_calls p q) \<or>
     (v \<and> (\<exists>q. r = bind_res (Parser_next q) (\<lambda>p. Inr (True, p)) \<and> here p q \<and> nested_calls p q))"

lemma here_trans: "here p q \<Longrightarrow> here q r \<Longrightarrow> here p r"
  by (simp add: here_def frame_def)

lemma leaves_here: "leaves q v r \<Longrightarrow> here p q \<Longrightarrow> nested_calls p q \<Longrightarrow> leaves p v r"
  unfolding leaves_def using here_trans nested_calls_trans by blast

lemma sound_settled: "sound cl c s (Inr (b, t)) \<Longrightarrow> settled s \<Longrightarrow> nested_calls s t \<and> frame s t \<and> settled t"
proof (cases b)
  case True
  assume "sound cl c s (Inr (b, t))"
  then show ?thesis using True unfolding sound_def by simp
next
  case False
  assume "sound cl c s (Inr (b, t))" "settled s"
  then have "nested_calls s t" "here s t" "settled s" using False by (simp_all add: sound_def)
  then show ?thesis using settled_here by (metis here_def)
qed

lemma Element_leave_correct:
  assumes s: "settled s" "dp_stack s = (dp_i q, dp_elt q, dp_node q) # dp_stack q" "dp_crop s = dp_crop q" "dp_elt s = e"
      "dp_calls s = dp_calls q @ Begin e # cs" "nested cs"
    and snd: "sound cl c s r"
  shows "leaves q (valid (cl_ok cl) (dp_crop q) c (remain s)) (bind_res r Element_leave)"
proof (cases r)
  case (Inl m)
  then show ?thesis using snd by (auto simp: sound_def leaves_def)
next
  case (Inr bt)
  obtain b t where bt: "r = Inr (b, t)" using Inr by (cases bt) auto
  have t: "nested_calls s t" "frame s t" "settled t" using snd s(1) bt sound_settled by blast+
  obtain z b3 where z: "(if Parser_ended t then (b, t) else (False, recordError t)) = (b3, z)" by fastforce
  have zt: "dp_stack z = dp_stack t \<and> dp_elt z = dp_elt t \<and> dp_crop z = dp_crop t \<and> dp_calls z = dp_calls t"
    using z by (auto simp: recordError_def split: if_splits)
  have st: "dp_stack z = (dp_i q, dp_elt q, dp_node q) # dp_stack q" "dp_elt z = e" "dp_crop z = dp_crop q" "dp_calls z = dp_calls t"
    using zt t(2) s(2-4) unfolding frame_def by metis+
  let ?z = "z\<lparr>dp_i := dp_i q, dp_elt := dp_elt q, dp_node := dp_node q, dp_stack := dp_stack q\<rparr>"
  have h: "here q (call x ?z)" for x using st(3) by (simp add: here_def frame_def call_def)
  obtain ds where ds: "dp_calls t = dp_calls s @ ds" "nested ds" using t(1) by (auto simp: nested_calls_def)
  have c: "dp_calls (call x ?z) = dp_calls q @ (Begin e # (cs @ ds) @ [x])" for x using st(4) ds(1) s(5) by (simp add: call_def)
  have nest: "nested (cs @ ds)" using s(6) ds(2) by (rule nested.append)
  have nc: "nested_calls q (call (Backtracked e) ?z)" "nested_calls q (call (End e) ?z)"
    unfolding nested_calls_def c using nested.abandoned [OF nest, of e] nested.finished [OF nest, of e] by blast+
  have eq: "bind_res r Element_leave = bind_res (Parser_end b3 z) (\<lambda>p. Inr (b3, p))" using bt z by (simp add: Element_leave_def)
  show ?thesis
  proof (cases b3)
    case False
    then have "bind_res r Element_leave = Inr (False, call (Backtracked e) ?z)" using eq st(1,2) by (simp add: Parser_end_def)
    then show ?thesis using h nc(1) by (auto simp: leaves_def)
  next
    case True
    then have "b" "Parser_ended t" using z by (auto split: if_splits)
    then have "valid (cl_ok cl) (dp_crop q) c (remain s)" using snd bt ended_remain [OF t(3)] s(3) by (auto simp: sound_def)
    moreover have "bind_res r Element_leave = bind_res (Parser_next (call (End e) ?z)) (\<lambda>p. Inr (True, p))"
      using eq True st(1,2) by (simp add: Parser_end_def)
    ultimately show ?thesis using h nc(2) by (auto simp: leaves_def)
  qed
qed

lemma Element_parse_correct:
  assumes f: "\<And>q. settled q \<Longrightarrow> dp_crop q = dp_crop p \<Longrightarrow> (\<forall>n. dp_node p = Some n \<longrightarrow> nodes (remain q) < xsize n) \<Longrightarrow> sound cl c q (f q)"
  shows "leaves p (\<exists>n. dp_node p = Some n \<and> valid (cl_ok cl) (dp_crop p) (DElement e nm as c) [n]) (Element_parse cl e nm as f p)"
proof (cases "\<exists>avs kids. dp_node p = Some (XElement nm avs kids)")
  case False
  then show ?thesis by (auto simp: Element_parse_def leaves_def split: option.splits xnode.splits)
next
  case True
  then obtain avs kids where n: "dp_node p = Some (XElement nm avs kids)" by blast
  note a = attrs_loop_frame [where cl = cl and al = "as" and avs = avs and p = p]
  show ?thesis
  proof (cases "attrs_loop cl as avs p")
    case (Inl m)
    then show ?thesis using n a by (auto simp: Element_parse_def leaves_def)
  next
    case (Inr r)
    obtain b q where r: "r = (b, q)" by (cases r)
    then have q: "attr_frame p q" "b \<longrightarrow> list_all (attr_ok (cl_ok cl) avs) as" using a Inr by auto
    then have hq: "here p q" "nested_calls p q" by (auto simp: attr_frame_def nested_calls_def nested.nil)
    show ?thesis
    proof (cases b)
      case False
      then show ?thesis using n Inr r hq by (auto simp: Element_parse_def leaves_def)
    next
      case True
      have nq: "dp_node q = Some (XElement nm avs kids)" "dp_crop q = dp_crop p" using hq(1) n by (simp_all add: here_def frame_def)
      obtain s cs where s: "Parser_begin cl e q = Inr s" "settled s" "remain s = crop_nodes (dp_crop p) kids"
          "dp_stack s = (dp_i q, dp_elt q, dp_node q) # dp_stack q" "dp_crop s = dp_crop q" "dp_elt s = e"
          "dp_calls s = dp_calls q @ Begin e # cs" "nested cs"
        using Parser_begin_correct [OF nq(1), of cl e] nq(2) by auto
      have "nodes (remain s) < Suc (nodes kids)" using nodes_crop [of "dp_crop p" kids] s(3) by simp
      then have "sound cl c s (f s)" using f [OF s(2)] s(5) nq(2) n nodes_kids by auto
      from Element_leave_correct [OF s(2,4-8) this]
      have l: "leaves p (valid (cl_ok cl) (dp_crop p) c (crop_nodes (dp_crop p) kids)) (Element_parse cl e nm as f p)"
        using n Inr r True s(1,3) nq(2) leaves_here [OF _ hq] by (simp add: Element_parse_def)
      have "valid (cl_ok cl) (dp_crop p) (DElement e nm as c) [XElement nm avs kids]"
        if "valid (cl_ok cl) (dp_crop p) c (crop_nodes (dp_crop p) kids)"
        by (rule valid.element) (use q(2) True that in simp_all)
      then show ?thesis using l n by (auto simp: leaves_def)
    qed
  qed
qed

lemma soundI_fail: "here p q \<Longrightarrow> nested_calls p q \<Longrightarrow> sound cl c p (Inr (False, q))"
  by (simp add: sound_def)

lemma soundI_ok:
  assumes "frame p q" "settled q" "nested_calls p q" "remain p = u @ remain q" "valid (cl_ok cl) (dp_crop p) c u" "consumes c \<Longrightarrow> remain p \<noteq> [] \<Longrightarrow> u \<noteq> []"
  shows "sound cl c p (Inr (True, q))"
proof -
  have "\<exists>u. remain p = u @ remain q \<and> valid (cl_ok cl) (dp_crop p) c u \<and> (consumes c \<and> remain p \<noteq> [] \<longrightarrow> u \<noteq> [])"
    using assms(4-6) by blast
  then show ?thesis using assms(1-3) unfolding sound_def by simp
qed

lemma soundE:
  assumes "sound cl c p r"
  obtains m where "r = Inl (Exception m)"
    | q where "r = Inr (False, q)" "here p q" "nested_calls p q"
    | q u where "r = Inr (True, q)" "frame p q" "settled q" "nested_calls p q" "remain p = u @ remain q" "valid (cl_ok cl) (dp_crop p) c u"
        "consumes c \<Longrightarrow> remain p \<noteq> [] \<Longrightarrow> u \<noteq> []"
proof (cases r)
  case (Inl e)
  then show thesis using assms that(1) by (auto simp: sound_def)
next
  case (Inr bq)
  obtain b q where bq: "r = Inr (b, q)" using Inr by (cases bq) auto
  show thesis
  proof (cases b)
    case True
    then have "frame p q \<and> settled q \<and> nested_calls p q \<and>
        (\<exists>u. remain p = u @ remain q \<and> valid (cl_ok cl) (dp_crop p) c u \<and> (consumes c \<and> remain p \<noteq> [] \<longrightarrow> u \<noteq> []))"
      using assms bq unfolding sound_def by simp
    then show thesis using that(3) bq True by blast
  next
    case False
    then have "here p q \<and> nested_calls p q" using assms bq unfolding sound_def by simp
    then show thesis using that(2) bq False by blast
  qed
qed

lemma here_frame: "here p q \<Longrightarrow> frame p q"
  by (simp add: here_def)

lemma frame_crop: "frame p q \<Longrightarrow> dp_crop q = dp_crop p"
  by (simp add: frame_def)

lemma sound_here:
  assumes s: "sound cl c q r" and h: "here p q" "nested_calls p q" "settled p"
  shows "sound cl c p r"
  using s
proof (cases rule: soundE)
  case 1
  then show ?thesis by (auto simp: sound_def)
next
  case (2 s)
  then show ?thesis using soundI_fail here_trans nested_calls_trans h by blast
next
  case (3 s u)
  have "remain p = remain q" using settled_here [OF h(3,1)] by simp
  then show ?thesis
    using 3 frame_trans [OF here_frame [OF h(1)]] frame_crop [OF here_frame [OF h(1)]] nested_calls_trans [OF h(2)] by (auto intro!: soundI_ok)
qed

lemma sound_Element:
  assumes "\<And>q. settled q \<Longrightarrow> dp_crop q = dp_crop p \<Longrightarrow> nodes (remain q) < F \<Longrightarrow> sound cl c q (f q)"
    and p: "settled p" "nodes (remain p) < F"
  shows "sound cl (DElement e nm as c) p (Element_parse cl e nm as f p)"
proof -
  have "nodes (remain q) < F" if "\<forall>n. dp_node p = Some n \<longrightarrow> nodes (remain q) < xsize n" "dp_node p \<noteq> None" for q
    using that p node_remain [OF p(1)] by (cases "remain p") auto
  moreover have "sound cl (DElement e nm as c) p (Element_parse cl e nm as f p)" if "dp_node p = None"
    using that by (auto simp: Element_parse_def intro: soundI_fail)
  ultimately consider "sound cl (DElement e nm as c) p (Element_parse cl e nm as f p)"
    | "leaves p (\<exists>n. dp_node p = Some n \<and> valid (cl_ok cl) (dp_crop p) (DElement e nm as c) [n]) (Element_parse cl e nm as f p)"
    using Element_parse_correct [of p cl c f e nm "as"] assms(1) by blast
  then show ?thesis
  proof cases
    case 2
    then consider m where "Element_parse cl e nm as f p = Inl (Exception m)"
      | q where "Element_parse cl e nm as f p = Inr (False, q)" "here p q" "nested_calls p q"
      | q n where "Element_parse cl e nm as f p = bind_res (Parser_next q) (\<lambda>p. Inr (True, p))" "here p q" "nested_calls p q"
          "dp_node p = Some n" "valid (cl_ok cl) (dp_crop p) (DElement e nm as c) [n]"
      unfolding leaves_def by blast
    then show ?thesis
    proof cases
      case 1
      then show ?thesis by (simp add: sound_def)
    next
      case 2
      then show ?thesis by (simp add: soundI_fail)
    next
      case 3
      obtain w where w: "remain p = n # w" using node_remain [OF p(1)] 3(4) by (cases "remain p") auto
      have q: "settled q" "remain q = n # w" using settled_here [OF p(1) 3(2)] w by auto
      obtain r where r: "Parser_next q = Inr r" "settled r" "remain r = w" "frame q r" "dp_calls r = dp_calls q"
        using Parser_next_correct [OF q] by blast
      have "nested_calls p r" using 3(3) r(5) by (simp add: nested_calls_def)
      moreover have "frame p r" using frame_trans [OF here_frame [OF 3(2)] r(4)] .
      moreover have "remain p = [n] @ remain r" using w r(3) by simp
      ultimately have "sound cl (DElement e nm as c) p (Inr (True, r))" using r(2) 3(5) by (intro soundI_ok) auto
      then show ?thesis using 3(1) r(1) by simp
    qed
  qed
qed

lemma repeat_loop_true: "repeat_loop f k p = Inr (b, q) \<Longrightarrow> b"
proof (induction k arbitrary: p)
  case (Suc k)
  then show ?case by (auto simp: bind_res_eq_Inr split: if_splits)
qed simp

lemma sound_repeat_more:
  assumes p: "settled p" "frame p q" "settled q" "nested_calls p q" "remain p = u @ remain q" "valid (cl_ok cl) (dp_crop p) c u"
    and s: "sound cl (DRepeat c) q r" "\<And>b q. r = Inr (b, q) \<Longrightarrow> b"
  shows "sound cl (DRepeat c) p r"
  using s(1)
proof (cases rule: soundE)
  case 1
  then show ?thesis by (simp add: sound_def)
next
  case (2 t)
  then show ?thesis using s(2) by blast
next
  case (3 t v)
  have "valid (cl_ok cl) (dp_crop p) (DRepeat c) v" using 3(6) frame_crop [OF p(2)] by simp
  then have "valid (cl_ok cl) (dp_crop p) (DRepeat c) (u @ v)" by (rule valid.repeat_more [OF p(6)])
  moreover have "remain p = (u @ v) @ remain t" using p(5) 3(5) by simp
  ultimately have "sound cl (DRepeat c) p (Inr (True, t))"
    using frame_trans [OF p(2) 3(2)] nested_calls_trans [OF p(4) 3(4)] 3(3) by (intro soundI_ok [where u = "u @ v"]) auto
  then show ?thesis using 3(1) by simp
qed

lemma sound_repeat:
  assumes f: "\<And>q. settled q \<Longrightarrow> nodes (remain q) < F \<Longrightarrow> sound cl c q (f q)" and c: "consumes c"
  shows "settled p \<Longrightarrow> nodes (remain p) < F \<Longrightarrow> length (remain p) < k \<Longrightarrow> sound cl (DRepeat c) p (repeat_loop f k p)"
proof (induction k arbitrary: p)
  case (Suc k)
  show ?case
  proof (cases "Parser_ended p")
    case True
    then show ?thesis using Suc.prems(1) by (auto intro!: soundI_ok valid.repeat_none)
  next
    case False
    then have ne: "remain p \<noteq> []" using ended_remain Suc.prems(1) by blast
    from f [OF Suc.prems(1,2)] show ?thesis
    proof (cases rule: soundE)
      case (1 m)
      then show ?thesis using False by (simp add: sound_def)
    next
      case (2 q)
      have "settled q" "remain q = remain p" using settled_here [OF Suc.prems(1) 2(2)] by auto
      then have "sound cl (DRepeat c) p (Inr (True, q))" using 2(2,3) here_frame by (intro soundI_ok [where u = "[]"] valid.repeat_none) auto
      then show ?thesis using False 2(1) by simp
    next
      case (3 q u)
      have "u \<noteq> []" using 3(7) c ne by blast
      then have "length (remain q) < k" using Suc.prems(3) unfolding 3(5) by (cases u) simp_all
      moreover have "nodes (remain q) < F" using Suc.prems(2) unfolding 3(5) by simp
      ultimately have "sound cl (DRepeat c) q (repeat_loop f k q)" using Suc.IH 3(3) by simp
      then have "sound cl (DRepeat c) p (repeat_loop f k q)"
        using sound_repeat_more [OF Suc.prems(1) 3(2-6)] repeat_loop_true by blast
      then show ?thesis using False 3(1) by simp
    qed
  qed
qed simp

lemma sound_skip:
  assumes g: "\<And>n q. here q (g n q) \<and> nested_calls q (g n q)" and c: "\<And>u. valid (cl_ok cl) (dp_crop p) c u"
    and s: "frame p q" "nested_calls p q" "remain p = u @ remain q"
  shows "settled q \<Longrightarrow> length (remain q) < k \<Longrightarrow> sound cl c p (any_loop g k q)"
  using s
proof (induction k arbitrary: q u)
  case (Suc k)
  show ?case
  proof (cases "dp_node q")
    case None
    then have "remain q = []" using node_remain [OF Suc.prems(1)] by (cases "remain q") auto
    then have "sound cl c p (Inr (True, q))" using Suc.prems c by (intro soundI_ok [where u = u]) auto
    then show ?thesis using None by simp
  next
    case (Some n)
    then obtain w where w: "remain q = n # w" using node_remain [OF Suc.prems(1)] by (cases "remain q") auto
    have h: "settled (g n q)" "remain (g n q) = n # w" using settled_here [OF Suc.prems(1)] g w by metis+
    obtain t where t: "Parser_next (g n q) = Inr t" "settled t" "remain t = w" "frame (g n q) t" "dp_calls t = dp_calls (g n q)"
      using Parser_next_correct [OF h] by blast
    have "frame p t" using Suc.prems(3) g [of q n] t(4) frame_trans here_frame by blast
    moreover have "nested_calls p t" using nested_calls_trans [OF Suc.prems(4)] g [of q n] t(5) by (simp add: nested_calls_def)
    moreover have "remain p = (u @ [n]) @ remain t" using Suc.prems(5) w t(3) by simp
    moreover have "length (remain t) < k" using Suc.prems(2) w t(3) by simp
    ultimately have "sound cl c p (any_loop g k t)" using Suc.IH t(2) by blast
    then show ?thesis using Some t(1) by simp
  qed
qed simp

lemma sound_empty:
  assumes p: "settled p" and s: "frame p q" "nested_calls p q" "remain p = u @ remain q" "list_all blank_text u"
  shows "settled q \<Longrightarrow> length (remain q) < k \<Longrightarrow> sound cl EMPTY p (empty_loop k (dp_i p) q)"
  using s
proof (induction k arbitrary: q u)
  case (Suc k)
  show ?case
  proof (cases "remain q")
    case Nil
    then have "sound cl EMPTY p (Inr (True, q))" using Suc.prems by (intro soundI_ok [where u = u] valid.empty) auto
    then show ?thesis using Nil ended_remain [OF Suc.prems(1)] by simp
  next
    case (Cons n w)
    have e: "\<not> Parser_ended q" "Parser_isEmpty q = Inr (blank_text n)"
      using Cons ended_remain [OF Suc.prems(1)] node_remain [OF Suc.prems(1)] by (simp_all add: Parser_isEmpty_def)
    show ?thesis
    proof (cases "blank_text n")
      case False
      obtain r where r: "Parser_backtrack (dp_i p) q = Inr (False, r)" "here p r" "dp_calls r = dp_calls q"
        using Parser_backtrack_correct [OF p Suc.prems(3)] by blast
      then have "sound cl EMPTY p (Inr (False, r))" using Suc.prems(4) by (intro soundI_fail) (simp_all add: nested_calls_def)
      then show ?thesis using e False r(1) by simp
    next
      case True
      obtain t where t: "Parser_next q = Inr t" "settled t" "remain t = w" "frame q t" "dp_calls t = dp_calls q"
        using Parser_next_correct [OF Suc.prems(1) Cons] by blast
      have "nested_calls p t" using Suc.prems(4) t(5) by (simp add: nested_calls_def)
      moreover have "remain p = (u @ [n]) @ remain t" "list_all blank_text (u @ [n])" using Suc.prems(5,6) Cons t(3) True by simp_all
      moreover have "length (remain t) < k" using Suc.prems(2) Cons t(3) by simp
      ultimately have "sound cl EMPTY p (empty_loop k (dp_i p) t)" using Suc.IH t(2) frame_trans [OF Suc.prems(3) t(4)] by blast
      then show ?thesis using e True t(1) by simp
    qed
  qed
qed simp

lemma sound_Seq:
  assumes f: "\<And>q. settled q \<Longrightarrow> nodes (remain q) < F \<Longrightarrow> sound cl c1 q (f q)" and g: "\<And>q. settled q \<Longrightarrow> nodes (remain q) < F \<Longrightarrow> sound cl c2 q (g q)"
    and p: "settled p" "nodes (remain p) < F" "\<not> Parser_ended p"
  shows "sound cl (DSeq c1 c2) p (bind_res (f p) (\<lambda>(b, q).
    if \<not> b then Parser_backtrack (dp_i p) q
    else bind_res (g q) (\<lambda>(b, r). if \<not> b then Parser_backtrack (dp_i p) r else Inr (True, r))))"
proof -
  have bk: "\<exists>r. Parser_backtrack (dp_i p) q = Inr (False, r) \<and> sound cl (DSeq c1 c2) p (Inr (False, r))" if "frame p q" "nested_calls p q" for q
  proof -
    obtain r where "Parser_backtrack (dp_i p) q = Inr (False, r)" "here p r" "dp_calls r = dp_calls q"
      using Parser_backtrack_correct [OF p(1) \<open>frame p q\<close>] by blast
    then show ?thesis using \<open>nested_calls p q\<close> by (auto intro!: soundI_fail simp: nested_calls_def)
  qed
  from f [OF p(1,2)] show ?thesis
  proof (cases rule: soundE)
    case (1 m)
    then show ?thesis by (simp add: sound_def)
  next
    case (2 q)
    then show ?thesis using bk [OF here_frame [OF 2(2)] 2(3)] by auto
  next
    case q: (3 q u)
    have "nodes (remain q) < F" using p(2) unfolding q(5) by simp
    from g [OF q(3) this] show ?thesis
    proof (cases rule: soundE)
      case (1 m)
      then show ?thesis using q(1) by (simp add: sound_def)
    next
      case (2 r)
      then show ?thesis using bk [of r] q(1) frame_trans [OF q(2) here_frame] nested_calls_trans [OF q(4)] by auto
    next
      case (3 r v)
      have "valid (cl_ok cl) (dp_crop p) c2 v" using 3(6) frame_crop [OF q(2)] by simp
      then have "valid (cl_ok cl) (dp_crop p) (DSeq c1 c2) (u @ v)" by (rule valid.seq [OF q(6)])
      moreover have "u @ v \<noteq> []" if "consumes c1 \<or> consumes c2" "remain p \<noteq> []" using that q(5,7) 3(7) by (cases "u = []") auto
      moreover have "remain p = (u @ v) @ remain r" using q(5) 3(5) by simp
      ultimately have "sound cl (DSeq c1 c2) p (Inr (True, r))"
        using frame_trans [OF q(2) 3(2)] nested_calls_trans [OF q(4) 3(4)] 3(3) by (intro soundI_ok [where u = "u @ v"]) auto
      then show ?thesis using q(1) 3(1) by simp
    qed
  qed
qed

lemma sound_Alt:
  assumes f: "sound cl c1 p r" and g: "\<And>q. settled q \<Longrightarrow> remain q = remain p \<Longrightarrow> sound cl c2 q (g q)" and p: "settled p"
  shows "sound cl (DAlt c1 c2) p (bind_res r (\<lambda>(b, p). if b then Inr (True, p) else g p))"
  using f
proof (cases rule: soundE)
  case (1 m)
  then show ?thesis by (simp add: sound_def)
next
  case (2 q)
  have q: "settled q" "remain q = remain p" using settled_here [OF p 2(2)] by auto
  from sound_here [OF g [OF q] 2(2,3) p] have "sound cl (DAlt c1 c2) p (g q)"
  proof (cases rule: soundE)
    case (1 m)
    then show ?thesis by (simp add: sound_def)
  next
    case (2 s)
    then show ?thesis by (simp add: soundI_fail)
  next
    case (3 s u)
    then have "sound cl (DAlt c1 c2) p (Inr (True, s))" by (intro soundI_ok valid.alt_right) auto
    then show ?thesis using 3(1) by simp
  qed
  then show ?thesis using 2(1) by simp
next
  case (3 q u)
  then have "sound cl (DAlt c1 c2) p (Inr (True, q))" by (intro soundI_ok valid.alt_left) auto
  then show ?thesis using 3(1) by simp
qed

lemma sound_Optional:
  assumes f: "sound cl c p r" and p: "settled p"
  shows "sound cl (DOptional c) p (bind_res r (\<lambda>(_, p). Inr (True, p)))"
  using f
proof (cases rule: soundE)
  case (1 m)
  then show ?thesis by (simp add: sound_def)
next
  case (2 q)
  have "settled q" "remain q = remain p" using settled_here [OF p 2(2)] by auto
  then have "sound cl (DOptional c) p (Inr (True, q))" using 2(2,3) here_frame by (intro soundI_ok [where u = "[]"] valid.optional_none) auto
  then show ?thesis using 2(1) by simp
next
  case (3 q u)
  then have "sound cl (DOptional c) p (Inr (True, q))" by (intro soundI_ok valid.optional_some) auto
  then show ?thesis using 3(1) by simp
qed

lemma sound_PCDATA: "settled p \<Longrightarrow> sound cl PCDATA p (PCDATA_parse p)"
proof -
  assume p: "settled p"
  have nc: "here p (call (GetPCDATA t) p) \<and> nested_calls p (call (GetPCDATA t) p)" for t
    using nested.other [of "GetPCDATA t"] by (simp add: here_def frame_def call_def nested_calls_def)
  show ?thesis
  proof (cases "remain p")
    case Nil
    then have "sound cl PCDATA p (Inr (True, call (GetPCDATA []) p))"
      using nc [of "[]"] settled_here [OF p, of "call (GetPCDATA []) p"] here_frame [of p "call (GetPCDATA []) p"]
      by (intro soundI_ok [where u = "[]"] valid.pcdata_none) auto
    then show ?thesis using Nil node_remain [OF p] by (simp add: PCDATA_parse_def)
  next
    case (Cons n w)
    show ?thesis
    proof (cases "\<exists>t. n = XText t")
      case False
      then have "PCDATA_parse p = Inr (False, p)" using Cons node_remain [OF p] by (simp add: PCDATA_parse_def split: xnode.split)
      then show ?thesis by (simp add: soundI_fail)
    next
      case True
      then obtain t where t: "n = XText t" by blast
      let ?q = "call (GetPCDATA t) p"
      have q: "settled ?q" "remain ?q = n # w" using settled_here [OF p] nc Cons by metis+
      obtain r where r: "Parser_next ?q = Inr r" "settled r" "remain r = w" "frame ?q r" "dp_calls r = dp_calls ?q"
        using Parser_next_correct [OF q] by blast
      have "nested_calls p r" using nc [of t] r(5) by (simp add: nested_calls_def)
      then have "sound cl PCDATA p (Inr (True, r))"
        using frame_trans [OF here_frame r(4)] nc r(2,3) Cons t by (intro soundI_ok [where u = "[XText t]"] valid.pcdata) auto
      then show ?thesis using Cons node_remain [OF p] t r(1) by (simp add: PCDATA_parse_def)
    qed
  qed
qed

text \<open>The parser accepts only valid contents, stays in the current element, and needs no more turns than there are nodes.\<close>

lemma parse_content_sound:
  "productive c \<Longrightarrow> settled p \<Longrightarrow> nodes (remain p) < F \<Longrightarrow> sound cl c p (parse_content cl F c p)"
proof (induction c arbitrary: p)
  case (DElement e nm al c)
  show ?case using DElement.IH DElement.prems unfolding parse_content.simps by (intro sound_Element) auto
next
  case (DOptional c)
  show ?case
  proof (cases "Parser_ended p")
    case True
    then show ?thesis using DOptional.prems(2) by (auto intro!: soundI_ok valid.optional_none)
  next
    case False
    then show ?thesis using sound_Optional [OF DOptional.IH] DOptional.prems by simp
  qed
next
  case (DAlt c1 c2)
  then show ?case using sound_Alt [of cl c1 p "parse_content cl F c1 p" c2 "parse_content cl F c2"] by simp
next
  case (DSeq c1 c2)
  show ?case
  proof (cases "Parser_ended p")
    case True
    then show ?thesis by (simp add: soundI_fail)
  next
    case False
    then show ?thesis using sound_Seq [of F cl c1 "parse_content cl F c1" c2 "parse_content cl F c2" p] DSeq by (simp add: Let_def)
  qed
next
  case (DRepeat c)
  have "length (remain p) < F" using length_nodes [of "remain p"] DRepeat.prems(3) by simp
  then show ?case using sound_repeat [of F cl c "parse_content cl F c" p F] DRepeat by simp
next
  case PCDATA
  then show ?case by (simp add: sound_PCDATA)
next
  case ANY
  have "length (remain p) < F" using length_nodes [of "remain p"] ANY.prems(3) by simp
  moreover have "here q (call (GetAny n) q) \<and> nested_calls q (call (GetAny n) q)" for n and q :: "('a, 'b, 'c) dtd_parser"
    using nested.other [of "GetAny n"] by (simp add: here_def frame_def call_def nested_calls_def)
  ultimately show ?case using sound_skip [of "\<lambda>n. call (GetAny n)" cl p ANY p "[]" F] ANY.prems(2) by (simp add: valid.any)
next
  case EMPTY
  have "length (remain p) < F" using length_nodes [of "remain p"] EMPTY.prems(3) by simp
  then show ?case using sound_empty [of p p "[]" F cl] EMPTY.prems(2) by simp
next
  case Ignored
  have "length (remain p) < F" using length_nodes [of "remain p"] Ignored.prems(3) by simp
  then show ?case using sound_skip [of "\<lambda>_ p. p" cl p Ignored p "[]" F] Ignored.prems(2) by (simp add: valid.ignored)
qed


section \<open>Deterministic DTD\<close>

text \<open>
  The names that a content begins with, and those that may continue it. In a deterministic DTD the
  next name is enough to choose, and a sequence is never empty; texts and free contents are alone in their
  element, and no attribute is an identifier or a reference.
\<close>

primrec nullable :: "'v dtd_content \<Rightarrow> bool" where
  "nullable (DElement e nm as c) = False"
| "nullable (DOptional c) = True"
| "nullable (DAlt c1 c2) = (nullable c1 \<or> nullable c2)"
| "nullable (DSeq c1 c2) = (nullable c1 \<and> nullable c2)"
| "nullable (DRepeat c) = True"
| "nullable PCDATA = True"
| "nullable ANY = True"
| "nullable EMPTY = True"
| "nullable Ignored = True"

primrec first :: "'v dtd_content \<Rightarrow> string set" where
  "first (DElement e nm as c) = {nm}"
| "first (DOptional c) = first c"
| "first (DAlt c1 c2) = first c1 \<union> first c2"
| "first (DSeq c1 c2) = first c1 \<union> (if nullable c1 then first c2 else {})"
| "first (DRepeat c) = first c"
| "first PCDATA = {}"
| "first ANY = {}"
| "first EMPTY = {}"
| "first Ignored = {}"

primrec continues :: "'v dtd_content \<Rightarrow> string set" where
  "continues (DElement e nm as c) = {}"
| "continues (DOptional c) = first c \<union> continues c"
| "continues (DAlt c1 c2) = continues c1 \<union> continues c2 \<union> (if nullable c2 then first c1 else {})"
| "continues (DSeq c1 c2) = continues c2 \<union> (if nullable c2 then continues c1 else {})"
| "continues (DRepeat c) = first c \<union> continues c"
| "continues PCDATA = {}"
| "continues ANY = {}"
| "continues EMPTY = {}"
| "continues Ignored = {}"

definition plain_attr :: "'v attribute \<Rightarrow> bool" where
  "plain_attr a = (case at_kind a of ID_attribute \<Rightarrow> False | Ref_attribute \<Rightarrow> False | _ \<Rightarrow> True)"

primrec alone :: "'v dtd_content \<Rightarrow> bool" where
  "alone (DElement e nm as c) = False"
| "alone (DOptional c) = False"
| "alone (DAlt c1 c2) = False"
| "alone (DSeq c1 c2) = False"
| "alone (DRepeat c) = False"
| "alone PCDATA = True"
| "alone ANY = True"
| "alone EMPTY = True"
| "alone Ignored = True"

primrec deterministic :: "'v dtd_content \<Rightarrow> bool" where
  "deterministic (DElement e nm as c) = (list_all plain_attr as \<and> (alone c \<or> deterministic c))"
| "deterministic (DOptional c) = deterministic c"
| "deterministic (DAlt c1 c2) = (deterministic c1 \<and> deterministic c2 \<and> first c1 \<inter> first c2 = {} \<and> \<not> nullable c1)"
| "deterministic (DSeq c1 c2) = (deterministic c1 \<and> deterministic c2 \<and> continues c1 \<inter> first c2 = {} \<and> \<not> (nullable c1 \<and> nullable c2))"
| "deterministic (DRepeat c) = (deterministic c \<and> \<not> nullable c \<and> continues c \<inter> first c = {})"
| "deterministic PCDATA = False"
| "deterministic ANY = False"
| "deterministic EMPTY = False"
| "deterministic Ignored = False"

fun stops :: "string set \<Rightarrow> xnode list \<Rightarrow> bool" where
  "stops S (XElement nm avs kids # w) = (nm \<notin> S)"
| "stops S w = True"

lemma stops_mono: "S \<subseteq> T \<Longrightarrow> stops T w \<Longrightarrow> stops S w"
  by (induction S w rule: stops.induct) auto

lemma deterministic_consumes: "deterministic c \<Longrightarrow> \<not> nullable c \<Longrightarrow> consumes c"
  by (induction c) auto

lemma alone_productive: "alone c \<Longrightarrow> productive c"
  by (cases c) auto

lemma deterministic_productive: "deterministic c \<Longrightarrow> productive c"
  by (induction c) (auto simp: alone_productive deterministic_consumes)

lemma valid_nullable: "valid ok crop c u \<Longrightarrow> u = [] \<Longrightarrow> nullable c"
  by (induction rule: valid.induct) auto

lemma valid_first: "valid ok crop c u \<Longrightarrow> deterministic c \<Longrightarrow> u \<noteq> [] \<Longrightarrow> \<exists>nm avs kids w. u = XElement nm avs kids # w \<and> nm \<in> first c"
proof (induction rule: valid.induct)
  case (seq c1 u c2 v)
  then show ?case using valid_nullable [OF seq.hyps(1)] by (cases "u = []") auto
next
  case (repeat_more c u v)
  then show ?case by (cases "u = []") auto
qed auto

text \<open>A content whose first names are not the next one takes nothing.\<close>

lemma attrs_loop_plain:
  "list_all plain_attr al \<Longrightarrow> \<exists>q. attrs_loop cl al avs p = Inr (list_all (attr_ok (cl_ok cl) avs) al, q) \<and> attr_frame p q"
proof (induction al arbitrary: p)
  case Nil
  then show ?case by (simp add: attr_frame_def)
next
  case (Cons a al)
  obtain q where q: "attr_parse cl a avs p = Inr (attr_ok (cl_ok cl) avs a, q)"
    using Cons.prems by (cases "at_kind a"; cases "map_of avs (at_name a)") (auto simp: attr_parse_def attr_ok_def attr_process_def plain_attr_def)
  then have f: "attr_frame p q" using attr_parse_frame [where cl = cl and a = a and avs = avs and p = p] by simp
  show ?case
  proof (cases "attr_ok (cl_ok cl) avs a")
    case True
    then show ?thesis using q Cons.IH [of q] Cons.prems attr_frame_trans [OF f] by fastforce
  next
    case False
    have "attr_frame p (recordError q)" using f by (simp add: attr_frame_def here_def frame_def recordError_def)
    then show ?thesis using q False by simp
  qed
qed

lemma takes_nothing:
  "deterministic c \<Longrightarrow> settled p \<Longrightarrow> stops (first c) (remain p) \<Longrightarrow> 0 < F \<Longrightarrow> \<exists>q. parse_content cl F c p = Inr (nullable c, q) \<and> here p q"
proof (induction c arbitrary: p)
  case (DElement e nm al c)
  then show ?case using node_remain [OF DElement.prems(2)]
    by (cases "remain p") (auto simp: Element_parse_def split: xnode.split)
next
  case (DOptional c)
  then obtain q where "parse_content cl F c p = Inr (nullable c, q)" "here p q" by auto
  then show ?case by simp
next
  case (DAlt c1 c2)
  then have s: "stops (first c1) (remain p)" "stops (first c2) (remain p)" using stops_mono [OF _ DAlt.prems(3)] by simp_all
  then obtain q where q: "parse_content cl F c1 p = Inr (False, q)" "here p q" using DAlt.IH(1) [OF _ DAlt.prems(2) s(1)] DAlt.prems by auto
  then obtain r where "parse_content cl F c2 q = Inr (nullable c2, r)" "here q r"
    using DAlt.IH(2) [of q] DAlt.prems settled_here [OF DAlt.prems(2) q(2)] s(2) by auto
  then show ?case using q here_trans DAlt.prems(1) by auto
next
  case (DSeq c1 c2)
  have s: "stops (first c1) (remain p)" using stops_mono [OF _ DSeq.prems(3)] by simp
  then obtain q where q: "parse_content cl F c1 p = Inr (nullable c1, q)" "here p q" using DSeq.IH(1) [OF _ DSeq.prems(2) s] DSeq.prems by auto
  have bk: "\<exists>t. Parser_backtrack (dp_i p) r = Inr (False, t) \<and> here p t" if "here p r" for r
    using Parser_backtrack_correct [OF DSeq.prems(2) here_frame [OF that]] by metis
  show ?case
  proof (cases "nullable c1")
    case True
    then have "stops (first c2) (remain p)" "\<not> nullable c2" using stops_mono [OF _ DSeq.prems(3)] DSeq.prems(1) by simp_all
    then obtain r where "parse_content cl F c2 q = Inr (False, r)" "here q r"
      using DSeq.IH(2) [of q] DSeq.prems settled_here [OF DSeq.prems(2) q(2)] by auto
    then show ?thesis using q bk [of r] here_trans True \<open>\<not> nullable c2\<close> by (auto simp: Let_def)
  next
    case False
    then show ?thesis using q bk [of q] by (auto simp: Let_def)
  qed
next
  case (DRepeat c)
  then obtain q where "parse_content cl F c p = Inr (False, q)" "here p q" by auto
  moreover obtain k where "F = Suc k" using DRepeat.prems(4) by (cases F) auto
  ultimately show ?case by auto
qed simp_all

text \<open>A valid content is accepted, and what follows it remains.\<close>

lemma skip_complete:
  assumes g: "\<And>n q. here q (g n q)"
  shows "settled q \<Longrightarrow> length (remain q) < k \<Longrightarrow> \<exists>r. any_loop g k q = Inr (True, r) \<and> remain r = []"
proof (induction k arbitrary: q)
  case (Suc k)
  show ?case
  proof (cases "remain q")
    case Nil
    then show ?thesis using node_remain [OF Suc.prems(1)] by simp
  next
    case (Cons n w)
    have h: "settled (g n q)" "remain (g n q) = n # w" using settled_here [OF Suc.prems(1) g] Cons by auto
    obtain t where t: "Parser_next (g n q) = Inr t" "settled t" "remain t = w" using Parser_next_correct [OF h] by blast
    then show ?thesis using Suc.IH [OF t(2)] Suc.prems(2) Cons node_remain [OF Suc.prems(1)] by simp
  qed
qed simp

lemma empty_complete:
  "settled q \<Longrightarrow> length (remain q) < k \<Longrightarrow> list_all blank_text (remain q) \<Longrightarrow> \<exists>r. empty_loop k m q = Inr (True, r) \<and> remain r = []"
proof (induction k arbitrary: q)
  case (Suc k)
  show ?case
  proof (cases "remain q")
    case Nil
    then show ?thesis using ended_remain [OF Suc.prems(1)] by simp
  next
    case (Cons n w)
    obtain t where t: "Parser_next q = Inr t" "settled t" "remain t = w" using Parser_next_correct [OF Suc.prems(1) Cons] by blast
    moreover have "\<not> Parser_ended q" "Parser_isEmpty q = Inr True"
      using Cons ended_remain [OF Suc.prems(1)] node_remain [OF Suc.prems(1)] Suc.prems(3) by (simp_all add: Parser_isEmpty_def)
    ultimately show ?thesis using Suc.IH [OF t(2)] Suc.prems(2,3) Cons by simp
  qed
qed simp

lemma complete_alone:
  assumes c: "alone c" and p: "settled p" "nodes (remain p) < F" and v: "valid ok crop c (remain p)"
  shows "\<exists>q. parse_content cl F c p = Inr (True, q) \<and> remain q = []"
proof -
  have l: "length (remain p) < F" using length_nodes [of "remain p"] p(2) by simp
  show ?thesis
  proof (cases c)
    case PCDATA
    consider "remain p = []" | t where "remain p = [XText t]" using v [unfolded PCDATA] by (rule valid_pcdataE) auto
    then show ?thesis
    proof cases
      case 1
      have "remain (call (GetPCDATA []) p) = remain p" by (simp add: call_def remain_def)
      then show ?thesis using PCDATA 1 node_remain [OF p(1)] by (simp add: PCDATA_parse_def)
    next
      case (2 t)
      let ?q = "call (GetPCDATA t) p"
      have "here p ?q" by (simp add: here_def frame_def call_def)
      then have "settled ?q" "remain ?q = [XText t]" using settled_here [OF p(1)] 2 by auto
      then obtain r where "Parser_next ?q = Inr r" "remain r = []" using Parser_next_correct by blast
      then show ?thesis using PCDATA 2 node_remain [OF p(1)] by (simp add: PCDATA_parse_def)
    qed
  next
    case ANY
    have "\<exists>r. any_loop (\<lambda>n. call (GetAny n)) F p = Inr (True, r) \<and> remain r = []"
      by (rule skip_complete [OF _ p(1) l]) (simp add: here_def frame_def call_def)
    then show ?thesis using ANY by simp
  next
    case EMPTY
    then show ?thesis using v empty_complete [OF p(1) l] by (auto elim: valid_emptyE)
  next
    case Ignored
    then show ?thesis using skip_complete [of "\<lambda>_ p. p" p F] p(1) l by simp
  qed (use c in simp_all)
qed

lemma accepted_frame:
  assumes "deterministic c \<or> alone c" "settled p" "nodes (remain p) < F" "parse_content cl F c p = Inr (True, q)"
  shows "frame p q \<and> settled q"
proof -
  have "productive c" using assms(1) deterministic_productive alone_productive by blast
  then have "sound cl c p (Inr (True, q))" using parse_content_sound [of c p F cl] assms by simp
  then show ?thesis using sound_settled assms(2) by blast
qed

lemma Element_complete:
  assumes f: "\<And>s. settled s \<Longrightarrow> dp_crop s = dp_crop p \<Longrightarrow> remain s = crop_nodes (dp_crop p) kids \<Longrightarrow>
      \<exists>t. f s = Inr (True, t) \<and> frame s t \<and> settled t \<and> remain t = []"
    and a: "list_all plain_attr al" "list_all (attr_ok (cl_ok cl) avs) al" and n: "dp_node p = Some (XElement nm avs kids)"
  shows "\<exists>q. Element_parse cl e nm al f p = bind_res (Parser_next q) (\<lambda>p. Inr (True, p)) \<and> here p q"
proof -
  obtain q where q: "attrs_loop cl al avs p = Inr (True, q)" "here p q"
    using attrs_loop_plain [OF a(1), of cl avs p] a(2) by (auto simp: attr_frame_def)
  have nq: "dp_node q = Some (XElement nm avs kids)" "dp_crop q = dp_crop p" using q(2) n by (simp_all add: here_def frame_def)
  obtain s cs where s: "Parser_begin cl e q = Inr s" "settled s" "remain s = crop_nodes (dp_crop p) kids"
      "dp_stack s = (dp_i q, dp_elt q, dp_node q) # dp_stack q" "dp_crop s = dp_crop q"
    using Parser_begin_correct [OF nq(1), of cl e] nq(2) by auto
  obtain t where t: "f s = Inr (True, t)" "frame s t" "settled t" "remain t = []" using f [OF s(2) _ s(3)] s(5) nq(2) by auto
  have ended: "Parser_ended t" using ended_remain [OF t(3)] t(4) by simp
  have st: "dp_stack t = (dp_i q, dp_elt q, dp_node q) # dp_stack q" "dp_crop t = dp_crop q" using t(2) s(4,5) by (simp_all add: frame_def)
  let ?z = "call (End (dp_elt t)) (t\<lparr>dp_i := dp_i q, dp_elt := dp_elt q, dp_node := dp_node q, dp_stack := dp_stack q\<rparr>)"
  have "Element_leave (True, t) = bind_res (Parser_next ?z) (\<lambda>p. Inr (True, p))" using ended st(1) by (simp add: Element_leave_def Parser_end_def)
  then have "Element_parse cl e nm al f p = bind_res (Parser_next ?z) (\<lambda>p. Inr (True, p))"
    using n q(1) s(1) t(1) by (simp add: Element_parse_def)
  moreover have "here q ?z" using st(2) by (simp add: here_def frame_def call_def)
  ultimately show ?thesis using here_trans [OF q(2)] by blast
qed

lemma stops_Un [simp]: "stops (S \<union> T) w \<longleftrightarrow> stops S w \<and> stops T w"
  by (induction S w rule: stops.induct) auto

lemma repeat_complete:
  assumes f: "\<And>q u v. settled q \<Longrightarrow> dp_crop q = crop \<Longrightarrow> remain q = u @ v \<Longrightarrow> nodes (remain q) < F \<Longrightarrow> valid (cl_ok cl) crop c u \<Longrightarrow> stops (continues c) v \<Longrightarrow>
      \<exists>r. parse_content cl F c q = Inr (True, r) \<and> remain r = v"
    and c: "deterministic (DRepeat c)" and F: "0 < F"
  shows "settled p \<Longrightarrow> dp_crop p = crop \<Longrightarrow> remain p = u @ v \<Longrightarrow> nodes (remain p) < F \<Longrightarrow> valid (cl_ok cl) crop (DRepeat c) u \<Longrightarrow>
    stops (first c \<union> continues c) v \<Longrightarrow> length u < k \<Longrightarrow> \<exists>r. repeat_loop (parse_content cl F c) k p = Inr (True, r) \<and> remain r = v"
proof (induction k arbitrary: p u)
  case (Suc k)
  show ?case
  proof (cases "remain p")
    case Nil
    then show ?thesis using ended_remain [OF Suc.prems(1)] Suc.prems(3) by simp
  next
    case (Cons n w)
    then have ne: "\<not> Parser_ended p" using ended_remain [OF Suc.prems(1)] by simp
    consider "u = []" | u1 u2 where "u = u1 @ u2" "u1 \<noteq> []" "valid (cl_ok cl) crop c u1" "valid (cl_ok cl) crop (DRepeat c) u2"
    proof -
      have "valid (cl_ok cl) crop d u \<Longrightarrow> d = DRepeat c \<Longrightarrow> u = [] \<or>
          (\<exists>u1 u2. u = u1 @ u2 \<and> u1 \<noteq> [] \<and> valid (cl_ok cl) crop c u1 \<and> valid (cl_ok cl) crop (DRepeat c) u2)" for d u
      proof (induction rule: valid.induct)
        case (repeat_more d' u1 u2)
        then show ?case by (cases "u1 = []") auto
      qed auto
      then show thesis using that Suc.prems(5) by blast
    qed
    then show ?thesis
    proof cases
      case 1
      then have "stops (first c) (remain p)" using Suc.prems(3,6) by auto
      then obtain q where q: "parse_content cl F c p = Inr (False, q)" "here p q"
        using takes_nothing [OF _ Suc.prems(1), of c F cl] c F by auto
      then have "remain q = v" using settled_here [OF Suc.prems(1)] Suc.prems(3) 1 by simp
      then show ?thesis using ne q(1) by simp
    next
      case 2
      have "stops (continues c) (u2 @ v)"
      proof (cases "u2 = []")
        case True
        then show ?thesis using Suc.prems(6) by auto
      next
        case False
        then obtain nm avs kids w where "u2 = XElement nm avs kids # w" "nm \<in> first c" using valid_first [OF 2(4) c False] by auto
        then show ?thesis using c by auto
      qed
      then obtain q where q: "parse_content cl F c p = Inr (True, q)" "remain q = u2 @ v"
        using f [OF Suc.prems(1,2) _ Suc.prems(4) 2(3), of "u2 @ v"] Suc.prems(3) 2(1) by auto
      have fr: "frame p q" "settled q" using accepted_frame [OF _ Suc.prems(1,4) q(1)] c by auto
      have "nodes (remain q) < F" "length u2 < k" using Suc.prems(3,4,7) 2(1,2) q(2) by (simp, cases u1, simp_all)
      then have "\<exists>r. repeat_loop (parse_content cl F c) k q = Inr (True, r) \<and> remain r = v"
        using Suc.IH [OF fr(2) _ q(2) _ 2(4) Suc.prems(6)] frame_crop [OF fr(1)] Suc.prems(2) by simp
      then show ?thesis using ne q(1) by simp
    qed
  qed
qed simp

lemma seq_complete:
  assumes f: "\<And>v. remain p = u1 @ v \<Longrightarrow> stops (continues c1) v \<Longrightarrow> \<exists>r. parse_content cl F c1 p = Inr (True, r) \<and> remain r = v"
    and g: "\<And>q. settled q \<Longrightarrow> dp_crop q = dp_crop p \<Longrightarrow> remain q = u2 @ v \<Longrightarrow> \<exists>r. parse_content cl F c2 q = Inr (True, r) \<and> remain r = v"
    and p: "settled p" "nodes (remain p) < F" "remain p = u1 @ u2 @ v"
    and c: "deterministic (DSeq c1 c2)" "valid ok crop c1 u1" "valid ok crop c2 u2" "stops (continues (DSeq c1 c2)) v"
  shows "\<exists>r. parse_content cl F (DSeq c1 c2) p = Inr (True, r) \<and> remain r = v"
proof -
  have "stops (continues c1) (u2 @ v)"
  proof (cases "u2 = []")
    case True
    then show ?thesis using valid_nullable [OF c(3)] c(4) by auto
  next
    case False
    then obtain nm avs kids w where "u2 = XElement nm avs kids # w" "nm \<in> first c2" using valid_first [OF c(3)] c(1) by auto
    then show ?thesis using c(1) by auto
  qed
  then obtain q where q: "parse_content cl F c1 p = Inr (True, q)" "remain q = u2 @ v" using f p(3) by blast
  have fr: "frame p q" "settled q" using accepted_frame [OF _ p(1,2) q(1)] c(1) by auto
  obtain r where r: "parse_content cl F c2 q = Inr (True, r)" "remain r = v" using g [OF fr(2) frame_crop [OF fr(1)] q(2)] by blast
  have "u1 @ u2 \<noteq> []" using valid_nullable [OF c(2)] valid_nullable [OF c(3)] c(1) by auto
  then have "\<not> Parser_ended p" using ended_remain [OF p(1)] p(3) by auto
  then show ?thesis using q(1) r by (simp add: Let_def)
qed

lemma parse_content_complete:
  "deterministic c \<Longrightarrow> settled p \<Longrightarrow> dp_crop p = crop \<Longrightarrow> remain p = u @ v \<Longrightarrow> nodes (remain p) < F \<Longrightarrow> valid (cl_ok cl) crop c u \<Longrightarrow> stops (continues c) v \<Longrightarrow>
   \<exists>q. parse_content cl F c p = Inr (True, q) \<and> remain q = v"
proof (induction c arbitrary: p u v)
  case (DElement e nm al c)
  from DElement.prems(6) obtain avs kids where u: "u = [XElement nm avs kids]" "list_all (attr_ok (cl_ok cl) avs) al" "valid (cl_ok cl) crop c (crop_nodes crop kids)"
    by (rule valid_elementE) blast
  have n: "dp_node p = Some (XElement nm avs kids)" using node_remain [OF DElement.prems(2)] DElement.prems(4) u(1) by simp
  have k: "nodes (crop_nodes crop kids) < F" using nodes_crop [of crop kids] DElement.prems(4,5) u(1) nodes_kids [of nm avs kids] by simp
  have content: "\<exists>t. parse_content cl F c s = Inr (True, t) \<and> frame s t \<and> settled t \<and> remain t = []"
    if s: "settled s" "dp_crop s = dp_crop p" "remain s = crop_nodes (dp_crop p) kids" for s
  proof -
    have "nodes (remain s) < F" using k s(3) DElement.prems(3) by simp
    moreover have "\<exists>t. parse_content cl F c s = Inr (True, t) \<and> remain t = []"
    proof (cases "alone c")
      case True
      then show ?thesis using complete_alone [OF True s(1)] k s(3) u(3) DElement.prems(3) by simp
    next
      case False
      then show ?thesis using DElement.IH [of s "crop_nodes crop kids" "[]"] DElement.prems(1,3) s k u(3) by simp
    qed
    moreover have "deterministic c \<or> alone c" using DElement.prems(1) by auto
    ultimately show ?thesis using accepted_frame [OF _ s(1)] by blast
  qed
  have pl: "list_all plain_attr al" using DElement.prems(1) by simp
  have "\<exists>q. Element_parse cl e nm al (parse_content cl F c) p = bind_res (Parser_next q) (\<lambda>p. Inr (True, p)) \<and> here p q"
    by (rule Element_complete [OF content pl u(2) n])
  then obtain q where q: "parse_content cl F (DElement e nm al c) p = bind_res (Parser_next q) (\<lambda>p. Inr (True, p))" "here p q"
    unfolding parse_content.simps by blast
  have "settled q" "remain q = XElement nm avs kids # v" using settled_here [OF DElement.prems(2) q(2)] DElement.prems(4) u(1) by auto
  then obtain r where "Parser_next q = Inr r" "remain r = v" using Parser_next_correct by blast
  then show ?case using q(1) by simp
next
  case (DOptional c)
  have stop: "stops (first c) v" "stops (continues c) v" using DOptional.prems(7) by simp_all
  show ?case
  proof (cases "Parser_ended p")
    case True
    then show ?thesis using ended_remain [OF DOptional.prems(2)] DOptional.prems(4) by auto
  next
    case ne: False
    from DOptional.prems(6) consider "u = []" | "valid (cl_ok cl) crop c u" by (rule valid_optionalE)
    then show ?thesis
    proof cases
      case 1
      then obtain q where q: "parse_content cl F c p = Inr (nullable c, q)" "here p q"
        using takes_nothing [OF _ DOptional.prems(2), of c F cl] DOptional.prems(1,4,5) stop(1) by auto
      then have "remain q = v" using settled_here [OF DOptional.prems(2)] DOptional.prems(4) 1 by simp
      then show ?thesis using ne q(1) by simp
    next
      case 2
      then show ?thesis using DOptional.IH [of p u v] DOptional.prems stop(2) ne by auto
    qed
  qed
next
  case (DAlt c1 c2)
  have stop: "stops (continues c1) v" "stops (continues c2) v" using DAlt.prems(7) by simp_all
  from DAlt.prems(6) consider "valid (cl_ok cl) crop c1 u" | "valid (cl_ok cl) crop c2 u" by (rule valid_altE)
  then show ?case
  proof cases
    case 1
    then show ?thesis using DAlt.IH(1) [of p u v] DAlt.prems stop(1) by auto
  next
    case 2
    have "stops (first c1) (remain p)"
    proof (cases "u = []")
      case True
      then show ?thesis using valid_nullable [OF 2] DAlt.prems(4,7) by auto
    next
      case False
      then obtain nm avs kids w where "u = XElement nm avs kids # w" "nm \<in> first c2" using valid_first [OF 2] DAlt.prems(1) by auto
      then show ?thesis using DAlt.prems(1,4) by auto
    qed
    then obtain q where q: "parse_content cl F c1 p = Inr (False, q)" "here p q"
      using takes_nothing [OF _ DAlt.prems(2), of c1 F cl] DAlt.prems(1,5) by auto
    have "settled q" "remain q = u @ v" "dp_crop q = crop" using settled_here [OF DAlt.prems(2) q(2)] DAlt.prems(3,4) q(2)
      by (auto simp: here_def frame_def)
    then show ?thesis using DAlt.IH(2) [of q u v] DAlt.prems 2 stop(2) q(1) by auto
  qed
next
  case (DSeq c1 c2)
  from DSeq.prems(6) obtain u1 u2 where u: "u = u1 @ u2" "valid (cl_ok cl) crop c1 u1" "valid (cl_ok cl) crop c2 u2" by (rule valid_seqE) blast
  have n: "nodes (u2 @ v) < F" using DSeq.prems(4,5) u(1) by simp
  have s2: "stops (continues c2) v" using DSeq.prems(7) by simp
  show ?case
  proof (rule seq_complete [of p u1 c1 cl F u2 v c2])
    show "\<exists>r. parse_content cl F c1 p = Inr (True, r) \<and> remain r = w" if "remain p = u1 @ w" "stops (continues c1) w" for w
      using DSeq.IH(1) [OF _ DSeq.prems(2,3) that(1) DSeq.prems(5) u(2) that(2)] DSeq.prems(1) by simp
    show "\<exists>r. parse_content cl F c2 q = Inr (True, r) \<and> remain r = v" if "settled q" "dp_crop q = dp_crop p" "remain q = u2 @ v" for q
      using DSeq.IH(2) [OF _ that(1) _ that(3) _ u(3) s2] that(2,3) n DSeq.prems(1,3) by simp
  qed (use DSeq.prems u in auto)
next
  case (DRepeat c)
  have "length u < F" using length_nodes [of "remain p"] DRepeat.prems(4,5) by simp
  then show ?case using repeat_complete [of crop F cl c p u v F] DRepeat by auto
qed simp_all


section \<open>Invariants of the parser\<close>

text \<open>
  What the parts of the parser do to its state: they move it, they call the factory, they parse
  attributes, and they finish the attributes that wait for the beginning of their element. What these four keep the
  parser keeps.
\<close>

definition side_call :: "('r, 'o) factory_call \<Rightarrow> bool" where
  "side_call c = (case c of Patch i a ob r \<Rightarrow> False | GetPatchRef i a ob \<Rightarrow> False | GetRef i e r \<Rightarrow> False | _ \<Rightarrow> True)"

primrec all_attrs :: "('v attribute \<Rightarrow> bool) \<Rightarrow> 'v dtd_content \<Rightarrow> bool" where
  "all_attrs P (DElement e nm as c) = (list_all P as \<and> all_attrs P c)"
| "all_attrs P (DOptional c) = all_attrs P c"
| "all_attrs P (DAlt c1 c2) = (all_attrs P c1 \<and> all_attrs P c2)"
| "all_attrs P (DSeq c1 c2) = (all_attrs P c1 \<and> all_attrs P c2)"
| "all_attrs P (DRepeat c) = all_attrs P c"
| "all_attrs P PCDATA = True"
| "all_attrs P ANY = True"
| "all_attrs P EMPTY = True"
| "all_attrs P Ignored = True"

definition keeps :: "('p \<Rightarrow> bool) \<Rightarrow> 'p \<Rightarrow> 'p \<Rightarrow> bool" where
  "keeps I p q \<longleftrightarrow> (I p \<longrightarrow> I q)"

lemma keeps_trans: "keeps I p q \<Longrightarrow> keeps I q r \<Longrightarrow> keeps I p r"
  by (simp add: keeps_def)

lemma keeps_refl [simp]: "keeps I p p"
  by (simp add: keeps_def)

locale dtd_invariant =
  fixes cl :: "('v, 'r, 'o) client" and good :: "'v attribute \<Rightarrow> bool" and I :: "('v, 'r, 'o) dtd_parser \<Rightarrow> bool"
  assumes moves: "I p \<Longrightarrow> I (p\<lparr>dp_i := i, dp_elt := e, dp_node := n, dp_stack := st, dp_error := x\<rparr>)"
    and calls: "I p \<Longrightarrow> side_call c \<Longrightarrow> I (call c p)"
    and attrs: "good a \<Longrightarrow> I p \<Longrightarrow> attr_parse cl a avs p = Inr (b, q) \<Longrightarrow> I q"
    and posts: "I p \<Longrightarrow> I ((fold (postprocess cl) (dp_posts p) p)\<lparr>dp_posts := []\<rparr>)"
begin

lemma moves_keeps: "keeps I p (p\<lparr>dp_i := i\<rparr>)" "keeps I p (p\<lparr>dp_i := i, dp_elt := e, dp_node := n, dp_stack := st\<rparr>)"
    "keeps I p (p\<lparr>dp_error := x, dp_stack := st, dp_i := i, dp_elt := e\<rparr>)" "keeps I p (recordError p)" "keeps I p (p\<lparr>dp_i := i, dp_node := n\<rparr>)"
proof -
  note m = moves [where p = p]
  show "keeps I p (p\<lparr>dp_i := i\<rparr>)" using m [where i = i and e = "dp_elt p" and n = "dp_node p" and st = "dp_stack p" and x = "dp_error p"]
    by (simp add: keeps_def)
  show "keeps I p (p\<lparr>dp_i := i, dp_elt := e, dp_node := n, dp_stack := st\<rparr>)" using m [where i = i and e = e and n = n and st = st and x = "dp_error p"]
    by (simp add: keeps_def)
  show "keeps I p (p\<lparr>dp_error := x, dp_stack := st, dp_i := i, dp_elt := e\<rparr>)" using m [where i = i and e = e and n = "dp_node p" and st = st and x = x]
    by (cases p) (simp add: keeps_def)
  show "keeps I p (recordError p)" using m [where i = "dp_i p" and e = "dp_elt p" and n = "dp_node p" and st = "dp_stack p" and x = "dp_node p"]
    by (simp add: keeps_def recordError_def)
  show "keeps I p (p\<lparr>dp_i := i, dp_node := n\<rparr>)" using m [where i = i and e = "dp_elt p" and n = n and st = "dp_stack p" and x = "dp_error p"]
    by (simp add: keeps_def)
qed

lemma setNode_keeps: "setNode p = Inr q \<Longrightarrow> keeps I p q"
proof -
  assume "setNode p = Inr q"
  then have "q = p\<lparr>dp_i := dp_i q, dp_node := dp_node q\<rparr>" by (auto simp: setNode_def split: list.splits prod.splits option.splits)
  then show ?thesis using moves_keeps(5) by metis
qed

lemma call_keeps: "side_call c \<Longrightarrow> keeps I p (call c p)"
  by (simp add: keeps_def calls)

lemma Parser_next_keeps: "Parser_next p = Inr q \<Longrightarrow> keeps I p q"
  unfolding Parser_next_def using keeps_trans [OF moves_keeps(1) setNode_keeps] by blast

lemma Parser_backtrack_keeps: "Parser_backtrack m p = Inr (b, q) \<Longrightarrow> keeps I p q"
  using keeps_trans [OF moves_keeps(1) setNode_keeps] by (auto simp: Parser_backtrack_def bind_res_eq_Inr)

lemma Parser_begin_keeps:
  assumes "Parser_begin cl e p = Inr q"
  shows "keeps I p q"
proof -
  let ?c = "call (Begin e) p"
  let ?p = "(fold (postprocess cl) (dp_posts ?c) ?c)\<lparr>dp_posts := []\<rparr>"
  have "keeps I p ?c" by (rule call_keeps) (simp add: side_call_def)
  moreover have "keeps I ?c ?p" using posts by (simp add: keeps_def)
  moreover have "keeps I ?p (?p\<lparr>dp_error := dp_node ?p, dp_stack := (dp_i ?p, dp_elt ?p, dp_node ?p) # dp_stack ?p, dp_i := 0, dp_elt := e\<rparr>)"
    by (rule moves_keeps(3))
  moreover have "keeps I (?p\<lparr>dp_error := dp_node ?p, dp_stack := (dp_i ?p, dp_elt ?p, dp_node ?p) # dp_stack ?p, dp_i := 0, dp_elt := e\<rparr>) q"
    by (rule setNode_keeps) (use assms in \<open>simp only: Parser_begin_def Let_def\<close>)
  ultimately show ?thesis by (meson keeps_trans)
qed

lemma Parser_end_keeps:
  assumes "Parser_end b p = Inr q"
  shows "keeps I p q"
proof -
  obtain i e n st where s: "dp_stack p = (i, e, n) # st" using assms by (cases "dp_stack p") (auto simp: Parser_end_def)
  let ?p = "p\<lparr>dp_i := i, dp_elt := e, dp_node := n, dp_stack := st\<rparr>"
  have "keeps I ?p (call (End (dp_elt p)) ?p)" "keeps I ?p (call (Backtracked (dp_elt p)) ?p)" by (simp_all add: call_keeps side_call_def)
  moreover have "if b then Parser_next (call (End (dp_elt p)) ?p) = Inr q else q = call (Backtracked (dp_elt p)) ?p"
    using assms s by (simp add: Parser_end_def Let_def split: if_splits)
  ultimately have "keeps I ?p q" using keeps_trans [of I ?p "call (End (dp_elt p)) ?p" q] Parser_next_keeps [of "call (End (dp_elt p)) ?p" q]
    by (cases b) simp_all
  then show ?thesis using keeps_trans [OF moves_keeps(2)] by blast
qed

lemma Element_leave_keeps: "Element_leave (b, p) = Inr (b', q) \<Longrightarrow> keeps I p q"
  using keeps_trans [OF moves_keeps(4) Parser_end_keeps] Parser_end_keeps by (auto simp: Element_leave_def bind_res_eq_Inr split: if_splits)

lemma attrs_loop_keeps: "list_all good al \<Longrightarrow> attrs_loop cl al avs p = Inr (b, q) \<Longrightarrow> keeps I p q"
proof (induction al arbitrary: p)
  case (Cons a al)
  then obtain c r where r: "attr_parse cl a avs p = Inr (c, r)" "(if c then attrs_loop cl al avs r else Inr (False, recordError r)) = Inr (b, q)"
    by (auto simp: bind_res_eq_Inr)
  have "keeps I p r" using attrs Cons.prems(1) r(1) by (auto simp: keeps_def)
  moreover have "keeps I r q"
  proof (cases c)
    case True
    then show ?thesis using r(2) Cons.IH [of r] Cons.prems(1) by simp
  next
    case False
    then have "q = recordError r" using r(2) by simp
    then show ?thesis using moves_keeps(4) by simp
  qed
  ultimately show ?case by (rule keeps_trans)
qed simp

lemma Element_parse_keeps:
  assumes f: "\<And>p b q. f p = Inr (b, q) \<Longrightarrow> keeps I p q" and a: "list_all good al"
    and e: "Element_parse cl e nm al f p = Inr (b, q)"
  shows "keeps I p q"
proof (cases "\<exists>avs kids. dp_node p = Some (XElement nm avs kids)")
  case False
  then show ?thesis using e by (auto simp: Element_parse_def split: option.splits xnode.splits if_splits)
next
  case True
  then obtain avs kids where n: "dp_node p = Some (XElement nm avs kids)" by blast
  from e n obtain c r where r: "attrs_loop cl al avs p = Inr (c, r)"
    "(if \<not> c then Inr (False, r) else bind_res (Parser_begin cl e r) (\<lambda>p. bind_res (f p) Element_leave)) = Inr (b, q)"
    by (auto simp: Element_parse_def bind_res_eq_Inr)
  have pr: "keeps I p r" using attrs_loop_keeps [OF a r(1)] .
  show ?thesis
  proof (cases c)
    case False
    then show ?thesis using r(2) pr by simp
  next
    case True
    then obtain s d t where s: "Parser_begin cl e r = Inr s" "f s = Inr (d, t)" "Element_leave (d, t) = Inr (b, q)"
      using r(2) by (auto simp: bind_res_eq_Inr)
    then show ?thesis using keeps_trans [OF pr keeps_trans [OF Parser_begin_keeps [OF s(1)] keeps_trans [OF f [OF s(2)] Element_leave_keeps [OF s(3)]]]] by blast
  qed
qed

lemma repeat_loop_keeps:
  assumes "\<And>p b q. f p = Inr (b, q) \<Longrightarrow> keeps I p q"
  shows "repeat_loop f k p = Inr (b, q) \<Longrightarrow> keeps I p q"
proof (induction k arbitrary: p)
  case (Suc k)
  show ?case
  proof (cases "Parser_ended p")
    case False
    then obtain c r where r: "f p = Inr (c, r)" "(if c then repeat_loop f k r else Inr (True, r)) = Inr (b, q)"
      using Suc.prems by (auto simp: bind_res_eq_Inr)
    then have "keeps I r q" using Suc.IH [of r] by (cases c) auto
    then show ?thesis using keeps_trans [OF assms [OF r(1)]] by blast
  qed (use Suc.prems in simp)
qed simp

lemma any_loop_keeps:
  assumes "\<And>n p. keeps I p (g n p)"
  shows "any_loop g k p = Inr (b, q) \<Longrightarrow> keeps I p q"
proof (induction k arbitrary: p)
  case (Suc k)
  show ?case
  proof (cases "dp_node p")
    case (Some n)
    then obtain r where r: "Parser_next (g n p) = Inr r" "any_loop g k r = Inr (b, q)" using Suc.prems by (auto simp: bind_res_eq_Inr)
    then show ?thesis using keeps_trans [OF assms keeps_trans [OF Parser_next_keeps [OF r(1)] Suc.IH [OF r(2)]]] by blast
  qed (use Suc.prems in simp)
qed simp

lemma empty_loop_keeps: "empty_loop k m p = Inr (b, q) \<Longrightarrow> keeps I p q"
proof (induction k arbitrary: p)
  case (Suc k)
  show ?case
  proof (cases "Parser_ended p")
    case False
    then obtain c where c: "Parser_isEmpty p = Inr c" using Suc.prems by (auto simp: bind_res_eq_Inr)
    show ?thesis
    proof (cases c)
      case True
      then obtain r where r: "Parser_next p = Inr r" "empty_loop k m r = Inr (b, q)" using Suc.prems False c by (auto simp: bind_res_eq_Inr)
      then show ?thesis using keeps_trans [OF Parser_next_keeps [OF r(1)] Suc.IH [OF r(2)]] by blast
    next
      case f: False
      then show ?thesis using Suc.prems False c Parser_backtrack_keeps by simp
    qed
  qed (use Suc.prems in simp)
qed simp

lemma PCDATA_keeps: "PCDATA_parse p = Inr (b, q) \<Longrightarrow> keeps I p q"
proof -
  assume a: "PCDATA_parse p = Inr (b, q)"
  have c: "keeps I p (call (GetPCDATA t) p)" for t by (simp add: call_keeps side_call_def)
  show ?thesis
  proof (cases "dp_node p")
    case None
    then show ?thesis using a c [of "[]"] by (auto simp: PCDATA_parse_def)
  next
    case (Some n)
    show ?thesis
    proof (cases n)
      case (XText t)
      then have "Parser_next (call (GetPCDATA t) p) = Inr q" using a Some by (simp add: PCDATA_parse_def bind_res_eq_Inr)
      then show ?thesis using keeps_trans [OF c Parser_next_keeps] by blast
    qed (use a Some in \<open>simp_all add: PCDATA_parse_def\<close>)
  qed
qed

lemma parse_content_keeps: "all_attrs good c \<Longrightarrow> parse_content cl F c p = Inr (b, q) \<Longrightarrow> keeps I p q"
proof (induction c arbitrary: p b q)
  case (DElement e nm al c)
  have "keeps I r s" if "parse_content cl F c r = Inr (d, s)" for r d s using DElement.IH DElement.prems(1) that by auto
  then show ?case using Element_parse_keeps [of "parse_content cl F c" al] DElement.prems by simp
next
  case (DOptional c)
  show ?case
  proof (cases "Parser_ended p")
    case False
    then obtain d where "parse_content cl F c p = Inr (d, q)" using DOptional.prems(2) by (auto simp: bind_res_eq_Inr)
    then show ?thesis using DOptional by simp
  qed (use DOptional.prems in simp)
next
  case (DAlt c1 c2)
  then obtain d r where r: "parse_content cl F c1 p = Inr (d, r)" "(if d then Inr (True, r) else parse_content cl F c2 r) = Inr (b, q)"
    by (auto simp: bind_res_eq_Inr)
  have "keeps I p r" using DAlt.IH(1) DAlt.prems(1) r(1) by auto
  moreover have "keeps I r q" using DAlt.IH(2) [of r b q] DAlt.prems(1) r(2) by (cases d) auto
  ultimately show ?case by (rule keeps_trans)
next
  case (DSeq c1 c2)
  show ?case
  proof (cases "Parser_ended p")
    case False
    then obtain d r where r: "parse_content cl F c1 p = Inr (d, r)"
      "(if \<not> d then Parser_backtrack (dp_i p) r else bind_res (parse_content cl F c2 r) (\<lambda>(b, q). if \<not> b then Parser_backtrack (dp_i p) q else Inr (True, q))) = Inr (b, q)"
      using DSeq.prems(2) by (auto simp: bind_res_eq_Inr Let_def)
    have pr: "keeps I p r" using DSeq.IH(1) DSeq.prems(1) r(1) by auto
    show ?thesis
    proof (cases d)
      case False
      then show ?thesis using r(2) keeps_trans [OF pr Parser_backtrack_keeps] by simp
    next
      case True
      then obtain d2 t where t: "parse_content cl F c2 r = Inr (d2, t)" "(if \<not> d2 then Parser_backtrack (dp_i p) t else Inr (True, t)) = Inr (b, q)"
        using r(2) by (auto simp: bind_res_eq_Inr)
      have rt: "keeps I r t" using DSeq.IH(2) DSeq.prems(1) t(1) by auto
      have tq: "keeps I t q" using t(2) Parser_backtrack_keeps by (cases d2) auto
      show ?thesis by (rule keeps_trans [OF pr keeps_trans [OF rt tq]])
    qed
  qed (use DSeq.prems in simp)
next
  case (DRepeat c)
  have "keeps I r s" if "parse_content cl F c r = Inr (d, s)" for r d s using DRepeat.IH DRepeat.prems(1) that by auto
  then show ?case using repeat_loop_keeps [of "parse_content cl F c"] DRepeat.prems(2) by simp
next
  case PCDATA
  then show ?case using PCDATA_keeps by simp
next
  case ANY
  then show ?case using any_loop_keeps [of "\<lambda>n. call (GetAny n)"] by (simp add: call_keeps side_call_def)
next
  case EMPTY
  then show ?case using empty_loop_keeps by simp
next
  case Ignored
  then show ?case using any_loop_keeps [of "\<lambda>_ p. p"] by simp
qed

end

lemma content_reset_frame: "attr_frame p (content_reset c p) \<and> dp_posts (content_reset c p) = dp_posts p"
proof (induction c arbitrary: p)
  case (DElement e nm al c)
  have "attr_frame p (fold attr_reset al p) \<and> dp_posts (fold attr_reset al p) = dp_posts p"
  proof (induction al arbitrary: p)
    case Nil
    then show ?case by (simp add: attr_frame_def)
  next
    case (Cons a al)
    have "attr_frame p (attr_reset a p) \<and> dp_posts (attr_reset a p) = dp_posts p" by (simp add: attr_reset_def upd_attr_frame) (simp add: upd_attr_def)
    then show ?case using Cons [of "attr_reset a p"] attr_frame_trans by (auto simp del: attr_frame_def)
  qed
  then show ?case using DElement [of "fold attr_reset al p"] attr_frame_trans by auto
next
  case (DAlt c1 c2)
  then show ?case using attr_frame_trans [of p "content_reset c1 p" "content_reset c2 (content_reset c1 p)"] by simp
next
  case (DSeq c1 c2)
  then show ?case using attr_frame_trans [of p "content_reset c1 p" "content_reset c2 (content_reset c1 p)"] by simp
qed (simp_all add: attr_frame_def)

lemma deterministic_plain: "deterministic c \<or> alone c \<Longrightarrow> all_attrs plain_attr c"
  by (induction c) auto

text \<open>Without identifiers and references, nothing waits for an identifier.\<close>

interpretation quiet: dtd_invariant cl plain_attr "\<lambda>p. dp_posts p = [] \<and> dp_patches p = ps" for cl ps
proof
  fix a :: "'a attribute" and p q :: "('a, 'b, 'c) dtd_parser" and avs b
  assume "plain_attr a" "dp_posts p = [] \<and> dp_patches p = ps" "attr_parse cl a avs p = Inr (b, q)"
  then show "dp_posts q = [] \<and> dp_patches q = ps"
    by (auto simp: attr_parse_def attr_process_def plain_attr_def attr_reset_def upd_attr_def split: option.splits akind.splits)
qed (simp_all add: call_def)

text \<open>
  The references for which an object was asked, those that were patched, and those that wait: an
  identifier, an attribute and an object. The reference of a patch was obtained before it, for the same identifier.
\<close>

fun asked :: "('r, 'o) factory_call \<Rightarrow> (string \<times> nat \<times> 'o) list" where
  "asked (GetPatchRef i a ob) = [(i, a, ob)]"
| "asked _ = []"

fun patched :: "('r, 'o) factory_call \<Rightarrow> (string \<times> nat \<times> 'o) list" where
  "patched (Patch i a ob r) = [(i, a, ob)]"
| "patched _ = []"

definition asked_refs :: "('r, 'o) factory_call list \<Rightarrow> (string \<times> nat \<times> 'o) multiset" where
  "asked_refs cs = mset (concat (map asked cs))"

definition patched_refs :: "('r, 'o) factory_call list \<Rightarrow> (string \<times> nat \<times> 'o) multiset" where
  "patched_refs cs = mset (concat (map patched cs))"

definition waiting_refs :: "(string \<times> (nat \<times> 'o) list) list \<Rightarrow> (string \<times> nat \<times> 'o) multiset" where
  "waiting_refs ps = mset (concat (map (\<lambda>(i, bs). map (Pair i) bs) ps))"

definition patches_resolved :: "('r, 'o) factory_call list \<Rightarrow> bool" where
  "patches_resolved cs \<longleftrightarrow> (\<forall>n < length cs. \<forall>i a ob r. cs ! n = Patch i a ob r \<longrightarrow> (\<exists>e. GetRef i e r \<in> set (take n cs)))"

definition awaited :: "('v, 'r, 'o) dtd_parser \<Rightarrow> bool" where
  "awaited p \<longleftrightarrow> distinct (map fst (dp_patches p)) \<and> patches_resolved (dp_calls p) \<and>
     asked_refs (dp_calls p) = patched_refs (dp_calls p) + waiting_refs (dp_patches p)"

lemma refs_append [simp]:
  "asked_refs (cs @ ds) = asked_refs cs + asked_refs ds" "patched_refs (cs @ ds) = patched_refs cs + patched_refs ds"
  by (simp_all add: asked_refs_def patched_refs_def)

lemma refs_single [simp]: "asked_refs [c] = mset (asked c)" "patched_refs [c] = mset (patched c)" "asked_refs [] = {#}" "patched_refs [] = {#}"
  by (simp_all add: asked_refs_def patched_refs_def)

lemma patches_resolved_append:
  "patches_resolved cs \<Longrightarrow> (\<And>i a ob r. c = Patch i a ob r \<Longrightarrow> \<exists>e. GetRef i e r \<in> set cs) \<Longrightarrow> patches_resolved (cs @ [c])"
  by (auto simp: patches_resolved_def nth_append less_Suc_eq)

lemma patches_resolved_nil [simp]: "patches_resolved []"
  by (simp add: patches_resolved_def)

lemma awaited_side: "awaited p \<Longrightarrow> asked c = [] \<Longrightarrow> patched c = [] \<Longrightarrow> awaited (call c p)"
  unfolding awaited_def call_def using patches_resolved_append [of "dp_calls p" c] by fastforce

lemma patches_calls:
  "GetRef i e r \<in> set (dp_calls p) \<Longrightarrow> patches_resolved (dp_calls p) \<Longrightarrow>
   dp_patches (fold (\<lambda>(a, ob). call (Patch i a ob r)) bs p) = dp_patches p \<and>
   patches_resolved (dp_calls (fold (\<lambda>(a, ob). call (Patch i a ob r)) bs p)) \<and>
   asked_refs (dp_calls (fold (\<lambda>(a, ob). call (Patch i a ob r)) bs p)) = asked_refs (dp_calls p) \<and>
   patched_refs (dp_calls (fold (\<lambda>(a, ob). call (Patch i a ob r)) bs p)) = patched_refs (dp_calls p) + mset (map (Pair i) bs)"
proof (induction bs arbitrary: p)
  case (Cons b bs)
  obtain a ob where b: "b = (a, ob)" by (cases b)
  let ?q = "call (Patch i a ob r) p"
  have "patches_resolved (dp_calls ?q)" using Cons.prems by (auto simp: call_def intro: patches_resolved_append)
  then show ?case using Cons.IH [of ?q] Cons.prems(1) b by (simp add: call_def)
qed simp

lemma waiting_without:
  "distinct (map fst ps) \<Longrightarrow>
   waiting_refs ps = waiting_refs (filter (\<lambda>(j, _). j \<noteq> i) ps) + (case map_of ps i of None \<Rightarrow> {#} | Some bs \<Rightarrow> mset (map (Pair i) bs))"
proof (induction ps)
  case (Cons b ps)
  obtain j bs where b: "b = (j, bs)" by (cases b)
  show ?case
  proof (cases "j = i")
    case True
    then have "map_of ps i = None" using Cons.prems b by (auto simp: map_of_eq_None_iff)
    then show ?thesis using Cons b True by (simp add: waiting_refs_def)
  next
    case False
    then show ?thesis using Cons b by (simp add: waiting_refs_def)
  qed
qed (simp add: waiting_refs_def)

lemma distinct_without: "distinct (map fst ps) \<Longrightarrow> distinct (map fst (filter P ps)) \<and> fst ` set (filter (\<lambda>(j, _). j \<noteq> i) ps) = fst ` set ps - {i}"
  by (auto simp: distinct_map_filter image_iff)

lemma recordID_awaited:
  assumes "awaited p"
  shows "awaited (recordID cl i e p)"
proof -
  let ?r = "cl_ref cl (dp_calls p) e"
  let ?p = "(call (GetRef i e ?r) p)\<lparr>dp_map := (dp_map p)(i \<mapsto> ?r)\<rparr>"
  have d: "distinct (map fst (dp_patches p))" using assms by (simp add: awaited_def)
  have c: "awaited (call (GetRef i e ?r) p)" by (rule awaited_side [OF assms]) simp_all
  then have p: "awaited ?p" "dp_patches ?p = dp_patches p" "GetRef i e ?r \<in> set (dp_calls ?p)" by (simp_all add: awaited_def call_def)
  show ?thesis
  proof (cases "map_of (dp_patches p) i")
    case None
    then show ?thesis using p by (simp add: recordID_def Let_def)
  next
    case (Some bs)
    let ?q = "fold (\<lambda>(a, ob). call (Patch i a ob ?r)) bs ?p"
    have "patches_resolved (dp_calls ?p)" using p(1) by (simp add: awaited_def)
    from patches_calls [OF p(3) this, of bs] have q: "patches_resolved (dp_calls ?q)" "asked_refs (dp_calls ?q) = asked_refs (dp_calls ?p)"
      "patched_refs (dp_calls ?q) = patched_refs (dp_calls ?p) + mset (map (Pair i) bs)" by blast+
    have "asked_refs (dp_calls ?p) = patched_refs (dp_calls ?p) + waiting_refs (dp_patches p)" using p(1,2) by (simp add: awaited_def)
    then have "awaited (?q\<lparr>dp_patches := filter (\<lambda>(j, _). j \<noteq> i) (dp_patches p)\<rparr>)"
      using q waiting_without [OF d, of i] Some distinct_without [OF d] unfolding awaited_def by simp
    then show ?thesis using Some by (simp add: recordID_def Let_def call_def)
  qed
qed

lemma recordPatch_awaited:
  assumes "awaited p"
  shows "awaited (recordPatch cl i a p)"
proof -
  let ?ob = "cl_patch cl (dp_calls p) a"
  have d: "distinct (map fst (dp_patches p))" using assms by (simp add: awaited_def)
  note s = waiting_without [OF d, of i] and w = distinct_without [OF d, of "\<lambda>(j, _). j \<noteq> i" i]
  have k: "i \<notin> fst ` set (filter (\<lambda>(j, _). j \<noteq> i) (dp_patches p))" using w by simp
  have c: "patches_resolved (dp_calls p @ [GetPatchRef i a ?ob])" using assms by (intro patches_resolved_append) (simp_all add: awaited_def)
  have cons: "waiting_refs ((j, bs) # ps) = mset (map (Pair j) bs) + waiting_refs ps" for j and bs :: "(nat \<times> 'c) list" and ps
    by (simp add: waiting_refs_def)
  show ?thesis
    using assms s w k c unfolding awaited_def recordPatch_def by (auto simp: Let_def call_def cons split: option.splits)
qed

lemma postprocess_awaited: "awaited p \<Longrightarrow> awaited (postprocess cl a p)"
  by (simp add: postprocess_def Let_def recordID_awaited recordPatch_awaited split: akind.splits)

lemma posts_awaited: "awaited p \<Longrightarrow> awaited (fold (postprocess cl) al p)"
  by (induction al arbitrary: p) (simp_all add: postprocess_awaited)

interpretation waits: dtd_invariant cl "\<lambda>_. True" awaited for cl
proof
  fix a :: "'a attribute" and p q :: "('a, 'b, 'c) dtd_parser" and avs b
  assume "awaited p" "attr_parse cl a avs p = Inr (b, q)"
  then show "awaited q" using attr_parse_frame [where cl = cl and a = a and avs = avs and p = p] by (simp add: attr_frame_def awaited_def)
next
  fix p :: "('a, 'b, 'c) dtd_parser"
  assume "awaited p"
  then have "awaited (fold (postprocess cl) (dp_posts p) p)" by (rule posts_awaited)
  then show "awaited ((fold (postprocess cl) (dp_posts p) p)\<lparr>dp_posts := []\<rparr>)" by (simp add: awaited_def)
next
  fix p :: "('a, 'b, 'c) dtd_parser" and c :: "('b, 'c) factory_call"
  assume "awaited p" "side_call c"
  then show "awaited (call c p)" by (intro awaited_side) (auto simp: side_call_def split: factory_call.splits)
qed (simp add: awaited_def)


section \<open>Parsing a document\<close>

text \<open>The root element is parsed outside of any element: the position after it is nowhere.\<close>

lemma next_outside: "dp_stack p = [] \<Longrightarrow> \<exists>q. Parser_next p = Inr q \<and> dp_calls q = dp_calls p"
  by (simp add: Parser_next_def setNode_def)

definition dtd_start :: "'v dtd_content \<Rightarrow> nat \<Rightarrow> xnode \<Rightarrow> ('v, 'r, 'o) dtd_parser \<Rightarrow> ('v, 'r, 'o) dtd_parser" where
  "dtd_start root e x p = (content_reset root (p\<lparr>dp_patches := [], dp_posts := []\<rparr>))\<lparr>dp_elt := e, dp_i := 0, dp_node := Some x, dp_error := Some x\<rparr>"

lemma dtd_parse_start:
  "dtd_parse cl F root e x p =
     bind_res (parse_content cl F root (dtd_start root e x p)) (\<lambda>(b, p).
       if \<not> b then Inl (Exception ''cannot parse.'') else if dp_patches p \<noteq> [] then Inl (Exception ''some references are pending'') else Inr p)"
  by (simp add: dtd_parse_def dtd_start_def Let_def)

lemma dtd_start_frame:
  "dp_node (dtd_start root e x p) = Some x \<and> dp_stack (dtd_start root e x p) = dp_stack p \<and> dp_crop (dtd_start root e x p) = dp_crop p \<and>
   dp_calls (dtd_start root e x p) = dp_calls p \<and> dp_patches (dtd_start root e x p) = [] \<and> dp_posts (dtd_start root e x p) = []"
  using content_reset_frame [of "p\<lparr>dp_patches := [], dp_posts := []\<rparr>" root] by (simp add: dtd_start_def attr_frame_def here_def frame_def)

lemma dtd_start_new:
  fixes s :: "('v, 'r, 'o) dtd_parser"
  assumes "s = dtd_start root e x (DParser_new crop e' atts)"
  shows "dp_node s = Some x" "dp_stack s = []" "dp_crop s = crop" "dp_calls s = []" "dp_patches s = []" "dp_posts s = []"
  using dtd_start_frame [of root e x "DParser_new crop e' atts :: ('v, 'r, 'o) dtd_parser"] unfolding assms by (simp_all add: DParser_new_def)

lemma dtd_parse_result:
  fixes cl :: "('v, 'r, 'o) client"
  assumes c: "productive c" "xsize x \<le> F" and start: "s = dtd_start (DElement e nm al c) e x (DParser_new crop e' atts)"
  shows "(\<exists>m. parse_content cl F (DElement e nm al c) s = Inl (Exception m)) \<or> (\<exists>q. parse_content cl F (DElement e nm al c) s = Inr (False, q)) \<or>
    (\<exists>q. parse_content cl F (DElement e nm al c) s = Inr (True, q) \<and> valid (cl_ok cl) crop (DElement e nm al c) [x] \<and> nested (dp_calls q))"
proof -
  have s: "dp_node s = Some x" "dp_stack s = []" "dp_crop s = crop" "dp_calls s = []" using dtd_start_new [OF start] by simp_all
  have "leaves s (\<exists>n. dp_node s = Some n \<and> valid (cl_ok cl) (dp_crop s) (DElement e nm al c) [n]) (Element_parse cl e nm al (parse_content cl F c) s)"
  proof (rule Element_parse_correct)
    fix q :: "('v, 'r, 'o) dtd_parser"
    assume q: "settled q" "\<forall>n. dp_node s = Some n \<longrightarrow> nodes (remain q) < xsize n"
    then have "nodes (remain q) < F" using s(1) c(2) order_less_le_trans by auto
    then show "sound cl c q (parse_content cl F c q)" by (rule parse_content_sound [OF c(1) q(1)])
  qed
  then consider m where "Element_parse cl e nm al (parse_content cl F c) s = Inl (Exception m)"
    | q where "Element_parse cl e nm al (parse_content cl F c) s = Inr (False, q)"
    | q where "valid (cl_ok cl) crop (DElement e nm al c) [x]" "here s q" "nested_calls s q"
        "Element_parse cl e nm al (parse_content cl F c) s = bind_res (Parser_next q) (\<lambda>p. Inr (True, p))"
    using s unfolding leaves_def by auto
  then show ?thesis
  proof cases
    case 3
    then obtain r where r: "Parser_next q = Inr r" "dp_calls r = dp_calls q" using next_outside [of q] s(2) by (auto simp: here_def frame_def)
    then have "nested (dp_calls r)" using 3(3) s(4) by (simp add: nested_calls_def)
    then show ?thesis using 3 r by simp
  qed simp_all
qed

text \<open>
  C38. Parsing a document with a DTD whose repeated contents take at least a node always ends, with a
  number of turns that the size of the document bounds: either it throws a DTD exception, or the
  document is valid for the DTD, the calls of the factory are nested as its elements are, and the references that were
  patched, with their identifiers, attributes and objects, are exactly those for which an object was asked, each once, with a
  reference that was obtained before for the same identifier.
\<close>

theorem dtd_parse_sound:
  fixes cl :: "('v, 'r, 'o) client"
  assumes "productive c" "xsize x \<le> F"
  shows "(\<exists>m. dtd_parse cl F (DElement e nm al c) e x (DParser_new crop e' atts) = Inl (Exception m)) \<or>
    (\<exists>q. dtd_parse cl F (DElement e nm al c) e x (DParser_new crop e' atts) = Inr q \<and> valid (cl_ok cl) crop (DElement e nm al c) [x] \<and>
      nested (dp_calls q) \<and> dp_patches q = [] \<and> asked_refs (dp_calls q) = patched_refs (dp_calls q) \<and> patches_resolved (dp_calls q))"
proof -
  define s :: "('v, 'r, 'o) dtd_parser" where "s = dtd_start (DElement e nm al c) e x (DParser_new crop e' atts)"
  have true: "all_attrs (\<lambda>_. True) d" for d :: "'v dtd_content" by (induction d) (auto simp: list.pred_True)
  have "awaited s" using dtd_start_new [OF s_def] by (simp add: awaited_def waiting_refs_def)
  then have aw: "awaited q" if "parse_content cl F (DElement e nm al c) s = Inr (b, q)" for b q
    using waits.parse_content_keeps [OF true that] by (simp add: keeps_def)
  show ?thesis using dtd_parse_result [OF assms s_def, of cl] aw
    by (auto simp: dtd_parse_start s_def [symmetric] awaited_def waiting_refs_def simp del: parse_content.simps)
qed

text \<open>
  C39. For a deterministic DTD without identifiers and references the parser is exact: it accepts a
  document if and only if the document is valid.
\<close>

theorem dtd_parse_exact:
  fixes cl :: "('v, 'r, 'o) client"
  assumes "deterministic (DElement e nm al c)" "xsize x \<le> F"
  shows "(\<exists>q. dtd_parse cl F (DElement e nm al c) e x (DParser_new crop e' atts) = Inr q) \<longleftrightarrow> valid (cl_ok cl) crop (DElement e nm al c) [x]"
proof
  have "productive c" using assms(1) deterministic_productive [OF assms(1)] by simp
  then show "\<exists>q. dtd_parse cl F (DElement e nm al c) e x (DParser_new crop e' atts) = Inr q \<Longrightarrow> valid (cl_ok cl) crop (DElement e nm al c) [x]"
    using dtd_parse_result [OF _ assms(2) refl, where c = c and e = e and nm = nm and al = al and crop = crop and e' = e' and atts = atts and cl = cl] by (auto simp: dtd_parse_start simp del: parse_content.simps)
next
  let ?root = "DElement e nm al c"
  define s :: "('v, 'r, 'o) dtd_parser" where "s = dtd_start ?root e x (DParser_new crop e' atts)"
  note s = dtd_start_new [OF s_def]
  assume "valid (cl_ok cl) crop ?root [x]"
  then obtain avs kids where u: "x = XElement nm avs kids" "list_all (attr_ok (cl_ok cl) avs) al" "valid (cl_ok cl) crop c (crop_nodes crop kids)"
    by (auto elim: valid_elementE)
  have k: "nodes (crop_nodes crop kids) < F" using nodes_crop [of crop kids] assms(2) u(1) nodes_kids [of nm avs kids] by simp
  have content: "\<exists>t. parse_content cl F c q = Inr (True, t) \<and> frame q t \<and> settled t \<and> remain t = []"
    if q: "settled q" "dp_crop q = dp_crop s" "remain q = crop_nodes (dp_crop s) kids" for q
  proof -
    have n: "nodes (remain q) < F" "remain q = crop_nodes crop kids" "dp_crop q = crop" using k q(2,3) unfolding s(3) by simp_all
    have d: "deterministic c \<or> alone c" using assms(1) by auto
    have "\<exists>t. parse_content cl F c q = Inr (True, t) \<and> remain t = []"
    proof (cases "alone c")
      case True
      then show ?thesis using complete_alone [OF True q(1) n(1)] n(2) u(3) by simp
    next
      case False
      then show ?thesis using parse_content_complete [of c q crop "crop_nodes crop kids" "[]" F cl] d q(1) n u(3) by simp
    qed
    then show ?thesis using accepted_frame [OF d q(1) n(1)] by blast
  qed
  have node: "dp_node s = Some (XElement nm avs kids)" unfolding s(1) u(1) by simp
  have pl: "list_all plain_attr al" using assms(1) by simp
  have "\<exists>q. Element_parse cl e nm al (parse_content cl F c) s = bind_res (Parser_next q) (\<lambda>p. Inr (True, p)) \<and> here s q"
    by (rule Element_complete [OF content pl u(2) node])
  then obtain q r where pr: "parse_content cl F ?root s = Inr (True, r)" "Parser_next q = Inr r"
    using next_outside s(2) by (fastforce simp: here_def frame_def)
  have "all_attrs plain_attr ?root" using deterministic_plain assms(1) by blast
  then have "keeps (\<lambda>p. dp_posts p = [] \<and> dp_patches p = []) s r" using pr(1) by (rule quiet.parse_content_keeps)
  then have "dp_patches r = []" using s(5,6) by (simp add: keeps_def)
  then show "\<exists>q. dtd_parse cl F ?root e x (DParser_new crop e' atts) = Inr q" using pr(1)
    by (simp add: dtd_parse_start s_def [symmetric] del: parse_content.simps)
qed

section \<open>What the parser does not accept\<close>

lemma setNode_loop_cropped: "crop_nodes crop ns = [] \<Longrightarrow> \<exists>i. setNode_loop crop ns k = (i, None)"
  by (induction ns arbitrary: k) (auto simp: crop_nodes_def split: if_splits)

lemma Parser_begin_kids:
  "dp_node s = Some (XElement nm avs kids) \<Longrightarrow>
   \<exists>q. Parser_begin cl e s = Inr q \<and> settled q \<and> remain q = crop_nodes (dp_crop s) kids \<and> dp_stack q \<noteq> []"
  by (erule Parser_begin_correct [where cl = cl and e = e]) auto

lemma seq_refuses_empty:
  fixes cl :: "('v, 'r, 'o) client"
  assumes "crop_nodes crop kids = []"
  shows "dtd_parse cl F (DElement e nm [] (DSeq c1 c2)) e (XElement nm avs kids) (DParser_new crop e' atts) = Inl (Exception ''cannot parse.'')"
proof -
  define s :: "('v, 'r, 'o) dtd_parser" where "s = dtd_start (DElement e nm [] (DSeq c1 c2)) e (XElement nm avs kids) (DParser_new crop e' atts)"
  note s = dtd_start_new [OF s_def]
  obtain q where q: "Parser_begin cl e s = Inr q" "settled q" "remain q = crop_nodes crop kids" "dp_stack q \<noteq> []"
    using Parser_begin_kids [OF s(1), of cl e] s(3) by blast
  have "Parser_ended q" using ended_remain [OF q(2)] q(3) assms by simp
  then show ?thesis using s(1) q(1,4)
    by (auto simp: dtd_parse_start s_def [symmetric] Element_parse_def Element_leave_def Parser_end_def Let_def split: list.splits prod.splits)
qed

lemma repeat_stuck: "\<not> Parser_ended p \<Longrightarrow> f p = Inr (True, p) \<Longrightarrow> repeat_loop f k p = Inl Out_of_fuel"
  by (induction k) simp_all

lemma repeat_optional_stuck:
  fixes cl :: "('v, 'r, 'o) client"
  assumes "crop_nodes crop kids = n # w" "stops {nm1} [n]"
  shows "dtd_parse cl F (DElement e nm [] (DRepeat (DOptional (DElement e1 nm1 al c)))) e (XElement nm avs kids) (DParser_new crop e' atts) = Inl Out_of_fuel"
proof -
  define s :: "('v, 'r, 'o) dtd_parser"
    where "s = dtd_start (DElement e nm [] (DRepeat (DOptional (DElement e1 nm1 al c)))) e (XElement nm avs kids) (DParser_new crop e' atts)"
  note s = dtd_start_new [OF s_def]
  obtain q where q: "Parser_begin cl e s = Inr q" "settled q" "remain q = crop_nodes crop kids"
    using Parser_begin_kids [OF s(1), of cl e] s(3) by blast
  have n: "dp_node q = Some n" using node_remain [OF q(2)] q(3) assms(1) by simp
  then have "Element_parse cl e1 nm1 al (parse_content cl F c) q = Inr (False, q)" using assms(2) by (cases n) (simp_all add: Element_parse_def)
  then have "repeat_loop (parse_content cl F (DOptional (DElement e1 nm1 al c))) F q = Inl Out_of_fuel"
    using n by (intro repeat_stuck) (simp_all add: Parser_ended_def)
  then show ?thesis using s(1) q(1) by (simp add: dtd_parse_start s_def [symmetric] Element_parse_def del: parse_content.simps(2))
qed

lemmas dtd_step_defs = dtd_parse_def DParser_new_def Element_parse_def Element_leave_def Parser_begin_def Parser_end_def Parser_next_def Parser_backtrack_def
  setNode_def Parser_ended_def Parser_isEmpty_def blank_text_def call_def recordError_def attr_parse_def attr_process_def attr_reset_def upd_attr_def
  ID_process_def Ref_process_def postprocess_def recordID_def recordPatch_def PCDATA_parse_def Let_def

lemma own_reference_pending:
  assumes "at_kind a = ID_attribute" "at_kind b = Ref_attribute" "at_forward b" "at_id a \<noteq> at_id b"
    "map_of avs (at_name a) = Some v" "map_of avs (at_name b) = Some v" "crop_nodes crop kids = []"
  shows "dtd_parse cl (Suc F) (DElement e nm [a, b] EMPTY) e (XElement nm avs kids) (DParser_new crop e' atts) =
      Inl (Exception ''some references are pending'')"
    "\<exists>q. dtd_parse cl (Suc F) (DElement e nm [b, a] EMPTY) e (XElement nm avs kids) (DParser_new crop e' atts) = Inr q"
proof -
  obtain i where i: "setNode_loop crop kids 0 = (i, None)" using setNode_loop_cropped [OF assms(7)] by blast
  show "dtd_parse cl (Suc F) (DElement e nm [a, b] EMPTY) e (XElement nm avs kids) (DParser_new crop e' atts) = Inl (Exception ''some references are pending'')"
    using assms i by (simp add: dtd_step_defs)
  show "\<exists>q. dtd_parse cl (Suc F) (DElement e nm [b, a] EMPTY) e (XElement nm avs kids) (DParser_new crop e' atts) = Inr q"
    using assms i by (simp add: dtd_step_defs)
qed

text \<open>A first element, then another one, or the first one again.\<close>

definition two_choices :: "nat \<Rightarrow> string \<Rightarrow> 'v attribute list \<Rightarrow> nat \<Rightarrow> string \<Rightarrow> 'v dtd_content" where
  "two_choices e1 n1 al e2 n2 =
     DAlt (DSeq (DElement e1 n1 al EMPTY) (DElement e2 n2 [] EMPTY)) (DSeq (DElement e1 n1 al EMPTY) (DElement e1 n1 al EMPTY))"

lemma abandoned_calls:
  assumes "n1 \<noteq> n2"
  shows "map_sum id dp_calls (dtd_parse cl (Suc F)
      (DElement e nm [] (two_choices e1 n1 [] e2 n2)) e
      (XElement nm avs [XElement n1 as1 [], XElement n1 as2 []]) (DParser_new crop e' atts)) =
    Inr [Begin e, Begin e1, End e1, Begin e1, End e1, Begin e1, End e1, End e]"
  using assms by (simp add: two_choices_def dtd_step_defs)

lemma abandoned_identifier:
  assumes "n1 \<noteq> n2" "at_kind a = ID_attribute" "\<not> at_strict a" "map_of as1 (at_name a) = Some v" "map_of as2 (at_name a) = Some w"
  shows "valid ok crop
      (DElement e nm [] (two_choices e1 n1 [a] e2 n2))
      [XElement nm avs [XElement n1 as1 [], XElement n1 as2 []]]"
    "dtd_parse cl (Suc F)
      (DElement e nm [] (two_choices e1 n1 [a] e2 n2)) e
      (XElement nm avs [XElement n1 as1 [], XElement n1 as2 []]) (DParser_new crop e' atts) = Inl (Exception ''cannot parse.'')"
proof -
  let ?a = "DElement e1 n1 [a] EMPTY"
  have "valid ok crop ?a [XElement n1 as1 []]" "valid ok crop ?a [XElement n1 as2 []]"
    using assms by (intro valid.element valid.empty; simp add: attr_ok_def)+
  then have "valid ok crop (DSeq ?a ?a) ([XElement n1 as1 []] @ [XElement n1 as2 []])" by (intro valid.seq)
  then show "valid ok crop (DElement e nm [] (two_choices e1 n1 [a] e2 n2)) [XElement nm avs [XElement n1 as1 [], XElement n1 as2 []]]"
    unfolding two_choices_def by (intro valid.element valid.alt_right) (simp_all add: blank_text_def)
  show "dtd_parse cl (Suc F) (DElement e nm [] (two_choices e1 n1 [a] e2 n2)) e
      (XElement nm avs [XElement n1 as1 [], XElement n1 as2 []]) (DParser_new crop e' atts) = Inl (Exception ''cannot parse.'')"
    using assms by (simp add: two_choices_def dtd_step_defs)
qed

section \<open>Examples\<close>

definition ex_client :: "(nat, nat, nat) client" where
  "ex_client = \<lparr>cl_ok = (\<lambda>v. v \<noteq> []), cl_read = (\<lambda>v k. length v), cl_ref = (\<lambda>cs e. e), cl_patch = (\<lambda>cs a. a)\<rparr>"

definition ex_atts :: "nat \<Rightarrow> (nat, nat) attr_state" where
  "ex_atts a = \<lparr>as_set = False, as_str = [], as_val = 0, as_done = False, as_ref = None\<rparr>"

definition ex_attr :: "nat \<Rightarrow> string \<Rightarrow> nat akind \<Rightarrow> nat attribute" where
  "ex_attr a nm k = \<lparr>at_id = a, at_elt = 1, at_name = nm, at_required = True, at_strict = False, at_forward = True, at_kind = k\<rparr>"

definition ex_elem :: "string \<Rightarrow> nat dtd_content" where
  "ex_elem nm = DElement 1 nm [] EMPTY"

definition ex_root :: "nat dtd_content \<Rightarrow> nat dtd_content" where
  "ex_root c = DElement 0 ''r'' [] c"

definition ex_parse :: "nat dtd_content \<Rightarrow> nat \<Rightarrow> xnode list \<Rightarrow> (nat, nat, nat) dtd_parser res" where
  "ex_parse c F kids = dtd_parse ex_client F (ex_root c) 0 (XElement ''r'' [] kids) (DParser_new True 0 ex_atts)"

definition ex_leaf :: "string \<Rightarrow> (string \<times> string) list \<Rightarrow> xnode" where
  "ex_leaf nm avs = XElement nm avs []"

lemmas ex_defs = ex_client_def ex_atts_def ex_attr_def ex_elem_def ex_root_def ex_parse_def ex_leaf_def


definition ex_forward :: "nat dtd_content" where
  "ex_forward = DSeq (DElement 2 ''b'' [ex_attr 1 ''ref'' Ref_attribute] EMPTY) (DElement 1 ''a'' [ex_attr 0 ''id'' ID_attribute] EMPTY)"

theorem dtd_parse_sound_witness:
  "(\<exists>q. ex_parse (DRepeat (ex_elem ''a'')) 5 [ex_leaf ''a'' [], XText '' '', ex_leaf ''a'' []] = Inr q \<and>
     valid (cl_ok ex_client) True (ex_root (DRepeat (ex_elem ''a''))) [XElement ''r'' [] [ex_leaf ''a'' [], XText '' '', ex_leaf ''a'' []]]) \<and>
   (\<exists>q. ex_parse ex_forward 5 [ex_leaf ''b'' [(''ref'', ''x'')], ex_leaf ''a'' [(''id'', ''x'')]] = Inr q \<and>
     asked_refs (dp_calls q) = {#(''x'', 1, 1)#} \<and> patched_refs (dp_calls q) = {#(''x'', 1, 1)#})"
proof -
  let ?x = "XElement ''r'' [] [ex_leaf ''a'' [], XText '' '', ex_leaf ''a'' []]"
  have "\<exists>q. ex_parse (DRepeat (ex_elem ''a'')) 5 [ex_leaf ''a'' [], XText '' '', ex_leaf ''a'' []] = Inr q"
    by (simp add: ex_defs dtd_step_defs numeral_eq_Suc)
  then have 1: "\<exists>q. ex_parse (DRepeat (ex_elem ''a'')) 5 [ex_leaf ''a'' [], XText '' '', ex_leaf ''a'' []] = Inr q \<and>
     valid (cl_ok ex_client) True (ex_root (DRepeat (ex_elem ''a''))) [?x]"
    using dtd_parse_sound [where c = "DRepeat (ex_elem ''a'')" and F = 5 and x = ?x and cl = ex_client and e = 0 and nm = "''r''" and al = "[]" and crop = True and e' = 0 and atts = ex_atts]
    by (auto simp: ex_parse_def ex_root_def ex_elem_def ex_leaf_def)
  let ?y = "XElement ''r'' [] [ex_leaf ''b'' [(''ref'', ''x'')], ex_leaf ''a'' [(''id'', ''x'')]]"
  obtain q where q: "ex_parse ex_forward 5 [ex_leaf ''b'' [(''ref'', ''x'')], ex_leaf ''a'' [(''id'', ''x'')]] = Inr q" "asked_refs (dp_calls q) = {#(''x'', 1, 1)#}"
    by (simp add: ex_forward_def ex_defs dtd_step_defs numeral_eq_Suc asked_refs_def)
  moreover have "patched_refs (dp_calls q) = asked_refs (dp_calls q)"
    using q(1) dtd_parse_sound [where c = ex_forward and F = 5 and x = ?y and cl = ex_client and e = 0 and nm = "''r''" and al = "[]" and crop = True and e' = 0 and atts = ex_atts]
    by (auto simp: ex_parse_def ex_root_def ex_forward_def ex_leaf_def)
  ultimately show ?thesis using 1 by auto
qed

theorem dtd_parse_exact_witness:
  "(\<exists>q. ex_parse (DSeq (DOptional (ex_elem ''a'')) (DElement 2 ''b'' [ex_attr 0 ''n'' (Value_attribute 0)] PCDATA)) 9
       [ex_leaf ''a'' [], XElement ''b'' [(''n'', ''12'')] [XText ''t'']] = Inr q) \<and>
   \<not> valid (cl_ok ex_client) True (ex_root (DSeq (DOptional (ex_elem ''a'')) (DElement 2 ''b'' [ex_attr 0 ''n'' (Value_attribute 0)] PCDATA)))
       [XElement ''r'' [] [ex_leaf ''a'' [], ex_leaf ''b'' []]]"
proof -
  let ?b = "DElement 2 ''b'' [ex_attr 0 ''n'' (Value_attribute 0)] PCDATA"
  let ?c = "DSeq (DOptional (ex_elem ''a'')) ?b"
  let ?kids = "[ex_leaf ''a'' [], XElement ''b'' [(''n'', ''12'')] [XText ''t'']]"
  have d: "deterministic (DElement 0 ''r'' [] ?c)" by (simp add: ex_defs plain_attr_def)
  have v: "valid (cl_ok ex_client) True (DElement 0 ''r'' [] ?c) [XElement ''r'' [] ?kids]"
  proof -
    have "valid (cl_ok ex_client) True (ex_elem ''a'') [ex_leaf ''a'' []]" unfolding ex_elem_def ex_leaf_def by (intro valid.element valid.empty) simp_all
    moreover have "valid (cl_ok ex_client) True ?b [XElement ''b'' [(''n'', ''12'')] [XText ''t'']]"
      by (rule valid.element) (simp_all add: attr_ok_def ex_attr_def ex_client_def blank_text_def valid.pcdata)
    ultimately have "valid (cl_ok ex_client) True ?c ([ex_leaf ''a'' []] @ [XElement ''b'' [(''n'', ''12'')] [XText ''t'']])"
      by (intro valid.seq valid.optional_some)
    then show ?thesis by (intro valid.element) (simp_all add: blank_text_def ex_leaf_def)
  qed
  have n: "\<not> (\<exists>q. ex_parse ?c 9 [ex_leaf ''a'' [], ex_leaf ''b'' []] = Inr q)" by (simp add: ex_defs dtd_step_defs numeral_eq_Suc)
  show ?thesis
    using v n dtd_parse_exact [OF d, where x = "XElement ''r'' [] ?kids" and F = 9 and cl = ex_client and crop = True and e' = 0 and atts = ex_atts]
      dtd_parse_exact [OF d, where x = "XElement ''r'' [] [ex_leaf ''a'' [], ex_leaf ''b'' []]" and F = 9 and cl = ex_client and crop = True and e' = 0 and atts = ex_atts]
    by (simp add: ex_parse_def ex_root_def ex_leaf_def)
qed

text \<open>
  C40. Outside of these conditions the parser differs from the meaning of the DTD, or does not end, for any client. An element
  with no children is refused when its content is a sequence, even one of contents that may be empty. The repetition of an
  optional element stays, for any bound on its turns, on a node that is not this element. A reference of an element to its own identifier is
  pending when its attribute comes after that of the identifier, and is accepted in the other order. When a first alternative is abandoned
  after its first element, an identifier recorded in it makes the second one fail on a valid document, and without identifiers
  its first element is delivered twice.
\<close>

theorem dtd_parse_limits:
  fixes cl :: "('v, 'r, 'o) client"
  shows "(crop_nodes crop kids = [] \<and> valid (cl_ok cl) crop c1 [] \<and> valid (cl_ok cl) crop c2 [] \<longrightarrow>
      valid (cl_ok cl) crop (DElement e nm [] (DSeq c1 c2)) [XElement nm avs kids] \<and>
      dtd_parse cl F (DElement e nm [] (DSeq c1 c2)) e (XElement nm avs kids) (DParser_new crop e' atts) = Inl (Exception ''cannot parse.'')) \<and>
    (crop_nodes crop kids = n # w \<and> stops {n1} [n] \<longrightarrow>
      dtd_parse cl F (DElement e nm [] (DRepeat (DOptional (DElement e1 n1 al c1)))) e (XElement nm avs kids) (DParser_new crop e' atts) = Inl Out_of_fuel) \<and>
    (at_kind a = ID_attribute \<and> at_kind b = Ref_attribute \<and> at_forward b \<and> at_id a \<noteq> at_id b \<and> map_of avs (at_name a) = Some v \<and>
        map_of avs (at_name b) = Some v \<and> crop_nodes crop kids = [] \<longrightarrow>
      dtd_parse cl (Suc F) (DElement e nm [a, b] EMPTY) e (XElement nm avs kids) (DParser_new crop e' atts) =
        Inl (Exception ''some references are pending'') \<and>
      (\<exists>q. dtd_parse cl (Suc F) (DElement e nm [b, a] EMPTY) e (XElement nm avs kids) (DParser_new crop e' atts) = Inr q)) \<and>
    (n1 \<noteq> n2 \<and> at_kind a = ID_attribute \<and> \<not> at_strict a \<and> map_of as1 (at_name a) = Some v \<and> map_of as2 (at_name a) = Some v' \<longrightarrow>
      valid (cl_ok cl) crop (DElement e nm [] (two_choices e1 n1 [a] e2 n2)) [XElement nm avs [XElement n1 as1 [], XElement n1 as2 []]] \<and>
      dtd_parse cl (Suc F) (DElement e nm [] (two_choices e1 n1 [a] e2 n2)) e (XElement nm avs [XElement n1 as1 [], XElement n1 as2 []])
        (DParser_new crop e' atts) = Inl (Exception ''cannot parse.'')) \<and>
    (n1 \<noteq> n2 \<longrightarrow>
      map_sum id dp_calls (dtd_parse cl (Suc F) (DElement e nm [] (two_choices e1 n1 [] e2 n2)) e
        (XElement nm avs [XElement n1 as1 [], XElement n1 as2 []]) (DParser_new crop e' atts)) =
      Inr [Begin e, Begin e1, End e1, Begin e1, End e1, Begin e1, End e1, End e])"
proof (intro conjI impI)
  assume a: "crop_nodes crop kids = [] \<and> valid (cl_ok cl) crop c1 [] \<and> valid (cl_ok cl) crop c2 []"
  then have "valid (cl_ok cl) crop (DSeq c1 c2) ([] @ [])" by (intro valid.seq) simp_all
  then show "valid (cl_ok cl) crop (DElement e nm [] (DSeq c1 c2)) [XElement nm avs kids]" using a by (intro valid.element) simp_all
qed (simp_all only: seq_refuses_empty repeat_optional_stuck own_reference_pending abandoned_identifier abandoned_calls not_False_eq_True)

theorem dtd_parse_limits_witness:
  "(valid (cl_ok ex_client) True (ex_root (DSeq (DOptional (ex_elem ''a'')) (DOptional (ex_elem ''b'')))) [XElement ''r'' [] []] \<and>
     ex_parse (DSeq (DOptional (ex_elem ''a'')) (DOptional (ex_elem ''b''))) 9 [] = Inl (Exception ''cannot parse.'')) \<and>
   ex_parse (DRepeat (DOptional (ex_elem ''a''))) 9 [ex_leaf ''b'' []] = Inl Out_of_fuel \<and>
   dtd_parse ex_client 9 (DElement 0 ''r'' [ex_attr 0 ''id'' ID_attribute, ex_attr 1 ''ref'' Ref_attribute] EMPTY) 0
     (XElement ''r'' [(''id'', ''x''), (''ref'', ''x'')] []) (DParser_new True 0 ex_atts) = Inl (Exception ''some references are pending'') \<and>
   ex_parse (two_choices 1 ''a'' [ex_attr 0 ''id'' ID_attribute] 2 ''b'') 9 [ex_leaf ''a'' [(''id'', ''x'')], ex_leaf ''a'' [(''id'', ''y'')]] =
     Inl (Exception ''cannot parse.'')"
proof -
  note limits = dtd_parse_limits [where cl = ex_client and crop = True and e' = 0 and atts = ex_atts and nm = "''r''" and e = 0 and ?n1.0 = "''a''" and ?n2.0 = "''b''" and ?e1.0 = 1
      and al = "[]" and ?c2.0 = "DOptional (ex_elem ''b'')" and a = "ex_attr 0 ''id'' ID_attribute" and b = "ex_attr 1 ''ref'' Ref_attribute" and v = "''x''" and v' = "''y''"
      and ?e2.0 = 2 and ?as1.0 = "[(''id'', ''x'')]" and ?as2.0 = "[(''id'', ''y'')]"]
  have 1: "valid (cl_ok ex_client) True (ex_root (DSeq (DOptional (ex_elem ''a'')) (DOptional (ex_elem ''b'')))) [XElement ''r'' [] []] \<and>
     ex_parse (DSeq (DOptional (ex_elem ''a'')) (DOptional (ex_elem ''b''))) 9 [] = Inl (Exception ''cannot parse.'')"
    using limits [where avs = "[]" and kids = "[]" and F = 9 and ?c1.0 = "DOptional (ex_elem ''a'')", THEN conjunct1]
    by (simp add: ex_parse_def ex_root_def valid.optional_none del: parse_content.simps)
  have 2: "ex_parse (DRepeat (DOptional (ex_elem ''a''))) 9 [ex_leaf ''b'' []] = Inl Out_of_fuel"
    using limits [where avs = "[]" and kids = "[ex_leaf ''b'' []]" and n = "ex_leaf ''b'' []" and w = "[]" and F = 9 and ?c1.0 = EMPTY, THEN conjunct2, THEN conjunct1]
    by (simp add: ex_parse_def ex_root_def ex_elem_def ex_leaf_def blank_text_def)
  have nine: "Suc 8 = 9" by simp
  have 3: "dtd_parse ex_client 9 (DElement 0 ''r'' [ex_attr 0 ''id'' ID_attribute, ex_attr 1 ''ref'' Ref_attribute] EMPTY) 0
     (XElement ''r'' [(''id'', ''x''), (''ref'', ''x'')] []) (DParser_new True 0 ex_atts) = Inl (Exception ''some references are pending'')"
    using limits [where avs = "[(''id'', ''x''), (''ref'', ''x'')]" and kids = "[]" and F = 8, THEN conjunct2, THEN conjunct2, THEN conjunct1]
    unfolding nine by (simp add: ex_attr_def)
  have "ex_parse (two_choices 1 ''a'' [ex_attr 0 ''id'' ID_attribute] 2 ''b'') 9 [ex_leaf ''a'' [(''id'', ''x'')], ex_leaf ''a'' [(''id'', ''y'')]] =
     Inl (Exception ''cannot parse.'')"
    using limits [where avs = "[]" and kids = "[]" and F = 8, THEN conjunct2, THEN conjunct2, THEN conjunct2, THEN conjunct1]
    unfolding nine by (simp add: ex_parse_def ex_root_def ex_leaf_def ex_attr_def)
  then show ?thesis using 1 2 3 by blast
qed

end
