(* ===== verification/Spec2Isabelle.thy ===== *)
theory Spec2Isabelle
  imports Avl_Tree Avl_Clients Quick_Sort Elm_Queues Elm_List Binomial_Queue Hash_Table Elm_Int Bit_Vector Wah_Vector
    Elm_Io Io_Streams Elm_Path Elm_Checksum Elm_Json Elm_Vector Elm_Alloc Elm_Dtd
begin

text \<open>
  A verification development of ELM, the C++ library of generic containers, algorithms and system
  services of the OTAWA project.

  \<^bold>\<open>The program.\<close> ELM is a library: its parts are containers (\<^verbatim>\<open>include/elm/data\<close>,
  \<^verbatim>\<open>include/elm/avl\<close>), bit vectors (\<^verbatim>\<open>util_BitVector.cpp\<close>, \<^verbatim>\<open>util_WAHVector.cpp\<close>), integer
  helpers (\<^verbatim>\<open>int.cpp\<close>), streams and formatted input and output (\<^verbatim>\<open>io_*.cpp\<close>), and services over
  the operating system. Containers are templates parameterised by a comparator or a hash key; streams
  are stacked on other streams through two virtual functions. These two interfaces are the
  locales on which the development rests.

  \<^bold>\<open>Conventions.\<close> A C++ object is a record or a datatype, a method a function that returns the
  updated object; pointers that only link the nodes of one structure are replaced by the
  structure itself (a binary tree, a list, a zipper for a position in it), and where the code walks
  with an explicit stack of nodes and directions the model keeps that stack. Failing
  assertions, null dereferences, accesses out of an array and exceptions are values of
  \<^verbatim>\<open>error\<close>; functions on streams use \<^verbatim>\<open>io\<close>, a state with exceptions. Machine integers
  are words where their width matters; sizes that index memory are \<^verbatim>\<open>nat\<close> or \<^verbatim>\<open>int\<close> and
  taken below 2 to the 31. Signed overflows, which C++ leaves undefined, wrap around where the model meets them: the negation of
  the lowest integer when it is printed (\<^verbatim>\<open>Elm_Io\<close>) and the doubling of the capacity of a vector
  (\<^verbatim>\<open>Elm_Vector\<close>). Items are passed by value, so that a reference to an item of the container that is being changed is outside of
  the model.

  \<^bold>\<open>Loops.\<close> Most loops are structural or proved to end by a measure. Fuel, with a value
  \<^verbatim>\<open>Out_of_fuel\<close> when it does not suffice, is used by the collection of an iterator's items and the copy of a tree, bounded
  by the size of the container; by the parsers of JSON and of XML documents, bounded by the
  size of the text and of the document; by the calls of itself of the stack allocator, bounded by
  two; by \<^verbatim>\<open>alloc_loop\<close> of \<^verbatim>\<open>FragTable\<close>, bounded by the count of the items to allocate (its use by \<^verbatim>\<open>insert\<close>, for one item, is
  proved); and by \<^verbatim>\<open>cap_loop\<close>
  of \<^verbatim>\<open>Vector::setLength\<close>, 34 turns, enough up to 2 to the 30 items. The theorems show that
  these bounds are enough, or that no bound is (\<^verbatim>\<open>array_misuse\<close>, \<^verbatim>\<open>dtd_parse_limits\<close>). The
  loops on streams of \<^verbatim>\<open>Elm_Checksum\<close> and the search of a common prefix in
  \<^verbatim>\<open>Elm_Path\<close> are partial functions, which the properties show to return under their hypotheses.

  \<^bold>\<open>Theories.\<close>
  \<^item> \<^verbatim>\<open>Elm_Prelude\<close>: results, the contract of comparators of \<^verbatim>\<open>compare.h\<close> and its instances.
  \<^item> \<^verbatim>\<open>Ordered_Store\<close>: the abstract ordered store, a sorted list with insertion, removal and lookup
    by key, that ordered containers refine.
  \<^item> \<^verbatim>\<open>Avl_Tree\<close>: \<^verbatim>\<open>avl_GenTree.cpp\<close> and \<^verbatim>\<open>avl/GenTree.h\<close>, insertion and removal with their stack and
    rotations, lookup, iteration, copy, clearing. Shown: the AVL and search-tree invariants are
    kept, the height stays below the limit of 32 of the stacks, and each operation refines
    that of the ordered store.
  \<^item> \<^verbatim>\<open>Avl_Clients\<close>: \<^verbatim>\<open>avl::Set\<close>, \<^verbatim>\<open>avl::Map\<close>, \<^verbatim>\<open>avl::Queue\<close> over it.
  \<^item> \<^verbatim>\<open>Quick_Sort\<close>: the iterative \<^verbatim>\<open>quicksort\<close> with its explicit stack; sorting, permutation and
    the bound of the stack.
  \<^item> \<^verbatim>\<open>Elm_Queues\<close>: \<^verbatim>\<open>VectorQueue\<close> (circular buffer), \<^verbatim>\<open>ListQueue\<close>, \<^verbatim>\<open>StaticStack\<close>, as refinements
    of one abstract queue or stack.
  \<^item> \<^verbatim>\<open>Elm_List\<close>: \<^verbatim>\<open>List\<close> with its preceding iterator, \<^verbatim>\<open>SortedList\<close>, \<^verbatim>\<open>ListSet\<close>, \<^verbatim>\<open>ListMap\<close>.
  \<^item> \<^verbatim>\<open>Binomial_Queue\<close>: \<^verbatim>\<open>BinomialQueue\<close>, heap and binomial shape, sorting.
  \<^item> \<^verbatim>\<open>Hash_Table\<close>: \<^verbatim>\<open>hash.h\<close>, \<^verbatim>\<open>HashTable\<close> (move to front), \<^verbatim>\<open>HashMap\<close>, \<^verbatim>\<open>HashSet\<close> over a locale of hash
    keys.
  \<^item> \<^verbatim>\<open>Elm_Int\<close>: \<^verbatim>\<open>int.cpp\<close>, against arithmetic specifications.
  \<^item> \<^verbatim>\<open>Bit_Vector\<close> and \<^verbatim>\<open>Wah_Vector\<close>: plain and compressed bit vectors, as refinements of lists of
    booleans.
  \<^item> \<^verbatim>\<open>Elm_Io\<close>: \<^verbatim>\<open>io_Output.cpp\<close> and \<^verbatim>\<open>io_Input.cpp\<close>; printed numbers are scanned back.
  \<^item> \<^verbatim>\<open>Io_Streams\<close>: \<^verbatim>\<open>DynBlock\<close>, \<^verbatim>\<open>StringBuffer\<close>, block and buffered streams, \<^verbatim>\<open>VarExpander\<close>, over locales
    of output and input streams.
  \<^item> \<^verbatim>\<open>Elm_Path\<close>: \<^verbatim>\<open>system_Path.cpp\<close> for Unix paths: canonical, absolute and relative forms, parts.
  \<^item> \<^verbatim>\<open>Elm_Checksum\<close>: \<^verbatim>\<open>checksum_MD5.cpp\<close>, against the digest of RFC 1321.
  \<^item> \<^verbatim>\<open>Elm_Json\<close>: \<^verbatim>\<open>json.cpp\<close> and \<^verbatim>\<open>json_Parser.cpp\<close>, with UTF-8 and UTF-16 characters; the parser is proved over
    any source of characters, with a bound on its turns that is twice the length of the text.
  \<^item> \<^verbatim>\<open>Elm_Vector\<close>: \<^verbatim>\<open>data/Vector.h\<close> and \<^verbatim>\<open>data/FragTable.h\<close> over the copies of \<^verbatim>\<open>array.h\<close>, as refinements of lists through
    a locale of growing arrays.
  \<^item> \<^verbatim>\<open>Elm_Alloc\<close>: the stack and block allocators and two garbage collectors of \<^verbatim>\<open>alloc_*.cpp\<close>; an address is a
    chunk and an offset, and the blocks that the client marks are an argument.
  \<^item> \<^verbatim>\<open>Elm_Dtd\<close>: \<^verbatim>\<open>xom_dtd.cpp\<close> and \<^verbatim>\<open>xom/dtd.h\<close>, the backtracking parser of document trees by a DTD, with identifiers
    and references, against the documents that a DTD describes. A locale carries the invariants of the
    parser through its contents.

  \<^bold>\<open>What the code does not meet.\<close> Where the code departs from its intent the model follows the code,
  and the theorems state what it does there: as cases of the functional properties (indexes that are not valid,
  values that do not fit), as theorems on the uses that break a component (\<^verbatim>\<open>array_misuse\<close>,
  \<^verbatim>\<open>alloc_misuse\<close>, \<^verbatim>\<open>dtd_parse_limits\<close>), and as lemmas on concrete inputs (named \<^verbatim>\<open>defects\<close> or
  \<^verbatim>\<open>broken\<close>).

  \<^bold>\<open>Not modelled.\<close> Wrappers over the operating system (processes, threads, files, sockets,
  dynamic libraries) and over libxml2, which reads the documents, run-time type information and the serialisation built on
  it, since their behaviour is that of code outside the repository or of C++ mechanisms without a
  counterpart here; the collectors that scan the memory of their clients; iterator adaptors and other templates that only
  forward to modelled operations; printing of floating-point numbers, done by \<^verbatim>\<open>snprintf\<close>.
\<close>

end
